(* ===== verification/Moqx_Prelude.thy ===== *)
theory Moqx_Prelude
  imports Main "HOL-Library.Word" "HOL-Library.Multiset"
begin

text \<open>
  Shared ground of the development: the names of the wire-level data that every
  component of the relay passes around, 64-bit unsigned arithmetic with its
  wrap-around written out, the bytes of a \<^verbatim>\<open>std::string\<close>, and the generic facts on
  lists that the component theories use.
\<close>

section \<open>Collections of facts\<close>

named_theorems u64_simps \<open>arithmetic on 64-bit unsigned values\<close>

section \<open>Names of the wire-level data\<close>

type_synonym u64 = nat
type_synonym session = nat
type_synonym track_namespace = "string list"

text \<open>\<^verbatim>\<open>moxygen::FullTrackName\<close>: a namespace tuple and a track name, both plain bytes.\<close>

record full_track_name =
  trackNamespace :: track_namespace
  trackName :: string

section \<open>Unsigned 64-bit arithmetic\<close>

definition u64_max :: nat where
  "u64_max = 2 ^ 64 - 1"

definition u64_add :: "u64 \<Rightarrow> u64 \<Rightarrow> u64" where
  "u64_add a b = (a + b) mod 2 ^ 64"

lemma u64_add_exact [u64_simps]: "a + b \<le> u64_max \<Longrightarrow> u64_add a b = a + b"
  by (simp add: u64_add_def u64_max_def)

lemma u64_add_bound: "u64_add a b \<le> u64_max"
proof -
  have "(a + b) mod 2 ^ 64 < (2::nat) ^ 64"
    by simp
  then show ?thesis
    by (simp add: u64_add_def u64_max_def)
qed

definition u64_sub :: "u64 \<Rightarrow> u64 \<Rightarrow> u64" where
  "u64_sub a b = (a + 2 ^ 64 - b) mod 2 ^ 64"

lemma u64_sub_exact [u64_simps]: "b \<le> a \<Longrightarrow> a \<le> u64_max \<Longrightarrow> u64_sub a b = a - b"
proof -
  assume a: "b \<le> a" "a \<le> u64_max"
  have "a + n - b = (a - b) + n" for n :: nat
    using a(1) by simp
  moreover have "a - b < 2 ^ 64"
    using a(2) by (simp add: u64_max_def)
  ultimately show ?thesis
    by (simp only: u64_sub_def mod_add_self2 mod_less)
qed

text \<open>A signed 64-bit value after wrap-around.\<close>

definition wrap_i64 :: "int \<Rightarrow> int" where
  "wrap_i64 x = (x + 2 ^ 63) mod 2 ^ 64 - 2 ^ 63"

section \<open>Bytes\<close>

text \<open>The \<^verbatim>\<open>unsigned char\<close> value of a byte of a \<^verbatim>\<open>std::string\<close>.\<close>

definition byte :: "char \<Rightarrow> nat" where
  "byte c = of_char c"

lemma byte_less [simp]: "byte c < 256"
  by (simp add: byte_def)

lemma char_of_byte [simp]: "char_of (byte c) = c"
  by (simp add: byte_def)

lemma byte_char_of [simp]: "byte (char_of n) = n mod 256"
  by (simp add: byte_def)

lemma byte_inject [simp]: "byte c = byte d \<longleftrightarrow> c = d"
  by (metis char_of_byte)

section \<open>Searching and splitting byte strings\<close>

text \<open>\<^verbatim>\<open>std::string_view::find(c, start)\<close>: the first position at or after
  \<open>start\<close>, \<open>None\<close> for \<^verbatim>\<open>npos\<close>.\<close>

fun find_at :: "char \<Rightarrow> string \<Rightarrow> nat \<Rightarrow> nat option" where
  "find_at c [] i = None"
| "find_at c (x # xs) i = (if x = c then Some i else find_at c xs (Suc i))"

definition str_find :: "char \<Rightarrow> string \<Rightarrow> nat \<Rightarrow> nat option" where
  "str_find c s start = find_at c (drop start s) start"

lemma find_at_None [simp]: "find_at c xs i = None \<longleftrightarrow> c \<notin> set xs"
  by (induction xs arbitrary: i) auto

lemma find_at_append:
  "c \<notin> set xs \<Longrightarrow> find_at c (xs @ c # ys) i = Some (i + length xs)"
  by (induction xs arbitrary: i) auto

lemma find_at_Some:
  "find_at c xs i = Some j \<Longrightarrow>
     i \<le> j \<and> j < i + length xs \<and> c \<notin> set (take (j - i) xs) \<and> xs ! (j - i) = c"
proof (induction xs arbitrary: i)
  case Nil
  then show ?case by simp
next
  case (Cons x xs)
  show ?case
  proof (cases "x = c")
    case True
    with Cons.prems show ?thesis by simp
  next
    case False
    with Cons.prems have "find_at c xs (Suc i) = Some j" by simp
    from Cons.IH [OF this] have
      ih: "Suc i \<le> j" "j < Suc i + length xs" "c \<notin> set (take (j - Suc i) xs)" "xs ! (j - Suc i) = c"
      by auto
    then have "j - i = Suc (j - Suc i)" by simp
    with ih False show ?thesis by simp
  qed
qed

lemma str_find_bounds:
  assumes "str_find c s start = Some j"
  shows "start \<le> j" and "j < length s"
  using find_at_Some [OF assms [unfolded str_find_def]] by auto

text \<open>Splitting at a separator, the reference meaning of the hand-written loops.\<close>

fun split_on :: "'a \<Rightarrow> 'a list \<Rightarrow> 'a list list" where
  "split_on c [] = [[]]"
| "split_on c (x # xs) =
     (if x = c then [] # split_on c xs
      else (case split_on c xs of [] \<Rightarrow> [[x]] | y # ys \<Rightarrow> (x # y) # ys))"

fun join_with :: "'a \<Rightarrow> 'a list list \<Rightarrow> 'a list" where
  "join_with c [] = []"
| "join_with c [x] = x"
| "join_with c (x # y # ys) = x @ c # join_with c (y # ys)"

lemma split_on_neq_Nil [simp]: "split_on c xs \<noteq> []"
  by (cases xs) (auto split: list.splits)

lemma split_on_no_sep: "c \<notin> set xs \<Longrightarrow> split_on c xs = [xs]"
  by (induction xs) auto

lemma split_on_append: "c \<notin> set xs \<Longrightarrow> split_on c (xs @ c # ys) = xs # split_on c ys"
  by (induction xs) auto

lemma split_on_join:
  "\<lbrakk>xss \<noteq> []; \<And>xs. xs \<in> set xss \<Longrightarrow> c \<notin> set xs\<rbrakk> \<Longrightarrow> split_on c (join_with c xss) = xss"
  by (induction c xss rule: join_with.induct) (auto simp: split_on_no_sep split_on_append)

lemma join_with_eq_Nil: "join_with c xss = [] \<longleftrightarrow> xss = [] \<or> xss = [[]]"
  by (induction c xss rule: join_with.induct) auto

lemma last_filter_upt:
  assumes "j < n" and "P j" and "\<And>i. j < i \<Longrightarrow> i < n \<Longrightarrow> \<not> P i"
  shows "filter P [0..<n] \<noteq> [] \<and> last (filter P [0..<n]) = j"
proof -
  from assms(1) have "[0..<n] = [0..<j] @ j # [Suc j..<n]"
    by (metis le0 less_imp_add_positive upt_add_eq_append upt_conv_Cons)
  moreover from assms(3) have "filter P [Suc j..<n] = []"
    by (auto simp: filter_empty_conv)
  ultimately show ?thesis
    using assms(2) by simp
qed

section \<open>Association lists\<close>

text \<open>
  A hash map whose iteration order matters, or is exposed, is an association list in its
  (unspecified) iteration order. \<open>upsert\<close> is \<^verbatim>\<open>f(map[k])\<close> with \<^verbatim>\<open>operator[]\<close>'s default,
  \<open>try_emplace\<close> keeps an entry that is there.
\<close>

fun upsert :: "'k \<Rightarrow> 'v \<Rightarrow> ('v \<Rightarrow> 'v) \<Rightarrow> ('k \<times> 'v) list \<Rightarrow> ('k \<times> 'v) list" where
  "upsert k d f [] = [(k, f d)]"
| "upsert k d f ((k', v) # al) = (if k = k' then (k', f v) # al else (k', v) # upsert k d f al)"

definition try_emplace :: "'k \<Rightarrow> 'v \<Rightarrow> ('k \<times> 'v) list \<Rightarrow> ('k \<times> 'v) list" where
  "try_emplace k v al = (case map_of al k of None \<Rightarrow> al @ [(k, v)] | Some _ \<Rightarrow> al)"

lemma map_of_upsert:
  "map_of (upsert k d f al) =
     (map_of al)(k \<mapsto> f (case map_of al k of None \<Rightarrow> d | Some v \<Rightarrow> v))"
  by (induction k d f al rule: upsert.induct) (auto simp: fun_eq_iff)

lemma fst_upsert: "fst ` set (upsert k d f al) = insert k (fst ` set al)"
  by (induction k d f al rule: upsert.induct) auto

lemma distinct_upsert:
  "distinct (map fst al) \<Longrightarrow> distinct (map fst (upsert k d f al))"
  by (induction k d f al rule: upsert.induct) (auto simp: fst_upsert)

lemma map_of_try_emplace:
  "map_of (try_emplace k v al) = (case map_of al k of None \<Rightarrow> (map_of al)(k \<mapsto> v) | Some _ \<Rightarrow> map_of al)"
  by (auto simp: try_emplace_def map_add_def fun_eq_iff split: option.splits)

lemma set_keys_try_emplace: "fst ` set (try_emplace k v al) = insert k (fst ` set al)"
proof (cases "map_of al k")
  case None
  then show ?thesis by (simp add: try_emplace_def)
next
  case (Some w)
  then have "k \<in> fst ` set al" by (metis map_of_eq_None_iff option.distinct(1))
  with Some show ?thesis by (auto simp: try_emplace_def)
qed

text \<open>\<open>erase_key\<close> is \<^verbatim>\<open>map.erase(k)\<close>, \<open>set_key\<close> an assignment through an iterator; both leave the
order of the other entries alone.\<close>

definition erase_key :: "'k \<Rightarrow> ('k \<times> 'v) list \<Rightarrow> ('k \<times> 'v) list" where
  "erase_key k al = filter (\<lambda>(k', _). k' \<noteq> k) al"

definition set_key :: "'k \<Rightarrow> 'v \<Rightarrow> ('k \<times> 'v) list \<Rightarrow> ('k \<times> 'v) list" where
  "set_key k v al = map (\<lambda>(k', v'). (k', if k' = k then v else v')) al"

lemma erase_key_absent: "map_of al k = None \<Longrightarrow> erase_key k al = al"
  unfolding erase_key_def by (rule filter_True) (force simp: map_of_eq_None_iff)

lemma set_key_absent: "k \<notin> fst ` set al \<Longrightarrow> set_key k v al = al"
  unfolding set_key_def by (rule map_idI) force

lemma set_erase_key: "set (erase_key k al) = {e \<in> set al. fst e \<noteq> k}"
  by (auto simp: erase_key_def)

lemma keys_set_key [simp]: "map fst (set_key k v al) = map fst al"
  by (induction al) (auto simp: set_key_def)

lemma distinct_erase_key: "distinct (map fst al) \<Longrightarrow> distinct (map fst (erase_key k al))"
  by (auto simp: erase_key_def distinct_map intro: inj_on_subset)

lemma alist_split:
  assumes "distinct (map fst al)" and "map_of al k = Some v"
  shows "mset (concat (map h al)) = mset (h (k, v)) + mset (concat (map h (erase_key k al)))"
    and "mset (concat (map h (set_key k v' al))) = mset (h (k, v')) + mset (concat (map h (erase_key k al)))"
  using assms
proof (induction al)
  case (Cons a al)
  case 1
  then show ?case using Cons.IH(1) erase_key_absent [of al k]
    by (cases "fst a = k") (auto simp: erase_key_def map_of_eq_None_iff)
next
  case (Cons a al)
  case 2
  then show ?case using Cons.IH(2) erase_key_absent [of al k] set_key_absent [of k al v']
    by (cases "fst a = k") (auto simp: erase_key_def set_key_def map_of_eq_None_iff)
qed simp_all

lemma upsert_key:
  "distinct (map fst al) \<Longrightarrow>
     upsert k d f al = (case map_of al k of None \<Rightarrow> al @ [(k, f d)] | Some v \<Rightarrow> set_key k (f v) al)"
proof (induction al)
  case (Cons a al)
  then show ?case using set_key_absent [of k al] by (cases a) (force simp: set_key_def map_of_eq_None_iff split: option.split)
qed simp

lemma mset_upsert:
  assumes "distinct (map fst al)"
  shows "mset (concat (map h (upsert k d f al))) =
    mset (h (k, f (case map_of al k of None \<Rightarrow> d | Some v \<Rightarrow> v))) + mset (concat (map h (erase_key k al)))"
  using assms by (auto simp: upsert_key alist_split(2) erase_key_absent split: option.split)

lemma upsert_elems:
  "e \<in> set (upsert k d f al) \<Longrightarrow> e = (k, f (case map_of al k of None \<Rightarrow> d | Some v \<Rightarrow> v)) \<or> e \<in> set al"
  by (induction k d f al rule: upsert.induct) (auto split: if_splits)

section \<open>Largest elements\<close>

lemma finite_has_max:
  fixes f :: "'a \<Rightarrow> 'b::linorder"
  assumes "finite C" and "x \<in> C"
  shows "\<exists>r\<in>C. \<forall>r'\<in>C. f r' \<le> f r"
  using assms
proof (induction arbitrary: x rule: finite_induct)
  case empty
  then show ?case by simp
next
  case (insert y C)
  show ?case
  proof (cases "C = {}")
    case True
    then show ?thesis by simp
  next
    case False
    then obtain r where "r \<in> C" "\<forall>r'\<in>C. f r' \<le> f r"
      using insert.IH by blast
    then show ?thesis
      by (cases "f y \<le> f r") (auto intro: order_trans)
  qed
qed

section \<open>First hits in sorted lists\<close>

lemma find_filter_hd: "find P xs = (case filter P xs of [] \<Rightarrow> None | y # _ \<Rightarrow> Some y)"
  by (induction xs) auto

lemma hd_insort_key:
  "ws \<noteq> [] \<Longrightarrow> hd (insort_key f z ws) = (if f z \<le> f (hd ws) then z else hd ws)"
  by (cases ws) auto

lemma find_sort_key_True:
  "find (\<lambda>_. True) (sort_key f xs) = find (\<lambda>x. \<forall>y\<in>set xs. f x \<le> f y) xs"
proof (induction xs)
  case Nil
  then show ?case by simp
next
  case (Cons z zs)
  show ?case
  proof (cases "zs = []")
    case True
    then show ?thesis by simp
  next
    case False
    let ?ws = "sort_key f zs"
    from False have ne: "?ws \<noteq> []"
      by (metis length_0_conv length_sort)
    then have IH: "find (\<lambda>x. \<forall>y\<in>set zs. f x \<le> f y) zs = Some (hd ?ws)"
      using Cons.IH by (cases ?ws) auto
    have min: "\<forall>y\<in>set zs. f (hd ?ws) \<le> f y" and mem: "hd ?ws \<in> set zs"
      using IH by (auto simp: find_Some_iff)
    have ins: "insort_key f z ?ws \<noteq> []"
      by (metis insort_not_Nil)
    have "find (\<lambda>_. True) (sort_key f (z # zs)) = Some (hd (insort_key f z ?ws))"
      using ins by (cases "insort_key f z ?ws") auto
    also have "\<dots> = find (\<lambda>x. \<forall>y\<in>set (z # zs). f x \<le> f y) (z # zs)"
    proof (cases "f z \<le> f (hd ?ws)")
      case True
      with min have "\<forall>y\<in>set zs. f z \<le> f y" by (meson order_trans)
      with True show ?thesis by (simp add: hd_insort_key [OF ne])
    next
      case z: False
      then have hz: "f (hd ?ws) \<le> f z" by simp
      have "find (\<lambda>x. f x \<le> f z \<and> (\<forall>y\<in>set zs. f x \<le> f y)) zs = Some (hd ?ws)"
      proof -
        have "find (\<lambda>x. f x \<le> f z \<and> (\<forall>y\<in>set zs. f x \<le> f y)) zs = find (\<lambda>x. \<forall>y\<in>set zs. f x \<le> f y) zs"
          by (rule find_cong) (use hz mem in \<open>auto intro: order_trans\<close>)
        with IH show ?thesis by simp
      qed
      moreover have "\<not> (\<forall>y\<in>set zs. f z \<le> f y)"
        using z mem by auto
      ultimately show ?thesis
        using z by (auto simp: hd_insort_key [OF ne])
    qed
    finally show ?thesis .
  qed
qed

lemma find_sort_key:
  "find P (sort_key f xs) = find (\<lambda>x. P x \<and> (\<forall>y\<in>set xs. P y \<longrightarrow> f x \<le> f y)) xs"
proof -
  have "find P (sort_key f xs) = find (\<lambda>_. True) (sort_key f (filter P xs))"
    by (simp add: find_filter_hd [of P] find_filter_hd [of "\<lambda>_. True"] filter_sort)
  also have "\<dots> = find (\<lambda>x. \<forall>y\<in>set (filter P xs). f x \<le> f y) (filter P xs)"
    by (rule find_sort_key_True)
  also have "\<dots> = find (\<lambda>x. P x \<and> (\<forall>y\<in>set xs. P y \<longrightarrow> f x \<le> f y)) xs"
  proof -
    have "filter (\<lambda>x. \<forall>y\<in>set (filter P xs). f x \<le> f y) (filter P xs) =
        filter (\<lambda>x. P x \<and> (\<forall>y\<in>set xs. P y \<longrightarrow> f x \<le> f y)) xs"
      by (auto intro!: filter_cong)
    then show ?thesis by (simp only: find_filter_hd)
  qed
  finally show ?thesis .
qed

section \<open>Mapping a partial function over a list\<close>

fun map_opt :: "('a \<Rightarrow> 'b option) \<Rightarrow> 'a list \<Rightarrow> 'b list option" where
  "map_opt f [] = Some []"
| "map_opt f (x # xs) =
     (case f x of None \<Rightarrow> None
      | Some y \<Rightarrow> (case map_opt f xs of None \<Rightarrow> None | Some ys \<Rightarrow> Some (y # ys)))"

lemma map_opt_map:
  "(\<And>x. x \<in> set xs \<Longrightarrow> f (g x) = Some x) \<Longrightarrow> map_opt f (map g xs) = Some xs"
  by (induction xs) auto

end
