(* ===== verification/Safe_Track_Name.thy ===== *)
theory Safe_Track_Name
  imports Moqx_Prelude
begin

text \<open>
  The printable rendering of track names (\<^verbatim>\<open>src/src/SafeTrackName.cpp\<close>): the encoder
  \<^verbatim>\<open>safeName\<close> for byte strings, namespaces and full track names, and the three
  \<^verbatim>\<open>parseSafe*\<close> inverses. The lemmas show the round trips and decide exactly which names
  share a rendering.
\<close>

unbundle bit_operations_syntax

section \<open>Encoding\<close>

definition passesThrough :: "char \<Rightarrow> bool" where
  "passesThrough ch = (let c = byte ch in
     (byte CHR ''a'' \<le> c \<and> c \<le> byte CHR ''z'') \<or> (byte CHR ''A'' \<le> c \<and> c \<le> byte CHR ''Z'') \<or>
     (byte CHR ''0'' \<le> c \<and> c \<le> byte CHR ''9'') \<or> c = byte CHR ''_'')"

definition kHexDigits :: string where
  "kHexDigits = ''0123456789abcdef''"

fun appendSafe :: "string \<Rightarrow> string \<Rightarrow> string" where
  "appendSafe out [] = out"
| "appendSafe out (ch # bytes) =
     (if passesThrough ch then appendSafe (out @ [ch]) bytes
      else appendSafe
        (out @ [CHR ''.''] @ [kHexDigits ! (drop_bit 4 (byte ch))] @ [kHexDigits ! (byte ch AND 0x0f)])
        bytes)"

definition safeName_bytes :: "string \<Rightarrow> string" where
  "safeName_bytes bytes = appendSafe [] bytes"

text \<open>The overload of \<^verbatim>\<open>appendSafe\<close> for a namespace; the flag is the loop's \<^verbatim>\<open>first\<close>.\<close>

fun appendSafe_tuples :: "string \<Rightarrow> bool \<Rightarrow> string list \<Rightarrow> string" where
  "appendSafe_tuples out first [] = out"
| "appendSafe_tuples out first (tuple # tuples) =
     appendSafe_tuples (appendSafe (if \<not> first then out @ [CHR ''-''] else out) tuple) False tuples"

definition appendSafe_ns :: "string \<Rightarrow> track_namespace \<Rightarrow> string" where
  "appendSafe_ns out ns = appendSafe_tuples out True ns"

definition rawSize :: "track_namespace \<Rightarrow> nat" where
  "rawSize ns = fold (\<lambda>tuple size. size + length tuple) ns (if ns = [] then 0 else length ns - 1)"

definition safeName_ns :: "track_namespace \<Rightarrow> string" where
  "safeName_ns ns = appendSafe_ns [] ns"

definition safeName_ftn :: "full_track_name \<Rightarrow> string" where
  "safeName_ftn ftn =
     appendSafe (appendSafe_ns [] (trackNamespace ftn) @ ''--'') (trackName ftn)"

section \<open>Decoding\<close>

text \<open>\<^verbatim>\<open>std::from_chars\<close> in base 16 for a 32-bit unsigned value: the longest prefix of hex
  digits of either case; \<open>None\<close> when there is none or the value does not fit, otherwise the
  value and what is left at \<^verbatim>\<open>ptr\<close>.\<close>

definition hex_digit :: "char \<Rightarrow> nat option" where
  "hex_digit ch = (let c = byte ch in
     if byte CHR ''0'' \<le> c \<and> c \<le> byte CHR ''9'' then Some (c - byte CHR ''0'')
     else if byte CHR ''a'' \<le> c \<and> c \<le> byte CHR ''f'' then Some (10 + (c - byte CHR ''a''))
     else if byte CHR ''A'' \<le> c \<and> c \<le> byte CHR ''F'' then Some (10 + (c - byte CHR ''A''))
     else None)"

definition from_chars16 :: "string \<Rightarrow> (nat \<times> string) option" where
  "from_chars16 s =
     (let ds = takeWhile (\<lambda>c. hex_digit c \<noteq> None) s;
          v = foldl (\<lambda>acc c. acc * 16 + the (hex_digit c)) 0 ds
      in if ds = [] then None
         else if v < 2 ^ 32 then Some (v, dropWhile (\<lambda>c. hex_digit c \<noteq> None) s)
         else None)"

definition decodeHexPair :: "string \<Rightarrow> char option" where
  "decodeHexPair pair =
     (case from_chars16 pair of
        None \<Rightarrow> None
      | Some (value, rest) \<Rightarrow> if rest \<noteq> [] then None else Some (char_of value))"

function parseSafeBytes_loop :: "string \<Rightarrow> nat \<Rightarrow> string \<Rightarrow> string option" where
  "parseSafeBytes_loop text i out =
     (if i < length text then
        (if passesThrough (text ! i) then parseSafeBytes_loop text (i + 1) (out @ [text ! i])
         else if text ! i \<noteq> CHR ''.'' \<or> i + 2 \<ge> length text then None
         else (case decodeHexPair (take 2 (drop (i + 1) text)) of
                 None \<Rightarrow> None
               | Some b \<Rightarrow> parseSafeBytes_loop text (i + 3) (out @ [b])))
      else Some out)"
  by pat_completeness auto
termination
  by (relation "measure (\<lambda>(text, i, out). length text - i)") auto

declare parseSafeBytes_loop.simps [simp del]

definition parseSafeBytes :: "string \<Rightarrow> string option" where
  "parseSafeBytes text = parseSafeBytes_loop text 0 []"

function parseSafeNamespace_loop :: "string \<Rightarrow> nat \<Rightarrow> string list \<Rightarrow> string list option" where
  "parseSafeNamespace_loop text start tuples =
     (if start \<le> length text then
        (let end = str_find CHR ''-'' text start;
             piece = (case end of None \<Rightarrow> drop start text
                      | Some e \<Rightarrow> take (e - start) (drop start text))
         in case parseSafeBytes piece of
              None \<Rightarrow> None
            | Some decoded \<Rightarrow>
                (case end of
                   None \<Rightarrow> Some (tuples @ [decoded])
                 | Some e \<Rightarrow> parseSafeNamespace_loop text (e + 1) (tuples @ [decoded])))
      else Some tuples)"
  by pat_completeness auto
termination
  by (relation "measure (\<lambda>(text, start, tuples). length text + 1 - start)")
     (auto dest!: sym [of "Some _"] dest: str_find_bounds)

declare parseSafeNamespace_loop.simps [simp del]

definition parseSafeNamespace :: "string \<Rightarrow> track_namespace option" where
  "parseSafeNamespace text = (if text \<noteq> [] then parseSafeNamespace_loop text 0 [] else Some [])"

text \<open>\<^verbatim>\<open>rfind("--")\<close>: the last position where the two bytes stand.\<close>

definition rfind_sep :: "string \<Rightarrow> nat option" where
  "rfind_sep text =
     (let ps = filter (\<lambda>i. take 2 (drop i text) = ''--'') [0..<length text]
      in if ps = [] then None else Some (last ps))"

definition parseSafeFullTrackName :: "string \<Rightarrow> full_track_name option" where
  "parseSafeFullTrackName text =
     (case rfind_sep text of
        None \<Rightarrow> None
      | Some split \<Rightarrow>
          (case (parseSafeNamespace (take split text), parseSafeBytes (drop (split + 2) text)) of
             (Some ns, Some track) \<Rightarrow> Some \<lparr>trackNamespace = ns, trackName = track\<rparr>
           | _ \<Rightarrow> None))"

section \<open>The byte codec\<close>

definition enc_byte :: "char \<Rightarrow> string" where
  "enc_byte ch = (if passesThrough ch then [ch]
     else [CHR ''.'', kHexDigits ! (drop_bit 4 (byte ch)), kHexDigits ! (byte ch AND 0x0f)])"

lemma appendSafe_eq: "appendSafe out bytes = out @ concat (map enc_byte bytes)"
  by (induction bytes arbitrary: out) (auto simp: enc_byte_def)

lemma hex_digit_kHexDigits:
  assumes "n < 16"
  shows "hex_digit (kHexDigits ! n) = Some n" and "kHexDigits ! n \<noteq> CHR ''-''"
proof -
  have "\<forall>k\<in>set [0..<16]. hex_digit (kHexDigits ! k) = Some k \<and> kHexDigits ! k \<noteq> CHR ''-''"
    by code_simp
  with assms show "hex_digit (kHexDigits ! n) = Some n" and "kHexDigits ! n \<noteq> CHR ''-''"
    by auto
qed

lemma nibbles:
  shows "drop_bit 4 (byte ch) < 16" and "byte ch AND 15 < 16"
    and "drop_bit 4 (byte ch) * 16 + (byte ch AND 15) = byte ch"
proof -
  have hi: "drop_bit 4 (byte ch) = byte ch div 16"
    by (simp add: drop_bit_eq_div)
  have lo: "byte ch AND 15 = byte ch mod 16"
    using take_bit_eq_mask [of 4 "byte ch"] by (simp add: take_bit_eq_mod mask_eq_exp_minus_1)
  show "drop_bit 4 (byte ch) < 16"
    using byte_less [of ch] by (simp add: hi less_mult_imp_div_less)
  show "byte ch AND 15 < 16"
    by (simp add: lo)
  show "drop_bit 4 (byte ch) * 16 + (byte ch AND 15) = byte ch"
    by (simp add: hi lo)
qed

lemma decodeHexPair_nibbles:
  "decodeHexPair [kHexDigits ! (drop_bit 4 (byte ch)), kHexDigits ! (byte ch AND 15)] = Some ch"
  using order_less_le_trans [OF byte_less [of ch], of "2 ^ 32"]
  by (simp add: decodeHexPair_def from_chars16_def hex_digit_kHexDigits nibbles Let_def)

lemma not_passesThrough_sep [simp]:
  "\<not> passesThrough CHR ''.''" "\<not> passesThrough CHR ''-''"
  by (simp_all add: passesThrough_def byte_def)

lemma parseSafeBytes_loop_enc:
  "parseSafeBytes_loop (pre @ concat (map enc_byte bytes)) (length pre) out = Some (out @ bytes)"
proof (induction bytes arbitrary: pre out)
  case Nil
  show ?case by (simp add: parseSafeBytes_loop.simps)
next
  case (Cons ch bytes)
  let ?text = "pre @ concat (map enc_byte (ch # bytes))"
  have IH: "parseSafeBytes_loop ?text (length (pre @ enc_byte ch)) (out @ [ch]) =
      Some (out @ ch # bytes)"
    using Cons.IH [of "pre @ enc_byte ch" "out @ [ch]"] by simp
  show ?case
  proof (cases "passesThrough ch")
    case True
    with IH show ?thesis
      by (subst parseSafeBytes_loop.simps) (simp add: enc_byte_def nth_append)
  next
    case False
    with IH show ?thesis
      by (subst parseSafeBytes_loop.simps)
         (simp add: enc_byte_def nth_append decodeHexPair_nibbles numeral_3_eq_3)
  qed
qed

lemma sep_notin_enc_byte: "CHR ''-'' \<notin> set (enc_byte ch)"
  using hex_digit_kHexDigits(2) [OF nibbles(1) [of ch]] hex_digit_kHexDigits(2) [OF nibbles(2) [of ch]]
  by (auto simp: enc_byte_def)

lemma enc_byte_neq_Nil [simp]: "enc_byte ch \<noteq> []"
  by (simp add: enc_byte_def)

text \<open>What the namespace layer needs of the byte layer: an encoder with an inverse, whose
  output never holds the separator and is empty only for the empty string.\<close>

locale separated_codec =
  fixes enc :: "string \<Rightarrow> string"
    and dec :: "string \<Rightarrow> string option"
    and sep :: char
  assumes dec_enc: "dec (enc b) = Some b"
    and sep_free: "sep \<notin> set (enc b)"
    and enc_Nil: "enc b = [] \<longleftrightarrow> b = []"
begin

lemma enc_inj: "enc a = enc b \<longleftrightarrow> a = b"
  by (metis dec_enc option.inject)

lemma split_join_enc: "ts \<noteq> [] \<Longrightarrow> split_on sep (join_with sep (map enc ts)) = map enc ts"
  by (rule split_on_join) (auto simp: sep_free)

lemma decode_join:
  "ts \<noteq> [] \<Longrightarrow> map_opt dec (split_on sep (join_with sep (map enc ts))) = Some ts"
  by (simp add: split_join_enc map_opt_map dec_enc)

lemma join_enc_Nil: "join_with sep (map enc ts) = [] \<longleftrightarrow> ts = [] \<or> ts = [[]]"
proof -
  have "map enc ts = [[]] \<longleftrightarrow> ts = [[]]"
    by (cases ts) (auto simp: enc_Nil)
  then show ?thesis
    by (simp add: join_with_eq_Nil)
qed

end

lemma safeName_bytes_eq: "safeName_bytes bytes = concat (map enc_byte bytes)"
  by (simp add: safeName_bytes_def appendSafe_eq)

interpretation safe_bytes: separated_codec safeName_bytes parseSafeBytes "CHR ''-''"
proof
  fix b
  show "parseSafeBytes (safeName_bytes b) = Some b"
    using parseSafeBytes_loop_enc [of "[]" b "[]"] by (simp add: parseSafeBytes_def safeName_bytes_eq)
  show "CHR ''-'' \<notin> set (safeName_bytes b)"
    by (auto simp: safeName_bytes_eq sep_notin_enc_byte)
  show "safeName_bytes b = [] \<longleftrightarrow> b = []"
    by (cases b) (simp_all add: safeName_bytes_eq)
qed

section \<open>Namespaces\<close>

lemma appendSafe_tuples_False:
  "appendSafe_tuples out False ts = out @ concat (map (\<lambda>t. CHR ''-'' # safeName_bytes t) ts)"
  by (induction ts arbitrary: out) (simp_all add: appendSafe_eq safeName_bytes_eq)

lemma join_with_Cons:
  "join_with c (x # xs) = x @ concat (map (\<lambda>y. c # y) xs)"
  by (induction xs arbitrary: x) auto

lemma appendSafe_ns_eq: "appendSafe_ns out ns = out @ join_with CHR ''-'' (map safeName_bytes ns)"
  by (cases ns)
     (simp_all add: appendSafe_ns_def appendSafe_tuples_False join_with_Cons appendSafe_eq
        safeName_bytes_eq comp_def)

lemma safeName_ns_eq: "safeName_ns ns = join_with CHR ''-'' (map safeName_bytes ns)"
  by (simp add: safeName_ns_def appendSafe_ns_eq)

lemma str_find_cases:
  assumes "start \<le> length text"
  obtains "str_find c text start = None" "split_on c (drop start text) = [drop start text]"
  | e where "str_find c text start = Some e" "start \<le> e" "e < length text"
      "split_on c (drop start text) = take (e - start) (drop start text) # split_on c (drop (e + 1) text)"
proof (cases "str_find c text start")
  case None
  then have "c \<notin> set (drop start text)" by (simp add: str_find_def)
  with None that(1) show ?thesis by (simp add: split_on_no_sep)
next
  case (Some e)
  let ?xs = "drop start text"
  from find_at_Some [OF Some [unfolded str_find_def]]
  have e: "start \<le> e" "e - start < length ?xs" "c \<notin> set (take (e - start) ?xs)" "?xs ! (e - start) = c"
    by auto
  then have "?xs = take (e - start) ?xs @ c # drop (e + 1) text"
    using id_take_nth_drop [of "e - start" ?xs] by simp
  then have "split_on c ?xs = take (e - start) ?xs # split_on c (drop (e + 1) text)"
    using split_on_append [OF e(3)] by metis
  with Some e that(2) show ?thesis by simp
qed

lemma parseSafeNamespace_loop_eq:
  "start \<le> length str \<Longrightarrow> parseSafeNamespace_loop str start tuples =
     map_option ((@) tuples) (map_opt parseSafeBytes (split_on CHR ''-'' (drop start str)))"
proof (induction str start tuples rule: parseSafeNamespace_loop.induct)
  case (1 str start tuples)
  from \<open>start \<le> length str\<close> show ?case
  proof (cases rule: str_find_cases [where c = "CHR ''-''"])
    case 1
    then show ?thesis
      by (subst parseSafeNamespace_loop.simps)
         (simp add: \<open>start \<le> length str\<close> split: option.splits)
  next
    case (2 e)
    have "parseSafeNamespace_loop str (e + 1) (tuples @ [d]) =
        map_option (\<lambda>ys. tuples @ d # ys) (map_opt parseSafeBytes (split_on CHR ''-'' (drop (e + 1) str)))"
      if "parseSafeBytes (take (e - start) (drop start str)) = Some d" for d
      using "1.IH" [OF \<open>start \<le> length str\<close> refl refl, of d e] 2 that by simp
    with 2 show ?thesis
      by (subst parseSafeNamespace_loop.simps)
         (auto simp: \<open>start \<le> length str\<close> split: option.splits)
  qed
qed

lemma parseSafeNamespace_safeName_ns:
  "parseSafeNamespace (safeName_ns ns) = Some (if ns = [[]] then [] else ns)"
proof (cases "ns = [] \<or> ns = [[]]")
  case True
  then have "safeName_ns ns = []"
    by (simp add: safeName_ns_eq safe_bytes.join_enc_Nil)
  with True show ?thesis by (auto simp: parseSafeNamespace_def)
next
  case False
  then have "safeName_ns ns \<noteq> []"
    by (simp add: safeName_ns_eq safe_bytes.join_enc_Nil)
  moreover from False have "map_opt parseSafeBytes (split_on CHR ''-'' (safeName_ns ns)) = Some ns"
    by (simp add: safeName_ns_eq safe_bytes.decode_join)
  ultimately show ?thesis
    using False by (simp add: parseSafeNamespace_def parseSafeNamespace_loop_eq)
qed

section \<open>Full track names\<close>

lemma safeName_ftn_eq:
  "safeName_ftn ftn = safeName_ns (trackNamespace ftn) @ ''--'' @ safeName_bytes (trackName ftn)"
  by (simp add: safeName_ftn_def appendSafe_eq safeName_bytes_eq safeName_ns_def)

lemma take2_drop:
  assumes "take 2 (drop i xs) = [x, y]"
  shows "Suc i < length xs \<and> xs ! Suc i = y"
proof -
  have "length (take 2 (drop i xs)) = 2" and "take 2 (drop i xs) ! 1 = y"
    by (simp_all add: assms)
  then show ?thesis by simp
qed

lemma rfind_sep_last:
  assumes "CHR ''-'' \<notin> set b"
  shows "rfind_sep (a @ CHR ''-'' # CHR ''-'' # b) = Some (length a)"
proof -
  let ?text = "a @ CHR ''-'' # CHR ''-'' # b"
  let ?P = "\<lambda>i. take 2 (drop i ?text) = ''--''"
  have "filter ?P [0..<length ?text] \<noteq> [] \<and> last (filter ?P [0..<length ?text]) = length a"
  proof (rule last_filter_upt)
    fix i assume i: "length a < i" "i < length ?text"
    then have "?text ! Suc i \<noteq> CHR ''-''" if "Suc i < length ?text"
      using that assms by (auto simp: nth_append in_set_conv_nth nth_Cons' split: if_splits)
    then show "\<not> ?P i"
      using take2_drop [of i ?text] by blast
  qed auto
  then show ?thesis by (simp add: rfind_sep_def)
qed

lemma parseSafeFullTrackName_safeName_ftn:
  "parseSafeFullTrackName (safeName_ftn ftn) =
     Some \<lparr>trackNamespace = (if trackNamespace ftn = [[]] then [] else trackNamespace ftn),
           trackName = trackName ftn\<rparr>"
  by (simp add: parseSafeFullTrackName_def safeName_ftn_eq rfind_sep_last safe_bytes.sep_free
      parseSafeNamespace_safeName_ns safe_bytes.dec_enc)

section \<open>Sizes\<close>

lemma fold_add_length: "fold (\<lambda>t size. size + length t) ts n = n + sum_list (map length ts)"
  by (induction ts arbitrary: n) auto

lemma length_safeName_bytes: "length bytes \<le> length (safeName_bytes bytes)"
proof (induction bytes)
  case (Cons c bytes)
  have "1 \<le> length (enc_byte c)" by (simp add: enc_byte_def)
  with Cons show ?case by (simp add: safeName_bytes_eq)
qed simp

lemma length_join_with:
  "length (join_with c xss) = sum_list (map length xss) + (length xss - 1)"
  by (induction c xss rule: join_with.induct) auto

section \<open>Properties\<close>

text \<open>C27. Decoding an encoded full track name gives the name back; the only loss is that a
  namespace of one empty tuple comes back as the empty namespace.\<close>

theorem full_track_name_roundtrip:
  "parseSafeFullTrackName (safeName_ftn ftn) =
     Some (if trackNamespace ftn = [[]] then ftn\<lparr>trackNamespace := []\<rparr> else ftn)"
  by (cases ftn) (simp add: parseSafeFullTrackName_safeName_ftn)

text \<open>C40. Two full track names share a rendering exactly when they are equal up to the
  namespaces \<open>[]\<close> and \<open>[""]\<close>; so the encoding is injective except for that one
  pair of namespaces.\<close>

theorem safeName_collision_iff:
  "safeName_ftn f = safeName_ftn g \<longleftrightarrow>
     f = g \<or> trackName f = trackName g \<and> {trackNamespace f, trackNamespace g} = {[], [[]]}"
proof
  assume "safeName_ftn f = safeName_ftn g"
  then have "(if trackNamespace f = [[]] then f\<lparr>trackNamespace := []\<rparr> else f) =
      (if trackNamespace g = [[]] then g\<lparr>trackNamespace := []\<rparr> else g)"
    using parseSafeFullTrackName_safeName_ftn [of f] parseSafeFullTrackName_safeName_ftn [of g]
    by (cases f; cases g) auto
  then show "f = g \<or> trackName f = trackName g \<and> {trackNamespace f, trackNamespace g} = {[], [[]]}"
    by (cases f; cases g) (auto split: if_splits)
next
  assume "f = g \<or> trackName f = trackName g \<and> {trackNamespace f, trackNamespace g} = {[], [[]]}"
  then show "safeName_ftn f = safeName_ftn g"
  proof
    assume eq: "trackName f = trackName g \<and> {trackNamespace f, trackNamespace g} = {[], [[]]}"
    then have "safeName_ns (trackNamespace f) = []" and "safeName_ns (trackNamespace g) = []"
      by (auto simp: doubleton_eq_iff safeName_ns_eq safe_bytes.join_enc_Nil)
    with eq show ?thesis by (simp add: safeName_ftn_eq)
  qed simp
qed

text \<open>The size reserved for a rendered namespace is a lower bound on the rendering's
  length, as the comment on \<^verbatim>\<open>rawSize\<close> says.\<close>

theorem rawSize_lower_bound: "rawSize ns \<le> length (safeName_ns ns)"
proof -
  have "sum_list (map length ns) \<le> sum_list (map (length \<circ> safeName_bytes) ns)"
    by (rule sum_list_mono) (simp add: length_safeName_bytes)
  then show ?thesis
    by (auto simp: rawSize_def fold_add_length safeName_ns_eq length_join_with)
qed

end
