(* ===== verification/Service_Matcher.thy ===== *)
theory Service_Matcher
  imports Moqx_Prelude "HOL-Library.Sublist"
begin

text \<open>
  Choosing the service for a connection (\<^verbatim>\<open>src/src/ServiceMatcher.cpp\<close>): rule sets per
  authority tier, exact paths before the longest prefix, the three tiers in order. The model is
  compared with a reference that scans the configured rules directly.
\<close>

section \<open>Data\<close>

text \<open>\<^verbatim>\<open>config::ServiceConfig::MatchEntry\<close>: an authority pattern and a path pattern.\<close>

datatype authority_matcher = ExactAuthority string | WildcardAuthority string | AnyAuthority
datatype path_matcher = ExactPath string | PrefixPath string

record match_entry =
  authority :: authority_matcher
  path :: path_matcher

type_synonym services = "(string \<times> match_entry list) list"

record path_rule_set =
  exactPaths :: "(string \<times> string) list"
  prefixPaths :: "(string \<times> string) list"

record service_matcher =
  exactAuthorityRules :: "(string \<times> path_rule_set) list"
  wildcardAuthorityRules :: "(string \<times> path_rule_set) list"
  anyAuthorityRules :: path_rule_set

definition empty_rules :: path_rule_set where
  "empty_rules = \<lparr>exactPaths = [], prefixPaths = []\<rparr>"

section \<open>Rule sets\<close>

definition addRule :: "path_matcher \<Rightarrow> string \<Rightarrow> path_rule_set \<Rightarrow> path_rule_set" where
  "addRule pm serviceName rs =
     (case pm of
        ExactPath val \<Rightarrow> rs\<lparr>exactPaths := try_emplace val serviceName (exactPaths rs)\<rparr>
      | PrefixPath val \<Rightarrow> rs\<lparr>prefixPaths := prefixPaths rs @ [(val, serviceName)]\<rparr>)"

text \<open>\<^verbatim>\<open>std::sort\<close> by descending prefix length; among equal lengths the order of the model is
  the order of insertion.\<close>

definition finalize :: "path_rule_set \<Rightarrow> path_rule_set" where
  "finalize rs = rs\<lparr>prefixPaths := sort_key (\<lambda>r. - int (length (fst r))) (prefixPaths rs)\<rparr>"

definition match_rules :: "path_rule_set \<Rightarrow> string \<Rightarrow> string option" where
  "match_rules rs p =
     (case map_of (exactPaths rs) p of
        Some s \<Rightarrow> Some s
      | None \<Rightarrow> map_option snd
          (find (\<lambda>r. length p \<ge> length (fst r) \<and> take (length (fst r)) p = fst r) (prefixPaths rs)))"

section \<open>The matcher\<close>

text \<open>One step of the constructor's loop; \<open>None\<close> is the \<^verbatim>\<open>std::out_of_range\<close> that
  \<^verbatim>\<open>substr(1)\<close> throws on an empty wildcard pattern.\<close>

definition addEntry :: "string \<Rightarrow> match_entry \<Rightarrow> service_matcher \<Rightarrow> service_matcher option" where
  "addEntry name entry m =
     (case authority entry of
        ExactAuthority a \<Rightarrow> Some (m\<lparr>exactAuthorityRules :=
          upsert a empty_rules (addRule (path entry) name) (exactAuthorityRules m)\<rparr>)
      | WildcardAuthority pattern \<Rightarrow>
          (if pattern = [] then None
           else Some (m\<lparr>wildcardAuthorityRules :=
             upsert (drop 1 pattern) empty_rules (addRule (path entry) name)
               (wildcardAuthorityRules m)\<rparr>))
      | AnyAuthority \<Rightarrow> Some (m\<lparr>anyAuthorityRules :=
          addRule (path entry) name (anyAuthorityRules m)\<rparr>))"

fun addEntries :: "string \<Rightarrow> match_entry list \<Rightarrow> service_matcher \<Rightarrow> service_matcher option" where
  "addEntries name [] m = Some m"
| "addEntries name (e # es) m =
     (case addEntry name e m of None \<Rightarrow> None | Some m' \<Rightarrow> addEntries name es m')"

fun addServices :: "services \<Rightarrow> service_matcher \<Rightarrow> service_matcher option" where
  "addServices [] m = Some m"
| "addServices ((name, es) # ss) m =
     (case addEntries name es m of None \<Rightarrow> None | Some m' \<Rightarrow> addServices ss m')"

definition finalizeAll :: "service_matcher \<Rightarrow> service_matcher" where
  "finalizeAll m =
     \<lparr>exactAuthorityRules = map (\<lambda>(a, rs). (a, finalize rs)) (exactAuthorityRules m),
      wildcardAuthorityRules = map (\<lambda>(a, rs). (a, finalize rs)) (wildcardAuthorityRules m),
      anyAuthorityRules = finalize (anyAuthorityRules m)\<rparr>"

definition ServiceMatcher :: "services \<Rightarrow> service_matcher option" where
  "ServiceMatcher services =
     map_option finalizeAll
       (addServices services
          \<lparr>exactAuthorityRules = [], wildcardAuthorityRules = [], anyAuthorityRules = empty_rules\<rparr>)"

definition match_service :: "service_matcher \<Rightarrow> string \<Rightarrow> string \<Rightarrow> string option" where
  "match_service m auth p =
     (let effectivePath = (if p = [] then ''/'' else p);
          exact = Option.bind (map_of (exactAuthorityRules m) auth)
                    (\<lambda>rs. match_rules rs effectivePath);
          wild = (case str_find CHR ''.'' auth 0 of
                    None \<Rightarrow> None
                  | Some dot \<Rightarrow> Option.bind (map_of (wildcardAuthorityRules m) (drop dot auth))
                      (\<lambda>rs. match_rules rs effectivePath))
      in case exact of Some s \<Rightarrow> Some s
         | None \<Rightarrow> (case wild of Some s \<Rightarrow> Some s
                    | None \<Rightarrow> match_rules (anyAuthorityRules m) effectivePath))"

fun collect :: "(string \<times> string) list \<Rightarrow> string list \<Rightarrow> string list" where
  "collect [] result = result"
| "collect ((p, _) # ps) result = collect ps (if p \<in> set result then result else result @ [p])"

definition allExactPaths :: "service_matcher \<Rightarrow> string list" where
  "allExactPaths m =
     collect (exactPaths (anyAuthorityRules m))
       (fold (\<lambda>(_, rs). collect (exactPaths rs)) (wildcardAuthorityRules m)
         (fold (\<lambda>(_, rs). collect (exactPaths rs)) (exactAuthorityRules m) []))"

section \<open>The reference: scanning the configured rules\<close>

definition tier_rules ::
  "(authority_matcher \<Rightarrow> bool) \<Rightarrow> (string \<times> match_entry) list \<Rightarrow> (path_matcher \<times> string) list" where
  "tier_rules sel fl = map (\<lambda>(name, e). (path e, name)) (filter (\<lambda>(_, e). sel (authority e)) fl)"

definition flat_entries :: "services \<Rightarrow> (string \<times> match_entry) list" where
  "flat_entries ss = concat (map (\<lambda>(name, es). map (Pair name) es) ss)"

fun covers :: "path_matcher \<Rightarrow> string \<Rightarrow> bool" where
  "covers (ExactPath q) p = (q = p)"
| "covers (PrefixPath q) p = prefix q p"

fun pattern_length :: "path_matcher \<Rightarrow> nat" where
  "pattern_length (ExactPath q) = 0"
| "pattern_length (PrefixPath q) = length q"

text \<open>Within one tier: the first exact rule for the path, otherwise the first of the longest
  prefixes that cover it.\<close>

definition ref_tier :: "(path_matcher \<times> string) list \<Rightarrow> string \<Rightarrow> string option" where
  "ref_tier rules p =
     (case find (\<lambda>r. fst r = ExactPath p) rules of
        Some r \<Rightarrow> Some (snd r)
      | None \<Rightarrow> map_option snd
          (find (\<lambda>r. covers (fst r) p \<and>
             (\<forall>r'\<in>set rules. covers (fst r') p \<longrightarrow> pattern_length (fst r') \<le> pattern_length (fst r))) rules))"

fun wildcard_covers :: "string \<Rightarrow> authority_matcher \<Rightarrow> bool" where
  "wildcard_covers auth (WildcardAuthority pattern) =
     (CHR ''.'' \<in> set auth \<and> drop 1 pattern = dropWhile (\<lambda>c. c \<noteq> CHR ''.'') auth)"
| "wildcard_covers auth _ = False"

definition ref_match :: "services \<Rightarrow> string \<Rightarrow> string \<Rightarrow> string option" where
  "ref_match ss auth p =
     (let p' = (if p = [] then ''/'' else p); fl = flat_entries ss
      in case ref_tier (tier_rules (\<lambda>a. a = ExactAuthority auth) fl) p' of
           Some s \<Rightarrow> Some s
         | None \<Rightarrow> (case ref_tier (tier_rules (wildcard_covers auth) fl) p' of
                      Some s \<Rightarrow> Some s
                    | None \<Rightarrow> ref_tier (tier_rules (\<lambda>a. a = AnyAuthority) fl) p'))"

definition empty_wildcard :: "services \<Rightarrow> bool" where
  "empty_wildcard ss \<longleftrightarrow> (\<exists>s\<in>set ss. \<exists>e\<in>set (snd s). authority e = WildcardAuthority [])"

section \<open>A rule set holds the rules of its tier\<close>

definition build_rules :: "(path_matcher \<times> string) list \<Rightarrow> path_rule_set" where
  "build_rules rules = foldl (\<lambda>rs r. addRule (fst r) (snd r) rs) empty_rules rules"

lemma build_rules_snoc: "build_rules (rules @ [(pm, n)]) = addRule pm n (build_rules rules)"
  by (simp add: build_rules_def)

lemma build_rules_Nil: "build_rules [] = empty_rules"
  by (simp add: build_rules_def)

lemma build_rules_exact:
  "map_of (exactPaths (build_rules rules)) p =
     map_option snd (find (\<lambda>r. fst r = ExactPath p) rules)"
proof (induction rules rule: rev_induct)
  case Nil
  show ?case by (simp add: build_rules_Nil empty_rules_def)
next
  case (snoc r rules)
  obtain pm n where r: "r = (pm, n)" by (cases r)
  have fnd: "find Q (rules @ [x]) = (case find Q rules of None \<Rightarrow> (if Q x then Some x else None) | Some y \<Rightarrow> Some y)"
    for Q and x :: "path_matcher \<times> string"
    by (induction rules) auto
  show ?case
    using snoc.IH
    by (cases pm) (auto simp: r build_rules_snoc addRule_def fnd map_of_try_emplace split: option.splits)
qed

fun prefix_rule :: "path_matcher \<times> string \<Rightarrow> (string \<times> string) option" where
  "prefix_rule (PrefixPath q, n) = Some (q, n)"
| "prefix_rule (ExactPath q, n) = None"

lemma build_rules_prefix: "prefixPaths (build_rules rules) = List.map_filter prefix_rule rules"
proof (induction rules rule: rev_induct)
  case Nil
  show ?case by (simp add: build_rules_Nil empty_rules_def map_filter_simps)
next
  case (snoc r rules)
  obtain pm n where r: "r = (pm, n)" by (cases r)
  show ?case
    using snoc.IH
    by (cases pm) (auto simp: r build_rules_snoc addRule_def map_filter_def)
qed

lemma take_prefix_iff: "length p \<ge> length q \<and> take (length q) p = q \<longleftrightarrow> prefix q p"
  by (metis append_eq_conv_conj append_take_drop_id prefixE prefixI prefix_length_le)

lemma find_map_filter:
  "find Q (List.map_filter g xs) = Option.bind (find (\<lambda>x. case g x of None \<Rightarrow> False | Some y \<Rightarrow> Q y) xs) g"
  by (induction xs) (auto simp: map_filter_simps split: option.splits)

lemma ball_map_filter:
  "(\<forall>y\<in>set (List.map_filter g xs). R y) \<longleftrightarrow> (\<forall>x\<in>set xs. case g x of None \<Rightarrow> True | Some y \<Rightarrow> R y)"
  by (induction xs) (auto simp: map_filter_simps split: option.splits)

lemma match_rules_build: "match_rules (finalize (build_rules rules)) p = ref_tier rules p"
proof (cases "find (\<lambda>r. fst r = ExactPath p) rules")
  case (Some r)
  then show ?thesis
    by (simp add: match_rules_def finalize_def build_rules_exact ref_tier_def)
next
  case None
  then have no_exact: "\<And>r. r \<in> set rules \<Longrightarrow> fst r \<noteq> ExactPath p"
    by (auto simp: find_None_iff)
  let ?longest = "\<lambda>r. covers (fst r) p \<and>
    (\<forall>r'\<in>set rules. covers (fst r') p \<longrightarrow> pattern_length (fst r') \<le> pattern_length (fst r))"
  let ?Q = "\<lambda>x. prefix (fst x) p \<and> (\<forall>y\<in>set (List.map_filter prefix_rule rules).
    prefix (fst y) p \<longrightarrow> - int (length (fst x)) \<le> - int (length (fst y)))"
  have one: "(case prefix_rule r of None \<Rightarrow> True | Some y \<Rightarrow> prefix (fst y) p \<longrightarrow> length (fst y) \<le> l) =
      (covers (fst r) p \<longrightarrow> pattern_length (fst r) \<le> l)" if "r \<in> set rules" for r l
    using no_exact [OF that] by (cases r rule: prefix_rule.cases) auto
  have same: "(case prefix_rule r of None \<Rightarrow> False | Some y \<Rightarrow> ?Q y) = ?longest r"
    if "r \<in> set rules" for r
    using no_exact [OF that]
    by (cases r rule: prefix_rule.cases) (auto simp: ball_map_filter one cong: ball_cong)
  have "match_rules (finalize (build_rules rules)) p =
      map_option snd (find ?Q (List.map_filter prefix_rule rules))"
    using None
    by (simp add: match_rules_def finalize_def build_rules_exact build_rules_prefix take_prefix_iff
        find_sort_key)
  also have "\<dots> = map_option snd (Option.bind (find ?longest rules) prefix_rule)"
    by (simp only: find_map_filter find_cong [OF refl same])
  also have "\<dots> = map_option snd (find ?longest rules)"
  proof (cases "find ?longest rules")
    case (Some r)
    then have "covers (fst r) p" "r \<in> set rules" by (auto simp: find_Some_iff)
    with no_exact [of r] have "map_option snd (prefix_rule r) = Some (snd r)"
      by (cases r rule: prefix_rule.cases) auto
    with Some show ?thesis by simp
  qed simp
  finally show ?thesis using None by (simp add: ref_tier_def)
qed

section \<open>The constructor files every entry in its tier\<close>

definition rules_opt :: "(path_matcher \<times> string) list \<Rightarrow> path_rule_set option" where
  "rules_opt rules = (if rules = [] then None else Some (build_rules rules))"

text \<open>The matcher under construction represents the entries read so far.\<close>

fun wildcard_key :: "string \<Rightarrow> authority_matcher \<Rightarrow> bool" where
  "wildcard_key suf (WildcardAuthority pattern) = (drop 1 pattern = suf)"
| "wildcard_key suf _ = False"

definition represents :: "(string \<times> match_entry) list \<Rightarrow> service_matcher \<Rightarrow> bool" where
  "represents fl m \<longleftrightarrow>
     (\<forall>a. map_of (exactAuthorityRules m) a = rules_opt (tier_rules (\<lambda>x. x = ExactAuthority a) fl)) \<and>
     (\<forall>suf. map_of (wildcardAuthorityRules m) suf =
        rules_opt (tier_rules (wildcard_key suf) fl)) \<and>
     anyAuthorityRules m = build_rules (tier_rules (\<lambda>x. x = AnyAuthority) fl)"

lemma tier_rules_snoc:
  "tier_rules sel (fl @ [(n, e)]) = tier_rules sel fl @ (if sel (authority e) then [(path e, n)] else [])"
  by (simp add: tier_rules_def)

lemma rules_opt_snoc:
  "rules_opt (rules @ [(pm, n)]) =
     Some (addRule pm n (case rules_opt rules of None \<Rightarrow> empty_rules | Some rs \<Rightarrow> rs))"
  by (simp add: rules_opt_def build_rules_snoc build_rules_Nil)

lemma represents_addEntry:
  assumes "represents fl m" and "addEntry n e m = Some m'"
  shows "represents (fl @ [(n, e)]) m'"
proof (cases "authority e")
  case (ExactAuthority a)
  with assms show ?thesis
    by (auto simp: represents_def addEntry_def tier_rules_snoc map_of_upsert rules_opt_snoc)
next
  case (WildcardAuthority pattern)
  with assms show ?thesis
    by (auto simp add: represents_def addEntry_def tier_rules_snoc map_of_upsert rules_opt_snoc
        split: if_splits)
next
  case AnyAuthority
  with assms show ?thesis
    by (auto simp: represents_def addEntry_def tier_rules_snoc build_rules_snoc)
qed

lemma represents_addEntries:
  "represents fl m \<Longrightarrow> addEntries n es m = Some m' \<Longrightarrow> represents (fl @ map (Pair n) es) m'"
proof (induction es arbitrary: fl m)
  case Nil
  then show ?case by simp
next
  case (Cons e es)
  then obtain m1 where m1: "addEntry n e m = Some m1" "addEntries n es m1 = Some m'"
    by (auto split: option.splits)
  from Cons.IH [OF represents_addEntry [OF Cons.prems(1) m1(1)] m1(2)] show ?case by simp
qed

lemma represents_addServices:
  "represents fl m \<Longrightarrow> addServices ss m = Some m' \<Longrightarrow> represents (fl @ flat_entries ss) m'"
proof (induction ss arbitrary: fl m)
  case Nil
  then show ?case by (simp add: flat_entries_def)
next
  case (Cons s ss)
  obtain n es where s: "s = (n, es)" by (cases s)
  with Cons.prems obtain m1 where m1: "addEntries n es m = Some m1" "addServices ss m1 = Some m'"
    by (auto split: option.splits)
  from Cons.IH [OF represents_addEntries [OF Cons.prems(1) m1(1)] m1(2)] show ?case
    by (simp add: s flat_entries_def)
qed

lemma addEntries_None:
  "addEntries n es m = None \<longleftrightarrow> (\<exists>e\<in>set es. authority e = WildcardAuthority [])"
  by (induction es arbitrary: m)
     (auto simp: addEntry_def split: option.splits authority_matcher.splits if_splits)

lemma addServices_None: "addServices ss m = None \<longleftrightarrow> empty_wildcard ss"
proof (induction ss arbitrary: m)
  case Nil
  then show ?case by (simp add: empty_wildcard_def)
next
  case (Cons s ss)
  obtain n es where s: "s = (n, es)" by (cases s)
  show ?case
    using addEntries_None [of n es m] Cons.IH
    by (cases "addEntries n es m") (simp_all add: s empty_wildcard_def)
qed

lemma ServiceMatcher_None: "ServiceMatcher ss = None \<longleftrightarrow> empty_wildcard ss"
  by (simp add: ServiceMatcher_def addServices_None)

lemma ServiceMatcher_represents:
  assumes "ServiceMatcher ss = Some m"
  obtains m0 where "represents (flat_entries ss) m0" and "m = finalizeAll m0"
proof -
  from assms obtain m0 where m0: "addServices ss
      \<lparr>exactAuthorityRules = [], wildcardAuthorityRules = [], anyAuthorityRules = empty_rules\<rparr> = Some m0"
    and m: "m = finalizeAll m0"
    by (auto simp: ServiceMatcher_def)
  have "represents [] \<lparr>exactAuthorityRules = [], wildcardAuthorityRules = [], anyAuthorityRules = empty_rules\<rparr>"
    by (simp add: represents_def tier_rules_def rules_opt_def build_rules_Nil)
  from represents_addServices [OF this m0] m that show ?thesis by simp
qed

section \<open>Matching agrees with the reference\<close>

lemma ref_tier_Nil: "ref_tier [] p = None"
  by (simp add: ref_tier_def)

lemma bind_rules_opt:
  "Option.bind (map_option finalize (rules_opt rules)) (\<lambda>rs. match_rules rs p) = ref_tier rules p"
  by (simp add: rules_opt_def match_rules_build ref_tier_Nil)

lemma map_of_finalize: "map_of (map (\<lambda>(a, rs). (a, finalize rs)) al) a = map_option finalize (map_of al a)"
  by (induction al) auto

lemma drop_str_find: "str_find c s 0 = Some i \<Longrightarrow> drop i s = dropWhile (\<lambda>x. x \<noteq> c) s"
proof -
  assume "str_find c s 0 = Some i"
  from find_at_Some [OF this [unfolded str_find_def]]
  have i: "i < length s" "c \<notin> set (take i s)" "s ! i = c" by auto
  then have "s = take i s @ c # drop (Suc i) s"
    by (metis id_take_nth_drop)
  moreover have "dropWhile (\<lambda>x. x \<noteq> c) (take i s @ c # drop (Suc i) s) = c # drop (Suc i) s"
    using i(2) by (subst dropWhile_append2) auto
  ultimately show ?thesis
    using i by (metis Cons_nth_drop_Suc)
qed

lemma match_service_represents:
  assumes "represents (flat_entries ss) m0"
  shows "match_service (finalizeAll m0) auth p = ref_match ss auth p"
proof -
  let ?p = "if p = [] then ''/'' else p"
  let ?fl = "flat_entries ss"
  have exact: "Option.bind (map_of (exactAuthorityRules (finalizeAll m0)) auth) (\<lambda>rs. match_rules rs ?p) =
      ref_tier (tier_rules (\<lambda>a. a = ExactAuthority auth) ?fl) ?p"
    using assms by (simp add: finalizeAll_def map_of_finalize represents_def bind_rules_opt)
  have wild: "(case str_find CHR ''.'' auth 0 of None \<Rightarrow> None
        | Some dot \<Rightarrow> Option.bind (map_of (wildcardAuthorityRules (finalizeAll m0)) (drop dot auth))
            (\<lambda>rs. match_rules rs ?p)) =
      ref_tier (tier_rules (wildcard_covers auth) ?fl) ?p"
  proof (cases "str_find CHR ''.'' auth 0")
    case None
    then have "\<And>a. \<not> wildcard_covers auth a"
      by (auto simp: str_find_def elim!: wildcard_covers.elims)
    then have "tier_rules (wildcard_covers auth) ?fl = []"
      by (auto simp: tier_rules_def filter_empty_conv)
    with None show ?thesis by (simp add: ref_tier_Nil)
  next
    case (Some dot)
    then have mem: "CHR ''.'' \<in> set auth"
      using find_at_None [of "CHR ''.''" auth 0] by (simp add: str_find_def)
    have "wildcard_key (drop dot auth) a = wildcard_covers auth a" for a
      using drop_str_find [OF Some] mem by (cases a) auto
    then have "wildcard_key (drop dot auth) = wildcard_covers auth" ..
    with Some assms show ?thesis
      by (simp add: finalizeAll_def map_of_finalize represents_def bind_rules_opt)
  qed
  have any: "match_rules (anyAuthorityRules (finalizeAll m0)) ?p =
      ref_tier (tier_rules (\<lambda>a. a = AnyAuthority) ?fl) ?p"
    using assms by (simp add: finalizeAll_def represents_def match_rules_build)
  show ?thesis
    unfolding match_service_def ref_match_def Let_def exact wild any ..
qed

lemma match_service_ref_match:
  "ServiceMatcher ss = Some m \<Longrightarrow> match_service m auth p = ref_match ss auth p"
  by (auto elim: ServiceMatcher_represents simp: match_service_represents)

lemma ref_tier_prefix_total:
  assumes "(PrefixPath q, n) \<in> set rules" and "prefix q p"
  shows "ref_tier rules p \<noteq> None"
proof (cases "find (\<lambda>r. fst r = ExactPath p) rules")
  case None
  let ?C = "{r \<in> set rules. covers (fst r) p}"
  have "finite ?C" and "(PrefixPath q, n) \<in> ?C"
    using assms by auto
  then obtain r where "r \<in> ?C" and "\<forall>r'\<in>?C. pattern_length (fst r') \<le> pattern_length (fst r)"
    using finite_has_max [of ?C "(PrefixPath q, n)" "\<lambda>r. pattern_length (fst r)"] by blast
  then have r: "r \<in> set rules" "covers (fst r) p"
    "\<forall>r'\<in>set rules. covers (fst r') p \<longrightarrow> pattern_length (fst r') \<le> pattern_length (fst r)"
    by auto
  then have "find (\<lambda>r. covers (fst r) p \<and>
      (\<forall>r'\<in>set rules. covers (fst r') p \<longrightarrow> pattern_length (fst r') \<le> pattern_length (fst r))) rules \<noteq> None"
    unfolding find_None_iff by blast
  with None show ?thesis by (auto simp: ref_tier_def)
qed (auto simp: ref_tier_def)

section \<open>The exact paths of all tiers\<close>

lemma set_collect: "set (collect ps res) = set res \<union> fst ` set ps"
  by (induction ps res rule: collect.induct) auto

lemma distinct_collect: "distinct res \<Longrightarrow> distinct (collect ps res)"
  by (induction ps res rule: collect.induct) auto

lemma set_fold_collect:
  "set (fold (\<lambda>(_, rs). collect (exactPaths rs)) al res) =
     set res \<union> (\<Union>rs\<in>snd ` set al. fst ` set (exactPaths rs))"
  by (induction al arbitrary: res) (simp_all add: set_collect case_prod_beta Un_assoc)

lemma distinct_fold_collect:
  "distinct res \<Longrightarrow> distinct (fold (\<lambda>(_, rs). collect (exactPaths rs)) al res)"
  by (induction al arbitrary: res) (simp_all add: distinct_collect case_prod_beta)

definition matcher_exact_paths :: "service_matcher \<Rightarrow> string set" where
  "matcher_exact_paths m =
     (\<Union>rs\<in>snd ` set (exactAuthorityRules m) \<union> snd ` set (wildcardAuthorityRules m) \<union> {anyAuthorityRules m}.
        fst ` set (exactPaths rs))"

lemma allExactPaths_set: "set (allExactPaths m) = matcher_exact_paths m \<and> distinct (allExactPaths m)"
  by (simp add: allExactPaths_def matcher_exact_paths_def set_collect set_fold_collect
      distinct_collect distinct_fold_collect image_Un UN_Un Un_ac)

section \<open>Properties\<close>


text \<open>A service configured for any authority with the prefix \<open>/\<close> catches every
  connection whose path is empty or starts with a slash: the normalisation of the empty path
  makes the lookup total.\<close>

theorem match_service_root_total:
  assumes "ServiceMatcher ss = Some m" and "(name, es) \<in> set ss" and "e \<in> set es"
    and "authority e = AnyAuthority" and "path e = PrefixPath ''/''"
    and "p = [] \<or> hd p = CHR ''/''"
  shows "\<exists>s. match_service m auth p = Some s"
proof -
  let ?p = "if p = [] then ''/'' else p"
  have "(PrefixPath ''/'', name) \<in> set (tier_rules (\<lambda>a. a = AnyAuthority) (flat_entries ss))"
    using assms(2-5) by (force simp: tier_rules_def flat_entries_def)
  moreover have "prefix ''/'' ?p"
    using assms(6) by (cases p) auto
  ultimately have "ref_tier (tier_rules (\<lambda>a. a = AnyAuthority) (flat_entries ss)) ?p \<noteq> None"
    by (rule ref_tier_prefix_total)
  then show ?thesis
    unfolding match_service_ref_match [OF assms(1)] ref_match_def Let_def
    by (auto split: option.splits)
qed

definition demo_services :: services where
  "demo_services =
     [(''live'', [\<lparr>authority = AnyAuthority, path = PrefixPath ''/''\<rparr>]),
      (''vod'', [\<lparr>authority = WildcardAuthority ''*.x.com'', path = PrefixPath ''/vod''\<rparr>])]"

theorem match_service_root_total_witness:
  "\<exists>m. ServiceMatcher demo_services = Some m \<and> (\<exists>s. match_service m ''foo.x.com'' [] = Some s)"
proof -
  obtain m where m: "ServiceMatcher demo_services = Some m"
    using ServiceMatcher_None [of demo_services] by (auto simp: demo_services_def empty_wildcard_def)
  have "\<exists>s. match_service m ''foo.x.com'' [] = Some s"
    by (rule match_service_root_total [OF m, of "''live''"
          "[\<lparr>authority = AnyAuthority, path = PrefixPath ''/''\<rparr>]"
          "\<lparr>authority = AnyAuthority, path = PrefixPath ''/''\<rparr>"])
       (simp_all add: demo_services_def)
  with m show ?thesis by blast
qed

end
