(* ===== verification/Recent_Groups.thy ===== *)
theory Recent_Groups
  imports Moqx_Prelude "HOL-Library.Product_Lexorder"
begin

text \<open>
  The ingest counters of a track: \<^verbatim>\<open>RecentGroupWindow\<close>
  (\<^verbatim>\<open>src/src/relay/RecentGroupWindow.h\<close>), a most-recently-used window of three group
  ids, and \<^verbatim>\<open>IngestCounters\<close> (\<^verbatim>\<open>src/src/SubscriptionRegistry.h\<close>), which counts objects and
  groups with it. The window is related to the sequence of all arrivals: it holds the three most
  recent distinct groups.
\<close>

section \<open>The window\<close>

text \<open>\<^verbatim>\<open>std::rotate(first, middle, last)\<close> on the positions of an array.\<close>

definition std_rotate :: "nat \<Rightarrow> nat \<Rightarrow> nat \<Rightarrow> 'a list \<Rightarrow> 'a list" where
  "std_rotate lo mid hi xs =
     take lo xs @ drop mid (take hi xs) @ drop lo (take mid xs) @ drop hi xs"

definition kSize :: nat where
  "kSize = 3"

record recent_group_window =
  groups_arr :: "u64 list"
  group_count :: nat

definition empty_window :: recent_group_window where
  "empty_window = \<lparr>groups_arr = replicate kSize 0, group_count = 0\<rparr>"

text \<open>The scan \<^verbatim>\<open>for (i = 0; i < count_; ++i)\<close>: the index of the first hit.\<close>

function scan_group :: "recent_group_window \<Rightarrow> u64 \<Rightarrow> nat \<Rightarrow> nat option" where
  "scan_group w g i =
     (if i < group_count w then
        (if groups_arr w ! i = g then Some i else scan_group w g (i + 1))
      else None)"
  by pat_completeness auto
termination
  by (relation "measure (\<lambda>(w, g, i). group_count w - i)") auto

declare scan_group.simps [simp del]

definition admit :: "recent_group_window \<Rightarrow> u64 \<Rightarrow> bool \<times> recent_group_window" where
  "admit w g =
     (case scan_group w g 0 of
        Some i \<Rightarrow> (False, w\<lparr>groups_arr := std_rotate 0 i (i + 1) (groups_arr w)\<rparr>)
      | None \<Rightarrow>
          (let gs = std_rotate 0 (length (groups_arr w) - 1) (length (groups_arr w)) (groups_arr w)
           in (True, w\<lparr>group_count := min (group_count w + 1) kSize, groups_arr := gs[0 := g]\<rparr>)))"

definition window_ok :: "recent_group_window \<Rightarrow> bool" where
  "window_ok w \<longleftrightarrow> length (groups_arr w) = kSize \<and> group_count w \<le> kSize \<and>
     distinct (take (group_count w) (groups_arr w))"

text \<open>The groups in the window, most recent first.\<close>

definition window_groups :: "recent_group_window \<Rightarrow> u64 list" where
  "window_groups w = take (group_count w) (groups_arr w)"

section \<open>Counters\<close>

record ingest_counters =
  largest :: "(u64 \<times> u64) option"
  ingest_groups :: u64
  ingest_objects :: u64
  recentGroups :: recent_group_window

definition empty_counters :: ingest_counters where
  "empty_counters =
     \<lparr>largest = None, ingest_groups = 0, ingest_objects = 0, recentGroups = empty_window\<rparr>"

definition record_object :: "ingest_counters \<Rightarrow> u64 \<Rightarrow> u64 \<Rightarrow> ingest_counters" where
  "record_object c g ob =
     (let c1 = c\<lparr>ingest_objects := u64_add (ingest_objects c) 1\<rparr>;
          (fresh, w) = admit (recentGroups c1) g;
          c2 = c1\<lparr>recentGroups := w,
                  ingest_groups := (if fresh then u64_add (ingest_groups c1) 1 else ingest_groups c1)\<rparr>;
          loc = (g, ob)
      in if largest c2 = None \<or> the (largest c2) < loc then c2\<lparr>largest := Some loc\<rparr> else c2)"

definition record_all :: "(u64 \<times> u64) list \<Rightarrow> ingest_counters" where
  "record_all locs = foldl (\<lambda>c (g, ob). record_object c g ob) empty_counters locs"

section \<open>The window is a least-recently-used cache\<close>

lemma scan_group_spec:
  "scan_group w g i =
     (if g \<in> set (drop i (take (group_count w) (groups_arr w)))
      then Some (i + length (takeWhile (\<lambda>x. x \<noteq> g) (drop i (take (group_count w) (groups_arr w)))))
      else None)"
  if "group_count w \<le> length (groups_arr w)"
  using that
proof (induction w g i rule: scan_group.induct)
  case (1 w g i)
  let ?xs = "take (group_count w) (groups_arr w)"
  show ?case
  proof (cases "i < group_count w")
    case True
    with "1.prems" have "drop i ?xs = groups_arr w ! i # drop (Suc i) ?xs"
      using Cons_nth_drop_Suc [of i ?xs] by simp
    with True 1 show ?thesis
      by (subst scan_group.simps) auto
  next
    case False
    then show ?thesis by (subst scan_group.simps) simp
  qed
qed

lemma take_rotate_front:
  assumes "i < n" and "n \<le> length xs"
  shows "take n (std_rotate 0 i (i + 1) xs) = xs ! i # take i xs @ drop (i + 1) (take n xs)"
proof -
  from assms have "drop i (take (i + 1) xs) = [xs ! i]"
    by (simp add: take_Suc_conv_app_nth)
  moreover from assms have "n - 1 \<le> i \<Longrightarrow> n - 1 = i"
    by simp
  ultimately show ?thesis
    using assms by (auto simp: std_rotate_def drop_take take_Cons' min_def)
qed

lemma removeAll_split:
  assumes "distinct xs" and "i < length xs"
  shows "removeAll (xs ! i) xs = take i xs @ drop (i + 1) xs"
proof -
  have "xs = take i xs @ xs ! i # drop (Suc i) xs"
    using assms(2) by (rule id_take_nth_drop)
  moreover from this have "xs ! i \<notin> set (take i xs)" "xs ! i \<notin> set (drop (Suc i) xs)"
    using assms(1) by (metis distinct_append distinct.simps(2) disjoint_insert(1) list.simps(15))+
  ultimately show ?thesis
    by (metis Suc_eq_plus1 removeAll.simps(2) removeAll_append removeAll_id)
qed

lemma length_std_rotate_front:
  "i < length xs \<Longrightarrow> length (std_rotate 0 i (Suc i) xs) = length xs"
  by (auto simp: std_rotate_def min_def)

lemma takeWhile_hit:
  "g \<in> set xs \<Longrightarrow> length (takeWhile (\<lambda>x. x \<noteq> g) xs) < length xs \<and>
     xs ! length (takeWhile (\<lambda>x. x \<noteq> g) xs) = g"
  by (induction xs) auto

lemma admit_hit:
  assumes "window_ok w" and "g \<in> set (window_groups w)"
  shows "fst (admit w g) = False" and "window_ok (snd (admit w g))"
    and "window_groups (snd (admit w g)) = g # removeAll g (window_groups w)"
proof -
  let ?xs = "window_groups w"
  let ?i = "length (takeWhile (\<lambda>x. x \<noteq> g) ?xs)"
  have len: "group_count w \<le> length (groups_arr w)" and dist: "distinct ?xs"
    and lxs: "length ?xs = group_count w"
    using assms(1) by (auto simp: window_ok_def window_groups_def)
  have i: "?i < length ?xs" "?xs ! ?i = g"
    using takeWhile_hit [OF assms(2)] by simp_all
  then have gi: "groups_arr w ! ?i = g"
    using lxs by (simp add: window_groups_def)
  have scan: "scan_group w g 0 = Some ?i"
    using scan_group_spec [OF len, of g 0] assms(2) by (simp add: window_groups_def)
  have tk: "take (group_count w) (std_rotate 0 ?i (?i + 1) (groups_arr w)) = g # removeAll g ?xs"
    using take_rotate_front [of ?i "group_count w" "groups_arr w"] i lxs len gi
      removeAll_split [OF dist i(1)]
    by (simp add: window_groups_def min_def)
  show "fst (admit w g) = False"
    by (simp add: admit_def scan)
  show wg: "window_groups (snd (admit w g)) = g # removeAll g ?xs"
    using tk by (simp add: admit_def scan window_groups_def)
  show "window_ok (snd (admit w g))"
    using assms(1) tk dist i lxs len length_std_rotate_front [of ?i "groups_arr w"]
    by (simp add: admit_def scan window_ok_def length_std_rotate_front distinct_removeAll)
qed

lemma admit_miss:
  assumes "window_ok w" and "g \<notin> set (window_groups w)"
  shows "fst (admit w g) = True" and "window_ok (snd (admit w g))"
    and "window_groups (snd (admit w g)) = take kSize (g # window_groups w)"
proof -
  have len: "length (groups_arr w) = 3" "group_count w \<le> 3" "distinct (window_groups w)"
    using assms(1) by (auto simp: window_ok_def window_groups_def kSize_def)
  then obtain a b c where abc: "groups_arr w = [a, b, c]"
    by (auto simp: length_Suc_conv numeral_3_eq_3)
  have scan: "scan_group w g 0 = None"
    using scan_group_spec [of w g 0] len assms(2) by (simp add: window_groups_def)
  have res: "admit w g = (True, w\<lparr>group_count := min (group_count w + 1) 3, groups_arr := [g, a, b]\<rparr>)"
    by (simp add: admit_def scan abc std_rotate_def kSize_def)
  have cnt: "group_count w = 0 \<or> group_count w = 1 \<or> group_count w = 2 \<or> group_count w = 3"
    using len by auto
  show "fst (admit w g) = True"
    by (simp add: res)
  show "window_groups (snd (admit w g)) = take kSize (g # window_groups w)"
    using cnt by (elim disjE) (simp_all add: res window_groups_def abc kSize_def numeral_2_eq_2 numeral_3_eq_3)
  show "window_ok (snd (admit w g))"
    using cnt assms(2) len
    by (elim disjE) (simp_all add: res window_ok_def window_groups_def abc kSize_def numeral_2_eq_2 numeral_3_eq_3)
qed

text \<open>The contract the counters rely on: an admission reports whether the group is new to the
  window and makes it the most recent of at most \<open>cap\<close> groups.\<close>

locale recency_window =
  fixes adm :: "'w \<Rightarrow> 'g \<Rightarrow> bool \<times> 'w"
    and contents :: "'w \<Rightarrow> 'g list"
    and ok :: "'w \<Rightarrow> bool"
    and empty :: 'w
    and cap :: nat
  assumes empty_ok: "ok empty" and contents_empty: "contents empty = []"
    and adm_ok: "ok w \<Longrightarrow> ok (snd (adm w g))"
    and adm_fst: "ok w \<Longrightarrow> fst (adm w g) \<longleftrightarrow> g \<notin> set (contents w)"
    and adm_contents: "ok w \<Longrightarrow> contents (snd (adm w g)) = take cap (g # removeAll g (contents w))"
begin

definition arrivals :: "'g list \<Rightarrow> 'w" where
  "arrivals gs = foldl (\<lambda>w g. snd (adm w g)) empty gs"

lemma arrivals_snoc: "arrivals (gs @ [g]) = snd (adm (arrivals gs) g)"
  by (simp add: arrivals_def)

lemma arrivals_ok: "ok (arrivals gs)"
  by (induction gs rule: rev_induct) (simp_all add: arrivals_snoc adm_ok, simp add: arrivals_def empty_ok)

lemma arrivals_contents: "contents (arrivals gs) = take cap (rev (remdups gs))"
proof (induction gs rule: rev_induct)
  case Nil
  show ?case by (simp add: arrivals_def contents_empty)
next
  case (snoc g gs)
  have "take cap (g # removeAll g (take cap xs)) = take cap (g # removeAll g xs)" if "distinct xs" for xs
  proof -
    let ?ys = "removeAll g (take cap xs)" and ?zs = "removeAll g (drop cap xs)"
    have "removeAll g xs = ?ys @ ?zs"
      by (metis append_take_drop_id removeAll_append)
    moreover have "length ?ys \<ge> cap - 1 \<or> ?zs = []"
      using that
      by (cases "length xs \<le> cap") (auto simp: distinct_remove1_removeAll [symmetric] length_remove1)
    ultimately show ?thesis
      by (cases cap) auto
  qed
  moreover have "rev (remdups (gs @ [g])) = g # removeAll g (rev (remdups gs))"
    by (induction gs) auto
  ultimately show ?case
    using snoc.IH by (simp add: arrivals_snoc adm_contents arrivals_ok)
qed

end

interpretation win: recency_window admit window_groups window_ok empty_window kSize
proof
  show "window_ok empty_window"
    by (simp add: empty_window_def window_ok_def)
  show "window_groups empty_window = []"
    by (simp add: empty_window_def window_groups_def)
  fix w g
  assume ok: "window_ok w"
  show "window_ok (snd (admit w g))"
    using admit_hit(2) [OF ok] admit_miss(2) [OF ok] by blast
  show "fst (admit w g) \<longleftrightarrow> g \<notin> set (window_groups w)"
    using admit_hit(1) [OF ok] admit_miss(1) [OF ok] by blast
  show "window_groups (snd (admit w g)) = take kSize (g # removeAll g (window_groups w))"
  proof (cases "g \<in> set (window_groups w)")
    case True
    have "length (removeAll g (window_groups w)) < length (window_groups w)"
      using True by (rule length_removeAll_less)
    moreover have "length (window_groups w) \<le> kSize"
      using ok by (simp add: window_ok_def window_groups_def)
    ultimately show ?thesis
      using admit_hit(3) [OF ok True] by simp
  next
    case False
    then show ?thesis using admit_miss(3) [OF ok False] by (simp add: removeAll_id)
  qed
qed

section \<open>What the counters count\<close>

lemma record_all_Nil: "record_all [] = empty_counters"
  by (simp add: record_all_def)

lemma record_all_snoc: "record_all (locs @ [(g, ob)]) = record_object (record_all locs) g ob"
  by (simp add: record_all_def)

lemma record_object_fields:
  shows "ingest_objects (record_object c g ob) = u64_add (ingest_objects c) 1"
    and "recentGroups (record_object c g ob) = snd (admit (recentGroups c) g)"
    and "ingest_groups (record_object c g ob) =
           (if fst (admit (recentGroups c) g) then u64_add (ingest_groups c) 1 else ingest_groups c)"
    and "largest (record_object c g ob) =
           (case largest c of None \<Rightarrow> Some (g, ob) | Some l \<Rightarrow> Some (max l (g, ob)))"
  by (auto simp: record_object_def Let_def case_prod_beta max_def split: option.splits)

lemma record_all_recentGroups: "recentGroups (record_all locs) = win.arrivals (map fst locs)"
  by (induction locs rule: rev_induct)
     (auto simp: record_all_Nil empty_counters_def win.arrivals_def record_all_snoc record_object_fields)

lemma record_all_window:
  "window_groups (recentGroups (record_all locs)) = take kSize (rev (remdups (map fst locs)))"
  by (simp add: record_all_recentGroups win.arrivals_contents)

lemma record_all_objects: "ingest_objects (record_all locs) = length locs mod 2 ^ 64"
  by (induction locs rule: rev_induct)
     (auto simp: record_all_Nil empty_counters_def record_all_snoc record_object_fields u64_add_def
        mod_Suc_eq)

lemma record_all_largest:
  "largest (record_all locs) = (if locs = [] then None else Some (Max (set locs)))"
proof (induction locs rule: rev_induct)
  case Nil
  show ?case by (simp add: record_all_Nil empty_counters_def)
next
  case (snoc l locs)
  then show ?case
    by (cases l) (auto simp: record_all_snoc record_object_fields max.commute)
qed

lemma record_all_fresh:
  "fst (admit (recentGroups (record_all locs)) g) \<longleftrightarrow>
     g \<notin> set (take kSize (rev (remdups (map fst locs))))"
  using win.adm_fst [of "recentGroups (record_all locs)" g] win.arrivals_ok
  by (simp add: record_all_recentGroups win.arrivals_contents)

lemma record_all_groups_bounds:
  assumes "length locs \<le> u64_max"
  shows "card (fst ` set locs) \<le> ingest_groups (record_all locs) \<and>
     ingest_groups (record_all locs) \<le> length locs"
  using assms
proof (induction locs rule: rev_induct)
  case Nil
  show ?case by (simp add: record_all_Nil empty_counters_def)
next
  case (snoc l locs)
  obtain g ob where l: "l = (g, ob)" by (cases l)
  have IH: "card (fst ` set locs) \<le> ingest_groups (record_all locs)"
    "ingest_groups (record_all locs) \<le> length locs"
    using snoc by auto
  have inc: "u64_add (ingest_groups (record_all locs)) 1 = ingest_groups (record_all locs) + 1"
    using IH(2) snoc.prems by (simp add: u64_simps)
  have "fst (admit (recentGroups (record_all locs)) g)" if "g \<notin> fst ` set locs"
    using that by (auto simp: record_all_fresh dest!: in_set_takeD)
  then show ?case
    using IH inc
    by (auto simp: l record_all_snoc record_object_fields card_insert_if)
qed

lemma record_all_groups_exact:
  assumes "length locs \<le> u64_max" and "card (fst ` set locs) \<le> kSize"
  shows "ingest_groups (record_all locs) = card (fst ` set locs)"
  using assms
proof (induction locs rule: rev_induct)
  case Nil
  show ?case by (simp add: record_all_Nil empty_counters_def)
next
  case (snoc l locs)
  obtain g ob where l: "l = (g, ob)" by (cases l)
  have le: "card (fst ` set locs) \<le> card (fst ` set (locs @ [l]))"
    by (rule card_mono) auto
  then have IH: "ingest_groups (record_all locs) = card (fst ` set locs)" and lek: "card (fst ` set locs) \<le> kSize"
    using snoc by auto
  have "length (rev (remdups (map fst locs))) \<le> kSize"
    using lek by (simp add: length_remdups_card_conv)
  then have win: "set (take kSize (rev (remdups (map fst locs)))) = fst ` set locs"
    by simp
  have "card (fst ` set locs) \<le> length locs"
    by (metis card_length length_map list.set_map)
  then show ?case
    using IH snoc.prems(1)
    by (auto simp: l record_all_snoc record_object_fields record_all_fresh win u64_simps card_insert_if)
qed

section \<open>Properties\<close>

text \<open>C38. After any sequence of recorded objects the window holds the three most recent distinct
  groups, most recent first, so an object opens a new group exactly when its group is not among
  them.\<close>

theorem window_is_recent_distinct_groups:
  "window_groups (recentGroups (record_all locs)) = take kSize (rev (remdups (map fst locs))) \<and>
   (fst (admit (recentGroups (record_all locs)) g) \<longleftrightarrow>
      g \<notin> set (take kSize (rev (remdups (map fst locs)))))"
  by (simp add: record_all_window record_all_fresh)

text \<open>The object counter is the number of recorded objects, the largest location is the
  maximum of the recorded locations, and (below the counter's range) the group counter never
  misses a group: it is at least the number of distinct groups, and equal to it when at most
  three distinct groups occur.\<close>

theorem ingest_counters_correct:
  assumes "length locs \<le> u64_max" and "locs \<noteq> []"
  shows "ingest_objects (record_all locs) = length locs \<and>
    largest (record_all locs) = Some (Max (set locs)) \<and>
    card (fst ` set locs) \<le> ingest_groups (record_all locs) \<and>
    (card (fst ` set locs) \<le> kSize \<longrightarrow> ingest_groups (record_all locs) = card (fst ` set locs))"
  using assms record_all_groups_bounds [OF assms(1)] record_all_groups_exact [OF assms(1)]
  by (simp add: record_all_objects record_all_largest u64_max_def)

theorem ingest_counters_correct_witness:
  "ingest_groups (record_all [(7, 0), (8, 0), (7, 1)]) = 2 \<and>
   largest (record_all [(7, 0), (8, 0), (7, 1)]) = Some (8, 0)"
proof -
  have c: "fst ` set [(7::nat, 0::nat), (8, 0), (7, 1)] = {7, 8}" by auto
  have m: "Max (set [(7::nat, 0::nat), (8, 0), (7, 1)]) = (8, 0)" by (simp add: max_def)
  show ?thesis
    using ingest_counters_correct [of "[(7, 0), (8, 0), (7, 1)]"]
    unfolding c m by (simp add: u64_max_def kSize_def)
qed

end
