(* ===== verification/Auth_Grants.thy ===== *)
theory Auth_Grants
  imports Moqx_Prelude "HOL-Library.Sublist"
begin

text \<open>
  Grants and what they permit: the actions of \<^verbatim>\<open>src/auth/Action.h\<close>, the match rules, scopes
  and grants of \<^verbatim>\<open>src/auth/Auth.h\<close> with the canonical byte encoding of a namespace, and
  the permission check \<^verbatim>\<open>allows\<close> / \<^verbatim>\<open>allowsAny\<close> of \<^verbatim>\<open>src/auth/Auth.cpp\<close>. Time points are
  nanoseconds of the system clock in a signed 64-bit count.
\<close>

section \<open>Actions\<close>

text \<open>
  \<^verbatim>\<open>enum class Action : uint64_t\<close>. A token carries its actions as numbers and
  \<^verbatim>\<open>static_cast<Action>\<close> keeps every value, also those that are no enumerator, so an action
  is its number.
\<close>

type_synonym action = u64

definition ClientSetup :: action where "ClientSetup = 0"
definition ServerSetup :: action where "ServerSetup = 1"
definition PublishNamespace :: action where "PublishNamespace = 2"
definition SubscribeNamespace :: action where "SubscribeNamespace = 3"
definition Subscribe :: action where "Subscribe = 4"
definition RequestUpdate :: action where "RequestUpdate = 5"
definition Publish :: action where "Publish = 6"
definition Fetch :: action where "Fetch = 7"
definition TrackStatus :: action where "TrackStatus = 8"

lemmas action_defs = ClientSetup_def ServerSetup_def PublishNamespace_def SubscribeNamespace_def
  Subscribe_def RequestUpdate_def Publish_def Fetch_def TrackStatus_def

definition actionName :: "action \<Rightarrow> string" where
  "actionName a =
     (if a = ClientSetup then ''client_setup''
      else if a = ServerSetup then ''server_setup''
      else if a = PublishNamespace then ''publish_namespace''
      else if a = SubscribeNamespace then ''subscribe_namespace''
      else if a = Subscribe then ''subscribe''
      else if a = RequestUpdate then ''request_update''
      else if a = Publish then ''publish''
      else if a = Fetch then ''fetch''
      else if a = TrackStatus then ''track_status''
      else ''unknown'')"

text \<open>\<^verbatim>\<open>std::tolower\<close> on a byte in the C locale.\<close>

definition to_lower :: "char \<Rightarrow> char" where
  "to_lower c = (if 65 \<le> byte c \<and> byte c \<le> 90 then char_of (byte c + 32) else c)"

text \<open>
  \<^verbatim>\<open>canonicalAction\<close>. The white-space trimming is folly's and is the parameter
  \<open>trimWhitespace\<close>.
\<close>

definition normalize :: "(string \<Rightarrow> string) \<Rightarrow> string \<Rightarrow> string" where
  "normalize trimWhitespace name =
     map to_lower (map (\<lambda>c. if c = CHR ''-'' then CHR ''_'' else c) (trimWhitespace name))"

definition canonicalAction :: "(string \<Rightarrow> string) \<Rightarrow> string \<Rightarrow> action option" where
  "canonicalAction trimWhitespace name =
     (let n = normalize trimWhitespace name in
      if n = ''client_setup'' \<or> n = ''setup'' \<or> n = ''0'' then Some ClientSetup
      else if n = ''server_setup'' \<or> n = ''1'' then Some ServerSetup
      else if n = ''publish_namespace'' \<or> n = ''announce'' \<or> n = ''2'' then Some PublishNamespace
      else if n = ''subscribe_namespace'' \<or> n = ''3'' then Some SubscribeNamespace
      else if n = ''subscribe'' \<or> n = ''4'' then Some Subscribe
      else if n = ''request_update'' \<or> n = ''subscribe_update'' \<or> n = ''5'' then Some RequestUpdate
      else if n = ''publish'' \<or> n = ''6'' then Some Publish
      else if n = ''fetch'' \<or> n = ''7'' then Some Fetch
      else if n = ''track_status'' \<or> n = ''8'' then Some TrackStatus
      else None)"

section \<open>Match rules, scopes, grants\<close>

datatype match_rule_type = Exact | Prefix | Suffix | Contains

record match_rule =
  rule_type :: match_rule_type
  rule_value :: string

record scope =
  actions :: "action list"
  namespaceMatches :: "match_rule list"
  trackMatches :: "match_rule list"

type_synonym time_point = int

text \<open>\<^verbatim>\<open>time_point::max()\<close>: the largest signed 64-bit count of nanoseconds.\<close>

definition time_point_max :: time_point where
  "time_point_max = 2 ^ 63 - 1"

record grants =
  expiresAt :: time_point
  scopes :: "scope list"

text \<open>\<^verbatim>\<open>Grants{}\<close>: no expiry, no scope.\<close>

definition empty_grants :: grants where
  "empty_grants = \<lparr>expiresAt = time_point_max, scopes = []\<rparr>"

text \<open>\<^verbatim>\<open>folly::Endian::big(static_cast<uint32_t>(n))\<close> written to four bytes.\<close>

definition be32 :: "nat \<Rightarrow> string" where
  "be32 n = (let m = n mod 2 ^ 32 in
     [char_of (m div 2 ^ 24), char_of (m div 2 ^ 16 mod 256), char_of (m div 2 ^ 8 mod 256),
      char_of (m mod 256)])"

fun canonicalNamespace :: "track_namespace \<Rightarrow> string" where
  "canonicalNamespace [] = []"
| "canonicalNamespace (field # ns) = be32 (length field) @ field @ canonicalNamespace ns"

section \<open>The permission check\<close>

text \<open>\<^verbatim>\<open>std::string_view::find(expected) != npos\<close>.\<close>

definition str_contains :: "string \<Rightarrow> string \<Rightarrow> bool" where
  "str_contains actual expected =
     list_ex (\<lambda>i. take (length expected) (drop i actual) = expected) [0..<Suc (length actual)]"

definition rule_matches :: "string \<Rightarrow> match_rule \<Rightarrow> bool" where
  "rule_matches actual rule =
     (let expected = rule_value rule in
      case rule_type rule of
        Exact \<Rightarrow> actual = expected
      | Prefix \<Rightarrow> take (length expected) actual = expected
      | Suffix \<Rightarrow> length expected \<le> length actual \<and>
                  drop (length actual - length expected) actual = expected
      | Contains \<Rightarrow> str_contains actual expected)"

definition rulesMatch :: "string \<Rightarrow> match_rule list \<Rightarrow> bool" where
  "rulesMatch actual rules = list_all (rule_matches actual) rules"

fun scopes_loop :: "action \<Rightarrow> string \<Rightarrow> string \<Rightarrow> scope list \<Rightarrow> bool" where
  "scopes_loop a nsBytes trackBytes [] = False"
| "scopes_loop a nsBytes trackBytes (s # ss) =
     (if a \<notin> set (actions s) then scopes_loop a nsBytes trackBytes ss
      else if rulesMatch nsBytes (namespaceMatches s) \<and> rulesMatch trackBytes (trackMatches s)
      then True
      else scopes_loop a nsBytes trackBytes ss)"

definition allowsImpl ::
  "grants \<Rightarrow> action \<Rightarrow> track_namespace \<Rightarrow> string option \<Rightarrow> time_point \<Rightarrow> bool" where
  "allowsImpl g a ns track now =
     (if expiresAt g \<le> now then False
      else scopes_loop a (canonicalNamespace ns)
             (case track of None \<Rightarrow> [] | Some t \<Rightarrow> t) (scopes g))"

definition allows_ns :: "grants \<Rightarrow> action \<Rightarrow> track_namespace \<Rightarrow> time_point \<Rightarrow> bool" where
  "allows_ns g a ns now = allowsImpl g a ns None now"

definition allows_track :: "grants \<Rightarrow> action \<Rightarrow> full_track_name \<Rightarrow> time_point \<Rightarrow> bool" where
  "allows_track g a ftn now = allowsImpl g a (trackNamespace ftn) (Some (trackName ftn)) now"

definition allowsAny_ns :: "grants list \<Rightarrow> action \<Rightarrow> track_namespace \<Rightarrow> time_point \<Rightarrow> bool" where
  "allowsAny_ns gs a ns now = list_ex (\<lambda>g. allows_ns g a ns now) gs"

definition allowsAny_track :: "grants list \<Rightarrow> action \<Rightarrow> full_track_name \<Rightarrow> time_point \<Rightarrow> bool" where
  "allowsAny_track gs a ftn now = list_ex (\<lambda>g. allows_track g a ftn now) gs"

section \<open>Statically configured grants\<close>

record anonymous_scope =
  anon_actions :: "action list"
  namespaceSegments :: "string list option"
  namespaceMatchMode :: match_rule_type
  anon_trackName :: "string option"
  trackMatchMode :: match_rule_type

definition anonymous_scope_of :: "anonymous_scope \<Rightarrow> scope" where
  "anonymous_scope_of c =
     \<lparr>actions = anon_actions c,
      namespaceMatches =
        (case namespaceSegments c of None \<Rightarrow> []
         | Some segs \<Rightarrow> [\<lparr>rule_type = namespaceMatchMode c, rule_value = canonicalNamespace segs\<rparr>]),
      trackMatches =
        (case anon_trackName c of None \<Rightarrow> []
         | Some t \<Rightarrow> [\<lparr>rule_type = trackMatchMode c, rule_value = t\<rparr>])\<rparr>"

definition buildAnonymousGrants :: "anonymous_scope list \<Rightarrow> grants" where
  "buildAnonymousGrants configScopes =
     \<lparr>expiresAt = time_point_max, scopes = map anonymous_scope_of configScopes\<rparr>"

section \<open>What a rule means\<close>

fun rule_meaning :: "match_rule_type \<Rightarrow> 'a list \<Rightarrow> 'a list \<Rightarrow> bool" where
  "rule_meaning Exact e a \<longleftrightarrow> a = e"
| "rule_meaning Prefix e a \<longleftrightarrow> prefix e a"
| "rule_meaning Suffix e a \<longleftrightarrow> suffix e a"
| "rule_meaning Contains e a \<longleftrightarrow> sublist e a"

lemma take_eq_prefix: "take (length e) a = e \<longleftrightarrow> prefix e a"
  by (metis append_eq_conv_conj prefix_def append_take_drop_id)

lemma str_contains_sublist: "str_contains a e \<longleftrightarrow> sublist e a"
proof
  assume "str_contains a e"
  then obtain i where "take (length e) (drop i a) = e"
    by (auto simp: str_contains_def list_ex_iff)
  then show "sublist e a"
    unfolding sublist_def by (metis append_take_drop_id)
next
  assume "sublist e a"
  then obtain ps ss where a: "a = ps @ e @ ss" by (auto simp: sublist_def)
  then have "take (length e) (drop (length ps) a) = e" "length ps < Suc (length a)" by auto
  then show "str_contains a e"
    unfolding str_contains_def list_ex_iff by (metis atLeastLessThan_iff le0 set_upt)
qed

lemma rule_matches_meaning: "rule_matches a r \<longleftrightarrow> rule_meaning (rule_type r) (rule_value r) a"
proof (cases "rule_type r")
  case Suffix
  have "length e \<le> length a \<and> drop (length a - length e) a = e \<longleftrightarrow> suffix e a" for e
    by (auto simp: suffix_def) (metis append_take_drop_id)
  with Suffix show ?thesis by (simp add: rule_matches_def)
qed (simp_all add: rule_matches_def take_eq_prefix str_contains_sublist)

lemma scopes_loop_iff:
  "scopes_loop a nb tb ss \<longleftrightarrow>
     (\<exists>s\<in>set ss. a \<in> set (actions s) \<and>
        (\<forall>r\<in>set (namespaceMatches s). rule_meaning (rule_type r) (rule_value r) nb) \<and>
        (\<forall>r\<in>set (trackMatches s). rule_meaning (rule_type r) (rule_value r) tb))"
  by (induction ss) (auto simp: rulesMatch_def list_all_iff rule_matches_meaning)

lemma allows_ns_no_track: "allows_ns g a ns now = allows_track g a \<lparr>trackNamespace = ns, trackName = []\<rparr> now"
  by (simp add: allows_ns_def allows_track_def allowsImpl_def)

section \<open>The canonical encoding\<close>

definition fits32 :: "track_namespace \<Rightarrow> bool" where
  "fits32 ns = list_all (\<lambda>s. length s < 2 ^ 32) ns"

lemma fits32_simps [simp]:
  "fits32 []" "fits32 (s # ns) \<longleftrightarrow> length s < 2 ^ 32 \<and> fits32 ns"
  by (simp_all add: fits32_def)

lemma length_be32 [simp]: "length (be32 n) = 4"
  by (simp add: be32_def Let_def)

definition unbe32 :: "string \<Rightarrow> nat" where
  "unbe32 bs = byte (bs ! 0) * 2 ^ 24 + byte (bs ! 1) * 2 ^ 16 + byte (bs ! 2) * 2 ^ 8 + byte (bs ! 3)"

lemma base256:
  "\<lbrakk>n = 256 * a + r0; a = 256 * b + r1; b = 256 * c + r2\<rbrakk> \<Longrightarrow>
     c * 2 ^ 24 + r2 * 2 ^ 16 + r1 * 2 ^ 8 + r0 = (n::nat)"
  by simp

lemma unbe32_be32:
  assumes "n < 2 ^ 32"
  shows "unbe32 (be32 n) = n"
proof -
  define a b c where "a = n div 256" and "b = a div 256" and "c = b div 256"
  have parts: "n div 2 ^ 8 = a" "n div 2 ^ 16 = b" "n div 2 ^ 24 = c"
    by (simp_all add: a_def b_def c_def div_mult2_eq [symmetric])
  have eqs: "n = 256 * a + n mod 256" "a = 256 * b + a mod 256" "b = 256 * c + b mod 256"
    by (simp_all add: a_def b_def c_def)
  have "c < 256"
    using assms by (simp add: parts(3) [symmetric] less_mult_imp_div_less)
  then have c: "c mod 256 = c" by simp
  have "unbe32 (be32 n) = c mod 256 * 2 ^ 24 + b mod 256 * 2 ^ 16 + a mod 256 * 2 ^ 8 + n mod 256"
    using assms by (simp only: unbe32_def be32_def Let_def mod_less parts nth_Cons_numeral
        byte_char_of mod_mod_trivial) (simp add: nth_Cons')
  also have "\<dots> = n"
    unfolding c by (rule base256 [OF eqs])
  finally show ?thesis .
qed

lemma be32_inject: "\<lbrakk>m < 2 ^ 32; n < 2 ^ 32\<rbrakk> \<Longrightarrow> be32 m = be32 n \<longleftrightarrow> m = n"
  by (metis unbe32_be32)

text \<open>
  The interface the grants rely on: a code word says where it ends. A sequence of such
  words, one after the other, then keeps the prefix order of the coded sequence.
\<close>

locale self_delimiting =
  fixes ok :: "'a \<Rightarrow> bool" and enc :: "'a \<Rightarrow> 'b list"
  assumes enc_nonempty: "enc x \<noteq> []"
    and enc_unique: "\<lbrakk>ok x; ok y; enc x @ r = enc y @ s\<rbrakk> \<Longrightarrow> x = y"
begin

lemma code_prefix_iff:
  "\<lbrakk>list_all ok xs; list_all ok ys\<rbrakk> \<Longrightarrow>
     prefix (concat (map enc xs)) (concat (map enc ys)) \<longleftrightarrow> prefix xs ys"
proof (induction xs arbitrary: ys)
  case Nil
  then show ?case by simp
next
  case (Cons x xs)
  show ?case
  proof (cases ys)
    case Nil
    then show ?thesis by (simp add: enc_nonempty)
  next
    case ys: (Cons y ys')
    have "x = y" if "prefix (enc x @ concat (map enc xs)) (enc y @ concat (map enc ys'))"
      using that Cons.prems ys enc_unique [of x y] by (auto simp: prefix_def) metis
    then show ?thesis
      using Cons.IH [of ys'] Cons.prems ys by auto
  qed
qed

lemma code_inject:
  "\<lbrakk>list_all ok xs; list_all ok ys\<rbrakk> \<Longrightarrow> concat (map enc xs) = concat (map enc ys) \<longleftrightarrow> xs = ys"
  by (metis code_prefix_iff prefix_order.antisym prefix_order.order_refl)

end

interpretation ns_code: self_delimiting "\<lambda>s. length s < 2 ^ 32" "\<lambda>s. be32 (length s) @ s"
proof unfold_locales
  show "be32 (length s) @ s \<noteq> []" for s :: string
    by (metis append_is_Nil_conv length_be32 list.size(3) zero_neq_numeral)
next
  fix x y r s :: string
  assume len: "length x < 2 ^ 32" "length y < 2 ^ 32"
    and eq: "(be32 (length x) @ x) @ r = (be32 (length y) @ y) @ s"
  then have "be32 (length x) = be32 (length y)" "x @ r = y @ s"
    by (simp_all add: append_eq_append_conv)
  with len show "x = y" by (simp add: be32_inject)
qed

lemma canonical_concat: "canonicalNamespace ns = concat (map (\<lambda>s. be32 (length s) @ s) ns)"
  by (induction ns) auto

lemmas canonical_prefix = ns_code.code_prefix_iff [folded canonical_concat fits32_def]
lemmas canonical_inject = ns_code.code_inject [folded canonical_concat fits32_def]

lemma canonical_append: "canonicalNamespace (p @ q) = canonicalNamespace p @ canonicalNamespace q"
  by (induction p) auto

text \<open>Every mode is complete: what it matches segment-wise it matches byte-wise.\<close>

lemma canonical_complete:
  "rule_meaning m p ns \<Longrightarrow> rule_meaning m (canonicalNamespace p) (canonicalNamespace ns)"
  by (cases m) (auto simp: prefix_def suffix_def sublist_def canonical_append, blast)

section \<open>Properties\<close>

text \<open>
  Names of actions round-trip: the canonical name of each of the nine actions is
  recognised as that action, and the placeholder name of any other number is refused,
  whatever trimming does as long as it leaves text without white space alone.
\<close>

theorem action_name_roundtrip:
  assumes "\<And>s. (\<forall>c\<in>set s. c \<notin> set '' '' \<and> 13 < byte c) \<Longrightarrow> trimWhitespace s = s"
  shows "canonicalAction trimWhitespace (actionName a) = (if a \<le> 8 then Some a else None)"
proof (cases "a \<le> 8")
  case True
  then have "a = 0 \<or> a = 1 \<or> a = 2 \<or> a = 3 \<or> a = 4 \<or> a = 5 \<or> a = 6 \<or> a = 7 \<or> a = 8"
    by linarith
  then show ?thesis
    by (elim disjE)
       (simp_all add: canonicalAction_def normalize_def actionName_def action_defs assms to_lower_def byte_def)
next
  case False
  then show ?thesis
    by (simp add: canonicalAction_def normalize_def actionName_def action_defs assms to_lower_def byte_def)
qed

theorem action_name_roundtrip_witness:
  "canonicalAction (\<lambda>s. s) (actionName 4) = Some Subscribe"
  using action_name_roundtrip [of "\<lambda>s. s" 4] by (simp add: Subscribe_def)


definition live_scope :: anonymous_scope where
  "live_scope = \<lparr>anon_actions = [Subscribe, Fetch], namespaceSegments = Some [''live''],
     namespaceMatchMode = Prefix, anon_trackName = Some ''video'', trackMatchMode = Exact\<rparr>"


definition a_scope :: "match_rule_type \<Rightarrow> anonymous_scope" where
  "a_scope m = \<lparr>anon_actions = [SubscribeNamespace], namespaceSegments = Some [''a''],
     namespaceMatchMode = m, anon_trackName = None, trackMatchMode = Exact\<rparr>"

lemma a_scope_allows:
  "rule_meaning m (canonicalNamespace [''a'']) (canonicalNamespace ns) \<Longrightarrow>
     allows_ns (buildAnonymousGrants [a_scope m]) SubscribeNamespace ns 0"
  by (simp add: allows_ns_def allowsImpl_def buildAnonymousGrants_def anonymous_scope_of_def
      scopes_loop_iff time_point_max_def a_scope_def)

text \<open>
  The suffix and contains modes do not have that property: a scope whose namespace rule is
  the suffix (or an infix) \<^verbatim>\<open>["a"]\<close> also covers the one-segment namespace whose only segment
  happens to end in the five bytes of the encoded \<^verbatim>\<open>"a"\<close>, although \<^verbatim>\<open>["a"]\<close> is not a
  segment suffix of it.
\<close>

theorem suffix_mode_crosses_segments:
  "\<exists>seg. \<not> suffix [''a''] [seg] \<and> \<not> sublist [''a''] [seg] \<and>
     allows_ns (buildAnonymousGrants [a_scope Suffix]) SubscribeNamespace [seg] 0 \<and>
     allows_ns (buildAnonymousGrants [a_scope Contains]) SubscribeNamespace [seg] 0"
proof (intro exI conjI)
  let ?seg = "CHR ''x'' # be32 1 @ ''a''"
  have ne: "?seg \<noteq> ''a''" by (simp add: be32_def)
  then show "\<not> suffix [''a''] [?seg]" "\<not> sublist [''a''] [?seg]"
    by (auto simp: suffix_def sublist_def Cons_eq_append_conv)
  have suf: "suffix (be32 1 @ ''a'') (be32 6 @ ?seg)"
    unfolding suffix_def by (rule exI [of _ "be32 6 @ ''x''"]) simp
  then show "allows_ns (buildAnonymousGrants [a_scope Suffix]) SubscribeNamespace [?seg] 0"
    by (intro a_scope_allows) simp
  from suf show "allows_ns (buildAnonymousGrants [a_scope Contains]) SubscribeNamespace [?seg] 0"
    by (intro a_scope_allows) (auto dest: suffix_imp_sublist)
qed

end
