(* ===== verification/Cbor_Reader.thy ===== *)
theory Cbor_Reader
  imports Moqx_Prelude
begin

text \<open>
  The CBOR reader of the authorization code (\<^verbatim>\<open>src/src/auth/CborReader.h\<close>) and the strict
  claim check built on it (\<^verbatim>\<open>hasOnlyEnforcedClaims\<close> in \<^verbatim>\<open>src/src/auth/Auth.cpp\<close>). A reader is
  the string of bytes from \<^verbatim>\<open>pos_\<close> to the end; a failed read is \<open>None\<close> (the callers give up on
  the first failure). An encoder written from RFC 8949 serves as the reference.
\<close>

unbundle bit_operations_syntax

section \<open>The reader\<close>

definition kMajorUnsigned :: nat where "kMajorUnsigned = 0"
definition kMajorNegative :: nat where "kMajorNegative = 1"
definition kMajorByteString :: nat where "kMajorByteString = 2"
definition kMajorTextString :: nat where "kMajorTextString = 3"
definition kMajorArray :: nat where "kMajorArray = 4"
definition kMajorMap :: nat where "kMajorMap = 5"

lemmas majors = kMajorUnsigned_def kMajorNegative_def kMajorByteString_def kMajorTextString_def
  kMajorArray_def kMajorMap_def

definition int64_max :: nat where
  "int64_max = 2 ^ 63 - 1"

text \<open>\<^verbatim>\<open>(value << 8) | byte\<close> on a 64-bit value.\<close>

definition be_step :: "u64 \<Rightarrow> char \<Rightarrow> u64" where
  "be_step value c = (push_bit 8 value mod 2 ^ 64) OR byte c"

definition arg_bytes :: "nat \<Rightarrow> nat option" where
  "arg_bytes addl =
     (if addl = 24 then Some 1 else if addl = 25 then Some 2
      else if addl = 26 then Some 4 else if addl = 27 then Some 8 else None)"

definition readType :: "string \<Rightarrow> (nat \<times> u64 \<times> string) option" where
  "readType r =
     (case r of
        [] \<Rightarrow> None
      | c # rest \<Rightarrow>
          (let first = byte c; major = drop_bit 5 first; addl = first AND 0x1f
           in if addl < 24 then Some (major, addl, rest)
              else (case arg_bytes addl of
                      None \<Rightarrow> None
                    | Some bytes \<Rightarrow>
                        if bytes > length rest then None
                        else Some (major, foldl be_step 0 (take bytes rest), drop bytes rest))))"

definition readUInt :: "string \<Rightarrow> (u64 \<times> string) option" where
  "readUInt r =
     (case readType r of
        None \<Rightarrow> None
      | Some (major, value, r1) \<Rightarrow> if major \<noteq> kMajorUnsigned then None else Some (value, r1))"

definition readInt :: "string \<Rightarrow> (int \<times> string) option" where
  "readInt r =
     (case readType r of
        None \<Rightarrow> None
      | Some (major, value, r1) \<Rightarrow>
          if major = kMajorUnsigned then
            (if value > int64_max then None else Some (int value, r1))
          else if major = kMajorNegative then
            (if value > int64_max then None else Some (- 1 - int value, r1))
          else None)"

definition readBytes :: "string \<Rightarrow> (string \<times> string) option" where
  "readBytes r =
     (case readType r of
        None \<Rightarrow> None
      | Some (major, len, r1) \<Rightarrow>
          if (major \<noteq> kMajorByteString \<and> major \<noteq> kMajorTextString) \<or> len > length r1 then None
          else Some (take len r1, drop len r1))"

definition readArrayLen :: "string \<Rightarrow> (u64 \<times> string) option" where
  "readArrayLen r =
     (case readType r of
        None \<Rightarrow> None
      | Some (major, len, r1) \<Rightarrow> if major = kMajorArray then Some (len, r1) else None)"

definition readMapLen :: "string \<Rightarrow> (u64 \<times> string) option" where
  "readMapLen r =
     (case readType r of
        None \<Rightarrow> None
      | Some (major, len, r1) \<Rightarrow> if major = kMajorMap then Some (len, r1) else None)"

lemma readType_suffix:
  assumes "readType r = Some (m, v, r1)"
  shows "\<exists>pre. r = pre @ r1 \<and> pre \<noteq> []"
proof (cases r)
  case Nil
  with assms show ?thesis by (simp add: readType_def)
next
  case (Cons c rest)
  have "r1 = rest \<or> (\<exists>n. r1 = drop n rest)"
    using assms unfolding Cons readType_def Let_def list.case
    by (simp split: if_splits option.splits) blast
  then obtain n where "r1 = drop n rest" by (metis drop0)
  then have "r = (c # take n rest) @ r1" by (simp add: Cons)
  then show ?thesis by blast
qed

lemma readType_shorter: "readType r = Some (m, v, r1) \<Longrightarrow> length r1 < length r"
  by (auto dest!: readType_suffix)

text \<open>\<^verbatim>\<open>skip\<close> and its element loop (\<open>skip_items n\<close>: \<open>n\<close> iterations are left). The test that an
  element is shorter than what it was read from is always true (\<open>skip_items_eq\<close> below removes
  it); it is what makes the recursion well-founded.\<close>

function skip_item :: "string \<Rightarrow> string option"
  and skip_items :: "nat \<Rightarrow> string \<Rightarrow> string option" where
  "skip_item r =
     (case readType r of
        None \<Rightarrow> None
      | Some (major, value, r1) \<Rightarrow>
          if major = kMajorUnsigned \<or> major = kMajorNegative then Some r1
          else if major = kMajorByteString \<or> major = kMajorTextString then
            (if value > length r1 then None else Some (drop value r1))
          else if major = kMajorArray then skip_items value r1
          else if major = kMajorMap then skip_items ((value * 2) mod 2 ^ 64) r1
          else None)"
| "skip_items n r =
     (if n = 0 then Some r
      else (case skip_item r of
              None \<Rightarrow> None
            | Some r1 \<Rightarrow> if length r1 < length r then skip_items (n - 1) r1 else None))"
  by pat_completeness auto
termination
  by (relation "measures [\<lambda>x. case x of Inl r \<Rightarrow> length r | Inr (n, r) \<Rightarrow> length r,
        \<lambda>x. case x of Inl r \<Rightarrow> 0 | Inr (n, r) \<Rightarrow> 1]")
     (auto dest!: sym [of "Some _"] dest: readType_shorter)

declare skip_item.simps [simp del] skip_items.simps [simp del]

section \<open>The strict claim check\<close>

text \<open>The loop over the claims: \<open>expKey\<close> and \<open>moqtKey\<close> are \<^verbatim>\<open>catapult::CLAIM_EXP\<close> and
  \<^verbatim>\<open>catapult::CLAIM_MOQT\<close>.\<close>

fun claims_loop :: "int \<Rightarrow> int \<Rightarrow> nat \<Rightarrow> bool \<Rightarrow> bool \<Rightarrow> string \<Rightarrow> string option" where
  "claims_loop expKey moqtKey n seenExp seenMoqt r =
     (if n = 0 then Some r
      else (case readInt r of
              None \<Rightarrow> None
            | Some (key, r1) \<Rightarrow>
                if key = expKey then
                  (if seenExp then None
                   else (case readUInt r1 of
                           None \<Rightarrow> None
                         | Some (exp, r2) \<Rightarrow>
                             if exp > int64_max then None
                             else claims_loop expKey moqtKey (n - 1) True seenMoqt r2))
                else if key = moqtKey then
                  (if seenMoqt then None
                   else (case skip_item r1 of
                           None \<Rightarrow> None
                         | Some r2 \<Rightarrow> claims_loop expKey moqtKey (n - 1) seenExp True r2))
                else None))"

declare claims_loop.simps [simp del]

definition hasOnlyEnforcedClaims :: "int \<Rightarrow> int \<Rightarrow> string \<Rightarrow> bool" where
  "hasOnlyEnforcedClaims expKey moqtKey cwtBytes =
     (case readArrayLen cwtBytes of
        None \<Rightarrow> False
      | Some (coseLen, r1) \<Rightarrow>
          if coseLen \<noteq> 4 then False
          else (case skip_item r1 of
                  None \<Rightarrow> False
                | Some r2 \<Rightarrow>
                    (case skip_item r2 of
                       None \<Rightarrow> False
                     | Some r3 \<Rightarrow>
                         (case readBytes r3 of
                            None \<Rightarrow> False
                          | Some (payload, _) \<Rightarrow>
                              (case readMapLen payload of
                                 None \<Rightarrow> False
                               | Some (numClaims, r) \<Rightarrow>
                                   claims_loop expKey moqtKey numClaims False False r = Some [])))))"

section \<open>Reading makes progress\<close>

lemma drop_suffix: "\<exists>pre. xs = pre @ drop n xs"
  by (metis append_take_drop_id)

lemma skip_suffix:
  shows "skip_item r = Some r1 \<Longrightarrow> \<exists>pre. r = pre @ r1 \<and> pre \<noteq> []"
    and "skip_items n r = Some r1 \<Longrightarrow> \<exists>pre. r = pre @ r1"
proof (induction r and n r arbitrary: r1 and r1 rule: skip_item_skip_items.induct)
  case (1 r)
  from "1.prems" obtain m v r0 where rt: "readType r = Some (m, v, r0)"
    by (auto simp: skip_item.simps [of r] split: option.splits)
  from readType_suffix [OF rt] obtain pre where pre: "r = pre @ r0" "pre \<noteq> []" by blast
  have "\<exists>pre'. r0 = pre' @ r1"
    using "1.prems" "1.IH" [OF rt refl refl]
    by (auto simp: skip_item.simps [of r] rt majors drop_suffix split: if_splits)
  with pre show ?case by auto
next
  case (2 n r)
  show ?case
  proof (cases "n = 0")
    case True
    with "2.prems" show ?thesis by (simp add: skip_items.simps)
  next
    case False
    with "2.prems" obtain r2 where r2: "skip_item r = Some r2" "length r2 < length r"
      "skip_items (n - 1) r2 = Some r1"
      by (auto simp: skip_items.simps [of n r] split: option.splits if_splits)
    from "2.IH"(1) [OF False r2(1)] "2.IH"(2) [OF False r2] show ?thesis
      by auto
  qed
qed

lemma skip_items_eq:
  "skip_items n r =
     (if n = 0 then Some r
      else (case skip_item r of None \<Rightarrow> None | Some r1 \<Rightarrow> skip_items (n - 1) r1))"
proof -
  have "length r1 < length r" if "skip_item r = Some r1" for r1
    using skip_suffix(1) [OF that] by auto
  then show ?thesis
    by (subst skip_items.simps) (auto split: option.splits)
qed

section \<open>The reference encoder of RFC 8949\<close>

datatype item =
    UInt nat
  | NInt nat
  | Bytes string
  | Text string
  | Arr "item list"
  | Map "(item \<times> item) list"

fun be_bytes :: "nat \<Rightarrow> nat \<Rightarrow> string" where
  "be_bytes 0 v = []"
| "be_bytes (Suc n) v = be_bytes n (v div 256) @ [char_of v]"

definition enc_head :: "nat \<Rightarrow> nat \<Rightarrow> string" where
  "enc_head major v =
     (if v < 24 then [char_of (major * 32 + v)]
      else if v < 2 ^ 8 then char_of (major * 32 + 24) # be_bytes 1 v
      else if v < 2 ^ 16 then char_of (major * 32 + 25) # be_bytes 2 v
      else if v < 2 ^ 32 then char_of (major * 32 + 26) # be_bytes 4 v
      else char_of (major * 32 + 27) # be_bytes 8 v)"

fun enc_item :: "item \<Rightarrow> string" where
  "enc_item (UInt v) = enc_head kMajorUnsigned v"
| "enc_item (NInt v) = enc_head kMajorNegative v"
| "enc_item (Bytes s) = enc_head kMajorByteString (length s) @ s"
| "enc_item (Text s) = enc_head kMajorTextString (length s) @ s"
| "enc_item (Arr xs) = enc_head kMajorArray (length xs) @ concat (map enc_item xs)"
| "enc_item (Map kvs) =
     enc_head kMajorMap (length kvs) @ concat (map (\<lambda>(k, v). enc_item k @ enc_item v) kvs)"

text \<open>Every length and argument fits its 64-bit head, and a map's elements can be counted
  in 64 bits.\<close>

fun item_ok :: "item \<Rightarrow> bool" where
  "item_ok (UInt v) = (v < 2 ^ 64)"
| "item_ok (NInt v) = (v < 2 ^ 64)"
| "item_ok (Bytes s) = (length s < 2 ^ 64)"
| "item_ok (Text s) = (length s < 2 ^ 64)"
| "item_ok (Arr xs) = (length xs < 2 ^ 64 \<and> list_all item_ok xs)"
| "item_ok (Map kvs) = (2 * length kvs < 2 ^ 64 \<and> list_all (\<lambda>(k, v). item_ok k \<and> item_ok v) kvs)"

lemma shift_or_byte:
  assumes "b < 256"
  shows "push_bit 8 (x::nat) OR b = x * 256 + b"
proof -
  have "take_bit 8 b = b"
    using assms by (simp add: take_bit_eq_mod)
  moreover have "push_bit 8 x AND take_bit 8 b = 0"
    by (rule bit_eqI) (auto simp: bit_simps)
  ultimately have "push_bit 8 x AND b = 0"
    by simp
  then show ?thesis
    using disjunctive_add_eq_or [of "push_bit 8 x" b] by (simp add: push_bit_eq_mult)
qed

lemma length_be_bytes [simp]: "length (be_bytes n v) = n"
  by (induction n arbitrary: v) auto

lemma be_decode:
  "n \<le> 8 \<Longrightarrow> v < 256 ^ n \<Longrightarrow> foldl be_step 0 (be_bytes n v) = v"
proof (induction n arbitrary: v)
  case 0
  then show ?case by simp
next
  case (Suc n)
  have lt: "v div 256 < 256 ^ n"
    using Suc.prems(2) by (simp add: less_mult_imp_div_less mult.commute)
  have "256 ^ n \<le> (256::nat) ^ 7"
    using Suc.prems(1) by (intro power_increasing) auto
  with lt have "v div 256 < 256 ^ 7" by linarith
  then have "push_bit 8 (v div 256) mod 2 ^ 64 = push_bit 8 (v div 256)"
    by (simp add: push_bit_eq_mult)
  with Suc.IH [of "v div 256"] lt Suc.prems(1) show ?case
    by (simp add: be_step_def shift_or_byte)
qed

lemma head_byte:
  fixes m a :: nat
  assumes "m < 8" and "a < 32"
  shows "drop_bit 5 (m * 32 + a) = m" and "m * 32 + a AND 31 = a"
proof -
  show "drop_bit 5 (m * 32 + a) = m"
    using assms by (simp add: drop_bit_eq_div)
  show "m * 32 + a AND 31 = a"
    using assms take_bit_eq_mask [of 5 "m * 32 + a"] by (simp add: take_bit_eq_mod mask_eq_exp_minus_1)
qed

lemma readType_arg:
  assumes "m < 8" and "24 \<le> a" and "a < 32" and "arg_bytes a = Some n" and "n \<le> 8" and "v < 256 ^ n"
  shows "readType (char_of (m * 32 + a) # be_bytes n v @ rest) = Some (m, v, rest)"
  using assms by (simp add: readType_def Let_def head_byte be_decode)

lemma readType_enc_head:
  assumes "m < 8" and "v < 2 ^ 64"
  shows "readType (enc_head m v @ rest) = Some (m, v, rest)"
proof -
  consider "v < 24" | "24 \<le> v" "v < 2 ^ 8" | "2 ^ 8 \<le> v" "v < 2 ^ 16" | "2 ^ 16 \<le> v" "v < 2 ^ 32"
    | "2 ^ 32 \<le> v"
    by linarith
  then show ?thesis
  proof cases
    case 1
    with assms(1) show ?thesis
      by (simp add: enc_head_def readType_def Let_def head_byte)
  next
    case 2
    then show ?thesis
      using readType_arg [OF assms(1), of 24 1 v rest] by (simp add: enc_head_def arg_bytes_def)
  next
    case 3
    then show ?thesis
      using readType_arg [OF assms(1), of 25 2 v rest] by (simp add: enc_head_def arg_bytes_def)
  next
    case 4
    then show ?thesis
      using readType_arg [OF assms(1), of 26 4 v rest] by (simp add: enc_head_def arg_bytes_def)
  next
    case 5
    then show ?thesis
      using readType_arg [OF assms(1), of 27 8 v rest] assms(2) by (simp add: enc_head_def arg_bytes_def)
  qed
qed

lemma skip_items_concat:
  assumes "\<And>x rest. x \<in> set xs \<Longrightarrow> skip_item (f x @ rest) = Some rest"
  shows "skip_items (length xs) (concat (map f xs) @ rest) = Some rest"
  using assms
  by (induction xs) (simp add: skip_items.simps, subst skip_items_eq, simp)

lemma skip_items_pairs:
  assumes "\<And>k v rest. (k, v) \<in> set kvs \<Longrightarrow>
      skip_item (enc_item k @ rest) = Some rest \<and> skip_item (enc_item v @ rest) = Some rest"
  shows "skip_items (2 * length kvs)
      (concat (map (\<lambda>(k, v). enc_item k @ enc_item v) kvs) @ rest) = Some rest"
  using assms
proof (induction kvs)
  case Nil
  then show ?case by (simp add: skip_items.simps)
next
  case (Cons kv kvs)
  obtain k v where kv: "kv = (k, v)" by (cases kv)
  have two: "2 * length (kv # kvs) = Suc (Suc (2 * length kvs))" by simp
  show ?case
    using Cons.prems [of k v] Cons.IH [OF Cons.prems]
    unfolding two
    by (subst skip_items_eq, simp add: kv, subst skip_items_eq, simp)
qed

lemma skip_enc_item: "item_ok it \<Longrightarrow> skip_item (enc_item it @ rest) = Some rest"
proof (induction it arbitrary: rest)
  case (UInt v)
  then show ?case
    using readType_enc_head [of kMajorUnsigned v rest] by (subst skip_item.simps) (simp add: majors)
next
  case (NInt v)
  then show ?case
    using readType_enc_head [of kMajorNegative v rest] by (subst skip_item.simps) (simp add: majors)
next
  case (Bytes s)
  then show ?case
    using readType_enc_head [of kMajorByteString "length s" "s @ rest"]
    by (subst skip_item.simps) (simp add: majors)
next
  case (Text s)
  then show ?case
    using readType_enc_head [of kMajorTextString "length s" "s @ rest"]
    by (subst skip_item.simps) (simp add: majors)
next
  case (Arr xs)
  then have "skip_items (length xs) (concat (map enc_item xs) @ rest) = Some rest"
    by (intro skip_items_concat) (simp add: list_all_iff)
  with Arr.prems show ?case
    using readType_enc_head [of kMajorArray "length xs" "concat (map enc_item xs) @ rest"]
    by (subst skip_item.simps) (simp add: majors)
next
  case (Map kvs)
  have "skip_items (2 * length kvs)
      (concat (map (\<lambda>(k, v). enc_item k @ enc_item v) kvs) @ rest) = Some rest"
    by (rule skip_items_pairs) (use Map in \<open>fastforce simp: list_all_iff\<close>)
  with Map.prems show ?case
    using readType_enc_head [of kMajorMap "length kvs"
        "concat (map (\<lambda>(k, v). enc_item k @ enc_item v) kvs) @ rest"]
    by (subst skip_item.simps) (simp add: majors mult.commute)
qed

section \<open>What the strict check accepts\<close>

text \<open>The claims as they stand in the payload: each key with the bytes its value starts at.\<close>

fun parse_claims :: "nat \<Rightarrow> string \<Rightarrow> ((int \<times> string) list \<times> string) option" where
  "parse_claims 0 r = Some ([], r)"
| "parse_claims (Suc n) r =
     (case readInt r of
        None \<Rightarrow> None
      | Some (key, r1) \<Rightarrow>
          (case skip_item r1 of
             None \<Rightarrow> None
           | Some r2 \<Rightarrow>
               (case parse_claims n r2 of
                  None \<Rightarrow> None
                | Some (cs, r3) \<Rightarrow> Some ((key, r1) # cs, r3))))"

definition cose_payload :: "string \<Rightarrow> string option" where
  "cose_payload bytes =
     (case readArrayLen bytes of
        Some (len, r1) \<Rightarrow>
          (if len = 4 then map_option fst (Option.bind (Option.bind (skip_item r1) skip_item) readBytes)
           else None)
      | None \<Rightarrow> None)"

definition exp_value_ok :: "string \<Rightarrow> bool" where
  "exp_value_ok v = (case readUInt v of None \<Rightarrow> False | Some (x, _) \<Rightarrow> x \<le> int64_max)"

lemma readUInt_skip: "readUInt r = Some (x, r1) \<Longrightarrow> skip_item r = Some r1"
  by (subst skip_item.simps) (auto simp: readUInt_def majors split: option.splits if_splits)

lemma claims_loop_Suc:
  "claims_loop e m (Suc n) seenExp seenMoqt r =
     (case readInt r of
        None \<Rightarrow> None
      | Some (key, r1) \<Rightarrow>
          if key = e then
            (if seenExp then None
             else (case readUInt r1 of None \<Rightarrow> None
                   | Some (x, r2) \<Rightarrow> if x > int64_max then None else claims_loop e m n True seenMoqt r2))
          else if key = m then
            (if seenMoqt then None
             else (case skip_item r1 of None \<Rightarrow> None | Some r2 \<Rightarrow> claims_loop e m n seenExp True r2))
          else None)"
  by (subst claims_loop.simps) (auto split: option.splits)

lemma claims_loop_iff:
  assumes "e \<noteq> m"
  shows "claims_loop e m n seenExp seenMoqt r = Some r' \<longleftrightarrow>
    (\<exists>cs. parse_claims n r = Some (cs, r') \<and> distinct (map fst cs) \<and> fst ` set cs \<subseteq> {e, m} \<and>
       (seenExp \<longrightarrow> e \<notin> fst ` set cs) \<and> (seenMoqt \<longrightarrow> m \<notin> fst ` set cs) \<and>
       (\<forall>c\<in>set cs. fst c = e \<longrightarrow> exp_value_ok (snd c)))"
proof (induction n arbitrary: seenExp seenMoqt r)
  case 0
  then show ?case by (simp add: claims_loop.simps)
next
  case (Suc n)
  show ?case
  proof (cases "readInt r")
    case None
    then show ?thesis by (simp add: claims_loop_Suc)
  next
    case (Some kr)
    then obtain key r1 where rd: "readInt r = Some (key, r1)" by (cases kr) auto
    consider (exp) "key = e" | (moqt) "key = m" "key \<noteq> e" | (other) "key \<noteq> e" "key \<noteq> m" by blast
    then show ?thesis
    proof cases
      case exp
      show ?thesis
      proof (cases "readUInt r1")
        case None
        then show ?thesis
          by (auto simp: claims_loop_Suc rd exp exp_value_ok_def split: option.splits)
      next
        case (Some xr)
        then obtain x r2 where x: "readUInt r1 = Some (x, r2)" by (cases xr) auto
        show ?thesis
          using Suc.IH [of True seenMoqt r2] assms
          by (auto simp: claims_loop_Suc rd exp x readUInt_skip [OF x] exp_value_ok_def
              split: option.splits)
      qed
    next
      case moqt
      then show ?thesis
        using Suc.IH [of seenExp True] by (auto simp: claims_loop_Suc rd split: option.splits)
    next
      case other
      then show ?thesis by (auto simp: claims_loop_Suc rd split: option.splits)
    qed
  qed
qed

lemma hasOnlyEnforcedClaims_payload:
  "hasOnlyEnforcedClaims e m bytes \<longleftrightarrow>
     (\<exists>payload n r. cose_payload bytes = Some payload \<and> readMapLen payload = Some (n, r) \<and>
        claims_loop e m n False False r = Some [])"
  by (auto simp: hasOnlyEnforcedClaims_def cose_payload_def split: option.splits prod.splits)

section \<open>Properties\<close>

text \<open>C39. Skipping is the inverse of encoding: after any well-formed CBOR item, however deeply
  nested, \<^verbatim>\<open>skip\<close> succeeds and leaves the reader exactly behind it.\<close>

theorem skip_encoded_item:
  assumes "item_ok it"
  shows "skip_item (enc_item it @ rest) = Some rest"
  using assms by (rule skip_enc_item)

theorem skip_encoded_item_witness:
  "skip_item (enc_item (Map [(UInt 4, Arr [Bytes ''abc'', NInt 300])]) @ ''tail'') = Some ''tail''"
  by (rule skip_encoded_item) simp

text \<open>Skipping always ends and never runs past the buffer: a successful \<^verbatim>\<open>skip\<close> has
  consumed a non-empty prefix of the bytes that were left, and the element loop is the plain
  counted loop of the source.\<close>

theorem skip_progress:
  "(skip_item r = Some r1 \<longrightarrow> (\<exists>pre. pre \<noteq> [] \<and> r = pre @ r1)) \<and>
   skip_items n r =
     (if n = 0 then Some r
      else (case skip_item r of None \<Rightarrow> None | Some r2 \<Rightarrow> skip_items (n - 1) r2))"
  using skip_suffix(1) [of r r1] skip_items_eq [of n r] by blast

theorem skip_progress_witness:
  "skip_item ''!!'' = Some ''!'' \<and> (\<exists>pre. pre \<noteq> [] \<and> ''!!'' = pre @ ''!'')"
proof -
  have s: "skip_item ''!!'' = Some ''!''"
    by (subst skip_item.simps) (simp add: readType_def byte_def majors drop_bit_eq_div)
  with skip_progress [of "''!!''" "''!''" 0] show ?thesis by blast
qed

text \<open>The number of elements of a map is doubled in 64 bits, so a map head announcing
  \<open>2 ^ 63\<close> pairs is skipped as an empty map: the truncated item is accepted and the reader is
  left directly behind its head.\<close>

theorem skip_map_count_wraps: "skip_item (enc_head kMajorMap (2 ^ 63) @ rest) = Some rest"
  using readType_enc_head [of kMajorMap "2 ^ 63" rest]
  by (subst skip_item.simps) (simp add: majors skip_items.simps)

text \<open>C25. The strict check accepts exactly the messages whose payload is one CBOR map, used up
  to its last byte, whose keys are distinct and among the two enforced claims, with an expiry
  that is an unsigned integer within the signed 64-bit range.\<close>

theorem strict_claims_iff:
  assumes "e \<noteq> m"
  shows "hasOnlyEnforcedClaims e m bytes \<longleftrightarrow>
    (\<exists>payload n r cs. cose_payload bytes = Some payload \<and> readMapLen payload = Some (n, r) \<and>
       parse_claims n r = Some (cs, []) \<and> distinct (map fst cs) \<and> fst ` set cs \<subseteq> {e, m} \<and>
       (\<forall>c\<in>set cs. fst c = e \<longrightarrow> exp_value_ok (snd c)))"
  by (simp add: hasOnlyEnforcedClaims_payload claims_loop_iff [OF assms])

definition demo_claims :: string where
  "demo_claims = enc_item (Map [(UInt 4, UInt 1700000000)])"

definition demo_cwt :: string where
  "demo_cwt = enc_item (Arr [Bytes [], Map [], Bytes demo_claims, Bytes []])"

lemma length_demo_claims: "length demo_claims = 7"
  by (simp add: demo_claims_def enc_head_def)

lemma demo_cwt_accepted: "hasOnlyEnforcedClaims 4 327 demo_cwt"
proof -
  let ?r3 = "enc_item (Bytes demo_claims) @ enc_item (Bytes [])"
  have arr: "readArrayLen demo_cwt = Some (4, enc_item (Bytes []) @ enc_item (Map []) @ ?r3)"
    by (simp only: demo_cwt_def enc_item.simps(5) readArrayLen_def append_assoc)
       (simp add: readType_enc_head majors del: enc_item.simps)
  have pay: "readBytes ?r3 = Some (demo_claims, enc_item (Bytes []))"
    by (simp only: readBytes_def enc_item.simps(3) append_assoc)
       (simp add: readType_enc_head majors length_demo_claims del: enc_item.simps)
  have map: "readMapLen demo_claims = Some (1, enc_item (UInt 4) @ enc_item (UInt 1700000000))"
    by (simp only: readMapLen_def demo_claims_def enc_item.simps(6))
       (simp add: readType_enc_head majors del: enc_item.simps)
  have val: "readUInt (enc_item (UInt 1700000000)) = Some (1700000000, [])"
    using readType_enc_head [of 0 1700000000 "[]"] by (simp add: readUInt_def majors)
  have key: "readInt (enc_item (UInt 4) @ r) = Some (4, r)" for r
    using readType_enc_head [of 0 4 r] by (simp add: readInt_def majors int64_max_def)
  have "claims_loop 4 327 1 False False (enc_item (UInt 4) @ enc_item (UInt 1700000000)) = Some []"
    by (simp only: One_nat_def claims_loop_Suc key val)
       (simp add: val int64_max_def claims_loop.simps del: enc_item.simps)
  then show ?thesis
    by (simp add: hasOnlyEnforcedClaims_def arr pay map skip_enc_item del: enc_item.simps)
qed

theorem strict_claims_iff_witness:
  "hasOnlyEnforcedClaims 4 327 demo_cwt \<and>
   (\<exists>payload n r cs. cose_payload demo_cwt = Some payload \<and> readMapLen payload = Some (n, r) \<and>
       parse_claims n r = Some (cs, []) \<and> fst ` set cs \<subseteq> {4, 327})"
  using demo_cwt_accepted strict_claims_iff [of 4 327 demo_cwt] by auto

end
