(* ===== verification/Auth_Verifier.thy ===== *)
theory Auth_Verifier
  imports Auth_Grants Cbor_Reader
begin

text \<open>
  Token verification and request authorization: \<^verbatim>\<open>AuthTokenVerifier\<close>,
  \<^verbatim>\<open>authenticateSetup\<close> and \<^verbatim>\<open>authorize\<close> of \<^verbatim>\<open>src/auth/Auth.cpp\<close>, and the per-session request
  gate of \<^verbatim>\<open>src/relay/AuthFilters.cpp\<close>. The CAT token library, the key derivation and the wire
  number of the token parameter are not part of the program; they are the fields of
  \<open>cat_api\<close>, a parameter of every definition that uses them. Every reading of the system clock
  is an argument: \<open>clk i\<close> while the i-th token of a message is verified and \<open>now\<close> when the
  grants are consulted.
\<close>

section \<open>What the token library hands over\<close>

datatype binary_match_type = EXACT | PREFIX | SUFFIX | CONTAINS | Unrecognized int

record cat_match =
  is_empty :: bool
  conditions :: "(binary_match_type \<times> string) list"

record cat_scope =
  cat_actions :: "int list"
  namespace_match :: cat_match
  track_match :: cat_match

record cat_token =
  exp :: "int option"
  moqt :: "cat_scope list option"

datatype cwt_result = Cwt cat_token | CryptoError | CatError

text \<open>
  \<open>decodeHeader\<close> is \<open>None\<close> when it throws, else the optional key id; \<open>deriveHmacKey\<close> is \<open>None\<close>
  when it throws.
\<close>

record cat_api =
  decodeHeader :: "string \<Rightarrow> string option option"
  validateCwt :: "string \<Rightarrow> string \<Rightarrow> cwt_result"
  deriveHmacKey :: "string \<Rightarrow> string option"
  claimExp :: int
  claimMoqt :: int
  authKey :: u64

section \<open>Tokens to grants\<close>

datatype auth_error =
  Missing | WrongTokenType | Malformed | BadSignature | Expired | Forbidden | TooManyTokens

fun fromCatapultMatchType :: "binary_match_type \<Rightarrow> match_rule_type" where
  "fromCatapultMatchType EXACT = Exact"
| "fromCatapultMatchType PREFIX = Prefix"
| "fromCatapultMatchType SUFFIX = Suffix"
| "fromCatapultMatchType CONTAINS = Contains"
| "fromCatapultMatchType (Unrecognized _) = Exact"

definition fromCatapultMatch :: "cat_match \<Rightarrow> match_rule list" where
  "fromCatapultMatch m =
     (if is_empty m then []
      else map (\<lambda>(t, p). \<lparr>rule_type = fromCatapultMatchType t, rule_value = p\<rparr>) (conditions m))"

text \<open>The signed 64-bit value a product of seconds and nanoseconds per second wraps to.\<close>

definition time_of_seconds :: "int \<Rightarrow> time_point" where
  "time_of_seconds s = wrap_i64 (s * 10 ^ 9)"

definition scope_of_cat :: "cat_scope \<Rightarrow> scope" where
  "scope_of_cat cs =
     \<lparr>actions = map nat (filter (\<lambda>a. \<not> a < 0) (cat_actions cs)),
      namespaceMatches = fromCatapultMatch (namespace_match cs),
      trackMatches = fromCatapultMatch (track_match cs)\<rparr>"

definition grantsFromToken :: "cat_token \<Rightarrow> grants" where
  "grantsFromToken t =
     \<lparr>expiresAt = (case exp t of None \<Rightarrow> time_point_max | Some s \<Rightarrow> time_of_seconds s),
      scopes = (case moqt t of None \<Rightarrow> [] | Some css \<Rightarrow> map scope_of_cat css)\<rparr>"

section \<open>The verifier\<close>

record hmac_key =
  key_id :: string
  secret :: string

record auth_config =
  enabled :: bool
  tokenType :: u64
  hmacKeys :: "hmac_key list"
  requireSetupToken :: bool
  allowRequestTokenOverride :: bool
  strictClaims :: bool
  anonymousClaim :: "anonymous_scope list"
  maxTokensPerMessage :: nat

record verifier =
  config :: auth_config
  derivedKeys :: "(string \<times> string) list"
  keyIdIndex :: "string \<rightharpoonup> nat"
  anonymousGrants :: grants

record auth_token =
  token_type :: u64
  tokenValue :: string

text \<open>The constructor; \<open>None\<close> when a key derivation throws.\<close>

fun key_loop ::
  "cat_api \<Rightarrow> hmac_key list \<Rightarrow> (string \<times> string) list \<Rightarrow> (string \<rightharpoonup> nat) \<Rightarrow>
   ((string \<times> string) list \<times> (string \<rightharpoonup> nat)) option" where
  "key_loop api [] derived idx = Some (derived, idx)"
| "key_loop api (k # ks) derived idx =
     (case deriveHmacKey api (secret k) of None \<Rightarrow> None
      | Some dk \<Rightarrow>
          key_loop api ks (derived @ [(key_id k, dk)])
            (if key_id k \<noteq> [] \<and> idx (key_id k) = None
             then idx(key_id k \<mapsto> length derived) else idx))"

definition AuthTokenVerifier :: "cat_api \<Rightarrow> auth_config \<Rightarrow> verifier option" where
  "AuthTokenVerifier api cfg =
     (case key_loop api (hmacKeys cfg) [] Map.empty of None \<Rightarrow> None
      | Some (derived, idx) \<Rightarrow>
          Some \<lparr>config = cfg, derivedKeys = derived, keyIdIndex = idx,
                anonymousGrants = buildAnonymousGrants (anonymousClaim cfg)\<rparr>)"

definition tryVerify ::
  "cat_api \<Rightarrow> auth_config \<Rightarrow> string \<Rightarrow> time_point \<Rightarrow> string \<Rightarrow> auth_error + grants" where
  "tryVerify api cfg tok now key =
     (case validateCwt api tok key of
        CryptoError \<Rightarrow> Inl BadSignature
      | CatError \<Rightarrow> Inl Malformed
      | Cwt payload \<Rightarrow>
          (let g = grantsFromToken payload in
           if expiresAt g \<le> now then Inl Expired
           else if strictClaims cfg \<and> \<not> hasOnlyEnforcedClaims (claimExp api) (claimMoqt api) tok
           then Inl Malformed
           else Inr g))"

fun trial_loop ::
  "cat_api \<Rightarrow> auth_config \<Rightarrow> string \<Rightarrow> time_point \<Rightarrow> (string \<times> string) list \<Rightarrow> auth_error + grants" where
  "trial_loop api cfg tok now [] = Inl BadSignature"
| "trial_loop api cfg tok now ((i, key) # ks) =
     (let r = tryVerify api cfg tok now key in
      if r \<noteq> Inl BadSignature then r else trial_loop api cfg tok now ks)"

definition verify :: "cat_api \<Rightarrow> verifier \<Rightarrow> auth_token \<Rightarrow> time_point \<Rightarrow> auth_error + grants" where
  "verify api v t now =
     (if \<not> enabled (config v) then Inr empty_grants
      else if token_type t \<noteq> tokenType (config v) then Inl WrongTokenType
      else if tokenValue t = [] then Inl Malformed
      else case decodeHeader api (tokenValue t) of
        None \<Rightarrow> Inl Malformed
      | Some (Some kid) \<Rightarrow>
          (case keyIdIndex v kid of
             None \<Rightarrow> Inl BadSignature
           | Some i \<Rightarrow> tryVerify api (config v) (tokenValue t) now (snd (derivedKeys v ! i)))
      | Some None \<Rightarrow> trial_loop api (config v) (tokenValue t) now (derivedKeys v))"

section \<open>Messages\<close>

record parameter =
  param_key :: u64
  asAuthToken :: auth_token

definition findAuthTokens :: "cat_api \<Rightarrow> parameter list \<Rightarrow> u64 \<Rightarrow> auth_token list" where
  "findAuthTokens api params tt =
     map asAuthToken
       (filter (\<lambda>p. param_key p = authKey api \<and> token_type (asAuthToken p) = tt) params)"

text \<open>\<^verbatim>\<open>verifyTokens\<close>: the pooled grants and the first error; token number \<open>i\<close> is looked at
  at time \<open>clk i\<close>.\<close>

fun verifyTokens ::
  "cat_api \<Rightarrow> verifier \<Rightarrow> (nat \<Rightarrow> time_point) \<Rightarrow> nat \<Rightarrow> auth_token list \<Rightarrow> grants list \<Rightarrow>
   auth_error option \<Rightarrow> grants list \<times> auth_error option" where
  "verifyTokens api v clk i [] gs firstError = (gs, firstError)"
| "verifyTokens api v clk i (t # ts) gs firstError =
     (case verify api v t (clk i) of
        Inl e \<Rightarrow> verifyTokens api v clk (Suc i) ts gs
                  (if firstError = None then Some e else firstError)
      | Inr g \<Rightarrow> verifyTokens api v clk (Suc i) ts (gs @ [g]) firstError)"

definition denialError :: "grants list \<Rightarrow> auth_error option \<Rightarrow> auth_error" where
  "denialError verified firstError =
     (if verified = [] then (case firstError of None \<Rightarrow> Forbidden | Some e \<Rightarrow> e) else Forbidden)"

text \<open>\<^verbatim>\<open>authenticateSetup\<close>; \<open>Inr None\<close> is the null pointer returned when auth is disabled.\<close>

definition authenticateSetup ::
  "cat_api \<Rightarrow> verifier \<Rightarrow> parameter list \<Rightarrow> (nat \<Rightarrow> time_point) \<Rightarrow> time_point \<Rightarrow>
   auth_error + grants list option" where
  "authenticateSetup api v params clk now =
     (if \<not> enabled (config v) then Inr None
      else
        let tokens = findAuthTokens api params (tokenType (config v)) in
        if length tokens > maxTokensPerMessage (config v) then Inl TooManyTokens
        else
          let (verified, firstError) = verifyTokens api v clk 0 tokens [] None in
          if requireSetupToken (config v) then
            if tokens = [] then Inl Missing
            else if \<not> allowsAny_ns verified ClientSetup [] now
            then Inl (denialError verified firstError)
            else Inr (Some verified)
          else Inr (Some verified))"

definition authorize ::
  "cat_api \<Rightarrow> verifier \<Rightarrow> action \<Rightarrow> parameter list \<Rightarrow> track_namespace \<Rightarrow> grants list \<Rightarrow>
   string option \<Rightarrow> (nat \<Rightarrow> time_point) \<Rightarrow> time_point \<Rightarrow> auth_error + unit" where
  "authorize api v a params ns sessionGrants track clk now =
     (if \<not> enabled (config v) then Inr ()
      else
        let tokens = findAuthTokens api params (tokenType (config v)) in
        if length tokens > maxTokensPerMessage (config v) then Inl TooManyTokens
        else
          let (requestGrants, firstError) =
                (if allowRequestTokenOverride (config v)
                 then verifyTokens api v clk 0 tokens [] None else ([], None));
              permitted =
                (case track of
                   Some t \<Rightarrow>
                     (let ftn = \<lparr>trackNamespace = ns, trackName = t\<rparr> in
                      allowsAny_track requestGrants a ftn now \<or>
                      allowsAny_track sessionGrants a ftn now \<or>
                      allows_track (anonymousGrants v) a ftn now)
                 | None \<Rightarrow>
                     allowsAny_ns requestGrants a ns now \<or>
                     allowsAny_ns sessionGrants a ns now \<or>
                     allows_ns (anonymousGrants v) a ns now)
          in if \<not> permitted then Inl (denialError requestGrants firstError) else Inr ())"

definition toString :: "auth_error \<Rightarrow> string" where
  "toString e = (case e of
      Missing \<Rightarrow> ''missing authorization token''
    | WrongTokenType \<Rightarrow> ''wrong authorization token type''
    | Malformed \<Rightarrow> ''malformed authorization token''
    | BadSignature \<Rightarrow> ''invalid authorization token signature''
    | Expired \<Rightarrow> ''expired authorization token''
    | Forbidden \<Rightarrow> ''authorization token does not permit action''
    | TooManyTokens \<Rightarrow> ''too many authorization tokens in message'')"

section \<open>The request gate of a session\<close>

text \<open>
  A handler of the filters either forwards the request to the component behind it or
  answers \<^verbatim>\<open>UNAUTHORIZED\<close> with the request's id and the reason.
\<close>

datatype 'r outcome = Forward 'r | Unauthorized u64 string

record track_request =
  requestID :: u64
  req_params :: "parameter list"
  fullTrackName :: full_track_name

record ns_request =
  nsRequestID :: u64
  ns_params :: "parameter list"
  trackNamespacePrefix :: track_namespace

record auth_filter =
  f_verifier :: verifier
  f_grants :: "grants list"
  f_peeringEnabled :: bool

definition kRelayAuthTokenType :: u64 where
  "kRelayAuthTokenType = 0x1B2C3D4E5F6A7B8C"

fun getPeerRelayID :: "cat_api \<Rightarrow> parameter list \<Rightarrow> string option" where
  "getPeerRelayID api [] = None"
| "getPeerRelayID api (p # ps) =
     (if param_key p = authKey api \<and> token_type (asAuthToken p) = kRelayAuthTokenType
      then Some (tokenValue (asAuthToken p)) else getPeerRelayID api ps)"

definition filter_subscribe ::
  "cat_api \<Rightarrow> auth_filter \<Rightarrow> track_request \<Rightarrow> (nat \<Rightarrow> time_point) \<Rightarrow> time_point \<Rightarrow>
   track_request outcome" where
  "filter_subscribe api f sub clk now =
     (case authorize api (f_verifier f) Subscribe (req_params sub)
             (trackNamespace (fullTrackName sub)) (f_grants f)
             (Some (trackName (fullTrackName sub))) clk now of
        Inl e \<Rightarrow> Unauthorized (requestID sub) (toString e)
      | Inr _ \<Rightarrow> Forward sub)"

definition filter_fetch ::
  "cat_api \<Rightarrow> auth_filter \<Rightarrow> track_request \<Rightarrow> (nat \<Rightarrow> time_point) \<Rightarrow> time_point \<Rightarrow>
   track_request outcome" where
  "filter_fetch api f req clk now =
     (case authorize api (f_verifier f) Fetch (req_params req)
             (trackNamespace (fullTrackName req)) (f_grants f)
             (Some (trackName (fullTrackName req))) clk now of
        Inl e \<Rightarrow> Unauthorized (requestID req) (toString e)
      | Inr _ \<Rightarrow> Forward req)"

definition filter_trackStatus ::
  "cat_api \<Rightarrow> auth_filter \<Rightarrow> track_request \<Rightarrow> (nat \<Rightarrow> time_point) \<Rightarrow> time_point \<Rightarrow>
   track_request outcome" where
  "filter_trackStatus api f req clk now =
     (case authorize api (f_verifier f) TrackStatus (req_params req)
             (trackNamespace (fullTrackName req)) (f_grants f)
             (Some (trackName (fullTrackName req))) clk now of
        Inl e \<Rightarrow> Unauthorized (requestID req) (toString e)
      | Inr _ \<Rightarrow> Forward req)"

definition filter_publish ::
  "cat_api \<Rightarrow> auth_filter \<Rightarrow> track_request \<Rightarrow> (nat \<Rightarrow> time_point) \<Rightarrow> time_point \<Rightarrow>
   track_request outcome" where
  "filter_publish api f pub clk now =
     (case authorize api (f_verifier f) Publish (req_params pub)
             (trackNamespace (fullTrackName pub)) (f_grants f)
             (Some (trackName (fullTrackName pub))) clk now of
        Inl e \<Rightarrow> Unauthorized (requestID pub) (toString e)
      | Inr _ \<Rightarrow> Forward pub)"

definition filter_publishNamespace ::
  "cat_api \<Rightarrow> auth_filter \<Rightarrow> ns_request \<Rightarrow> (nat \<Rightarrow> time_point) \<Rightarrow> time_point \<Rightarrow>
   ns_request outcome" where
  "filter_publishNamespace api f req clk now =
     (case authorize api (f_verifier f) PublishNamespace (ns_params req)
             (trackNamespacePrefix req) (f_grants f) None clk now of
        Inl e \<Rightarrow> Unauthorized (nsRequestID req) (toString e)
      | Inr _ \<Rightarrow> Forward req)"

definition filter_subscribeNamespace ::
  "cat_api \<Rightarrow> auth_filter \<Rightarrow> ns_request \<Rightarrow> (nat \<Rightarrow> time_point) \<Rightarrow> time_point \<Rightarrow>
   ns_request outcome" where
  "filter_subscribeNamespace api f req clk now =
     (let isPeer = (f_peeringEnabled f \<and> getPeerRelayID api (ns_params req) \<noteq> None) in
      if \<not> isPeer then
        (case authorize api (f_verifier f) SubscribeNamespace (ns_params req)
               (trackNamespacePrefix req) (f_grants f) None clk now of
           Inl e \<Rightarrow> Unauthorized (nsRequestID req) (toString e)
         | Inr _ \<Rightarrow> Forward req)
      else Forward req)"

definition filter_subscribeTracks ::
  "cat_api \<Rightarrow> auth_filter \<Rightarrow> ns_request \<Rightarrow> (nat \<Rightarrow> time_point) \<Rightarrow> time_point \<Rightarrow>
   ns_request outcome" where
  "filter_subscribeTracks api f req clk now =
     (if f_peeringEnabled f \<and> getPeerRelayID api (ns_params req) \<noteq> None then Forward req
      else
        (case authorize api (f_verifier f) SubscribeNamespace (ns_params req)
               (trackNamespacePrefix req) (f_grants f) None clk now of
           Inl e \<Rightarrow> Unauthorized (nsRequestID req) (toString e)
         | Inr _ \<Rightarrow> Forward req))"

section \<open>Key selection\<close>

definition index_ok :: "(string \<times> string) list \<Rightarrow> (string \<rightharpoonup> nat) \<Rightarrow> bool" where
  "index_ok d idx \<longleftrightarrow> (\<forall>k. case idx k of
       None \<Rightarrow> k = [] \<or> k \<notin> fst ` set d
     | Some i \<Rightarrow> i < length d \<and> k \<noteq> [] \<and> fst (d ! i) = k \<and> (\<forall>j<i. fst (d ! j) \<noteq> k))"

lemma index_ok_step:
  assumes "index_ok d idx"
  shows "index_ok (d @ [(k, dk)])
     (if k \<noteq> [] \<and> idx k = None then idx(k \<mapsto> length d) else idx)"
  unfolding index_ok_def
proof
  fix x
  from assms have x: "case idx x of
       None \<Rightarrow> x = [] \<or> x \<notin> fst ` set d
     | Some i \<Rightarrow> i < length d \<and> x \<noteq> [] \<and> fst (d ! i) = x \<and> (\<forall>j<i. fst (d ! j) \<noteq> x)"
    by (simp add: index_ok_def)
  show "case (if k \<noteq> [] \<and> idx k = None then idx(k \<mapsto> length d) else idx) x of
       None \<Rightarrow> x = [] \<or> x \<notin> fst ` set (d @ [(k, dk)])
     | Some i \<Rightarrow> i < length (d @ [(k, dk)]) \<and> x \<noteq> [] \<and> fst ((d @ [(k, dk)]) ! i) = x \<and>
         (\<forall>j<i. fst ((d @ [(k, dk)]) ! j) \<noteq> x)"
    using x by (cases "idx x") (auto simp: nth_append image_iff dest: nth_mem)
qed

lemma key_loop_ok:
  "\<lbrakk>key_loop api ks d idx = Some (d', idx'); index_ok d idx\<rbrakk> \<Longrightarrow>
     index_ok d' idx' \<and>
     list_all2 (\<lambda>k (i, dk). i = key_id k \<and> deriveHmacKey api (secret k) = Some dk)
       ks (drop (length d) d') \<and> take (length d) d' = d"
proof (induction ks arbitrary: d idx)
  case Nil
  then show ?case by simp
next
  case (Cons k ks)
  from Cons.prems(1) obtain dk where dk: "deriveHmacKey api (secret k) = Some dk"
    and loop: "key_loop api ks (d @ [(key_id k, dk)])
        (if key_id k \<noteq> [] \<and> idx (key_id k) = None then idx(key_id k \<mapsto> length d) else idx)
      = Some (d', idx')"
    by (auto split: option.splits)
  from Cons.IH [OF loop index_ok_step [OF Cons.prems(2)]]
  have ih: "index_ok d' idx'" "take (Suc (length d)) d' = d @ [(key_id k, dk)]"
    "list_all2 (\<lambda>k (i, dk). i = key_id k \<and> deriveHmacKey api (secret k) = Some dk)
       ks (drop (Suc (length d)) d')"
    by simp_all
  have d': "d' = d @ (key_id k, dk) # drop (Suc (length d)) d'"
    by (metis append_Cons append_Nil append_assoc append_take_drop_id ih(2))
  have "drop (length d) d' = (key_id k, dk) # drop (Suc (length d)) d'" "take (length d) d' = d"
    by (subst d', simp)+
  with ih dk show ?case by simp
qed

lemma AuthTokenVerifier_ok:
  assumes "AuthTokenVerifier api cfg = Some v"
  shows "config v = cfg" and "index_ok (derivedKeys v) (keyIdIndex v)"
    and "list_all2 (\<lambda>k (i, dk). i = key_id k \<and> deriveHmacKey api (secret k) = Some dk)
       (hmacKeys cfg) (derivedKeys v)"
    and "anonymousGrants v = buildAnonymousGrants (anonymousClaim cfg)"
proof -
  have "index_ok [] Map.empty" by (simp add: index_ok_def)
  with assms key_loop_ok [of api "hmacKeys cfg" "[]" Map.empty]
  show "config v = cfg" "index_ok (derivedKeys v) (keyIdIndex v)"
    "list_all2 (\<lambda>k (i, dk). i = key_id k \<and> deriveHmacKey api (secret k) = Some dk)
       (hmacKeys cfg) (derivedKeys v)"
    "anonymousGrants v = buildAnonymousGrants (anonymousClaim cfg)"
    by (auto simp: AuthTokenVerifier_def split: option.splits)
qed

text \<open>The keys a token may be checked against: the first one of its key id, or all of them.\<close>

definition candidates :: "(string \<times> string) list \<Rightarrow> string option \<Rightarrow> (string \<times> string) list" where
  "candidates keys kid = (case kid of None \<Rightarrow> keys
     | Some k \<Rightarrow> take 1 (filter (\<lambda>(i, _). i = k \<and> i \<noteq> []) keys))"

lemma filter_first:
  "\<lbrakk>i < length xs; P (xs ! i); \<And>j. j < i \<Longrightarrow> \<not> P (xs ! j)\<rbrakk> \<Longrightarrow> take 1 (filter P xs) = [xs ! i]"
proof (induction xs arbitrary: i)
  case Nil
  then show ?case by simp
next
  case (Cons x xs)
  show ?case
  proof (cases i)
    case 0
    with Cons.prems show ?thesis by simp
  next
    case (Suc i')
    with Cons.prems(3) [of 0] have "\<not> P x" by simp
    moreover have "\<not> P (xs ! j)" if "j < i'" for j
      using Cons.prems(3) [of "Suc j"] that Suc by simp
    then have "take 1 (filter P xs) = [xs ! i']"
      using Cons.prems Suc by (intro Cons.IH) auto
    ultimately show ?thesis using Suc by simp
  qed
qed

lemma index_candidates:
  assumes "index_ok d idx"
  shows "candidates d (Some kid) = (case idx kid of None \<Rightarrow> [] | Some i \<Rightarrow> [d ! i])"
proof (cases "idx kid")
  case None
  with assms have "kid = [] \<or> kid \<notin> fst ` set d"
    by (auto simp: index_ok_def split: option.splits dest: spec [of _ kid])
  then have "filter (\<lambda>(i, _). i = kid \<and> i \<noteq> []) d = []"
    by (auto simp: filter_empty_conv image_iff)
  with None show ?thesis by (simp add: candidates_def)
next
  case (Some i)
  with assms have "i < length d" "kid \<noteq> []" "fst (d ! i) = kid" "\<forall>j<i. fst (d ! j) \<noteq> kid"
    by (auto simp: index_ok_def split: option.splits dest: spec [of _ kid])
  then show ?thesis
    using Some filter_first [of i d "\<lambda>(i, _). i = kid \<and> i \<noteq> []"]
    by (simp add: candidates_def case_prod_beta)
qed

lemma tryVerify_BadSignature:
  "tryVerify api cfg tok now k = Inl BadSignature \<longleftrightarrow> validateCwt api tok k = CryptoError"
  by (auto simp: tryVerify_def Let_def split: cwt_result.splits)

lemma trial_loop_find:
  "trial_loop api cfg tok now ks =
     (case find (\<lambda>(i, k). validateCwt api tok k \<noteq> CryptoError) ks of
        None \<Rightarrow> Inl BadSignature | Some (_, k) \<Rightarrow> tryVerify api cfg tok now k)"
proof (induction ks)
  case (Cons x ks)
  then show ?case
    by (cases x) (simp add: Let_def tryVerify_BadSignature)
qed simp

section \<open>Pooling\<close>

fun rights :: "('e + 'a) list \<Rightarrow> 'a list" where
  "rights [] = []"
| "rights (Inl e # rs) = rights rs"
| "rights (Inr x # rs) = x # rights rs"

fun first_left :: "('e + 'a) list \<Rightarrow> 'e option" where
  "first_left [] = None"
| "first_left (Inl e # rs) = Some e"
| "first_left (Inr x # rs) = first_left rs"

definition results :: "cat_api \<Rightarrow> verifier \<Rightarrow> (nat \<Rightarrow> time_point) \<Rightarrow> nat \<Rightarrow> auth_token list \<Rightarrow> (auth_error + grants) list" where
  "results api v clk i ts = map (\<lambda>(j, t). verify api v t (clk j)) (enumerate i ts)"

lemma set_rights: "set (rights rs) = {x. Inr x \<in> set rs}"
  by (induction rs rule: rights.induct) auto

lemma rights_Nil: "rights rs = [] \<longleftrightarrow> (\<forall>r\<in>set rs. isl r)"
  by (induction rs rule: rights.induct) auto

lemma first_left_Nil: "\<lbrakk>rs \<noteq> []; \<forall>r\<in>set rs. isl r\<rbrakk> \<Longrightarrow> first_left rs = Some (projl (hd rs))"
  by (cases rs rule: first_left.cases) auto

lemma verifyTokens_results:
  "verifyTokens api v clk i ts gs fe =
     (gs @ rights (results api v clk i ts),
      if fe = None then first_left (results api v clk i ts) else fe)"
  by (induction ts arbitrary: i gs fe) (auto simp: results_def split: sum.splits)

lemma nth_results:
  "i < length ts \<Longrightarrow> results api v clk 0 ts ! i = verify api v (ts ! i) (clk i)"
  by (simp add: results_def nth_enumerate_eq)

lemma set_results: "set (results api v clk 0 ts) = {verify api v (ts ! i) (clk i) |i. i < length ts}"
proof -
  have "length (results api v clk 0 ts) = length ts" by (simp add: results_def)
  then show ?thesis
    unfolding set_conv_nth by (metis (no_types, lifting) nth_results)
qed

lemma results_Nil [simp]: "results api v clk i ts = [] \<longleftrightarrow> ts = []"
  by (cases ts) (simp_all add: results_def)

lemma results_empty [simp]: "results api v clk i [] = []"
  by (simp add: results_def)

lemma hd_results: "ts \<noteq> [] \<Longrightarrow> hd (results api v clk 0 ts) = verify api v (ts ! 0) (clk 0)"
  by (cases ts) (auto simp: results_def)

section \<open>What a grant covers\<close>

text \<open>A grant covers an action: it is unexpired and one of its scopes lists the action and has
  only rules that hold of the canonical namespace and of the track name.\<close>

definition covers :: "grants \<Rightarrow> action \<Rightarrow> track_namespace \<Rightarrow> string option \<Rightarrow> time_point \<Rightarrow> bool" where
  "covers g a ns track now \<longleftrightarrow> now < expiresAt g \<and>
     (\<exists>s\<in>set (scopes g). a \<in> set (actions s) \<and>
        (\<forall>r\<in>set (namespaceMatches s). rule_meaning (rule_type r) (rule_value r) (canonicalNamespace ns)) \<and>
        (\<forall>r\<in>set (trackMatches s). rule_meaning (rule_type r) (rule_value r)
            (case track of None \<Rightarrow> [] | Some t \<Rightarrow> t)))"

lemma allowsImpl_covers: "allowsImpl g a ns track now = covers g a ns track now"
  by (simp add: allowsImpl_def covers_def scopes_loop_iff linorder_not_le)

lemma allows_covers:
  "allows_ns g a ns now = covers g a ns None now"
  "allows_track g a ftn now = covers g a (trackNamespace ftn) (Some (trackName ftn)) now"
  "allowsAny_ns gs a ns now = (\<exists>g\<in>set gs. covers g a ns None now)"
  "allowsAny_track gs a ftn now = (\<exists>g\<in>set gs. covers g a (trackNamespace ftn) (Some (trackName ftn)) now)"
  by (simp_all add: allows_ns_def allows_track_def allowsAny_ns_def allowsAny_track_def
      allowsImpl_covers list_ex_iff)

section \<open>Properties\<close>

lemma verify_by_candidates:
  assumes "AuthTokenVerifier api cfg = Some v" and "enabled cfg"
    and "token_type t = tokenType cfg" and "tokenValue t \<noteq> []"
  shows "verify api v t now =
     (case decodeHeader api (tokenValue t) of
        None \<Rightarrow> Inl Malformed
      | Some kid \<Rightarrow>
          (case find (\<lambda>(i, k). validateCwt api (tokenValue t) k \<noteq> CryptoError)
                  (candidates (derivedKeys v) kid) of
             None \<Rightarrow> Inl BadSignature
           | Some (_, k) \<Rightarrow> tryVerify api cfg (tokenValue t) now k))"
proof -
  note v = AuthTokenVerifier_ok [OF assms(1)]
  show ?thesis
    using assms(2-4) index_candidates [OF v(2)]
    by (auto simp: verify_def v(1) trial_loop_find candidates_def [of _ None]
        tryVerify_BadSignature case_prod_beta split: option.splits)
qed


text \<open>
  C3. Nothing but a validly signed, unexpired token yields grants: whenever an enabled
  verifier accepts, the token has the configured type, some configured key (the one its key id
  names, if it names one) validates it, the grants are those of the validated payload, they
  are not expired and, under strict claims, the token carries only enforced claims.
\<close>

theorem verify_sound:
  assumes "AuthTokenVerifier api cfg = Some v" and "enabled cfg" and "verify api v t now = Inr g"
  shows "token_type t = tokenType cfg \<and>
     (\<exists>hk\<in>set (hmacKeys cfg). \<exists>k payload kid.
        deriveHmacKey api (secret hk) = Some k \<and> validateCwt api (tokenValue t) k = Cwt payload \<and>
        decodeHeader api (tokenValue t) = Some kid \<and> (kid = None \<or> kid = Some (key_id hk)) \<and>
        g = grantsFromToken payload \<and> now < expiresAt g \<and>
        (strictClaims cfg \<longrightarrow> hasOnlyEnforcedClaims (claimExp api) (claimMoqt api) (tokenValue t)))"
proof -
  note v = AuthTokenVerifier_ok [OF assms(1)]
  have type: "token_type t = tokenType cfg" and val: "tokenValue t \<noteq> []"
    using assms(2,3) by (auto simp: verify_def v(1) split: if_splits)
  from assms(3) obtain kid i k where hdr: "decodeHeader api (tokenValue t) = Some kid"
    and find: "find (\<lambda>(i, k). validateCwt api (tokenValue t) k \<noteq> CryptoError)
        (candidates (derivedKeys v) kid) = Some (i, k)"
    and tv: "tryVerify api cfg (tokenValue t) now k = Inr g"
    unfolding verify_by_candidates [OF assms(1,2) type val]
    by (auto split: option.splits)
  from find have "(i, k) \<in> set (candidates (derivedKeys v) kid)"
    by (auto simp: find_Some_iff in_set_conv_nth)
  then have mem: "(i, k) \<in> set (derivedKeys v)" and kid: "kid = None \<or> kid = Some i"
    by (auto simp: candidates_def split: option.splits dest: in_set_takeD)
  from mem v(3) obtain hk where "hk \<in> set (hmacKeys cfg)" "i = key_id hk"
    "deriveHmacKey api (secret hk) = Some k"
    by (fastforce simp: list_all2_conv_all_nth in_set_conv_nth)
  moreover from tv obtain payload where "validateCwt api (tokenValue t) k = Cwt payload"
    "g = grantsFromToken payload" "now < expiresAt g"
    "strictClaims cfg \<longrightarrow> hasOnlyEnforcedClaims (claimExp api) (claimMoqt api) (tokenValue t)"
    by (auto simp: tryVerify_def Let_def split: cwt_result.splits if_splits)
  ultimately show ?thesis
    using type hdr kid by blast
qed

lemma authorize_cases:
  assumes "enabled (config v)" and "tokens = findAuthTokens api params (tokenType (config v))"
    and "request = {g. allowRequestTokenOverride (config v) \<and>
           (\<exists>i<length tokens. verify api v (tokens ! i) (clk i) = Inr g)}"
  shows "authorize api v a params ns sessionGrants track clk now =
     (if maxTokensPerMessage (config v) < length tokens then Inl TooManyTokens
      else if \<exists>g\<in>request \<union> set sessionGrants \<union> {anonymousGrants v}. covers g a ns track now
      then Inr ()
      else if allowRequestTokenOverride (config v) \<and> tokens \<noteq> [] \<and> request = {}
      then Inl (projl (verify api v (tokens ! 0) (clk 0)))
      else Inl Forbidden)"
proof -
  define rs where "rs = results api v clk 0 tokens"
  define rg where "rg = (if allowRequestTokenOverride (config v) then rights rs else [])"
  have rg: "set rg = request"
    by (auto simp: rg_def rs_def set_rights set_results assms(3)) metis
  have deny: "denialError rg (if allowRequestTokenOverride (config v) then first_left rs else None) =
      (if allowRequestTokenOverride (config v) \<and> tokens \<noteq> [] \<and> request = {}
       then projl (verify api v (tokens ! 0) (clk 0)) else Forbidden)"
    using rg first_left_Nil [of rs] rights_Nil [of rs] hd_results [of tokens api v clk]
    by (auto simp: denialError_def rg_def rs_def)
  show ?thesis
    using assms(1) rg deny
    by (cases track)
       (auto simp: authorize_def verifyTokens_results assms(2) [symmetric] rs_def [symmetric]
          allows_covers rg_def Let_def split: if_splits)
qed

text \<open>
  C2. The decision of \<^verbatim>\<open>authorize\<close>, error included: with auth enabled, a message with more
  matching tokens than the cap is refused; otherwise the request is permitted exactly when a
  grant of a verified request token (if request tokens count at all), of the session, or of
  the anonymous claim covers it. A refusal names the first token's error when tokens were
  considered and none verified, and says forbidden in every other case.
\<close>

theorem authorize_decision:
  assumes "enabled (config v)" and "tokens = findAuthTokens api params (tokenType (config v))"
    and "request = {g. allowRequestTokenOverride (config v) \<and>
           (\<exists>i<length tokens. verify api v (tokens ! i) (clk i) = Inr g)}"
  shows "authorize api v a params ns sessionGrants track clk now =
     (if maxTokensPerMessage (config v) < length tokens then Inl TooManyTokens
      else if \<exists>g\<in>request \<union> set sessionGrants \<union> {anonymousGrants v}. covers g a ns track now
      then Inr ()
      else if allowRequestTokenOverride (config v) \<and> tokens \<noteq> [] \<and> request = {}
      then Inl (projl (verify api v (tokens ! 0) (clk 0)))
      else Inl Forbidden)"
  by (rule authorize_cases [OF assms])

text \<open>
  C34. Setup: an enabled verifier opens a session exactly when the message respects the cap
  and, if a setup token is required, some token of the message verifies and its grants cover
  \<^verbatim>\<open>ClientSetup\<close>. The session then holds the grants of all tokens that verified, in order,
  and nothing else; in particular the anonymous claim neither opens nor widens it.
\<close>

theorem authenticateSetup_iff:
  assumes "enabled (config v)" and "tokens = findAuthTokens api params (tokenType (config v))"
  shows "authenticateSetup api v params clk now = Inr (Some gs) \<longleftrightarrow>
     length tokens \<le> maxTokensPerMessage (config v) \<and>
     gs = rights (map (\<lambda>i. verify api v (tokens ! i) (clk i)) [0..<length tokens]) \<and>
     (requireSetupToken (config v) \<longrightarrow> (\<exists>g\<in>set gs. covers g ClientSetup [] None now))"
proof -
  have rs: "results api v clk 0 tokens = map (\<lambda>i. verify api v (tokens ! i) (clk i)) [0..<length tokens]"
    by (rule nth_equalityI) (simp_all add: results_def nth_enumerate_eq)
  show ?thesis
    using assms(1)
    by (auto simp: authenticateSetup_def verifyTokens_results assms(2) [symmetric] rs
        allows_covers Let_def split: if_splits)
qed

text \<open>
  Expiry: a token whose \<^verbatim>\<open>exp\<close> lies in the range a nanosecond clock can express is
  refused as expired from that second on and never before, whatever its claims.
\<close>

theorem expiry_in_range:
  assumes "validateCwt api tok k = Cwt payload" and "exp payload = Some s"
    and "0 \<le> s" and "s \<le> 9223372036"
  shows "tryVerify api cfg tok now k = Inl Expired \<longleftrightarrow> s * 10 ^ 9 \<le> now"
proof -
  have "time_of_seconds s = s * 10 ^ 9"
    using assms(3,4) by (simp add: time_of_seconds_def wrap_i64_def)
  then show ?thesis
    using assms(1,2) by (auto simp: tryVerify_def grantsFromToken_def Let_def)
qed

text \<open>
  Beyond that range the conversion of seconds to nanoseconds overflows: a validly signed
  token whose \<^verbatim>\<open>exp\<close> is 9999999999, in the year 2286, is refused as expired at every time since
  the epoch.
\<close>

theorem far_expiry_overflows:
  assumes "validateCwt api tok k = Cwt payload" and "exp payload = Some 9999999999"
    and "0 \<le> now"
  shows "tryVerify api cfg tok now k = Inl Expired"
proof -
  have "time_of_seconds 9999999999 \<le> 0"
    by (simp add: time_of_seconds_def wrap_i64_def)
  then show ?thesis
    using assms by (simp add: tryVerify_def grantsFromToken_def Let_def)
qed

lemma getPeerRelayID_iff:
  "getPeerRelayID api ps \<noteq> None \<longleftrightarrow>
     (\<exists>p\<in>set ps. param_key p = authKey api \<and> token_type (asAuthToken p) = kRelayAuthTokenType)"
  by (induction ps) auto

text \<open>
  C33. Deny by default: with auth enabled and no anonymous claim, a session without grants gets
  nothing past the gate. Every request that carries no token is answered with
  \<^verbatim>\<open>UNAUTHORIZED\<close> under its own request id by each of the seven handlers, peering enabled or
  not.
\<close>

theorem deny_by_default:
  assumes "AuthTokenVerifier api cfg = Some (f_verifier f)" and "enabled cfg"
    and "anonymousClaim cfg = []" and "f_grants f = []"
    and "\<forall>p\<in>set (req_params r). param_key p \<noteq> authKey api"
    and "\<forall>p\<in>set (ns_params q). param_key p \<noteq> authKey api"
  shows "(\<forall>h\<in>{filter_subscribe, filter_fetch, filter_trackStatus, filter_publish}.
            h api f r clk now = Unauthorized (requestID r) (toString Forbidden)) \<and>
         (\<forall>h\<in>{filter_publishNamespace, filter_subscribeNamespace, filter_subscribeTracks}.
            h api f q clk now = Unauthorized (nsRequestID q) (toString Forbidden))"
proof -
  note v = AuthTokenVerifier_ok [OF assms(1)]
  have en: "enabled (config (f_verifier f))" by (simp add: v(1) assms(2))
  have anon: "\<not> covers (anonymousGrants (f_verifier f)) a ns track now" for a ns track
    by (simp add: v(4) assms(3) buildAnonymousGrants_def covers_def)
  have auth: "authorize api (f_verifier f) a ps ns (f_grants f) track clk now = Inl Forbidden"
    if "\<forall>p\<in>set ps. param_key p \<noteq> authKey api" for a ps ns track
  proof -
    from that have "findAuthTokens api ps (tokenType (config (f_verifier f))) = []"
      by (auto simp: findAuthTokens_def filter_empty_conv)
    then show ?thesis
      using authorize_cases [OF en refl refl] by (simp add: assms(4) anon)
  qed
  have "getPeerRelayID api (ns_params q) = None"
    using getPeerRelayID_iff assms(6) by blast
  then show ?thesis
    using auth assms(5,6)
    by (simp add: filter_subscribe_def filter_fetch_def filter_trackStatus_def filter_publish_def
        filter_publishNamespace_def filter_subscribeNamespace_def filter_subscribeTracks_def)
qed


section \<open>A concrete instance\<close>

definition demo_token :: cat_token where
  "demo_token = \<lparr>exp = Some 2000, moqt = Some
     [\<lparr>cat_actions = [0, 4, -1],
       namespace_match = \<lparr>is_empty = False, conditions = [(PREFIX, canonicalNamespace [''live''])]\<rparr>,
       track_match = \<lparr>is_empty = True, conditions = []\<rparr>\<rparr>,
      \<lparr>cat_actions = [0], namespace_match = \<lparr>is_empty = True, conditions = []\<rparr>,
       track_match = \<lparr>is_empty = True, conditions = []\<rparr>\<rparr>]\<rparr>"

text \<open>A token library whose signature check compares the key and whose key id is in the token.\<close>

definition demo_api :: cat_api where
  "demo_api = \<lparr>decodeHeader = \<lambda>tok. if tok = ''kid2'' then Some (Some ''k2'') else Some None,
     validateCwt = \<lambda>tok k. if k = ''D:s2'' then Cwt demo_token else CryptoError,
     deriveHmacKey = \<lambda>s. Some (''D:'' @ s), claimExp = 4, claimMoqt = 327, authKey = 3\<rparr>"

definition demo_config :: auth_config where
  "demo_config = \<lparr>enabled = True, tokenType = 7,
     hmacKeys = [\<lparr>key_id = ''k1'', secret = ''s1''\<rparr>, \<lparr>key_id = ''k2'', secret = ''s2''\<rparr>],
     requireSetupToken = True, allowRequestTokenOverride = True, strictClaims = False,
     anonymousClaim = [], maxTokensPerMessage = 2\<rparr>"

definition demo_verifier :: verifier where
  "demo_verifier = \<lparr>config = demo_config, derivedKeys = [(''k1'', ''D:s1''), (''k2'', ''D:s2'')],
     keyIdIndex = [''k1'' \<mapsto> 0, ''k2'' \<mapsto> 1], anonymousGrants = buildAnonymousGrants []\<rparr>"

definition demo_params :: "parameter list" where
  "demo_params = [\<lparr>param_key = 3, asAuthToken = \<lparr>token_type = 7, tokenValue = ''kid2''\<rparr>\<rparr>]"

lemma demo_verifier_built: "AuthTokenVerifier demo_api demo_config = Some demo_verifier"
  by (simp add: AuthTokenVerifier_def demo_verifier_def demo_api_def demo_config_def)

lemma demo_verify:
  "verify demo_api demo_verifier \<lparr>token_type = 7, tokenValue = ''kid2''\<rparr> 5 = Inr (grantsFromToken demo_token)"
  by (simp add: verify_def demo_verifier_def demo_api_def demo_config_def tryVerify_def
      grantsFromToken_def demo_token_def time_of_seconds_def wrap_i64_def)

lemma demo_tokens: "findAuthTokens demo_api demo_params 7 = [\<lparr>token_type = 7, tokenValue = ''kid2''\<rparr>]"
  by (simp add: findAuthTokens_def demo_params_def demo_api_def)


theorem verify_sound_witness:
  "5 < expiresAt (grantsFromToken demo_token)"
  using verify_sound [OF demo_verifier_built _ demo_verify] by (auto simp: demo_config_def)

lemma demo_fields:
  "config demo_verifier = demo_config" "enabled demo_config" "tokenType demo_config = 7"
  "maxTokensPerMessage demo_config = 2" "allowRequestTokenOverride demo_config"
  "requireSetupToken demo_config" "anonymousClaim demo_config = []"
  by (simp_all add: demo_verifier_def demo_config_def)

lemma demo_covers:
  "covers (grantsFromToken demo_token) ClientSetup [] None 6"
  "covers (grantsFromToken demo_token) Subscribe [''live''] (Some ''v'') 6"
  by (simp_all add: covers_def grantsFromToken_def demo_token_def time_of_seconds_def wrap_i64_def
      scope_of_cat_def fromCatapultMatch_def action_defs)

theorem authorize_decision_witness:
  "authorize demo_api demo_verifier Subscribe demo_params [''live''] [] (Some ''v'') (\<lambda>_. 5) 6 = Inr ()"
  using authorize_decision [of demo_verifier "findAuthTokens demo_api demo_params 7" demo_api demo_params
      _ "\<lambda>_. 5" Subscribe "[''live'']" "[]" "Some ''v''" 6, OF _ _ refl]
  by (simp add: demo_fields demo_tokens demo_verify demo_covers)

theorem authenticateSetup_iff_witness:
  "authenticateSetup demo_api demo_verifier demo_params (\<lambda>_. 5) 6 =
     Inr (Some [grantsFromToken demo_token])"
  using authenticateSetup_iff [of demo_verifier "findAuthTokens demo_api demo_params 7" demo_api
      demo_params "\<lambda>_. 5" 6 "[grantsFromToken demo_token]"]
  by (simp add: demo_fields demo_tokens demo_verify demo_covers)

theorem expiry_in_range_witness:
  "tryVerify demo_api demo_config ''t'' 1999999999999 ''D:s2'' \<noteq> Inl Expired \<and>
   tryVerify demo_api demo_config ''t'' 2000000000000 ''D:s2'' = Inl Expired"
  using expiry_in_range [of demo_api "''t''" "''D:s2''" demo_token 2000]
  by (simp add: demo_api_def demo_token_def)

theorem far_expiry_overflows_witness:
  "tryVerify (demo_api\<lparr>validateCwt := \<lambda>_ _. Cwt (demo_token\<lparr>exp := Some 9999999999\<rparr>)\<rparr>)
     demo_config ''t'' 1800000000000000000 ''D:s2'' = Inl Expired"
  by (rule far_expiry_overflows [where payload = "demo_token\<lparr>exp := Some 9999999999\<rparr>"]) simp_all

theorem deny_by_default_witness:
  "filter_subscribe demo_api \<lparr>f_verifier = demo_verifier, f_grants = [], f_peeringEnabled = True\<rparr>
     \<lparr>requestID = 9, req_params = [], fullTrackName = \<lparr>trackNamespace = [''live''], trackName = ''v''\<rparr>\<rparr>
     (\<lambda>_. 5) 6 = Unauthorized 9 (toString Forbidden)"
  using deny_by_default [of demo_api demo_config
      "\<lparr>f_verifier = demo_verifier, f_grants = [], f_peeringEnabled = True\<rparr>"
      "\<lparr>requestID = 9, req_params = [], fullTrackName = \<lparr>trackNamespace = [''live''], trackName = ''v''\<rparr>\<rparr>"
      "\<lparr>nsRequestID = 1, ns_params = [], trackNamespacePrefix = []\<rparr>" "\<lambda>_. 5" 6]
  by (simp add: demo_verifier_built demo_fields)

end
