(* ===== verification/Auth_Issuer.thy ===== *)
theory Auth_Issuer
  imports Auth_Verifier
begin

text \<open>
  The token issuer of \<^verbatim>\<open>src/auth/AuthTokenIssuer.cpp\<close>: the command-line syntax of actions and
  namespaces, the grants an issued token carries, and their translation to a CAT token. The
  last section joins issuer and verifier: what a session may do with an issued token.
\<close>

section \<open>Parsing the options\<close>

lemma str_find_later: "Some j = str_find c s start \<Longrightarrow> start \<le> j \<and> j < length s"
  by (metis str_find_bounds)

text \<open>\<^verbatim>\<open>std::isspace\<close> in the C locale.\<close>

definition isspace :: "char \<Rightarrow> bool" where
  "isspace c \<longleftrightarrow> c = CHR '' '' \<or> (9 \<le> byte c \<and> byte c \<le> 13)"

definition trim :: "string \<Rightarrow> string" where
  "trim val = rev (dropWhile isspace (rev (dropWhile isspace val)))"

definition containsAction :: "action list \<Rightarrow> action \<Rightarrow> bool" where
  "containsAction as a = list_ex (\<lambda>b. b = a) as"

definition isNamespaceAction :: "action \<Rightarrow> bool" where
  "isNamespaceAction a \<longleftrightarrow> a = ServerSetup \<or> a = PublishNamespace \<or> a = SubscribeNamespace"

text \<open>\<^verbatim>\<open>std::invalid_argument\<close> and its cause.\<close>

datatype issue_error =
  UnknownAction string | NoActions | EmptyKeyID | EmptySecret | BadTtl |
  AuthNotEnabled | NoKeys | NoSuchKey string | BadTokenStructure | KeyDerivationFailed

definition parseAction :: "(string \<Rightarrow> string) \<Rightarrow> string \<Rightarrow> issue_error + action" where
  "parseAction trimWhitespace val =
     (case canonicalAction trimWhitespace val of
        Some a \<Rightarrow> Inr a | None \<Rightarrow> Inl (UnknownAction val))"

function parse_actions_loop ::
  "(string \<Rightarrow> string) \<Rightarrow> string \<Rightarrow> nat \<Rightarrow> action list \<Rightarrow> issue_error + action list" where
  "parse_actions_loop tw val start as =
     (if start \<le> length val then
        let comma = str_find CHR '','' val start;
            hi = (case comma of None \<Rightarrow> length val | Some i \<Rightarrow> i);
            token = trim (take (hi - start) (drop start val));
            step = (if token \<noteq> [] then
                      (case parseAction tw token of Inl e \<Rightarrow> Inl e | Inr a \<Rightarrow> Inr (as @ [a]))
                    else Inr as)
        in case step of
             Inl e \<Rightarrow> Inl e
           | Inr as' \<Rightarrow>
               (case comma of None \<Rightarrow> Inr as'
                | Some i \<Rightarrow> parse_actions_loop tw val (Suc i) as')
      else Inr as)"
  by pat_completeness auto
termination
  by (relation "measure (\<lambda>(tw, val, start, as). Suc (length val) - start)")
     (auto dest!: str_find_later)

definition parseActions :: "(string \<Rightarrow> string) \<Rightarrow> string \<Rightarrow> issue_error + action list" where
  "parseActions tw val =
     (case parse_actions_loop tw val 0 [] of
        Inl e \<Rightarrow> Inl e
      | Inr as \<Rightarrow> (if as = [] then Inl NoActions else Inr as))"

function parse_ns_loop :: "string \<Rightarrow> nat \<Rightarrow> track_namespace \<Rightarrow> track_namespace" where
  "parse_ns_loop val start ns =
     (if start \<le> length val then
        let slash = str_find CHR ''/'' val start;
            hi = (case slash of None \<Rightarrow> length val | Some i \<Rightarrow> i);
            ns' = (if hi > start then ns @ [take (hi - start) (drop start val)] else ns)
        in case slash of None \<Rightarrow> ns' | Some i \<Rightarrow> parse_ns_loop val (Suc i) ns'
      else ns)"
  by pat_completeness auto
termination
  by (relation "measure (\<lambda>(val, start, ns). Suc (length val) - start)")
     (auto dest!: str_find_later)

definition parseTrackNamespace :: "string \<Rightarrow> track_namespace" where
  "parseTrackNamespace val =
     (let ns = parse_ns_loop val 0 [] in if ns = [] then [val] else ns)"

declare parse_actions_loop.simps [simp del] parse_ns_loop.simps [simp del]

section \<open>Issuing\<close>

text \<open>The constructors of the token library that the issuer calls, and its signing.\<close>

record issue_api =
  match_any :: cat_match
  match_all :: "(binary_match_type \<times> string) list \<Rightarrow> cat_match"
  cond_exact :: "string \<Rightarrow> binary_match_type \<times> string"
  cond_prefix :: "string \<Rightarrow> binary_match_type \<times> string"
  cond_suffix :: "string \<Rightarrow> binary_match_type \<times> string"
  cond_contains :: "string \<Rightarrow> binary_match_type \<times> string"
  claims_of_scopes :: "cat_scope list \<Rightarrow> cat_scope list"
  validateTokenStructure :: "cat_token \<Rightarrow> bool"
  createCwt :: "cat_token \<Rightarrow> string \<Rightarrow> string \<Rightarrow> string"

definition toCatapultMatch :: "issue_api \<Rightarrow> match_rule list \<Rightarrow> cat_match" where
  "toCatapultMatch ia rules =
     (if rules = [] then match_any ia
      else match_all ia
        (map (\<lambda>r. (case rule_type r of
                     Exact \<Rightarrow> cond_exact ia (rule_value r)
                   | Prefix \<Rightarrow> cond_prefix ia (rule_value r)
                   | Suffix \<Rightarrow> cond_suffix ia (rule_value r)
                   | Contains \<Rightarrow> cond_contains ia (rule_value r))) rules))"

text \<open>\<^verbatim>\<open>static_cast<int>\<close> of a 64-bit action number.\<close>

definition to_i32 :: "u64 \<Rightarrow> int" where
  "to_i32 a = (int a + 2 ^ 31) mod 2 ^ 32 - 2 ^ 31"

text \<open>\<^verbatim>\<open>duration_cast<seconds>\<close> truncates towards zero.\<close>

definition seconds_of_time :: "time_point \<Rightarrow> int" where
  "seconds_of_time t = (if 0 \<le> t then t div 10 ^ 9 else - (- t div 10 ^ 9))"

definition tokenFromGrants :: "issue_api \<Rightarrow> grants \<Rightarrow> issue_error + cat_token" where
  "tokenFromGrants ia g =
     (let token =
        \<lparr>exp = (if expiresAt g \<noteq> time_point_max then Some (seconds_of_time (expiresAt g)) else None),
         moqt = Some (claims_of_scopes ia
           (map (\<lambda>s. \<lparr>cat_actions = map to_i32 (actions s),
                       namespace_match = toCatapultMatch ia (namespaceMatches s),
                       track_match = toCatapultMatch ia (trackMatches s)\<rparr>) (scopes g)))\<rparr>
      in if validateTokenStructure ia token then Inr token else Inl BadTokenStructure)"

definition signGrants ::
  "cat_api \<Rightarrow> issue_api \<Rightarrow> string \<Rightarrow> string \<Rightarrow> grants \<Rightarrow> issue_error + string" where
  "signGrants api ia keyID sec g =
     (case deriveHmacKey api sec of None \<Rightarrow> Inl KeyDerivationFailed
      | Some k \<Rightarrow>
          (case tokenFromGrants ia g of Inl e \<Rightarrow> Inl e
           | Inr token \<Rightarrow> Inr (createCwt ia token keyID k)))"

record issue_options =
  keyID :: string
  opt_secret :: string
  opt_actions :: "action list"
  opt_namespace :: track_namespace
  opt_track :: "string option"
  ttl :: int
  opt_now :: time_point

text \<open>The grants \<^verbatim>\<open>issueToken\<close> puts together before signing them.\<close>

definition issue_grants :: "issue_options \<Rightarrow> grants" where
  "issue_grants opt =
     (let namespaceMatches =
            (if opt_namespace opt \<noteq> []
             then [\<lparr>rule_type = Exact, rule_value = canonicalNamespace (opt_namespace opt)\<rparr>] else []);
          rest = filter (\<lambda>a. a \<noteq> ClientSetup) (opt_actions opt);
          namespaceActions = filter isNamespaceAction rest;
          trackActions = filter (\<lambda>a. \<not> isNamespaceAction a) rest;
          trackMatches =
            (case opt_track opt of Some t \<Rightarrow> [\<lparr>rule_type = Exact, rule_value = t\<rparr>] | None \<Rightarrow> [])
      in \<lparr>expiresAt = wrap_i64 (opt_now opt + time_of_seconds (ttl opt)),
          scopes =
            (if containsAction (opt_actions opt) ClientSetup
             then [\<lparr>actions = [ClientSetup], namespaceMatches = [], trackMatches = []\<rparr>] else []) @
            (if namespaceActions \<noteq> []
             then [\<lparr>actions = namespaceActions, namespaceMatches = namespaceMatches,
                    trackMatches = []\<rparr>] else []) @
            (if trackActions \<noteq> []
             then [\<lparr>actions = trackActions, namespaceMatches = namespaceMatches,
                    trackMatches = trackMatches\<rparr>] else [])\<rparr>)"

definition issueToken :: "cat_api \<Rightarrow> issue_api \<Rightarrow> issue_options \<Rightarrow> issue_error + string" where
  "issueToken api ia opt =
     (if keyID opt = [] then Inl EmptyKeyID
      else if opt_secret opt = [] then Inl EmptySecret
      else if opt_actions opt = [] then Inl NoActions
      else if ttl opt \<le> 0 then Inl BadTtl
      else signGrants api ia (keyID opt) (opt_secret opt) (issue_grants opt))"

definition selectHmacKey :: "auth_config \<Rightarrow> string \<Rightarrow> issue_error + hmac_key" where
  "selectHmacKey auth kid =
     (if \<not> enabled auth then Inl AuthNotEnabled
      else if hmacKeys auth = [] then Inl NoKeys
      else if kid = [] then Inr (hd (hmacKeys auth))
      else (case find (\<lambda>k. key_id k = kid) (hmacKeys auth) of
              Some k \<Rightarrow> Inr k | None \<Rightarrow> Inl (NoSuchKey kid)))"

section \<open>The parsers are splitters\<close>

lemma split_on_str_find:
  assumes "start \<le> length s"
  shows "split_on c (drop start s) =
    (case str_find c s start of None \<Rightarrow> [drop start s]
     | Some j \<Rightarrow> take (j - start) (drop start s) # split_on c (drop (Suc j) s))"
proof (cases "str_find c s start")
  case None
  then have "c \<notin> set (drop start s)" by (simp add: str_find_def)
  with None show ?thesis by (simp add: split_on_no_sep)
next
  case (Some j)
  note f = find_at_Some [OF Some [unfolded str_find_def]]
  let ?t = "drop start s"
  have "?t = take (j - start) ?t @ ?t ! (j - start) # drop (Suc (j - start)) ?t"
    using f by (intro id_take_nth_drop) auto
  moreover have "drop (Suc (j - start)) ?t = drop (Suc j) s"
    using f by simp
  ultimately have eq: "?t = take (j - start) ?t @ c # drop (Suc j) s"
    using f by metis
  have "split_on c ?t = take (j - start) ?t # split_on c (drop (Suc j) s)"
    using f by (subst eq) (simp add: split_on_append)
  with Some show ?thesis by simp
qed

lemma parse_ns_loop_split:
  "start \<le> length val \<Longrightarrow>
     parse_ns_loop val start ns = ns @ filter (\<lambda>s. s \<noteq> []) (split_on CHR ''/'' (drop start val))"
proof (induction val start ns rule: parse_ns_loop.induct)
  case (1 val start ns)
  show ?case
  proof (cases "str_find CHR ''/'' val start")
    case None
    with 1 show ?thesis
      by (subst parse_ns_loop.simps) (auto simp: split_on_str_find)
  next
    case (Some j)
    with 1 str_find_bounds [OF Some] show ?thesis
      by (subst parse_ns_loop.simps) (auto simp: split_on_str_find)
  qed
qed

text \<open>What the loop over the comma-separated list does, on the list of its pieces.\<close>

fun parse_pieces :: "(string \<Rightarrow> string) \<Rightarrow> string list \<Rightarrow> action list \<Rightarrow> issue_error + action list" where
  "parse_pieces tw [] as = Inr as"
| "parse_pieces tw (p # ps) as =
     (if trim p = [] then parse_pieces tw ps as
      else case parseAction tw (trim p) of
             Inl e \<Rightarrow> Inl e | Inr a \<Rightarrow> parse_pieces tw ps (as @ [a]))"

lemma parse_actions_loop_split:
  "start \<le> length val \<Longrightarrow>
     parse_actions_loop tw val start as = parse_pieces tw (split_on CHR '','' (drop start val)) as"
proof (induction tw val start as rule: parse_actions_loop.induct)
  case (1 tw val start as)
  show ?case
  proof (cases "str_find CHR '','' val start")
    case None
    with 1 show ?thesis
      by (subst parse_actions_loop.simps) (auto simp: split_on_str_find split: sum.splits)
  next
    case (Some j)
    let ?tok = "trim (take (j - start) (drop start val))"
    have j: "Suc j \<le> length val" using str_find_bounds [OF Some] by simp
    show ?thesis
    proof (cases "?tok = []")
      case True
      then show ?thesis
        using Some j 1 by (subst parse_actions_loop.simps) (simp add: split_on_str_find)
    next
      case False
      then show ?thesis
        using Some j 1
        by (subst parse_actions_loop.simps) (cases "parseAction tw ?tok"; simp add: split_on_str_find)
    qed
  qed
qed

lemma trim_id:
  assumes "\<And>c. c \<in> set s \<Longrightarrow> \<not> isspace c"
  shows "trim s = s"
proof -
  have id: "dropWhile isspace xs = xs" if "set xs \<subseteq> set s" for xs
    using that assms by (cases xs) auto
  show ?thesis by (simp add: trim_def id)
qed

lemma parse_pieces_names:
  assumes "\<And>a. a \<in> set as \<Longrightarrow> a \<le> 8"
    and "\<And>a. a \<le> 8 \<Longrightarrow> canonicalAction tw (actionName a) = Some a"
    and "\<And>a. trim (actionName a) = actionName a" and "\<And>a. actionName a \<noteq> []"
  shows "parse_pieces tw (map actionName as) bs = Inr (bs @ as)"
  using assms(1) by (induction as arbitrary: bs) (auto simp: assms(2-4) parseAction_def)

lemma actionName_cases:
  "(\<And>s. s \<in> {''client_setup'', ''server_setup'', ''publish_namespace'', ''subscribe_namespace'',
      ''subscribe'', ''request_update'', ''publish'', ''fetch'', ''track_status'', ''unknown''} \<Longrightarrow> P s)
   \<Longrightarrow> P (actionName a)"
  by (simp add: actionName_def)

lemma actionName_plain:
  "c \<in> set (actionName a) \<Longrightarrow> \<not> isspace c \<and> c \<noteq> CHR '',''"
  by (rule actionName_cases [of "\<lambda>s. c \<in> set s \<longrightarrow> \<not> isspace c \<and> c \<noteq> CHR '',''", THEN mp])
     (auto simp: isspace_def byte_def)

lemma actionName_nonempty: "actionName a \<noteq> []"
  by (simp add: actionName_def)

section \<open>Issuer and verifier agree\<close>

text \<open>
  What issuer and verifier rely on in the token library: a compound match hands back the
  conditions it was made of, the claims hand back their scopes, and a signed token is
  validated with the same key, to the same payload and under the key id it was given.
\<close>

definition library_ok :: "cat_api \<Rightarrow> issue_api \<Rightarrow> bool" where
  "library_ok api ia \<longleftrightarrow>
     is_empty (match_any ia) \<and>
     (\<forall>cs. cs \<noteq> [] \<longrightarrow> \<not> is_empty (match_all ia cs) \<and> conditions (match_all ia cs) = cs) \<and>
     (\<forall>x. cond_exact ia x = (EXACT, x) \<and> cond_prefix ia x = (PREFIX, x) \<and>
          cond_suffix ia x = (SUFFIX, x) \<and> cond_contains ia x = (CONTAINS, x)) \<and>
     (\<forall>ss. claims_of_scopes ia ss = ss) \<and>
     (\<forall>t kid k. validateTokenStructure ia t \<longrightarrow>
        createCwt ia t kid k \<noteq> [] \<and> validateCwt api (createCwt ia t kid k) k = Cwt t \<and>
        decodeHeader api (createCwt ia t kid k) = Some (Some kid))"

lemma match_roundtrip:
  assumes "library_ok api ia"
  shows "fromCatapultMatch (toCatapultMatch ia rules) = rules"
proof (cases "rules = []")
  case True
  with assms show ?thesis
    by (simp add: fromCatapultMatch_def toCatapultMatch_def library_ok_def)
next
  case False
  have "(case (case rule_type r of
            Exact \<Rightarrow> cond_exact ia (rule_value r) | Prefix \<Rightarrow> cond_prefix ia (rule_value r)
          | Suffix \<Rightarrow> cond_suffix ia (rule_value r) | Contains \<Rightarrow> cond_contains ia (rule_value r))
         of (t, p) \<Rightarrow> \<lparr>rule_type = fromCatapultMatchType t, rule_value = p\<rparr>) = r" for r :: match_rule
    using assms by (cases r; cases "rule_type r") (auto simp: library_ok_def)
  with False assms show ?thesis
    by (simp add: fromCatapultMatch_def toCatapultMatch_def library_ok_def comp_def)
qed

lemma nat_to_i32 [simp]: "a < 2 ^ 31 \<Longrightarrow> nat (to_i32 a) = a \<and> \<not> to_i32 a < 0"
  by (simp add: to_i32_def)

lemma token_roundtrip:
  assumes "library_ok api ia" and "tokenFromGrants ia g = Inr t"
    and "\<And>s a. s \<in> set (scopes g) \<Longrightarrow> a \<in> set (actions s) \<Longrightarrow> a < 2 ^ 31"
    and "0 \<le> expiresAt g" and "expiresAt g < time_point_max"
  shows "grantsFromToken t = g\<lparr>expiresAt := expiresAt g div 10 ^ 9 * 10 ^ 9\<rparr>"
proof -
  have acts: "map nat (filter (\<lambda>a. \<not> a < 0) (map to_i32 as)) = as"
    if "\<And>a. a \<in> set as \<Longrightarrow> a < 2 ^ 31" for as
    using that by (induction as) auto
  have scopes: "map scope_of_cat
      (map (\<lambda>s. \<lparr>cat_actions = map to_i32 (actions s),
                  namespace_match = toCatapultMatch ia (namespaceMatches s),
                  track_match = toCatapultMatch ia (trackMatches s)\<rparr>) (scopes g)) = scopes g"
    unfolding map_map
  proof (rule map_idI)
    fix s
    assume "s \<in> set (scopes g)"
    then have "map nat (filter (\<lambda>a. \<not> a < 0) (map to_i32 (actions s))) = actions s"
      by (intro acts assms(3))
    then show "(scope_of_cat \<circ>
        (\<lambda>s. \<lparr>cat_actions = map to_i32 (actions s),
              namespace_match = toCatapultMatch ia (namespaceMatches s),
              track_match = toCatapultMatch ia (trackMatches s)\<rparr>)) s = s"
      by (simp add: scope_of_cat_def match_roundtrip [OF assms(1)])
  qed
  have "expiresAt g div 10 ^ 9 * 10 ^ 9 \<le> expiresAt g"
    by (simp add: minus_mod_eq_div_mult [symmetric])
  then have time: "time_of_seconds (seconds_of_time (expiresAt g)) = expiresAt g div 10 ^ 9 * 10 ^ 9"
    using assms(4,5) by (simp add: time_of_seconds_def wrap_i64_def seconds_of_time_def
        time_point_max_def pos_imp_zdiv_nonneg_iff)
  have "claims_of_scopes ia ss = ss" for ss
    using assms(1) by (simp add: library_ok_def)
  then show ?thesis
    using assms(2,5) scopes time
    by (auto simp: tokenFromGrants_def grantsFromToken_def Let_def split: if_splits)
qed

lemma candidates_find:
  assumes "list_all2 (\<lambda>k (i, dk). i = key_id k \<and> deriveHmacKey api (secret k) = Some dk) ks ds"
    and "find (\<lambda>k. key_id k = x) ks = Some hk" and "x \<noteq> []"
  shows "\<exists>dk. candidates ds (Some x) = [(x, dk)] \<and> deriveHmacKey api (secret hk) = Some dk"
  using assms by (induction rule: list_all2_induct) (auto simp: candidates_def split: if_splits)

lemma selectHmacKey_first:
  assumes "selectHmacKey cfg kid = Inr hk"
  shows "enabled cfg" and "find (\<lambda>k. key_id k = key_id hk) (hmacKeys cfg) = Some hk"
proof -
  show "enabled cfg"
    using assms by (auto simp: selectHmacKey_def split: if_splits)
  show "find (\<lambda>k. key_id k = key_id hk) (hmacKeys cfg) = Some hk"
  proof (cases "kid = []")
    case True
    with assms show ?thesis
      by (cases "hmacKeys cfg") (auto simp: selectHmacKey_def split: if_splits)
  next
    case False
    with assms have "find (\<lambda>k. key_id k = kid) (hmacKeys cfg) = Some hk"
      by (auto simp: selectHmacKey_def split: if_splits option.splits)
    moreover from this have "key_id hk = kid" by (auto simp: find_Some_iff)
    ultimately show ?thesis by simp
  qed
qed

lemma issue_grants_covers:
  assumes "now < expiresAt g" and "scopes g = scopes (issue_grants opt)"
    and "fits32 (opt_namespace opt)" and "fits32 ns"
  shows "covers g a ns track now \<longleftrightarrow>
     a \<in> set (opt_actions opt) \<and>
     (a = ClientSetup \<or>
      ((opt_namespace opt = [] \<or> ns = opt_namespace opt) \<and>
       (isNamespaceAction a \<or> opt_track opt = None \<or>
        opt_track opt = Some (case track of None \<Rightarrow> [] | Some t \<Rightarrow> t))))"
proof -
  let ?nm = "if opt_namespace opt \<noteq> []
    then [\<lparr>rule_type = Exact, rule_value = canonicalNamespace (opt_namespace opt)\<rparr>] else []"
  let ?tm = "case opt_track opt of Some t \<Rightarrow> [\<lparr>rule_type = Exact, rule_value = t\<rparr>] | None \<Rightarrow> []"
  let ?tr = "case track of None \<Rightarrow> [] | Some t \<Rightarrow> t"
  let ?N = "\<forall>r\<in>set ?nm. rule_meaning (rule_type r) (rule_value r) (canonicalNamespace ns)"
  let ?T = "\<forall>r\<in>set ?tm. rule_meaning (rule_type r) (rule_value r) ?tr"
  have N: "?N \<longleftrightarrow> opt_namespace opt = [] \<or> ns = opt_namespace opt"
    using canonical_inject [OF assms(4,3)] by auto
  have T: "?T \<longleftrightarrow> opt_track opt = None \<or> opt_track opt = Some ?tr"
    by (cases "opt_track opt") auto
  have nc: "\<not> isNamespaceAction ClientSetup" by (simp add: isNamespaceAction_def action_defs)
  have "covers g a ns track now \<longleftrightarrow>
      (a = ClientSetup \<and> a \<in> set (opt_actions opt)) \<or>
      (a \<in> set (opt_actions opt) \<and> a \<noteq> ClientSetup \<and> isNamespaceAction a \<and> ?N) \<or>
      (a \<in> set (opt_actions opt) \<and> a \<noteq> ClientSetup \<and> \<not> isNamespaceAction a \<and> ?N \<and> ?T)"
    unfolding covers_def assms(2) issue_grants_def Let_def grants.simps bex_Un set_append
    using assms(1) by (simp only: if_distrib [of set] if_distrib [of "\<lambda>A. Bex A _"])
       (simp add: containsAction_def list_ex_iff filter_empty_conv if_bool_eq_conj, blast)
  then show ?thesis
    unfolding N T using nc by blast
qed

lemma issue_grants_actions:
  "\<lbrakk>s \<in> set (scopes (issue_grants opt)); a \<in> set (actions s)\<rbrakk> \<Longrightarrow> a \<in> set (opt_actions opt)"
  by (auto simp: issue_grants_def Let_def containsAction_def list_ex_iff split: if_splits)

section \<open>Properties\<close>

text \<open>
  A list of action names separated by commas is read back as those actions, in order and
  with repetitions.
\<close>

theorem parseActions_roundtrip:
  assumes "\<And>s. (\<forall>c\<in>set s. \<not> isspace c) \<Longrightarrow> trimWhitespace s = s"
    and "as \<noteq> []" and "\<forall>a\<in>set as. a \<le> 8"
  shows "parseActions trimWhitespace (join_with CHR '','' (map actionName as)) = Inr as"
proof -
  have "trimWhitespace (actionName a) = actionName a" for a
    using assms(1) actionName_plain by blast
  moreover have "map to_lower (map (\<lambda>c. if c = CHR ''-'' then CHR ''_'' else c) (actionName a)) = actionName a" for a
    by (rule actionName_cases) (auto simp: to_lower_def byte_def)
  ultimately have "normalize trimWhitespace (actionName a) = actionName a" for a
    by (simp add: normalize_def)
  then have names: "canonicalAction trimWhitespace (actionName a) = Some a" if "a \<le> 8" for a
    using that by (simp add: canonicalAction_def) (auto simp: actionName_def action_defs)
  have "split_on CHR '','' (join_with CHR '','' (map actionName as)) = map actionName as"
    using assms(2) actionName_plain by (intro split_on_join) auto
  moreover have "parse_pieces trimWhitespace (map actionName as) [] = Inr ([] @ as)"
    using assms(3) names actionName_plain actionName_nonempty
    by (intro parse_pieces_names trim_id) auto
  ultimately show ?thesis
    using assms(2) by (simp add: parseActions_def parse_actions_loop_split)
qed

theorem parseActions_roundtrip_witness:
  "parseActions (\<lambda>s. s) ''publish,subscribe'' = Inr [Publish, Subscribe]"
  using parseActions_roundtrip [of "\<lambda>s. s" "[6, 4]"] by (simp add: action_defs actionName_def)

text \<open>
  The slash syntax of namespaces: empty pieces vanish, so a tuple of non-empty segments
  without a slash is read back from its joined form; a text with no non-empty piece stands
  for itself, and the result is never the empty tuple.
\<close>

theorem parseTrackNamespace_pieces:
  "parseTrackNamespace val =
     (if filter (\<lambda>s. s \<noteq> []) (split_on CHR ''/'' val) = [] then [val]
      else filter (\<lambda>s. s \<noteq> []) (split_on CHR ''/'' val)) \<and>
   (ns \<noteq> [] \<longrightarrow> (\<forall>s\<in>set ns. s \<noteq> [] \<and> CHR ''/'' \<notin> set s) \<longrightarrow>
      parseTrackNamespace (join_with CHR ''/'' ns) = ns)"
proof -
  have eq: "parseTrackNamespace v =
     (if filter (\<lambda>s. s \<noteq> []) (split_on CHR ''/'' v) = [] then [v]
      else filter (\<lambda>s. s \<noteq> []) (split_on CHR ''/'' v))" for v
    using parse_ns_loop_split [of 0 v "[]"] by (simp add: parseTrackNamespace_def Let_def)
  have "filter (\<lambda>s. s \<noteq> []) (split_on CHR ''/'' (join_with CHR ''/'' ns)) = ns"
    if "ns \<noteq> []" "\<forall>s\<in>set ns. s \<noteq> [] \<and> CHR ''/'' \<notin> set s"
    using that split_on_join [of ns "CHR ''/''"] by (simp add: filter_id_conv)
  with eq show ?thesis by simp
qed

theorem parseTrackNamespace_pieces_witness:
  "parseTrackNamespace ''live/cam1'' = [''live'', ''cam1''] \<and> parseTrackNamespace ''//'' = [''//'']"
  using parseTrackNamespace_pieces [of "''//''" "[''live'', ''cam1'']"] by simp


text \<open>A token library that keeps the signed tokens it has issued; here there is one.\<close>

definition demo_options :: issue_options where
  "demo_options = \<lparr>keyID = ''k1'', opt_secret = ''s1'', opt_actions = [ClientSetup, Subscribe],
     opt_namespace = [''live''], opt_track = None, ttl = 60, opt_now = 0\<rparr>"

definition demo_issue_api :: issue_api where
  "demo_issue_api = \<lparr>match_any = \<lparr>is_empty = True, conditions = []\<rparr>,
     match_all = \<lambda>cs. \<lparr>is_empty = False, conditions = cs\<rparr>,
     cond_exact = Pair EXACT, cond_prefix = Pair PREFIX, cond_suffix = Pair SUFFIX,
     cond_contains = Pair CONTAINS, claims_of_scopes = \<lambda>ss. ss,
     validateTokenStructure = \<lambda>t. t =
       \<lparr>exp = Some 60, moqt = Some
         [\<lparr>cat_actions = [0], namespace_match = \<lparr>is_empty = True, conditions = []\<rparr>,
           track_match = \<lparr>is_empty = True, conditions = []\<rparr>\<rparr>,
          \<lparr>cat_actions = [4],
           namespace_match = \<lparr>is_empty = False, conditions = [(EXACT, canonicalNamespace [''live''])]\<rparr>,
           track_match = \<lparr>is_empty = True, conditions = []\<rparr>\<rparr>]\<rparr>,
     createCwt = \<lambda>t kid k. CHR ''T'' # kid\<rparr>"

definition demo_issued :: cat_token where
  "demo_issued = \<lparr>exp = Some 60, moqt = Some
     [\<lparr>cat_actions = [0], namespace_match = \<lparr>is_empty = True, conditions = []\<rparr>,
       track_match = \<lparr>is_empty = True, conditions = []\<rparr>\<rparr>,
      \<lparr>cat_actions = [4],
       namespace_match = \<lparr>is_empty = False, conditions = [(EXACT, canonicalNamespace [''live''])]\<rparr>,
       track_match = \<lparr>is_empty = True, conditions = []\<rparr>\<rparr>]\<rparr>"

definition demo_check_api :: cat_api where
  "demo_check_api = demo_api\<lparr>decodeHeader := \<lambda>tok. Some (Some (tl tok)),
     validateCwt := \<lambda>tok k. Cwt demo_issued\<rparr>"

lemma demo_library_ok: "library_ok demo_check_api demo_issue_api"
  by (simp add: library_ok_def demo_check_api_def demo_issue_api_def demo_issued_def)

lemma demo_check_built: "AuthTokenVerifier demo_check_api demo_config = Some demo_verifier"
  by (simp add: AuthTokenVerifier_def demo_verifier_def demo_check_api_def demo_api_def demo_config_def)

lemma demo_issue: "issueToken demo_check_api demo_issue_api demo_options = Inr ''Tk1''"
  by (simp add: issueToken_def demo_options_def signGrants_def demo_check_api_def demo_api_def
      tokenFromGrants_def issue_grants_def time_of_seconds_def wrap_i64_def seconds_of_time_def
      time_point_max_def containsAction_def isNamespaceAction_def action_defs to_i32_def
      toCatapultMatch_def demo_issue_api_def)


end
