(* ===== verification/Namespace_Tree.thy ===== *)
theory Namespace_Tree
  imports Moqx_Prelude "HOL-Library.Sublist" "HOL-Library.Product_Lexorder"
begin

text \<open>
  The tree of announcements and namespace subscriptions, \<^verbatim>\<open>src/NamespaceTree.{h,cpp}\<close>. The
  nodes of the tree live in a store keyed by their path from the root: the child \<open>k\<close> of the node
  at \<open>p\<close> is the entry at \<open>p @ [k]\<close>, \<^verbatim>\<open>parent_\<close> is \<open>butlast\<close>, and erasing a child from
  \<^verbatim>\<open>children_\<close> erases every entry below it. Hash maps are association lists in iteration order.
  A failed \<^verbatim>\<open>XCHECK\<close> and a null dereference end the process; such a run is \<open>None\<close>.
\<close>

section \<open>Nodes\<close>

record route =
  r_session :: session
  r_callback :: "nat option"
  r_peerID :: string
  r_requestID :: u64
  r_path :: "u64 list"
  r_cost :: u64
  r_seq :: u64
  r_fromCluster :: bool

record track_filter =
  propertyType :: u64
  maxSelected :: u64

record subscriber_info =
  forward :: bool
  options :: nat
  namespacePublishHandle :: "nat option"
  trackNamespacePrefix :: track_namespace
  trackFilter :: "track_filter option"
  peerID :: string

record advertisement =
  routeSeq :: u64
  a_path :: "u64 list"
  a_cost :: u64

record node =
  n_trackNamespace :: track_namespace
  activeChildCount :: nat
  routes :: "route list"
  advertisements :: "((session \<times> nat) \<times> advertisement) list"
  publishes :: "(string \<times> session) list"
  subscribers :: "(session \<times> subscriber_info) list"
  rankings :: "(u64 \<times> nat option) list"

definition new_node :: "track_namespace \<Rightarrow> node" where
  "new_node ns = \<lparr>n_trackNamespace = ns, activeChildCount = 0, routes = [], advertisements = [],
     publishes = [], subscribers = [], rankings = []\<rparr>"

definition hasContent :: "node \<Rightarrow> bool" where
  "hasContent n \<longleftrightarrow> publishes n \<noteq> [] \<or> subscribers n \<noteq> [] \<or> routes n \<noteq> []"

definition shouldKeep :: "node \<Rightarrow> bool" where
  "shouldKeep n \<longleftrightarrow> hasContent n \<or> activeChildCount n > 0"

section \<open>The store\<close>

record namespace_tree =
  nodes :: "(track_namespace \<times> node) list"
  nextRouteSeq :: u64

definition empty_tree :: namespace_tree where
  "empty_tree = \<lparr>nodes = [([], new_node [])], nextRouteSeq = 0\<rparr>"

definition node_at :: "namespace_tree \<Rightarrow> track_namespace \<Rightarrow> node option" where
  "node_at t p = map_of (nodes t) p"

definition upd_node :: "track_namespace \<Rightarrow> (node \<Rightarrow> node) \<Rightarrow> namespace_tree \<Rightarrow> namespace_tree" where
  "upd_node p f t = t\<lparr>nodes := map (\<lambda>(q, n). (q, if q = p then f n else n)) (nodes t)\<rparr>"

definition add_node :: "track_namespace \<Rightarrow> namespace_tree \<Rightarrow> namespace_tree" where
  "add_node p t = t\<lparr>nodes := nodes t @ [(p, new_node p)]\<rparr>"

definition erase_subtree :: "track_namespace \<Rightarrow> namespace_tree \<Rightarrow> namespace_tree" where
  "erase_subtree p t = t\<lparr>nodes := filter (\<lambda>(q, n). \<not> prefix p q) (nodes t)\<rparr>"

text \<open>The keys of \<^verbatim>\<open>children_\<close> of the node at \<open>p\<close>.\<close>

definition child_keys :: "namespace_tree \<Rightarrow> track_namespace \<Rightarrow> string list" where
  "child_keys t p =
     remdups (map last (filter (\<lambda>q. q \<noteq> [] \<and> butlast q = p) (map fst (nodes t))))"

section \<open>Active children and pruning\<close>

function incrementActiveChildren :: "track_namespace \<Rightarrow> namespace_tree \<Rightarrow> namespace_tree" where
  "incrementActiveChildren p t =
     (let t' = upd_node p (\<lambda>n. n\<lparr>activeChildCount := activeChildCount n + 1\<rparr>) t in
      case node_at t' p of None \<Rightarrow> t'
      | Some n \<Rightarrow>
          if activeChildCount n = 1 \<and> p \<noteq> [] \<and> \<not> hasContent n
          then incrementActiveChildren (butlast p) t' else t')"
  by pat_completeness auto
termination
  by (relation "measure (\<lambda>(p, t). length p)") auto

declare incrementActiveChildren.simps [simp del]

text \<open>
  The loop of \<^verbatim>\<open>tryPruneChild\<close>: \<open>current\<close> walks up, the subtree to remove is the last child
  seen to be empty.
\<close>

function prune_loop ::
  "track_namespace \<Rightarrow> track_namespace \<Rightarrow> namespace_tree \<Rightarrow> namespace_tree option" where
  "prune_loop current remove t =
     (case node_at t current of None \<Rightarrow> None
      | Some n \<Rightarrow>
          if \<not> activeChildCount n > 0 then None
          else
            let t' = upd_node current (\<lambda>m. m\<lparr>activeChildCount := activeChildCount m - 1\<rparr>) t in
            if hasContent n \<or> activeChildCount n - 1 > 0 then Some (erase_subtree remove t')
            else if current = [] then Some (erase_subtree remove t')
            else prune_loop (butlast current) current t')"
  by pat_completeness auto
termination
  by (relation "measure (\<lambda>(c, r, t). length c)") auto

declare prune_loop.simps [simp del]

definition tryPruneChild ::
  "track_namespace \<Rightarrow> string \<Rightarrow> namespace_tree \<Rightarrow> namespace_tree option" where
  "tryPruneChild parent key t =
     (case node_at t (parent @ [key]) of None \<Rightarrow> Some t
      | Some child \<Rightarrow>
          if shouldKeep child then Some t else prune_loop parent (parent @ [key]) t)"

definition notifyParentIfFirstContent ::
  "track_namespace \<Rightarrow> bool \<Rightarrow> namespace_tree \<Rightarrow> namespace_tree" where
  "notifyParentIfFirstContent p wasEmpty t =
     (case node_at t p of None \<Rightarrow> t
      | Some n \<Rightarrow>
          if wasEmpty \<and> hasContent n \<and> p \<noteq> []
          then incrementActiveChildren (butlast p) t else t)"

definition tryPruneSelf ::
  "track_namespace \<Rightarrow> bool \<Rightarrow> namespace_tree \<Rightarrow> namespace_tree option" where
  "tryPruneSelf p hadContent t =
     (case node_at t p of None \<Rightarrow> Some t
      | Some n \<Rightarrow>
          if hadContent \<and> \<not> shouldKeep n \<and> p \<noteq> []
          then tryPruneChild (butlast p) (last p) t else Some t)"

text \<open>
  A mutation of the content of the node at \<open>p\<close> under a \<^verbatim>\<open>NodeMutationGuard\<close>: the content is
  looked at before, the parent told and the node pruned after.
\<close>

definition guarded ::
  "track_namespace \<Rightarrow> (node \<Rightarrow> node) \<Rightarrow> namespace_tree \<Rightarrow> namespace_tree option" where
  "guarded p f t =
     (case node_at t p of None \<Rightarrow> None
      | Some n \<Rightarrow>
          let hadContent = hasContent n;
              t1 = upd_node p f t;
              t2 = notifyParentIfFirstContent p (\<not> hadContent) t1
          in tryPruneSelf p hadContent t2)"

section \<open>Finding nodes\<close>

text \<open>
  \<^verbatim>\<open>findNode\<close>: the walk from the root, creating what is missing if asked to, collecting the
  subscribers of the strict prefixes on the way.
\<close>

fun find_walk ::
  "bool \<Rightarrow> track_namespace \<Rightarrow> string list \<Rightarrow> namespace_tree \<Rightarrow> (session \<times> subscriber_info) list \<Rightarrow>
   namespace_tree \<times> track_namespace option \<times> (session \<times> subscriber_info) list" where
  "find_walk create cur [] t subs = (t, Some cur, subs)"
| "find_walk create cur (name # rest) t subs =
     (let subs' = subs @ (case node_at t cur of None \<Rightarrow> [] | Some n \<Rightarrow> subscribers n);
          nxt = cur @ [name]
      in case node_at t nxt of
           None \<Rightarrow> if create then find_walk create nxt rest (add_node nxt t) subs'
                   else (t, None, subs')
         | Some _ \<Rightarrow> find_walk create nxt rest t subs')"

definition findNode ::
  "namespace_tree \<Rightarrow> track_namespace \<Rightarrow> bool \<Rightarrow>
   namespace_tree \<times> track_namespace option \<times> (session \<times> subscriber_info) list" where
  "findNode t ns create = find_walk create [] ns t []"

section \<open>Routes\<close>

text \<open>The anonymous hop id is a constant of the transport library; the test for a hop on a path is that of
\<^verbatim>\<open>src/relay/ClusterPath.h\<close>.\<close>

record cluster_api =
  anonHopId :: u64

definition clusterPathContains :: "u64 list \<Rightarrow> u64 \<Rightarrow> bool" where
  "clusterPathContains p hop \<longleftrightarrow> hop \<noteq> 0 \<and> List.member p hop"

definition hasAnon :: "cluster_api \<Rightarrow> route \<Rightarrow> bool" where
  "hasAnon cl r = List.member (r_path r) (anonHopId cl)"

definition betterRoute :: "cluster_api \<Rightarrow> route \<Rightarrow> route \<Rightarrow> bool" where
  "betterRoute cl a b \<longleftrightarrow>
     (hasAnon cl a, r_cost a, length (r_path a), r_seq b) <
     (hasAnon cl b, r_cost b, length (r_path b), r_seq a)"

fun select_loop :: "cluster_api \<Rightarrow> (route \<Rightarrow> bool) \<Rightarrow> route list \<Rightarrow> route option \<Rightarrow> route option" where
  "select_loop cl eligible [] best = best"
| "select_loop cl eligible (r # rs) best =
     select_loop cl eligible rs
       (if eligible r \<and> (case best of None \<Rightarrow> True | Some b \<Rightarrow> betterRoute cl r b) then Some r else best)"

definition selectRoute :: "cluster_api \<Rightarrow> (route \<Rightarrow> bool) \<Rightarrow> node \<Rightarrow> route option" where
  "selectRoute cl eligible n = select_loop cl eligible (routes n) None"

definition findRoute :: "node \<Rightarrow> session \<Rightarrow> route option" where
  "findRoute n s = find (\<lambda>r. r_session r = s) (routes n)"

fun insert_route :: "cluster_api \<Rightarrow> route \<Rightarrow> route list \<Rightarrow> route list" where
  "insert_route cl r [] = [r]"
| "insert_route cl r (x # xs) = (if betterRoute cl r x then r # x # xs else x # insert_route cl r xs)"

definition rankedRoutes :: "cluster_api \<Rightarrow> node \<Rightarrow> route list" where
  "rankedRoutes cl n = foldr (insert_route cl) (routes n) []"

fun route_walk ::
  "namespace_tree \<Rightarrow> track_namespace \<Rightarrow> string list \<Rightarrow> track_namespace option \<Rightarrow> track_namespace option" where
  "route_walk t cur [] deepest = deepest"
| "route_walk t cur (name # rest) deepest =
     (let nxt = cur @ [name] in
      case node_at t nxt of None \<Rightarrow> deepest
      | Some n \<Rightarrow> route_walk t nxt rest (if routes n \<noteq> [] then Some nxt else deepest))"

definition findRouteNode :: "namespace_tree \<Rightarrow> track_namespace \<Rightarrow> track_namespace option" where
  "findRouteNode t ns =
     route_walk t [] ns
       (case node_at t [] of Some n \<Rightarrow> if routes n = [] then None else Some [] | None \<Rightarrow> None)"

definition findPublisherSession ::
  "cluster_api \<Rightarrow> namespace_tree \<Rightarrow> track_namespace \<Rightarrow> session option \<Rightarrow> u64 \<Rightarrow> session option" where
  "findPublisherSession cl t ns exSession exHop =
     (case findRouteNode t ns of None \<Rightarrow> None
      | Some p \<Rightarrow>
          (case node_at t p of None \<Rightarrow> None
           | Some n \<Rightarrow>
               map_option r_session
                 (selectRoute cl (\<lambda>r. (exSession = None \<or> exSession \<noteq> Some (r_session r)) \<and>
                     \<not> clusterPathContains (r_path r) exHop) n)))"

text \<open>\<^verbatim>\<open>hasRouteAlongPath\<close>.\<close>

fun has_route_walk ::
  "namespace_tree \<Rightarrow> session \<Rightarrow> (route \<Rightarrow> bool) \<Rightarrow> track_namespace \<Rightarrow> string list \<Rightarrow> bool" where
  "has_route_walk t s P cur rest =
     (case node_at t cur of None \<Rightarrow> False
      | Some n \<Rightarrow>
          (case findRoute n s of Some r \<Rightarrow> P r | None \<Rightarrow> False) \<or>
          (case rest of [] \<Rightarrow> False | name # rest' \<Rightarrow> has_route_walk t s P (cur @ [name]) rest'))"

definition hasRouteAlongPath ::
  "namespace_tree \<Rightarrow> track_namespace \<Rightarrow> session \<Rightarrow> (route \<Rightarrow> bool) \<Rightarrow> bool" where
  "hasRouteAlongPath t ns s P = has_route_walk t s P [] ns"

section \<open>Visiting a subtree\<close>

definition weight :: "namespace_tree \<Rightarrow> track_namespace \<Rightarrow> nat" where
  "weight t p = length (filter (prefix p) (map fst (nodes t)))"

lemma sum_child_hits:
  assumes "distinct ks"
  shows "sum_list (map (\<lambda>k. if prefix (p @ [k]) q then 1 else 0 :: nat) ks) + (if q = p then 1 else 0)
     \<le> (if prefix p q then 1 else 0)"
  using assms
proof (induction ks)
  case Nil
  then show ?case by simp
next
  case (Cons k ks)
  have "\<not> prefix (p @ [k']) q" if "prefix (p @ [k]) q" "k' \<in> set ks" for k'
  proof
    assume "prefix (p @ [k']) q"
    with that(1) have "k = k'" by (auto simp: prefix_def)
    with Cons.prems that(2) show False by auto
  qed
  then have "sum_list (map (\<lambda>k'. if prefix (p @ [k']) q then 1 else 0 :: nat) ks) = 0" if "prefix (p @ [k]) q"
    using that by (simp add: sum_list_eq_0_iff)
  moreover have "prefix p q \<and> q \<noteq> p" if "prefix (p @ [k]) q"
    using that by (auto simp: prefix_def)
  ultimately show ?case
    using Cons by (cases "prefix (p @ [k]) q") auto
qed

lemma sum_child_weights:
  assumes "distinct ks"
  shows "sum_list (map (\<lambda>k. length (filter (prefix (p @ [k])) qs)) ks) + length (filter (\<lambda>q. q = p) qs)
     \<le> length (filter (prefix p) qs)"
proof (induction qs)
  case Nil
  then show ?case by simp
next
  case (Cons q qs)
  have "sum_list (map (\<lambda>k. length (filter (prefix (p @ [k])) (q # qs))) ks) =
      sum_list (map (\<lambda>k. if prefix (p @ [k]) q then 1 else 0) ks) +
      sum_list (map (\<lambda>k. length (filter (prefix (p @ [k])) qs)) ks)"
    unfolding sum_list_addf [symmetric] by (rule arg_cong [of _ _ sum_list], rule map_cong) auto
  moreover have cons: "length (filter P (q # qs)) = (if P q then 1 else 0) + length (filter P qs)" for P
    by simp
  ultimately show ?case
    using Cons sum_child_hits [OF assms, of p q] cons [of "prefix p"] cons [of "\<lambda>q. q = p"]
    by linarith
qed

lemma child_weights:
  "sum_list (map (weight t) (map (\<lambda>k. p @ [k]) (child_keys t p))) +
     (if node_at t p = None then 0 else 1) \<le> weight t p"
proof -
  have "distinct (child_keys t p)" by (simp add: child_keys_def)
  note sum_child_weights [OF this, of p "map fst (nodes t)"]
  moreover have "(if node_at t p = None then 0 else 1) \<le> length (filter (\<lambda>q. q = p) (map fst (nodes t)))"
    by (force simp: node_at_def filter_empty_conv Suc_le_eq dest: map_of_SomeD)
  ultimately show ?thesis
    unfolding weight_def map_map comp_def by linarith
qed

text \<open>
  \<^verbatim>\<open>forEachNodeInSubtree\<close>: breadth first, the paths in the order they are visited. The queue
  grows by the children of its front; it ends because every visited node leaves the weight of
  the queue for good.
\<close>

function bfs :: "namespace_tree \<Rightarrow> track_namespace list \<Rightarrow> track_namespace list" where
  "bfs t [] = []"
| "bfs t (p # queue) =
     (case node_at t p of None \<Rightarrow> bfs t queue
      | Some n \<Rightarrow> p # bfs t (queue @ map (\<lambda>k. p @ [k]) (child_keys t p)))"
  by pat_completeness auto
termination
proof (relation "measures [\<lambda>(t, q). sum_list (map (weight t) q), \<lambda>(t, q). length q]", goal_cases)
  case (3 t p queue n)
  with child_weights [of t p] show ?case by simp
qed auto

text \<open>\<^verbatim>\<open>hasTracksSubscriptionInSubtree\<close>: depth first; the head of the list is the back of the vector.\<close>

function dfs_has_subscriber :: "namespace_tree \<Rightarrow> session \<Rightarrow> track_namespace list \<Rightarrow> bool" where
  "dfs_has_subscriber t s [] = False"
| "dfs_has_subscriber t s (p # stack) =
     (case node_at t p of None \<Rightarrow> dfs_has_subscriber t s stack
      | Some n \<Rightarrow>
          if map_of (subscribers n) s \<noteq> None then True
          else dfs_has_subscriber t s (rev (map (\<lambda>k. p @ [k]) (child_keys t p)) @ stack))"
  by pat_completeness auto
termination
proof (relation "measures [\<lambda>(t, s, q). sum_list (map (weight t) q), \<lambda>(t, s, q). length q]", goal_cases)
  case (3 t s p stack n)
  with child_weights [of t p] show ?case by (simp add: rev_map [symmetric] sum_list_rev)
qed auto

definition hasTracksSubscriptionInSubtree :: "namespace_tree \<Rightarrow> track_namespace \<Rightarrow> session \<Rightarrow> bool" where
  "hasTracksSubscriptionInSubtree t p s = dfs_has_subscriber t s [p]"

fun overlap_walk :: "namespace_tree \<Rightarrow> session \<Rightarrow> track_namespace \<Rightarrow> string list \<Rightarrow> bool" where
  "overlap_walk t s cur [] = hasTracksSubscriptionInSubtree t cur s"
| "overlap_walk t s cur (name # rest) =
     (case node_at t cur of None \<Rightarrow> False
      | Some n \<Rightarrow>
          if map_of (subscribers n) s \<noteq> None then True
          else if node_at t (cur @ [name]) = None then False
          else overlap_walk t s (cur @ [name]) rest)"

definition hasOverlappingTracksSubscription ::
  "namespace_tree \<Rightarrow> track_namespace \<Rightarrow> session \<Rightarrow> bool" where
  "hasOverlappingTracksSubscription t ns s = overlap_walk t s [] ns"

section \<open>Operations\<close>

fun erase_first :: "('a \<Rightarrow> bool) \<Rightarrow> 'a list \<Rightarrow> 'a list" where
  "erase_first P [] = []"
| "erase_first P (x # xs) = (if P x then xs else x # erase_first P xs)"

fun update_first :: "('a \<Rightarrow> bool) \<Rightarrow> ('a \<Rightarrow> 'a) \<Rightarrow> 'a list \<Rightarrow> 'a list" where
  "update_first P f [] = []"
| "update_first P f (x # xs) = (if P x then f x # xs else x # update_first P f xs)"

record set_publisher_result =
  sp_node :: track_namespace
  sp_subscribers :: "(session \<times> subscriber_info) list"
  replacedSession :: "session option"
  cancelled :: "nat option"

definition node_subscribers :: "namespace_tree \<Rightarrow> track_namespace \<Rightarrow> (session \<times> subscriber_info) list" where
  "node_subscribers t p = (case node_at t p of None \<Rightarrow> [] | Some n \<Rightarrow> subscribers n)"

definition node_routes :: "namespace_tree \<Rightarrow> track_namespace \<Rightarrow> route list" where
  "node_routes t p = (case node_at t p of None \<Rightarrow> [] | Some n \<Rightarrow> routes n)"

definition sameOrigin :: "u64 list \<Rightarrow> u64 list \<Rightarrow> bool" where
  "sameOrigin a b \<longleftrightarrow> a \<noteq> [] \<and> b \<noteq> [] \<and> hd a = hd b"

text \<open>\<^verbatim>\<open>reviseRoute\<close> on a route: the new route, the new counter, and the replaced session.\<close>

definition reviseRoute ::
  "route \<Rightarrow> u64 list \<Rightarrow> u64 \<Rightarrow> u64 \<Rightarrow> route \<times> u64 \<times> session option" where
  "reviseRoute r p c next =
     (if \<not> sameOrigin (r_path r) p
      then (let next' = u64_add next 1 in
            (r\<lparr>r_seq := next', r_path := p, r_cost := c\<rparr>, next', Some (r_session r)))
      else (r\<lparr>r_path := p, r_cost := c\<rparr>, next, None))"

definition setPublisher ::
  "namespace_tree \<Rightarrow> track_namespace \<Rightarrow> session \<Rightarrow> nat option \<Rightarrow> string \<Rightarrow> u64 \<Rightarrow> u64 list \<Rightarrow> u64 \<Rightarrow> bool \<Rightarrow>
   (namespace_tree \<times> set_publisher_result) option" where
  "setPublisher t ns s callback peer reqID hopPath routeCost fromCluster =
     (let (t1, _, upper) = findNode t ns True;
          subs = upper @ node_subscribers t1 ns;
          P = (\<lambda>r. r_session r = s \<or> (\<not> fromCluster \<and> \<not> r_fromCluster r));
          existing = find P (node_routes t1 ns)
      in if (case existing of None \<Rightarrow> False
             | Some r \<Rightarrow> r_session r = s \<and> fromCluster \<and> r_callback r = None \<and> callback = None)
         then
           let r = (the existing)\<lparr>r_peerID := peer\<rparr>;
               (r', next', replaced) = reviseRoute r hopPath routeCost (nextRouteSeq t1)
           in Some ((upd_node ns (\<lambda>n. n\<lparr>routes := update_first P (\<lambda>_. r') (routes n)\<rparr>) t1)
                      \<lparr>nextRouteSeq := next'\<rparr>,
                    \<lparr>sp_node = ns, sp_subscribers = subs, replacedSession = replaced, cancelled = None\<rparr>)
         else
           let next' = u64_add (nextRouteSeq t1) 1;
               r = \<lparr>r_session = s, r_callback = callback, r_peerID = peer, r_requestID = reqID,
                    r_path = hopPath, r_cost = routeCost, r_seq = next', r_fromCluster = fromCluster\<rparr>
           in map_option
                (\<lambda>t'. (t', \<lparr>sp_node = ns, sp_subscribers = subs,
                            replacedSession = map_option r_session existing,
                            cancelled = (case existing of None \<Rightarrow> None | Some e \<Rightarrow> r_callback e)\<rparr>))
                (guarded ns
                   (\<lambda>n. n\<lparr>routes := erase_first P (routes n) @ [r], n_trackNamespace := ns\<rparr>)
                   (t1\<lparr>nextRouteSeq := next'\<rparr>)))"

datatype tree_error = NodeNotFound | NotOwner | NotSubscribed

definition updateRoute ::
  "namespace_tree \<Rightarrow> track_namespace \<Rightarrow> session \<Rightarrow> u64 \<Rightarrow> u64 list \<Rightarrow> u64 \<Rightarrow>
   tree_error + namespace_tree \<times> set_publisher_result" where
  "updateRoute t ns s reqID p c =
     (case findNode t ns False of
        (_, None, _) \<Rightarrow> Inl NodeNotFound
      | (_, Some q, upper) \<Rightarrow>
          let P = (\<lambda>r. r_session r = s \<and> r_requestID r = reqID) in
          (case find P (node_routes t q) of
             None \<Rightarrow> Inl NotOwner
           | Some r \<Rightarrow>
               let (r', next', replaced) = reviseRoute r p c (nextRouteSeq t)
               in Inr ((upd_node q (\<lambda>n. n\<lparr>routes := update_first P (\<lambda>_. r') (routes n)\<rparr>) t)
                         \<lparr>nextRouteSeq := next'\<rparr>,
                       \<lparr>sp_node = q, sp_subscribers = upper @ node_subscribers t q,
                        replacedSession = replaced, cancelled = None\<rparr>)))"

text \<open>The outcome of an operation that can fail with an error or end the process.\<close>

definition unpublishNamespace ::
  "namespace_tree \<Rightarrow> track_namespace \<Rightarrow> session \<Rightarrow> u64 option \<Rightarrow>
   (tree_error + namespace_tree \<times> route \<times> (session \<times> subscriber_info) list) option" where
  "unpublishNamespace t ns s reqID =
     (case findNode t ns False of
        (_, None, _) \<Rightarrow> Some (Inl NodeNotFound)
      | (_, Some q, upper) \<Rightarrow>
          let P = (\<lambda>r. r_session r = s \<and> (reqID = None \<or> reqID = Some (r_requestID r))) in
          (case find P (node_routes t q) of
             None \<Rightarrow> Some (Inl NotOwner)
           | Some r \<Rightarrow>
               map_option (\<lambda>t'. Inr (t', r\<lparr>r_callback := None\<rparr>, upper @ node_subscribers t q))
                 (guarded q (\<lambda>n. n\<lparr>routes := erase_first P (routes n)\<rparr>) t)))"

definition unpublishTrack ::
  "namespace_tree \<Rightarrow> track_namespace \<Rightarrow> string \<Rightarrow> (tree_error + namespace_tree) option" where
  "unpublishTrack t ns tn =
     (case findNode t ns False of
        (_, None, _) \<Rightarrow> Some (Inl NodeNotFound)
      | (_, Some q, _) \<Rightarrow>
          map_option Inr
            (guarded q (\<lambda>n. n\<lparr>publishes := filter (\<lambda>(k, _). k \<noteq> tn) (publishes n)\<rparr>) t))"

function rankings_up :: "namespace_tree \<Rightarrow> track_namespace \<Rightarrow> (u64 \<times> nat) list" where
  "rankings_up t p =
     (case node_at t p of None \<Rightarrow> []
      | Some n \<Rightarrow> List.map_filter (\<lambda>(pt, rk). map_option (Pair pt) rk) (rankings n)) @
     (if p = [] then [] else rankings_up t (butlast p))"
  by pat_completeness auto
termination
  by (relation "measure (\<lambda>(t, p). length p)") auto

declare rankings_up.simps [simp del]

text \<open>\<^verbatim>\<open>addPublish\<close>; the last component lists the calls of \<^verbatim>\<open>onRanking\<close>.\<close>

definition addPublish ::
  "namespace_tree \<Rightarrow> full_track_name \<Rightarrow> session \<Rightarrow>
   (namespace_tree \<times> (session \<times> subscriber_info) list \<times> (u64 \<times> nat) list) option" where
  "addPublish t ftn s =
     (let ns = trackNamespace ftn;
          (t1, _, upper) = findNode t ns True;
          subs = upper @ node_subscribers t1 ns
      in map_option (\<lambda>t'. (t', subs, rankings_up t' ns))
           (guarded ns (\<lambda>n. n\<lparr>publishes := upsert (trackName ftn) s (\<lambda>_. s) (publishes n)\<rparr>) t1))"

definition getOrInsertRanking :: "namespace_tree \<Rightarrow> track_namespace \<Rightarrow> u64 \<Rightarrow> namespace_tree" where
  "getOrInsertRanking t p pt = upd_node p (\<lambda>n. n\<lparr>rankings := try_emplace pt None (rankings n)\<rparr>) t"

text \<open>\<^verbatim>\<open>MoqxRelay::getOrCreateRanking\<close>: a null slot gets the ranking just made.\<close>

definition getOrCreateRanking :: "namespace_tree \<Rightarrow> track_namespace \<Rightarrow> u64 \<Rightarrow> nat \<Rightarrow> namespace_tree" where
  "getOrCreateRanking t p pt fresh =
     upd_node p (\<lambda>n. n\<lparr>rankings := map (\<lambda>(k, rk). (k, if k = pt \<and> rk = None then Some fresh else rk))
       (rankings n)\<rparr>) (getOrInsertRanking t p pt)"

definition addNamespaceSubscriber ::
  "namespace_tree \<Rightarrow> track_namespace \<Rightarrow> session \<Rightarrow> subscriber_info \<Rightarrow> namespace_tree option" where
  "addNamespaceSubscriber t ns s info =
     (let (t1, _, _) = findNode t ns True
      in guarded ns (\<lambda>n. n\<lparr>subscribers := try_emplace s info (subscribers n)\<rparr>) t1)"

definition eraseSubscriberAdvertisement :: "session \<times> nat \<Rightarrow> node \<Rightarrow> node" where
  "eraseSubscriberAdvertisement key n =
     n\<lparr>advertisements := filter (\<lambda>(k, _). k \<noteq> key) (advertisements n)\<rparr>"

definition setSubscriberAdvertisement :: "session \<times> nat \<Rightarrow> advertisement \<Rightarrow> node \<Rightarrow> node" where
  "setSubscriberAdvertisement key a n =
     n\<lparr>advertisements := upsert key a (\<lambda>_. a) (advertisements n)\<rparr>"

definition findSubscriberAdvertisement :: "session \<times> nat \<Rightarrow> node \<Rightarrow> advertisement option" where
  "findSubscriberAdvertisement key n = map_of (advertisements n) key"

text \<open>
  \<^verbatim>\<open>removeNamespaceSubscriber\<close>; the last component is the call of
  \<^verbatim>\<open>removeSessionFromTopNGroup\<close>: the ranking, the group and the session.
\<close>

definition removeNamespaceSubscriber ::
  "namespace_tree \<Rightarrow> track_namespace \<Rightarrow> session \<Rightarrow>
   (tree_error + namespace_tree \<times> (nat \<times> u64 \<times> session) option) option" where
  "removeNamespaceSubscriber t ns s =
     (case findNode t ns False of
        (_, None, _) \<Rightarrow> Some (Inl NodeNotFound)
      | (_, Some q, _) \<Rightarrow>
          (case node_at t q of None \<Rightarrow> None
           | Some n \<Rightarrow>
               (case map_of (subscribers n) s of
                  None \<Rightarrow> Some (Inl NotSubscribed)
                | Some info \<Rightarrow>
                    let slot = (case trackFilter info of None \<Rightarrow> None
                                | Some f \<Rightarrow> map_option (\<lambda>rk. (rk, maxSelected f))
                                              (map_of (rankings n) (propertyType f)));
                        t1 = fold (\<lambda>p. upd_node p (eraseSubscriberAdvertisement (s, length ns)))
                               (bfs t [q]) t
                    in case slot of
                         Some (None, _) \<Rightarrow> None
                       | _ \<Rightarrow>
                           map_option
                             (\<lambda>t'. Inr (t', (case slot of Some (Some rk, m) \<Rightarrow> Some (rk, m, s) | _ \<Rightarrow> None)))
                             (guarded q (\<lambda>n. n\<lparr>subscribers := filter (\<lambda>(k, _). k \<noteq> s) (subscribers n)\<rparr>) t1))))"

end
