(* ===== verification/Namespace_Tree_Spec.thy ===== *)
theory Namespace_Tree_Spec
  imports Namespace_Tree
begin

text \<open>
  What the namespace tree promises: it is a map from namespaces to their content (routes,
  published tracks, subscribers). The invariant below keeps the active-child counts an upper
  bound of the active children; with it no operation can fail its check, pruning never
  removes content, and every operation is the update of that map.
\<close>

section \<open>The store\<close>

declare bfs.simps(2) [simp del] dfs_has_subscriber.simps(2) [simp del]

lemma node_at_upd [simp]:
  "node_at (upd_node p f t) q = (if q = p then map_option f (node_at t q) else node_at t q)"
proof -
  have "map_of (map (\<lambda>(q, n). (q, if q = p then f n else n)) ns) q =
      (if q = p then map_option f (map_of ns q) else map_of ns q)" for ns
    by (induction ns) auto
  then show ?thesis by (simp add: node_at_def upd_node_def)
qed

lemma node_at_add [simp]:
  "node_at (add_node p t) q = (if q = p \<and> node_at t p = None then Some (new_node p) else node_at t q)"
  by (auto simp: node_at_def add_node_def map_add_def split: option.splits)

lemma node_at_erase [simp]:
  "node_at (erase_subtree p t) q = (if prefix p q then None else node_at t q)"
proof -
  have "map_of (filter (\<lambda>(q, n). \<not> prefix p q) ns) q = (if prefix p q then None else map_of ns q)"
    for ns :: "(track_namespace \<times> node) list"
    by (induction ns) auto
  then show ?thesis by (simp add: node_at_def erase_subtree_def)
qed

lemma node_at_seq [simp]: "node_at (t\<lparr>nextRouteSeq := x\<rparr>) q = node_at t q"
  by (simp add: node_at_def)

lemma finite_nodes: "finite {q. node_at t q \<noteq> None}"
  using finite_dom_map_of [of "nodes t"] by (simp add: node_at_def dom_def)

lemma child_keys_iff: "k \<in> set (child_keys t p) \<longleftrightarrow> node_at t (p @ [k]) \<noteq> None"
proof -
  have "k \<in> set (child_keys t p) \<longleftrightarrow> p @ [k] \<in> fst ` set (nodes t)"
    by (force simp: child_keys_def image_iff append_butlast_last_id)
  then show ?thesis
    by (simp add: node_at_def map_of_eq_None_iff [of "nodes t"])
qed

section \<open>Content and activity\<close>

record content =
  c_routes :: "route list"
  c_publishes :: "(string \<times> session) list"
  c_subscribers :: "(session \<times> subscriber_info) list"

definition no_content :: content where
  "no_content = \<lparr>c_routes = [], c_publishes = [], c_subscribers = []\<rparr>"

definition content_of :: "node \<Rightarrow> content" where
  "content_of n = \<lparr>c_routes = routes n, c_publishes = publishes n, c_subscribers = subscribers n\<rparr>"

definition contents :: "namespace_tree \<Rightarrow> track_namespace \<Rightarrow> content" where
  "contents t p = (case node_at t p of None \<Rightarrow> no_content | Some n \<Rightarrow> content_of n)"

lemma hasContent_iff: "hasContent n \<longleftrightarrow> content_of n \<noteq> no_content"
  by (auto simp: hasContent_def content_of_def no_content_def)

definition active :: "namespace_tree \<Rightarrow> track_namespace \<Rightarrow> bool" where
  "active t p \<longleftrightarrow> (case node_at t p of None \<Rightarrow> False | Some n \<Rightarrow> shouldKeep n)"

lemma active_exists: "active t p \<Longrightarrow> node_at t p \<noteq> None"
  by (auto simp: active_def split: option.splits)

definition actives :: "namespace_tree \<Rightarrow> track_namespace \<Rightarrow> string set" where
  "actives t p = {k. active t (p @ [k])}"

lemma finite_actives [simp]: "finite (actives t p)"
proof -
  have "actives t p \<subseteq> last ` {q. node_at t q \<noteq> None}"
  proof
    fix k
    assume "k \<in> actives t p"
    then have "node_at t (p @ [k]) \<noteq> None" by (simp add: actives_def active_exists del: not_None_eq)
    then show "k \<in> last ` {q. node_at t q \<noteq> None}" by (force intro: image_eqI [of _ _ "p @ [k]"])
  qed
  then show ?thesis by (rule finite_subset) (rule finite_imageI [OF finite_nodes])
qed

definition tree_wf :: "namespace_tree \<Rightarrow> bool" where
  "tree_wf t \<longleftrightarrow> node_at t [] \<noteq> None \<and>
     (\<forall>p k. node_at t (p @ [k]) \<noteq> None \<longrightarrow> node_at t p \<noteq> None)"

text \<open>The counts, off by \<open>d\<close> at the one node \<open>c\<close> while an operation is under way.\<close>

definition counts :: "int \<Rightarrow> track_namespace \<Rightarrow> namespace_tree \<Rightarrow> bool" where
  "counts d c t \<longleftrightarrow> (\<forall>p n. node_at t p = Some n \<longrightarrow>
     int (card (actives t p)) + (if p = c then d else 0) \<le> int (activeChildCount n))"

definition tree_inv :: "namespace_tree \<Rightarrow> bool" where
  "tree_inv t \<longleftrightarrow> tree_wf t \<and> counts 0 [] t"

lemma counts_0: "counts 0 c t = counts 0 d t"
  by (simp add: counts_def)

lemma countsD: "\<lbrakk>counts d c t; node_at t p = Some n\<rbrakk> \<Longrightarrow>
    int (card (actives t p)) + (if p = c then d else 0) \<le> int (activeChildCount n)"
  by (simp add: counts_def)

lemma tree_wf_prefix: "\<lbrakk>tree_wf t; node_at t (p @ r) \<noteq> None\<rbrakk> \<Longrightarrow> node_at t p \<noteq> None"
proof (induction r rule: rev_induct)
  case Nil
  then show ?case by simp
next
  case (snoc k r)
  from snoc.prems(2) have "node_at t ((p @ r) @ [k]) \<noteq> None" by simp
  with snoc.prems(1) have "node_at t (p @ r) \<noteq> None" unfolding tree_wf_def by blast
  with snoc show ?case by blast
qed

text \<open>Below an inactive node everything is inactive, so nothing there has content.\<close>

lemma inactive_below:
  assumes "tree_wf t" and "counts d c t" and "0 \<le> d" and "\<not> active t p"
  shows "\<not> active t (p @ r)"
proof (induction r rule: rev_induct)
  case Nil
  with assms(4) show ?case by simp
next
  case (snoc k r)
  show ?case
  proof
    assume act: "active t (p @ r @ [k])"
    then have "node_at t ((p @ r) @ [k]) \<noteq> None" by (simp add: active_exists del: not_None_eq)
    with assms(1) have "node_at t (p @ r) \<noteq> None" unfolding tree_wf_def by blast
    then obtain n where n: "node_at t (p @ r) = Some n" by auto
    with snoc have "activeChildCount n = 0" by (simp add: active_def shouldKeep_def)
    moreover have "0 \<le> (if p @ r = c then d else 0)" using assms(3) by simp
    ultimately have "card (actives t (p @ r)) = 0"
      using countsD [OF assms(2) n] by linarith
    then have "actives t (p @ r) = {}" by simp
    with act show False by (auto simp: actives_def)
  qed
qed

lemma contents_inactive: "\<not> active t p \<Longrightarrow> contents t p = no_content"
  by (auto simp: active_def contents_def shouldKeep_def hasContent_iff split: option.splits)

lemma contents_seq [simp]: "contents (t\<lparr>nextRouteSeq := x\<rparr>) = contents t"
  by (simp add: contents_def fun_eq_iff)

lemma active_seq [simp]: "active (t\<lparr>nextRouteSeq := x\<rparr>) = active t"
  by (simp add: active_def fun_eq_iff)

lemma tree_inv_seq [simp]: "tree_inv (t\<lparr>nextRouteSeq := x\<rparr>) = tree_inv t"
  by (simp add: tree_inv_def tree_wf_def counts_def actives_def)

lemma empty_tree_inv: "tree_inv empty_tree" and contents_empty: "contents empty_tree p = no_content"
  by (simp_all add: tree_inv_def tree_wf_def counts_def actives_def active_def empty_tree_def
      node_at_def contents_def content_of_def new_node_def no_content_def)

section \<open>Counting up\<close>

lemma counts_transfer:
  assumes "counts d c t"
    and "\<And>p n. node_at t' p = Some n \<Longrightarrow> \<exists>m. node_at t p = Some m \<and>
      int (card (actives t' p)) + (if p = c' then d' else 0) + int (activeChildCount m)
      \<le> int (card (actives t p)) + (if p = c then d else 0) + int (activeChildCount n)"
  shows "counts d' c' t'"
  unfolding counts_def
proof (intro allI impI)
  fix p n
  assume "node_at t' p = Some n"
  from assms(2) [OF this] obtain m where "node_at t p = Some m"
    "int (card (actives t' p)) + (if p = c' then d' else 0) + int (activeChildCount m)
      \<le> int (card (actives t p)) + (if p = c then d else 0) + int (activeChildCount n)" by blast
  with countsD [OF assms(1)] show
    "int (card (actives t' p)) + (if p = c' then d' else 0) \<le> int (activeChildCount n)" by fastforce
qed

text \<open>How the active children of a node change when the one node \<open>p\<close> is rewritten.\<close>

lemma actives_upd:
  "actives (upd_node p f t) q =
     (if p \<noteq> [] \<and> q = butlast p
      then (if active (upd_node p f t) p then insert (last p) (actives t q)
            else actives t q - {last p})
      else actives t q)"
proof -
  have "active (upd_node p f t) (q @ [k]) = active t (q @ [k])" if "q @ [k] \<noteq> p" for k
    using that by (simp add: active_def)
  then show ?thesis
    by (auto simp: actives_def) (metis append_butlast_last_id butlast_snoc last_snoc)+
qed

lemma wf_upd [simp]: "tree_wf (upd_node p f t) = tree_wf t"
proof -
  have "(node_at (upd_node p f t) q \<noteq> None) = (node_at t q \<noteq> None)" for q by simp
  then show ?thesis unfolding tree_wf_def by metis
qed

lemma card_insert_plus: "card (insert x A) \<le> card A + 1"
  by (cases "finite A") (auto simp: card_insert_if)

lemma contents_upd:
  "contents (upd_node p f t) =
     (case node_at t p of None \<Rightarrow> contents t | Some n \<Rightarrow> (contents t)(p := content_of (f n)))"
  by (auto simp: contents_def fun_eq_iff split: option.splits)

lemma contents_upd_same:
  "(\<And>n. content_of (f n) = content_of n) \<Longrightarrow> contents (upd_node p f t) = contents t"
  by (auto simp: contents_upd fun_eq_iff contents_def split: option.splits)

lemma content_of_count [simp]: "content_of (n\<lparr>activeChildCount := x\<rparr>) = content_of n"
  by (simp add: content_of_def)

lemma hasContent_count [simp]: "hasContent (n\<lparr>activeChildCount := x\<rparr>) = hasContent n"
  by (simp add: hasContent_def)

lemma inc_ok:
  "\<lbrakk>tree_wf t; node_at t p \<noteq> None; counts (-1) p t\<rbrakk> \<Longrightarrow>
     tree_inv (incrementActiveChildren p t) \<and>
     contents (incrementActiveChildren p t) = contents t \<and>
     (\<forall>q. node_at (incrementActiveChildren p t) q = None \<longleftrightarrow> node_at t q = None) \<and>
     nextRouteSeq (incrementActiveChildren p t) = nextRouteSeq t"
proof (induction p t rule: incrementActiveChildren.induct)
  case (1 p t)
  from 1(3) obtain n where n: "node_at t p = Some n" by auto
  define t' where "t' = upd_node p (\<lambda>n. n\<lparr>activeChildCount := activeChildCount n + 1\<rparr>) t"
  have at: "node_at t' q = (if q = p then Some (n\<lparr>activeChildCount := Suc (activeChildCount n)\<rparr>) else node_at t q)" for q
    using n by (simp add: t'_def)
  have same: "contents t' = contents t" by (simp add: contents_upd_same t'_def)
  have seq: "nextRouteSeq t' = nextRouteSeq t" by (simp add: t'_def upd_node_def)
  have dom: "(node_at t' q = None) = (node_at t q = None)" for q using n by (simp add: at)
  have wf: "tree_wf t'" using 1(2) by (simp add: t'_def)
  have "active t' p" by (simp add: active_def shouldKeep_def at)
  then have act: "actives t' q = (if p \<noteq> [] \<and> q = butlast p then insert (last p) (actives t q) else actives t q)" for q
    by (simp add: actives_upd t'_def)
  show ?case
  proof (cases "activeChildCount n = 0 \<and> p \<noteq> [] \<and> \<not> hasContent n")
    case True
    then have cond: "activeChildCount (n\<lparr>activeChildCount := Suc (activeChildCount n)\<rparr>) = 1 \<and> p \<noteq> [] \<and>
        \<not> hasContent (n\<lparr>activeChildCount := Suc (activeChildCount n)\<rparr>)"
      by (simp add: hasContent_def)
    then have step: "incrementActiveChildren p t = incrementActiveChildren (butlast p) t'"
      unfolding incrementActiveChildren.simps [of p t] Let_def t'_def [symmetric] by (simp add: at)
    have "node_at t' (butlast p) \<noteq> None"
      using wf True at tree_wf_prefix [of t' "butlast p" "[last p]"] by simp
    moreover have "counts (-1) (butlast p) t'"
    proof (rule counts_transfer [OF 1(4)])
      fix q m
      assume q: "node_at t' q = Some m"
      have "p \<noteq> butlast p" using True by (metis append_butlast_last_id append_self_conv list.discI)
      then show "\<exists>m'. node_at t q = Some m' \<and>
        int (card (actives t' q)) + (if q = butlast p then - 1 else 0) + int (activeChildCount m')
        \<le> int (card (actives t q)) + (if q = p then - 1 else 0) + int (activeChildCount m)"
        using q n card_insert_plus [of "last p" "actives t q"] by (auto simp: act at split: if_splits)
    qed
    ultimately show ?thesis
      using 1(1) [OF t'_def, of "n\<lparr>activeChildCount := Suc (activeChildCount n)\<rparr>"] cond wf
      by (auto simp: step same seq dom at n)
  next
    case False
    have stop: "incrementActiveChildren p t = t'"
      using False unfolding incrementActiveChildren.simps [of p t] Let_def t'_def [symmetric]
      by (auto simp: at hasContent_def)
    have "p \<noteq> [] \<Longrightarrow> active t p"
      using False n by (auto simp: active_def shouldKeep_def)
    then have "p \<noteq> [] \<Longrightarrow> last p \<in> actives t (butlast p)"
      by (simp add: actives_def)
    then have acts: "actives t' q = actives t q" for q
      by (auto simp: act insert_absorb)
    have "counts 0 [] t'"
      using n by (intro counts_transfer [OF 1(4)]) (auto simp: acts at split: if_splits)
    then show ?thesis
      using wf by (simp add: stop tree_inv_def same seq dom)
  qed
qed

section \<open>Pruning\<close>

lemma actives_erase:
  assumes "\<not> active t (c @ [k])"
  shows "actives (erase_subtree (c @ [k]) t) q = (if prefix (c @ [k]) q then {} else actives t q)"
proof -
  have "active (erase_subtree (c @ [k]) t) (q @ [j]) = (\<not> prefix (c @ [k]) (q @ [j]) \<and> active t (q @ [j]))" for j
    by (simp add: active_def)
  moreover have "prefix (c @ [k]) (q @ [j]) \<longleftrightarrow> prefix (c @ [k]) q \<or> (q = c \<and> j = k)" for j
    by (auto simp: prefix_snoc)
  ultimately show ?thesis
    using assms by (auto simp: actives_def)
qed

lemma erase_ok:
  assumes "tree_inv t" and "\<not> active t (c @ [k])"
  shows "tree_inv (erase_subtree (c @ [k]) t)" and "contents (erase_subtree (c @ [k]) t) = contents t"
proof -
  let ?t = "erase_subtree (c @ [k]) t"
  from assms(1) have wf: "tree_wf t" and cs: "counts 0 [] t" by (auto simp: tree_inv_def)
  have "node_at ?t [] \<noteq> None" using wf by (simp add: tree_wf_def)
  moreover have "node_at ?t p \<noteq> None" if "node_at ?t (p @ [j]) \<noteq> None" for p j
  proof -
    from that have "\<not> prefix (c @ [k]) (p @ [j])" "node_at t (p @ [j]) \<noteq> None"
      by (auto split: if_splits)
    moreover from this have "\<not> prefix (c @ [k]) p" by (auto simp: prefix_snoc)
    ultimately show ?thesis using wf by (auto simp: tree_wf_def)
  qed
  ultimately have "tree_wf ?t" by (auto simp: tree_wf_def)
  moreover have "counts 0 [] ?t"
    by (rule counts_transfer [OF cs]) (auto simp: actives_erase [OF assms(2)] split: if_splits)
  ultimately show "tree_inv ?t" by (simp add: tree_inv_def)
  have "contents t (c @ [k] @ r) = no_content" for r
    using inactive_below [OF wf cs _ assms(2), of r] by (simp add: contents_inactive)
  then show "contents ?t = contents t"
    by (auto simp: fun_eq_iff contents_def prefix_def)
qed

lemma prune_loop_ok:
  "\<lbrakk>tree_wf t; counts 1 c t; node_at t c \<noteq> None; \<not> active t (c @ [k])\<rbrakk> \<Longrightarrow>
     \<exists>t'. prune_loop c (c @ [k]) t = Some t' \<and> tree_inv t' \<and> contents t' = contents t \<and>
       nextRouteSeq t' = nextRouteSeq t"
proof (induction c "c @ [k]" t arbitrary: k rule: prune_loop.induct)
  case (1 c t)
  from 1(4) obtain n where n: "node_at t c = Some n" by auto
  have pos: "card (actives t c) < activeChildCount n"
    using countsD [OF 1(3) n] by simp
  define t' where "t' = upd_node c (\<lambda>m. m\<lparr>activeChildCount := activeChildCount m - 1\<rparr>) t"
  have at: "node_at t' q = (if q = c then Some (n\<lparr>activeChildCount := activeChildCount n - 1\<rparr>) else node_at t q)" for q
    using n by (simp add: t'_def)
  have same: "contents t' = contents t" by (simp add: contents_upd_same t'_def)
  have seq: "nextRouteSeq t' = nextRouteSeq t" by (simp add: t'_def upd_node_def)
  have wf: "tree_wf t'" using 1(2) by (simp add: t'_def)
  have live: "active t c" using n pos by (simp add: active_def shouldKeep_def)
  have dead: "\<not> active t' (c @ [k])" using 1(5) by (simp add: active_def at)
  have act: "actives t' q = (if c \<noteq> [] \<and> q = butlast c then
      (if active t' c then actives t q else actives t q - {last c}) else actives t q)" for q
    using live actives_upd [of c "\<lambda>m. m\<lparr>activeChildCount := activeChildCount m - 1\<rparr>" t q, folded t'_def]
    by (auto simp: actives_def)
  show ?case
  proof (cases "active t' c \<or> c = []")
    case True
    then have stop: "prune_loop c (c @ [k]) t = Some (erase_subtree (c @ [k]) t')"
      using n pos unfolding prune_loop.simps [of c _ t] Let_def t'_def [symmetric]
      by (auto simp: active_def shouldKeep_def at hasContent_def)
    have "counts 0 [] t'"
      using True n pos by (intro counts_transfer [OF 1(3)]) (auto simp: act at split: if_splits)
    then have "tree_inv t'" using wf by (simp add: tree_inv_def)
    from erase_ok [OF this dead] show ?thesis
      by (simp add: stop same seq erase_subtree_def)
  next
    case False
    then have c: "c \<noteq> []" "butlast c \<noteq> c" "c = butlast c @ [last c]"
      by (auto, metis append_butlast_last_id append_self_conv list.discI)
    have "counts 1 (butlast c) t'"
    proof (rule counts_transfer [OF 1(3)])
      fix q m
      assume "node_at t' q = Some m"
      moreover have "card (actives t (butlast c) - {last c}) + 1 = card (actives t (butlast c))"
        using live c card_Suc_Diff1 [OF finite_actives, of "last c" t "butlast c"]
        by (simp add: actives_def)
      ultimately show "\<exists>m'. node_at t q = Some m' \<and>
        int (card (actives t' q)) + (if q = butlast c then 1 else 0) + int (activeChildCount m')
        \<le> int (card (actives t q)) + (if q = c then 1 else 0) + int (activeChildCount m)"
        using n pos False c(2) by (auto simp: act at split: if_splits)
    qed
    moreover have "node_at t' (butlast c) \<noteq> None"
      using wf at c tree_wf_prefix [of t' "butlast c" "[last c]"] by simp
    moreover have step: "prune_loop c (c @ [k]) t = prune_loop (butlast c) c t'"
      using n pos False unfolding prune_loop.simps [of c _ t] Let_def t'_def [symmetric]
      by (auto simp: active_def shouldKeep_def at hasContent_def)
    moreover have "\<not> active t' (butlast c @ [last c])" using False c by simp
    moreover have "\<not> (hasContent n \<or> activeChildCount n - 1 > 0)" "\<not> \<not> activeChildCount n > 0"
      using False pos by (auto simp: active_def shouldKeep_def at)
    ultimately show ?thesis
      using 1(1) [OF n _ t'_def, of "last c"] wf c same seq by simp
  qed
qed

section \<open>Mutating a node under its guard\<close>

lemma counts_upd_same:
  assumes "counts 0 [] t" and "node_at t p = Some n" and "activeChildCount (f n) = activeChildCount n"
    and "active (upd_node p f t) p = active t p"
  shows "counts 0 [] (upd_node p f t)"
proof -
  have "actives (upd_node p f t) q = actives t q" for q
  proof -
    have "p \<noteq> [] \<Longrightarrow> active t p = (last p \<in> actives t (butlast p))" by (simp add: actives_def)
    then show ?thesis using assms(4) by (auto simp: actives_upd insert_absorb)
  qed
  then show ?thesis
    using assms(2,3) by (intro counts_transfer [OF assms(1)]) (auto split: if_splits)
qed

lemma butlast_neq: "p \<noteq> [] \<Longrightarrow> butlast p \<noteq> p"
  by (metis append_butlast_last_id append_self_conv list.discI)

lemma guarded_ok:
  assumes inv: "tree_inv t" and n: "node_at t p = Some n"
    and cnt: "activeChildCount (f n) = activeChildCount n"
  shows "\<exists>t'. guarded p f t = Some t' \<and> tree_inv t' \<and>
     contents t' = (contents t)(p := content_of (f n)) \<and> nextRouteSeq t' = nextRouteSeq t"
proof -
  define t1 where "t1 = upd_node p f t"
  have atq: "node_at t1 q = (if q = p then Some (f n) else node_at t q)" for q
    using n by (simp add: t1_def)
  then have at: "node_at t1 p = Some (f n)" by simp
  have con: "contents t1 = (contents t)(p := content_of (f n))" using n by (simp add: t1_def contents_upd)
  have seq: "nextRouteSeq t1 = nextRouteSeq t" by (simp add: t1_def upd_node_def)
  have wf: "tree_wf t1" and cs: "counts 0 [] t" using inv by (auto simp: tree_inv_def t1_def)
  have g: "guarded p f t = tryPruneSelf p (hasContent n) (notifyParentIfFirstContent p (\<not> hasContent n) t1)"
    using n by (simp add: guarded_def t1_def Let_def)
  have same: "tree_inv t1" if "active t1 p = active t p"
    using counts_upd_same [where f = f, OF cs n cnt] that wf by (simp add: t1_def tree_inv_def)
  have act: "active t p = (hasContent n \<or> activeChildCount n > 0)" "active t1 p = (hasContent (f n) \<or> activeChildCount n > 0)"
    using n at cnt by (simp_all add: active_def shouldKeep_def)
  have acts: "actives t1 q = (if p \<noteq> [] \<and> q = butlast p
      then (if active t1 p then insert (last p) (actives t q) else actives t q - {last p})
      else actives t q)" for q
    by (simp add: t1_def actives_upd)
  have parent: "node_at t1 (butlast p) \<noteq> None" if "p \<noteq> []"
    using tree_wf_prefix [OF wf, of "butlast p" "[last p]"] at that by simp
  consider (gain) "\<not> hasContent n" "hasContent (f n)" "p \<noteq> []"
    | (drop) "hasContent n" "\<not> active t1 p" "p \<noteq> []"
    | (other) "\<not> (\<not> hasContent n \<and> hasContent (f n) \<and> p \<noteq> [])" "\<not> (hasContent n \<and> \<not> active t1 p \<and> p \<noteq> [])"
    by blast
  then show ?thesis
  proof cases
    case gain
    have "counts (-1) (butlast p) t1"
    proof (rule counts_transfer [OF cs])
      fix q m
      assume "node_at t1 q = Some m"
      then show "\<exists>m'. node_at t q = Some m' \<and>
        int (card (actives t1 q)) + (if q = butlast p then - 1 else 0) + int (activeChildCount m')
        \<le> int (card (actives t q)) + (if q = [] then 0 else 0) + int (activeChildCount m)"
        using n cnt gain act card_insert_plus [of "last p" "actives t q"] butlast_neq [OF gain(3)]
        by (auto simp: acts atq split: if_splits)
    qed
    from inc_ok [OF wf parent [OF gain(3)] this] obtain t2 where t2:
      "incrementActiveChildren (butlast p) t1 = t2" "tree_inv t2" "contents t2 = contents t1"
      "nextRouteSeq t2 = nextRouteSeq t1" by blast
    have "guarded p f t = Some t2"
      using gain at t2(1) by (auto simp: g notifyParentIfFirstContent_def tryPruneSelf_def split: option.splits)
    then show ?thesis using t2 con seq by simp
  next
    case drop
    have "counts 1 (butlast p) t1"
    proof (rule counts_transfer [OF cs])
      fix q m
      assume "node_at t1 q = Some m"
      moreover have "last p \<in> actives t (butlast p)" using drop act by (simp add: actives_def)
      then have "card (actives t (butlast p) - {last p}) + 1 = card (actives t (butlast p))"
        using card_Suc_Diff1 [OF finite_actives, of "last p" t "butlast p"] by simp
      ultimately show "\<exists>m'. node_at t q = Some m' \<and>
        int (card (actives t1 q)) + (if q = butlast p then 1 else 0) + int (activeChildCount m')
        \<le> int (card (actives t q)) + (if q = [] then 0 else 0) + int (activeChildCount m)"
        using n cnt drop butlast_neq [OF drop(3)] by (auto simp: acts atq split: if_splits)
    qed
    from prune_loop_ok [OF wf this parent [OF drop(3)], of "last p"] drop obtain t2 where t2:
      "prune_loop (butlast p) p t1 = Some t2" "tree_inv t2" "contents t2 = contents t1"
      "nextRouteSeq t2 = nextRouteSeq t1" by auto
    have "guarded p f t = Some t2"
      using drop at act t2(1)
      by (simp add: g notifyParentIfFirstContent_def tryPruneSelf_def tryPruneChild_def shouldKeep_def cnt)
    then show ?thesis using t2 con seq by simp
  next
    case other
    then have "guarded p f t = Some t1"
      using at act
      by (auto simp: g notifyParentIfFirstContent_def tryPruneSelf_def shouldKeep_def cnt)
    moreover have "tree_inv t1"
    proof (cases "p = []")
      case True
      then have "counts 0 [] t1"
        using n cnt by (intro counts_transfer [OF cs]) (auto simp: acts atq split: if_splits)
      with wf show ?thesis by (simp add: tree_inv_def)
    next
      case False
      with other act have "active t1 p = active t p" by auto
      then show ?thesis by (rule same)
    qed
    ultimately show ?thesis using con seq by simp
  qed
qed

section \<open>Finding and creating nodes\<close>

lemma add_node_ok:
  assumes "tree_inv t" and "node_at t c \<noteq> None" and new: "node_at t (c @ [k]) = None"
  shows "tree_inv (add_node (c @ [k]) t)" and "contents (add_node (c @ [k]) t) = contents t"
proof -
  let ?t = "add_node (c @ [k]) t"
  from assms(1) have wf: "tree_wf t" and cs: "counts 0 [] t" by (auto simp: tree_inv_def)
  have "active ?t q = active t q" for q
    using new by (simp add: active_def shouldKeep_def hasContent_def new_node_def)
  then have acts: "actives ?t q = actives t q" for q by (simp add: actives_def)
  have empty: "actives t (c @ [k]) = {}"
    using wf new tree_wf_prefix [OF wf, of "c @ [k]" "[_]"] active_exists
    by (fastforce simp: actives_def)
  have "tree_wf ?t"
    using wf assms(2) by (auto simp: tree_wf_def split: if_splits)
  moreover have "counts 0 [] ?t"
    using countsD [OF cs] by (auto simp: counts_def acts empty split: if_splits)
  ultimately show "tree_inv ?t" by (simp add: tree_inv_def)
  show "contents ?t = contents t"
    using new by (auto simp: contents_def fun_eq_iff content_of_def new_node_def no_content_def)
qed

text \<open>The subscribers of the strict prefixes of a namespace, shortest prefix first.\<close>

fun path_subs ::
  "(track_namespace \<Rightarrow> content) \<Rightarrow> track_namespace \<Rightarrow> string list \<Rightarrow> (session \<times> subscriber_info) list" where
  "path_subs A cur [] = []"
| "path_subs A cur (name # rest) = c_subscribers (A cur) @ path_subs A (cur @ [name]) rest"

lemma path_subs_take:
  "path_subs A cur rest = concat (map (\<lambda>i. c_subscribers (A (cur @ take i rest))) [0..<length rest])"
proof (induction rest arbitrary: cur)
  case Nil
  then show ?case by simp
next
  case (Cons x rest)
  have "[0..<length (x # rest)] = 0 # map Suc [0..<length rest]"
    by (simp add: map_Suc_upt upt_conv_Cons del: upt_Suc)
  then show ?case
    by (simp only: path_subs.simps Cons.IH) (simp add: comp_def)
qed

lemma node_subs_contents:
  "(case node_at t p of None \<Rightarrow> [] | Some n \<Rightarrow> subscribers n) = c_subscribers (contents t p)"
  by (simp add: contents_def no_content_def content_of_def split: option.splits)

lemma node_subscribers_contents: "node_subscribers t p = c_subscribers (contents t p)"
  by (simp add: node_subscribers_def node_subs_contents)

lemma node_routes_contents: "node_routes t p = c_routes (contents t p)"
  by (simp add: node_routes_def contents_def no_content_def content_of_def split: option.splits)

lemma find_walk_create:
  "\<lbrakk>tree_inv t; node_at t cur \<noteq> None\<rbrakk> \<Longrightarrow>
     \<exists>t'. find_walk True cur rest t subs = (t', Some (cur @ rest), subs @ path_subs (contents t) cur rest) \<and>
       tree_inv t' \<and> contents t' = contents t \<and> node_at t' (cur @ rest) \<noteq> None \<and>
       nextRouteSeq t' = nextRouteSeq t \<and>
       (\<forall>p n. node_at t' p = Some n \<longrightarrow> node_at t p = Some n \<or> n = new_node p)"
proof (induction rest arbitrary: cur t subs)
  case Nil
  then show ?case by auto
next
  case (Cons x rest)
  show ?case
  proof (cases "node_at t (cur @ [x])")
    case None
    let ?t = "add_node (cur @ [x]) t"
    have "tree_inv ?t" "contents ?t = contents t" "node_at ?t (cur @ [x]) \<noteq> None"
      "nextRouteSeq ?t = nextRouteSeq t"
      using add_node_ok [OF Cons.prems None] None by (simp_all add: add_node_def [of _ t])
        (simp_all add: add_node_def [symmetric])
    then show ?thesis
      using Cons.IH [of ?t "cur @ [x]" "subs @ c_subscribers (contents t cur)"] None
      by (auto simp: node_subs_contents split: if_splits)
  next
    case (Some n)
    then show ?thesis
      using Cons.IH [of t "cur @ [x]" "subs @ c_subscribers (contents t cur)"] Cons.prems(1)
      by (auto simp: node_subs_contents)
  qed
qed

lemma findNode_create:
  assumes "tree_inv t"
  shows "\<exists>t'. findNode t ns True = (t', Some ns, path_subs (contents t) [] ns) \<and>
       tree_inv t' \<and> contents t' = contents t \<and> node_at t' ns \<noteq> None \<and> nextRouteSeq t' = nextRouteSeq t \<and>
       (\<forall>p n. node_at t' p = Some n \<longrightarrow> node_at t p = Some n \<or> n = new_node p)"
proof -
  have "node_at t [] \<noteq> None" using assms by (simp add: tree_inv_def tree_wf_def)
  from find_walk_create [OF assms this, of ns "[]"] show ?thesis by (simp add: findNode_def)
qed

lemma find_walk_find:
  "\<lbrakk>tree_wf t; node_at t cur \<noteq> None\<rbrakk> \<Longrightarrow>
     (if node_at t (cur @ rest) = None then \<exists>s. find_walk False cur rest t subs = (t, None, s)
      else find_walk False cur rest t subs = (t, Some (cur @ rest), subs @ path_subs (contents t) cur rest))"
proof (induction rest arbitrary: cur subs)
  case Nil
  then show ?case by simp
next
  case (Cons x rest)
  show ?case
  proof (cases "node_at t (cur @ [x])")
    case None
    then have "node_at t (cur @ x # rest) = None"
      using tree_wf_prefix [OF Cons.prems(1), of "cur @ [x]" rest]
      by (cases "node_at t (cur @ x # rest)") auto
    with None show ?thesis by (simp add: Let_def)
  next
    case (Some n)
    then show ?thesis
      using Cons.IH [of "cur @ [x]" "subs @ c_subscribers (contents t cur)"] Cons.prems(1)
      by (auto simp: node_subs_contents)
  qed
qed

lemma findNode_find:
  assumes "tree_inv t"
  shows "node_at t ns = None \<Longrightarrow> \<exists>s. findNode t ns False = (t, None, s)"
    and "node_at t ns \<noteq> None \<Longrightarrow> findNode t ns False = (t, Some ns, path_subs (contents t) [] ns)"
proof -
  have wf: "tree_wf t" and "node_at t [] \<noteq> None" using assms by (auto simp: tree_inv_def tree_wf_def)
  from find_walk_find [OF this, of ns "[]"]
  show "node_at t ns = None \<Longrightarrow> \<exists>s. findNode t ns False = (t, None, s)"
    and "node_at t ns \<noteq> None \<Longrightarrow> findNode t ns False = (t, Some ns, path_subs (contents t) [] ns)"
    by (simp_all add: findNode_def)
qed

section \<open>The map the tree implements\<close>

text \<open>Routes, tracks and subscribers of each namespace, and the generation counter of the routes.\<close>

type_synonym spec_state = "(track_namespace \<Rightarrow> content) \<times> u64"

definition abs_tree :: "namespace_tree \<Rightarrow> spec_state" where
  "abs_tree t = (contents t, nextRouteSeq t)"

definition spec_set_publisher ::
  "spec_state \<Rightarrow> track_namespace \<Rightarrow> session \<Rightarrow> nat option \<Rightarrow> string \<Rightarrow> u64 \<Rightarrow> u64 list \<Rightarrow> u64 \<Rightarrow> bool \<Rightarrow> spec_state" where
  "spec_set_publisher S ns s callback peer reqID hopPath routeCost fromCluster =
     (let (A, next) = S;
          P = (\<lambda>r. r_session r = s \<or> (\<not> fromCluster \<and> \<not> r_fromCluster r));
          rs = c_routes (A ns)
      in case find P rs of
           Some e \<Rightarrow>
             if r_session e = s \<and> fromCluster \<and> r_callback e = None \<and> callback = None
             then let (r', next', _) = reviseRoute (e\<lparr>r_peerID := peer\<rparr>) hopPath routeCost next
                  in (A(ns := (A ns)\<lparr>c_routes := update_first P (\<lambda>_. r') rs\<rparr>), next')
             else (A(ns := (A ns)\<lparr>c_routes := erase_first P rs @
                     [\<lparr>r_session = s, r_callback = callback, r_peerID = peer, r_requestID = reqID,
                       r_path = hopPath, r_cost = routeCost, r_seq = u64_add next 1,
                       r_fromCluster = fromCluster\<rparr>]\<rparr>), u64_add next 1)
         | None \<Rightarrow>
             (A(ns := (A ns)\<lparr>c_routes := rs @
                [\<lparr>r_session = s, r_callback = callback, r_peerID = peer, r_requestID = reqID,
                  r_path = hopPath, r_cost = routeCost, r_seq = u64_add next 1,
                  r_fromCluster = fromCluster\<rparr>]\<rparr>), u64_add next 1))"

definition spec_update_route ::
  "spec_state \<Rightarrow> track_namespace \<Rightarrow> session \<Rightarrow> u64 \<Rightarrow> u64 list \<Rightarrow> u64 \<Rightarrow> spec_state" where
  "spec_update_route S ns s reqID p c =
     (let (A, next) = S; P = (\<lambda>r. r_session r = s \<and> r_requestID r = reqID)
      in case find P (c_routes (A ns)) of None \<Rightarrow> S
         | Some r \<Rightarrow>
             let (r', next', _) = reviseRoute r p c next
             in (A(ns := (A ns)\<lparr>c_routes := update_first P (\<lambda>_. r') (c_routes (A ns))\<rparr>), next'))"

definition spec_unpublish_namespace ::
  "spec_state \<Rightarrow> track_namespace \<Rightarrow> session \<Rightarrow> u64 option \<Rightarrow> spec_state" where
  "spec_unpublish_namespace S ns s reqID =
     (let (A, next) = S in
      (A(ns := (A ns)\<lparr>c_routes :=
          erase_first (\<lambda>r. r_session r = s \<and> (reqID = None \<or> reqID = Some (r_requestID r)))
            (c_routes (A ns))\<rparr>), next))"

definition spec_unpublish_track :: "spec_state \<Rightarrow> track_namespace \<Rightarrow> string \<Rightarrow> spec_state" where
  "spec_unpublish_track S ns tn =
     (let (A, next) = S in
      (A(ns := (A ns)\<lparr>c_publishes := filter (\<lambda>(k, _). k \<noteq> tn) (c_publishes (A ns))\<rparr>), next))"

definition spec_add_publish :: "spec_state \<Rightarrow> full_track_name \<Rightarrow> session \<Rightarrow> spec_state" where
  "spec_add_publish S ftn s =
     (let (A, next) = S; ns = trackNamespace ftn in
      (A(ns := (A ns)\<lparr>c_publishes := upsert (trackName ftn) s (\<lambda>_. s) (c_publishes (A ns))\<rparr>), next))"

definition spec_add_subscriber ::
  "spec_state \<Rightarrow> track_namespace \<Rightarrow> session \<Rightarrow> subscriber_info \<Rightarrow> spec_state" where
  "spec_add_subscriber S ns s info =
     (let (A, next) = S in
      (A(ns := (A ns)\<lparr>c_subscribers := try_emplace s info (c_subscribers (A ns))\<rparr>), next))"

definition spec_remove_subscriber :: "spec_state \<Rightarrow> track_namespace \<Rightarrow> session \<Rightarrow> spec_state" where
  "spec_remove_subscriber S ns s =
     (let (A, next) = S in
      (A(ns := (A ns)\<lparr>c_subscribers := filter (\<lambda>(k, _). k \<noteq> s) (c_subscribers (A ns))\<rparr>), next))"

section \<open>The operations\<close>

text \<open>An operation of the relay on the tree. Errors leave the tree as it is.\<close>

datatype tree_op =
  SetPublisher track_namespace session "nat option" string u64 "u64 list" u64 bool
| UpdateRoute track_namespace session u64 "u64 list" u64
| UnpublishNamespace track_namespace session "u64 option"
| UnpublishTrack track_namespace string
| AddPublish full_track_name session
| AddSubscriber track_namespace session subscriber_info
| RemoveSubscriber track_namespace session
| CreateRanking track_namespace u64 nat

fun run_op :: "namespace_tree \<Rightarrow> tree_op \<Rightarrow> namespace_tree option" where
  "run_op t (SetPublisher ns s cb peer rid hp c fc) = map_option fst (setPublisher t ns s cb peer rid hp c fc)"
| "run_op t (UpdateRoute ns s rid p c) =
     (case updateRoute t ns s rid p c of Inl _ \<Rightarrow> Some t | Inr (t', _) \<Rightarrow> Some t')"
| "run_op t (UnpublishNamespace ns s rid) =
     (case unpublishNamespace t ns s rid of None \<Rightarrow> None
      | Some (Inl _) \<Rightarrow> Some t | Some (Inr (t', _)) \<Rightarrow> Some t')"
| "run_op t (UnpublishTrack ns tn) =
     (case unpublishTrack t ns tn of None \<Rightarrow> None | Some (Inl _) \<Rightarrow> Some t | Some (Inr t') \<Rightarrow> Some t')"
| "run_op t (AddPublish ftn s) = map_option fst (addPublish t ftn s)"
| "run_op t (AddSubscriber ns s info) = addNamespaceSubscriber t ns s info"
| "run_op t (RemoveSubscriber ns s) =
     (case removeNamespaceSubscriber t ns s of None \<Rightarrow> None
      | Some (Inl _) \<Rightarrow> Some t | Some (Inr (t', _)) \<Rightarrow> Some t')"
| "run_op t (CreateRanking p pt fresh) = Some (getOrCreateRanking t p pt fresh)"

fun spec_op :: "spec_state \<Rightarrow> tree_op \<Rightarrow> spec_state" where
  "spec_op S (SetPublisher ns s cb peer rid hp c fc) = spec_set_publisher S ns s cb peer rid hp c fc"
| "spec_op S (UpdateRoute ns s rid p c) = spec_update_route S ns s rid p c"
| "spec_op S (UnpublishNamespace ns s rid) = spec_unpublish_namespace S ns s rid"
| "spec_op S (UnpublishTrack ns tn) = spec_unpublish_track S ns tn"
| "spec_op S (AddPublish ftn s) = spec_add_publish S ftn s"
| "spec_op S (AddSubscriber ns s info) = spec_add_subscriber S ns s info"
| "spec_op S (RemoveSubscriber ns s) = spec_remove_subscriber S ns s"
| "spec_op S (CreateRanking p pt fresh) = S"

fun run_ops :: "namespace_tree \<Rightarrow> tree_op list \<Rightarrow> namespace_tree option" where
  "run_ops t [] = Some t"
| "run_ops t (x # xs) = (case run_op t x of None \<Rightarrow> None | Some t' \<Rightarrow> run_ops t' xs)"

section \<open>Rankings and other fields survive\<close>

definition same_field :: "(node \<Rightarrow> 'b) \<Rightarrow> namespace_tree \<Rightarrow> namespace_tree \<Rightarrow> bool" where
  "same_field sel t t' \<longleftrightarrow> (\<forall>q m. node_at t' q = Some m \<longrightarrow>
     (\<exists>n. node_at t q = Some n \<and> sel m = sel n))"

abbreviation same_rankings :: "namespace_tree \<Rightarrow> namespace_tree \<Rightarrow> bool" where
  "same_rankings \<equiv> same_field rankings"

lemma same_field_refl: "same_field sel t t"
  by (auto simp: same_field_def)

lemma same_field_trans: "\<lbrakk>same_field sel t t'; same_field sel t' t''\<rbrakk> \<Longrightarrow> same_field sel t t''"
  unfolding same_field_def by metis

lemma same_field_upd: "(\<And>n. sel (f n) = sel n) \<Longrightarrow> same_field sel t (upd_node p f t)"
  by (auto simp: same_field_def)

lemma same_field_erase: "same_field sel t (erase_subtree p t)"
  by (simp add: same_field_def)

lemma same_field_inc:
  assumes "\<And>n x. sel (n\<lparr>activeChildCount := x\<rparr>) = sel n" shows "same_field sel t (incrementActiveChildren p t)"
proof (induction p t rule: incrementActiveChildren.induct)
  case (1 p t)
  let ?t = "upd_node p (\<lambda>n. n\<lparr>activeChildCount := activeChildCount n + 1\<rparr>) t"
  have "same_field sel t ?t" by (rule same_field_upd) (rule assms)
  then show ?case
    using 1 [OF refl]
    by (subst incrementActiveChildren.simps)
       (auto simp only: Let_def split: option.splits if_splits intro: same_field_trans)
qed

lemma same_field_prune:
  assumes "\<And>n x. sel (n\<lparr>activeChildCount := x\<rparr>) = sel n" and "prune_loop c r t = Some t'"
  shows "same_field sel t t'"
  using assms(2)
proof (induction c r t rule: prune_loop.induct)
  case (1 c r t)
  let ?t = "upd_node c (\<lambda>m. m\<lparr>activeChildCount := activeChildCount m - 1\<rparr>) t"
  have "same_field sel t ?t" by (rule same_field_upd) (rule assms(1))
  then have "same_field sel t (erase_subtree r ?t)"
    using same_field_erase by (rule same_field_trans)
  then show ?case
    using 1(2) 1(1) [OF _ _ refl] \<open>same_field sel t ?t\<close>
    unfolding prune_loop.simps [of c r t] Let_def
    by (auto simp del: One_nat_def split: option.splits if_splits intro: same_field_trans)
qed

lemma same_field_after:
  assumes "guarded p f t = Some t'" and cnt: "\<And>n x. sel (n\<lparr>activeChildCount := x\<rparr>) = sel n"
  shows "same_field sel (upd_node p f t) t'"
proof -
  have "same_field sel x (notifyParentIfFirstContent p b x)" for b x
    by (auto simp: notifyParentIfFirstContent_def same_field_inc [OF cnt] same_field_refl split: option.splits)
  moreover have "same_field sel x y" if "tryPruneSelf p b x = Some y" for b x y
    using that same_field_prune [OF cnt]
    by (auto simp: tryPruneSelf_def tryPruneChild_def same_field_refl split: option.splits if_splits)
  ultimately show ?thesis
    using assms(1) by (auto simp: guarded_def Let_def split: option.splits)
      (meson same_field_trans)
qed

lemma same_field_guarded:
  assumes "guarded p f t = Some t'" and "\<And>n. sel (f n) = sel n"
    and cnt: "\<And>n x. sel (n\<lparr>activeChildCount := x\<rparr>) = sel n"
  shows "same_field sel t t'"
  using same_field_upd [of sel f, OF assms(2)] same_field_after [OF assms(1) cnt] by (rule same_field_trans)

lemma same_rankings_guarded:
  assumes "guarded p f t = Some t'" and "\<And>n. rankings (f n) = rankings n" shows "same_rankings t t'"
  using assms by (rule same_field_guarded) simp

definition rankings_set :: "namespace_tree \<Rightarrow> bool" where
  "rankings_set t \<longleftrightarrow> (\<forall>p n pt. node_at t p = Some n \<longrightarrow> (pt, None) \<notin> set (rankings n))"

lemma rankings_set_mono: "\<lbrakk>rankings_set t; same_rankings t t'\<rbrakk> \<Longrightarrow> rankings_set t'"
  unfolding rankings_set_def same_field_def by metis

section \<open>The interface the operations use\<close>

text \<open>
  What the operations need of the tree: nodes can be made without changing what the tree
  holds, a guarded change of a node always succeeds and changes the content of that one
  namespace only, and a namespace without a node has no content.
\<close>

locale node_store =
  fixes ok :: "'t \<Rightarrow> bool" and look :: "'t \<Rightarrow> track_namespace \<Rightarrow> content" and counter :: "'t \<Rightarrow> u64"
    and present :: "'t \<Rightarrow> track_namespace \<Rightarrow> bool" and ensure :: "'t \<Rightarrow> track_namespace \<Rightarrow> 't"
    and change :: "track_namespace \<Rightarrow> (node \<Rightarrow> node) \<Rightarrow> 't \<Rightarrow> 't option"
  assumes ensure_law: "ok t \<Longrightarrow>
      ok (ensure t p) \<and> look (ensure t p) = look t \<and> counter (ensure t p) = counter t \<and> present (ensure t p) p"
    and change_law: "\<lbrakk>ok t; present t p; \<And>n. content_of (f n) = g (content_of n);
        \<And>n. activeChildCount (f n) = activeChildCount n; \<And>n. rankings (f n) = rankings n\<rbrakk> \<Longrightarrow>
      \<exists>t'. change p f t = Some t' \<and> ok t' \<and> look t' = (look t)(p := g (look t p)) \<and> counter t' = counter t"
    and absent_law: "\<lbrakk>ok t; \<not> present t p\<rbrakk> \<Longrightarrow> look t p = no_content"
begin

lemma ensure_change:
  assumes "ok t" and "\<And>n. content_of (f n) = g (content_of n)"
    and "\<And>n. activeChildCount (f n) = activeChildCount n" and "\<And>n. rankings (f n) = rankings n"
  shows "\<exists>t'. change p f (ensure t p) = Some t' \<and> ok t' \<and> look t' = (look t)(p := g (look t p)) \<and>
     counter t' = counter t"
  using ensure_law [OF assms(1), of p] change_law [of "ensure t p" p f g, OF _ _ assms(2-4)] by auto

lemma change_if_present:
  assumes "ok t" and "\<And>n. content_of (f n) = g (content_of n)"
    and "\<And>n. activeChildCount (f n) = activeChildCount n" and "\<And>n. rankings (f n) = rankings n"
    and "g no_content = no_content"
  shows "\<exists>t'. (if present t p then change p f t else Some t) = Some t' \<and> ok t' \<and>
     look t' = (look t)(p := g (look t p)) \<and> counter t' = counter t"
  using change_law [OF assms(1) _ assms(2-4), of p] absent_law [OF assms(1), of p] assms(1,5)
  by (cases "present t p") (auto simp: fun_upd_idem)

end

definition tree_ok :: "namespace_tree \<Rightarrow> bool" where
  "tree_ok t \<longleftrightarrow> tree_inv t \<and> rankings_set t"

definition ensure_node :: "namespace_tree \<Rightarrow> track_namespace \<Rightarrow> namespace_tree" where
  "ensure_node t p = fst (findNode t p True)"

interpretation nt: node_store tree_ok contents nextRouteSeq "\<lambda>t p. node_at t p \<noteq> None" ensure_node guarded
proof unfold_locales
  fix t p
  assume ok: "tree_ok t"
  from findNode_create [of t p] ok obtain t' where t': "findNode t p True = (t', Some p, path_subs (contents t) [] p)"
    "tree_inv t'" "contents t' = contents t" "node_at t' p \<noteq> None" "nextRouteSeq t' = nextRouteSeq t"
    "\<forall>p n. node_at t' p = Some n \<longrightarrow> node_at t p = Some n \<or> n = new_node p"
    by (auto simp: tree_ok_def)
  have "rankings_set t'"
    unfolding rankings_set_def
  proof (intro allI impI)
    fix q n pt
    assume "node_at t' q = Some n"
    then have "node_at t q = Some n \<or> n = new_node q" using t'(6) by blast
    then show "(pt, None) \<notin> set (rankings n)"
      using ok by (auto simp: tree_ok_def rankings_set_def new_node_def)
  qed
  with t' show "tree_ok (ensure_node t p) \<and> contents (ensure_node t p) = contents t \<and>
      nextRouteSeq (ensure_node t p) = nextRouteSeq t \<and> node_at (ensure_node t p) p \<noteq> None"
    by (simp add: ensure_node_def tree_ok_def)
next
  fix t p and f :: "node \<Rightarrow> node" and g
  assume ok: "tree_ok t" and "node_at t p \<noteq> None" and f: "\<And>n. content_of (f n) = g (content_of n)"
    "\<And>n. activeChildCount (f n) = activeChildCount n" and rk: "\<And>n. rankings (f n) = rankings n"
  then obtain n where n: "node_at t p = Some n" by auto
  from guarded_ok [of t p n f] ok n f(2) obtain t' where t': "guarded p f t = Some t'" "tree_inv t'"
    "contents t' = (contents t)(p := content_of (f n))" "nextRouteSeq t' = nextRouteSeq t"
    by (auto simp: tree_ok_def)
  have "rankings_set t'"
    using ok same_rankings_guarded [OF t'(1) rk] by (auto simp: tree_ok_def intro: rankings_set_mono)
  with t' f(1) n show "\<exists>t'. guarded p f t = Some t' \<and> tree_ok t' \<and>
      contents t' = (contents t)(p := g (contents t p)) \<and> nextRouteSeq t' = nextRouteSeq t"
    by (auto simp: tree_ok_def contents_def)
next
  show "contents t p = no_content" if "tree_ok t" "\<not> node_at t p \<noteq> None" for t p
    using that by (simp add: contents_def)
qed

section \<open>Every operation is an update of the map\<close>

lemma content_updates [simp]:
  "content_of (n\<lparr>routes := x\<rparr>) = (content_of n)\<lparr>c_routes := x\<rparr>"
  "content_of (n\<lparr>publishes := y\<rparr>) = (content_of n)\<lparr>c_publishes := y\<rparr>"
  "content_of (n\<lparr>subscribers := z\<rparr>) = (content_of n)\<lparr>c_subscribers := z\<rparr>"
  "content_of (n\<lparr>n_trackNamespace := ns\<rparr>) = content_of n"
  "content_of (n\<lparr>rankings := rk\<rparr>) = content_of n"
  "content_of (eraseSubscriberAdvertisement key n) = content_of n"
  by (simp_all add: content_of_def eraseSubscriberAdvertisement_def)

lemma content_selectors [simp]:
  "c_routes (content_of n) = routes n" "c_publishes (content_of n) = publishes n"
  "c_subscribers (content_of n) = subscribers n"
  by (simp_all add: content_of_def)

lemma erase_first_none: "find P xs = None \<Longrightarrow> erase_first P xs = xs"
  by (induction xs) (auto split: if_splits)

lemma tree_ok_seq [simp]: "tree_ok (t\<lparr>nextRouteSeq := x\<rparr>) = tree_ok t"
  by (simp add: tree_ok_def rankings_set_def)

lemma tree_ok_find:
  "tree_ok t \<Longrightarrow> node_at t ns = None \<Longrightarrow> \<exists>s. findNode t ns False = (t, None, s)"
  "tree_ok t \<Longrightarrow> node_at t ns \<noteq> None \<Longrightarrow> findNode t ns False = (t, Some ns, path_subs (contents t) [] ns)"
  using findNode_find by (auto simp: tree_ok_def)

lemma tree_ok_create:
  "tree_ok t \<Longrightarrow> findNode t ns True = (ensure_node t ns, Some ns, path_subs (contents t) [] ns)"
  using findNode_create [of t ns] by (auto simp: tree_ok_def ensure_node_def)

text \<open>A change of a node that leaves its content and its child count alone.\<close>

lemma upd_neutral:
  assumes "tree_ok t" and "\<And>n. content_of (f n) = content_of n"
    and "\<And>n. activeChildCount (f n) = activeChildCount n"
    and "\<And>n. node_at t p = Some n \<Longrightarrow> (\<forall>pt. (pt, None) \<notin> set (rankings (f n)))"
  shows "tree_ok (upd_node p f t)" and "contents (upd_node p f t) = contents t"
    and "nextRouteSeq (upd_node p f t) = nextRouteSeq t"
proof -
  have "active (upd_node p f t) q = active t q" for q
    using assms(2,3) by (auto simp: active_def shouldKeep_def hasContent_iff split: option.splits)
  then have "actives (upd_node p f t) q = actives t q" for q by (simp add: actives_def)
  moreover have "counts 0 [] t" using assms(1) by (simp add: tree_ok_def tree_inv_def)
  ultimately have "counts 0 [] (upd_node p f t)"
    using assms(3) by (auto simp: counts_def split: if_splits)
  moreover have "rankings_set (upd_node p f t)"
    using assms(1,4) by (auto simp: rankings_set_def tree_ok_def split: if_splits)
  ultimately show "tree_ok (upd_node p f t)"
    using assms(1) by (simp add: tree_ok_def tree_inv_def)
  show "contents (upd_node p f t) = contents t" using assms(2) by (rule contents_upd_same)
  show "nextRouteSeq (upd_node p f t) = nextRouteSeq t" by (simp add: upd_node_def)
qed

lemma setPublisher_refines:
  assumes ok: "tree_ok t"
  shows "\<exists>t' r. setPublisher t ns s cb peer rid hp c fc = Some (t', r) \<and> tree_ok t' \<and>
     abs_tree t' = spec_set_publisher (abs_tree t) ns s cb peer rid hp c fc \<and>
     sp_subscribers r = path_subs (contents t) [] ns @ c_subscribers (contents t ns)"
proof -
  define t1 where "t1 = ensure_node t ns"
  have t1: "tree_ok t1" "contents t1 = contents t" "nextRouteSeq t1 = nextRouteSeq t" "node_at t1 ns \<noteq> None"
    using nt.ensure_law [OF ok, of ns] by (auto simp: t1_def)
  define P :: "route \<Rightarrow> bool" where "P = (\<lambda>r. r_session r = s \<or> (\<not> fc \<and> \<not> r_fromCluster r))"
  note defs = setPublisher_def tree_ok_create [OF ok] t1_def [symmetric] P_def [symmetric]
    node_routes_contents node_subscribers_contents t1(2,3) abs_tree_def spec_set_publisher_def
  show ?thesis
  proof (cases "case find P (c_routes (contents t ns)) of None \<Rightarrow> False
      | Some e \<Rightarrow> r_session e = s \<and> fc \<and> r_callback e = None \<and> cb = None")
    case True
    then obtain e where e: "find P (c_routes (contents t ns)) = Some e"
      "r_session e = s \<and> fc \<and> r_callback e = None \<and> cb = None" by (auto split: option.splits)
    obtain r' next' rep where rev: "reviseRoute (e\<lparr>r_peerID := peer\<rparr>) hp c (nextRouteSeq t) = (r', next', rep)"
      by (metis prod_cases3)
    obtain n where n: "node_at t1 ns = Some n" using t1(4) by auto
    let ?f = "\<lambda>n. n\<lparr>routes := update_first P (\<lambda>_. r') (routes n)\<rparr>"
    have cn: "contents t ns = content_of n"
      unfolding t1(2) [symmetric] by (simp add: contents_def n)
    then have some: "find P (routes n) = Some e" using e(1) by simp
    have kept: "update_first P (\<lambda>_. r') (routes n) \<noteq> [] \<and> routes n \<noteq> []"
      using some by (cases "routes n") auto
    have "counts 0 [] (upd_node ns ?f t1)"
      using t1(1) n kept by (intro counts_upd_same) (auto simp: tree_ok_def tree_inv_def active_def shouldKeep_def hasContent_def)
    then have "tree_ok (upd_node ns ?f t1)"
      using t1(1) by (auto simp: tree_ok_def tree_inv_def rankings_set_def split: if_splits)
    moreover have "contents (upd_node ns ?f t1) =
        (contents t)(ns := (contents t ns)\<lparr>c_routes := update_first P (\<lambda>_. r') (c_routes (contents t ns))\<rparr>)"
      using n by (simp add: contents_upd t1(2) cn)
    ultimately show ?thesis
      using e rev unfolding defs Let_def by (simp add: t1(2,3))
  next
    case False
    define next' where "next' = u64_add (nextRouteSeq t) (Suc 0)"
    define r where "r = \<lparr>r_session = s, r_callback = cb, r_peerID = peer, r_requestID = rid,
                    r_path = hp, r_cost = c, r_seq = next', r_fromCluster = fc\<rparr>"
    let ?f = "\<lambda>n. n\<lparr>routes := erase_first P (routes n) @ [r], n_trackNamespace := ns\<rparr>"
    obtain t' where t': "guarded ns ?f (t1\<lparr>nextRouteSeq := next'\<rparr>) = Some t'" "tree_ok t'"
      "contents t' = (contents t)(ns := (contents t ns)\<lparr>c_routes := erase_first P (c_routes (contents t ns)) @ [r]\<rparr>)"
      "nextRouteSeq t' = next'"
      using nt.change_law [of "t1\<lparr>nextRouteSeq := next'\<rparr>" ns ?f
          "\<lambda>c. c\<lparr>c_routes := erase_first P (c_routes c) @ [r]\<rparr>"] t1 by auto
    show ?thesis
    proof (cases "find P (c_routes (contents t ns))")
      case None
      then show ?thesis
        using t' erase_first_none [OF None]
        by (simp add: defs Let_def next'_def [symmetric] r_def [symmetric])
    next
      case (Some e)
      define again where "again \<longleftrightarrow> r_session e = s \<and> fc \<and> r_callback e = None \<and> cb = None"
      have "\<not> again" using False Some by (simp add: again_def)
      then show ?thesis
        using t' Some
        by (simp add: defs Let_def next'_def [symmetric] r_def [symmetric] again_def [symmetric])
    qed
  qed
qed

lemma updateRoute_refines:
  assumes ok: "tree_ok t"
  shows "(case updateRoute t ns s rid p c of
       Inl e \<Rightarrow> abs_tree t = spec_update_route (abs_tree t) ns s rid p c
     | Inr (t', r) \<Rightarrow> tree_ok t' \<and> abs_tree t' = spec_update_route (abs_tree t) ns s rid p c)"
proof -
  define P :: "route \<Rightarrow> bool" where "P = (\<lambda>r. r_session r = s \<and> r_requestID r = rid)"
  note defs = updateRoute_def P_def [symmetric] node_routes_contents abs_tree_def spec_update_route_def
  show ?thesis
  proof (cases "node_at t ns")
    case None
    then have "contents t ns = no_content" by (simp add: contents_def)
    with tree_ok_find(1) [OF ok None] show ?thesis by (auto simp: defs no_content_def)
  next
    case (Some n)
    then have fnd: "findNode t ns False = (t, Some ns, path_subs (contents t) [] ns)"
      using tree_ok_find(2) [OF ok] by simp
    have cn: "contents t ns = content_of n" by (simp add: contents_def Some)
    show ?thesis
    proof (cases "find P (routes n)")
      case None
      with fnd cn show ?thesis by (simp add: defs Let_def)
    next
      case e: (Some e)
      obtain r' next' rep where rev: "reviseRoute e p c (nextRouteSeq t) = (r', next', rep)"
        by (metis prod_cases3)
      let ?f = "\<lambda>n. n\<lparr>routes := update_first P (\<lambda>_. r') (routes n)\<rparr>"
      have kept: "update_first P (\<lambda>_. r') (routes n) \<noteq> [] \<and> routes n \<noteq> []"
        using e by (cases "routes n") auto
      have "counts 0 [] (upd_node ns ?f t)"
        using ok Some kept by (intro counts_upd_same) (auto simp: tree_ok_def tree_inv_def active_def shouldKeep_def hasContent_def)
      then have "tree_ok (upd_node ns ?f t)"
        using ok by (auto simp: tree_ok_def tree_inv_def rankings_set_def split: if_splits)
      moreover have "contents (upd_node ns ?f t) =
          (contents t)(ns := (contents t ns)\<lparr>c_routes := update_first P (\<lambda>_. r') (c_routes (contents t ns))\<rparr>)"
        using Some by (simp add: contents_upd cn)
      ultimately show ?thesis
        using e rev fnd cn by (simp add: defs Let_def)
    qed
  qed
qed

lemma unpublishNamespace_refines:
  assumes ok: "tree_ok t"
  shows "\<exists>r. unpublishNamespace t ns s rid = Some r \<and>
     (case r of Inl e \<Rightarrow> abs_tree t = spec_unpublish_namespace (abs_tree t) ns s rid
      | Inr (t', _) \<Rightarrow> tree_ok t' \<and> abs_tree t' = spec_unpublish_namespace (abs_tree t) ns s rid)"
proof -
  define P :: "route \<Rightarrow> bool" where
    "P = (\<lambda>r. r_session r = s \<and> (rid = None \<or> rid = Some (r_requestID r)))"
  note defs = unpublishNamespace_def P_def [symmetric] node_routes_contents abs_tree_def spec_unpublish_namespace_def
  show ?thesis
  proof (cases "node_at t ns")
    case None
    then have "contents t ns = no_content" by (simp add: contents_def)
    with tree_ok_find(1) [OF ok None] show ?thesis by (auto simp: defs no_content_def fun_upd_idem)
  next
    case (Some n)
    then have fnd: "findNode t ns False = (t, Some ns, path_subs (contents t) [] ns)"
      using tree_ok_find(2) [OF ok] by simp
    let ?f = "\<lambda>n. n\<lparr>routes := erase_first P (routes n)\<rparr>"
    from nt.change_law [OF ok, of ns ?f "\<lambda>c. c\<lparr>c_routes := erase_first P (c_routes c)\<rparr>"] Some
    obtain t' where "guarded ns ?f t = Some t'" "tree_ok t'"
      "contents t' = (contents t)(ns := (contents t ns)\<lparr>c_routes := erase_first P (c_routes (contents t ns))\<rparr>)"
      "nextRouteSeq t' = nextRouteSeq t" by auto
    with fnd erase_first_none [of P "c_routes (contents t ns)"] show ?thesis
      by (cases "find P (c_routes (contents t ns))") (simp_all add: defs Let_def fun_upd_idem)
  qed
qed

lemma unpublishTrack_refines:
  assumes ok: "tree_ok t"
  shows "\<exists>r. unpublishTrack t ns tn = Some r \<and>
     (case r of Inl e \<Rightarrow> abs_tree t = spec_unpublish_track (abs_tree t) ns tn
      | Inr t' \<Rightarrow> tree_ok t' \<and> abs_tree t' = spec_unpublish_track (abs_tree t) ns tn)"
proof (cases "node_at t ns")
  case None
  then have "contents t ns = no_content" by (simp add: contents_def)
  with tree_ok_find(1) [OF ok None] show ?thesis
    by (auto simp: unpublishTrack_def abs_tree_def spec_unpublish_track_def no_content_def fun_upd_idem)
next
  case (Some n)
  let ?f = "\<lambda>n. n\<lparr>publishes := filter (\<lambda>(k, _). k \<noteq> tn) (publishes n)\<rparr>"
  from nt.change_law [OF ok, of ns ?f "\<lambda>c. c\<lparr>c_publishes := filter (\<lambda>(k, _). k \<noteq> tn) (c_publishes c)\<rparr>"] Some
  obtain t' where "guarded ns ?f t = Some t'" "tree_ok t'"
    "contents t' = (contents t)(ns := (contents t ns)\<lparr>c_publishes := filter (\<lambda>(k, _). k \<noteq> tn) (c_publishes (contents t ns))\<rparr>)"
    "nextRouteSeq t' = nextRouteSeq t" by auto
  with Some tree_ok_find(2) [OF ok] show ?thesis
    by (simp add: unpublishTrack_def abs_tree_def spec_unpublish_track_def)
qed

lemma addPublish_refines:
  assumes ok: "tree_ok t"
  shows "\<exists>t' r. addPublish t ftn s = Some (t', r) \<and> tree_ok t' \<and>
     abs_tree t' = spec_add_publish (abs_tree t) ftn s \<and>
     fst r = path_subs (contents t) [] (trackNamespace ftn) @ c_subscribers (contents t (trackNamespace ftn))"
  using nt.ensure_change [OF ok,
      of "\<lambda>n. n\<lparr>publishes := upsert (trackName ftn) s (\<lambda>_. s) (publishes n)\<rparr>"
         "\<lambda>c. c\<lparr>c_publishes := upsert (trackName ftn) s (\<lambda>_. s) (c_publishes c)\<rparr>" "trackNamespace ftn"]
    nt.ensure_law [OF ok, of "trackNamespace ftn"]
  by (auto simp: addPublish_def tree_ok_create [OF ok] abs_tree_def spec_add_publish_def
      node_subscribers_contents Let_def)

lemma addNamespaceSubscriber_refines:
  assumes ok: "tree_ok t"
  shows "\<exists>t'. addNamespaceSubscriber t ns s info = Some t' \<and> tree_ok t' \<and>
     abs_tree t' = spec_add_subscriber (abs_tree t) ns s info"
  using nt.ensure_change [OF ok, of "\<lambda>n. n\<lparr>subscribers := try_emplace s info (subscribers n)\<rparr>"
         "\<lambda>c. c\<lparr>c_subscribers := try_emplace s info (c_subscribers c)\<rparr>" ns]
  by (auto simp: addNamespaceSubscriber_def tree_ok_create [OF ok] abs_tree_def spec_add_subscriber_def)

lemma erase_adverts_ok:
  "tree_ok t \<Longrightarrow>
     let t' = fold (\<lambda>p. upd_node p (eraseSubscriberAdvertisement key)) ps t in
     tree_ok t' \<and> contents t' = contents t \<and> nextRouteSeq t' = nextRouteSeq t \<and>
     (\<forall>q. (node_at t' q = None) = (node_at t q = None))"
proof (induction ps arbitrary: t)
  case Nil
  then show ?case by simp
next
  case (Cons p ps)
  let ?t = "upd_node p (eraseSubscriberAdvertisement key) t"
  have f: "activeChildCount (eraseSubscriberAdvertisement key n) = activeChildCount n"
    "rankings (eraseSubscriberAdvertisement key n) = rankings n" for n
    by (simp_all add: eraseSubscriberAdvertisement_def)
  have "tree_ok ?t" "contents ?t = contents t" "nextRouteSeq ?t = nextRouteSeq t"
    using Cons.prems by (intro upd_neutral; auto simp: f tree_ok_def rankings_set_def)+
  with Cons.IH [of ?t] show ?case by (simp add: Let_def)
qed

lemma removeNamespaceSubscriber_refines:
  assumes ok: "tree_ok t"
  shows "\<exists>r. removeNamespaceSubscriber t ns s = Some r \<and>
     (case r of Inl e \<Rightarrow> abs_tree t = spec_remove_subscriber (abs_tree t) ns s
      | Inr (t', _) \<Rightarrow> tree_ok t' \<and> abs_tree t' = spec_remove_subscriber (abs_tree t) ns s)"
proof (cases "node_at t ns")
  case None
  then have "contents t ns = no_content" by (simp add: contents_def)
  with tree_ok_find(1) [OF ok None] show ?thesis
    by (auto simp: removeNamespaceSubscriber_def abs_tree_def spec_remove_subscriber_def no_content_def fun_upd_idem)
next
  case n: (Some n)
  then have fnd: "findNode t ns False = (t, Some ns, path_subs (contents t) [] ns)"
    using tree_ok_find(2) [OF ok] by simp
  have cn: "contents t ns = content_of n" by (simp add: contents_def n)
  show ?thesis
  proof (cases "map_of (subscribers n) s")
    case None
    then have "filter (\<lambda>(k, _). k \<noteq> s) (subscribers n) = subscribers n"
      by (force simp: map_of_eq_None_iff filter_id_conv)
    with None fnd n cn show ?thesis
      by (simp add: removeNamespaceSubscriber_def abs_tree_def spec_remove_subscriber_def fun_upd_idem)
  next
    case info: (Some info)
    define t1 where "t1 = fold (\<lambda>p. upd_node p (eraseSubscriberAdvertisement (s, length ns))) (bfs t [ns]) t"
    have t1: "tree_ok t1" "contents t1 = contents t" "nextRouteSeq t1 = nextRouteSeq t" "node_at t1 ns \<noteq> None"
      using erase_adverts_ok [OF ok, of "(s, length ns)" "bfs t [ns]"] n by (simp_all add: t1_def Let_def)
    let ?f = "\<lambda>n. n\<lparr>subscribers := filter (\<lambda>(k, _). k \<noteq> s) (subscribers n)\<rparr>"
    obtain t' where t': "guarded ns ?f t1 = Some t'" "tree_ok t'"
      "contents t' = (contents t)(ns := (contents t ns)\<lparr>c_subscribers := filter (\<lambda>(k, _). k \<noteq> s) (c_subscribers (contents t ns))\<rparr>)"
      "nextRouteSeq t' = nextRouteSeq t"
      using nt.change_law [OF t1(1,4), of ?f "\<lambda>c. c\<lparr>c_subscribers := filter (\<lambda>(k, _). k \<noteq> s) (c_subscribers c)\<rparr>"]
        t1(2,3) by auto
    have nonnull: "map_of (rankings n) pt \<noteq> Some None" for pt
      using ok n by (auto simp: tree_ok_def rankings_set_def dest: map_of_SomeD)
    define sl where "sl = (case trackFilter info of None \<Rightarrow> None
        | Some f \<Rightarrow> map_option (\<lambda>rk. (rk, maxSelected f)) (map_of (rankings n) (propertyType f)))"
    have "sl \<noteq> Some (None, m)" for m
      using nonnull by (auto simp: sl_def split: option.splits)
    then obtain "sl = None \<or> (\<exists>rk m. sl = Some (Some rk, m))"
      by (metis option.exhaust prod.exhaust)
    then show ?thesis
      using fnd n info t'
      by (auto simp: removeNamespaceSubscriber_def t1_def [symmetric] sl_def [symmetric] Let_def
          abs_tree_def spec_remove_subscriber_def)
  qed
qed

lemma upd_upd: "upd_node p f (upd_node p g t) = upd_node p (\<lambda>n. f (g n)) t"
proof -
  have "map (\<lambda>(q, n). (q, if q = p then f n else n)) (map (\<lambda>(q, n). (q, if q = p then g n else n)) xs) =
      map (\<lambda>(q, n). (q, if q = p then f (g n) else n)) xs" for xs
    by (induction xs) auto
  then show ?thesis by (simp add: upd_node_def del: map_map)
qed

lemma getOrCreateRanking_refines:
  assumes ok: "tree_ok t"
  shows "tree_ok (getOrCreateRanking t p pt fresh) \<and> abs_tree (getOrCreateRanking t p pt fresh) = abs_tree t"
proof -
  let ?f = "\<lambda>n. n\<lparr>rankings := map (\<lambda>(k, rk). (k, if k = pt \<and> rk = None then Some fresh else rk))
     (try_emplace pt None (rankings n))\<rparr>"
  have "getOrCreateRanking t p pt fresh = upd_node p ?f t"
    by (simp add: getOrCreateRanking_def getOrInsertRanking_def upd_upd)
  moreover have "(x, None) \<notin> set (rankings (?f n))" if "node_at t p = Some n" for x n
    using ok that by (auto simp: tree_ok_def rankings_set_def try_emplace_def split: option.splits if_splits)
  ultimately show ?thesis
    using upd_neutral [OF ok, of ?f p] by (simp add: abs_tree_def)
qed

lemma run_op_refines:
  assumes ok: "tree_ok t"
  shows "\<exists>t'. run_op t x = Some t' \<and> tree_ok t' \<and> abs_tree t' = spec_op (abs_tree t) x"
proof (cases x)
  case (SetPublisher ns s cb peer rid hp c fc)
  with setPublisher_refines [OF ok] show ?thesis by fastforce
next
  case (UpdateRoute ns s rid p c)
  with updateRoute_refines [OF ok, of ns s rid p c] ok show ?thesis by (auto split: sum.splits)
next
  case (UnpublishNamespace ns s rid)
  from unpublishNamespace_refines [OF ok, of ns s rid] obtain r where
    "unpublishNamespace t ns s rid = Some r"
    "case r of Inl e \<Rightarrow> abs_tree t = spec_unpublish_namespace (abs_tree t) ns s rid
      | Inr (t', _) \<Rightarrow> tree_ok t' \<and> abs_tree t' = spec_unpublish_namespace (abs_tree t) ns s rid" by blast
  with UnpublishNamespace ok show ?thesis by (cases r) auto
next
  case (UnpublishTrack ns tn)
  from unpublishTrack_refines [OF ok, of ns tn] obtain r where "unpublishTrack t ns tn = Some r"
    "case r of Inl e \<Rightarrow> abs_tree t = spec_unpublish_track (abs_tree t) ns tn
      | Inr t' \<Rightarrow> tree_ok t' \<and> abs_tree t' = spec_unpublish_track (abs_tree t) ns tn" by blast
  with UnpublishTrack ok show ?thesis by (cases r) auto
next
  case (AddPublish ftn s)
  with addPublish_refines [OF ok, of ftn s] show ?thesis by fastforce
next
  case (AddSubscriber ns s info)
  with addNamespaceSubscriber_refines [OF ok] show ?thesis by simp
next
  case (RemoveSubscriber ns s)
  from removeNamespaceSubscriber_refines [OF ok, of ns s] obtain r where
    "removeNamespaceSubscriber t ns s = Some r"
    "case r of Inl e \<Rightarrow> abs_tree t = spec_remove_subscriber (abs_tree t) ns s
      | Inr (t', _) \<Rightarrow> tree_ok t' \<and> abs_tree t' = spec_remove_subscriber (abs_tree t) ns s" by blast
  with RemoveSubscriber ok show ?thesis by (cases r) auto
next
  case (CreateRanking p pt fresh)
  with getOrCreateRanking_refines [OF ok] show ?thesis by simp
qed

lemma empty_tree_ok: "tree_ok empty_tree"
  using empty_tree_inv
  by (simp add: tree_ok_def rankings_set_def node_at_def empty_tree_def new_node_def)

lemma run_ops_refine:
  "tree_ok t \<Longrightarrow> \<exists>t'. run_ops t xs = Some t' \<and> tree_ok t' \<and> abs_tree t' = foldl spec_op (abs_tree t) xs"
proof (induction xs arbitrary: t)
  case Nil
  then show ?case by simp
next
  case (Cons x xs)
  from run_op_refines [OF Cons.prems, of x] obtain t1 where
    "run_op t x = Some t1" "tree_ok t1" "abs_tree t1 = spec_op (abs_tree t) x" by blast
  with Cons.IH [of t1] show ?case by simp
qed

end
