(* ===== verification/Namespace_Queries.thy ===== *)
theory Namespace_Queries
  imports Namespace_Tree_Spec
begin

text \<open>
  What the namespace tree answers: routes by longest prefix and path-selection order,
  overlapping subscriptions, and the properties of the tree as a whole.
\<close>

section \<open>The order of routes\<close>

text \<open>The rule of \<^verbatim>\<open>betterRoute\<close> as one key: a path without the anonymous hop, then the lowest
  cost, then the shortest path, then the newest.\<close>

definition rkey :: "cluster_api \<Rightarrow> route \<Rightarrow> bool \<times> nat \<times> nat \<times> int" where
  "rkey cl r = (hasAnon cl r, r_cost r, length (r_path r), - int (r_seq r))"

lemma betterRoute_rkey: "betterRoute cl a b \<longleftrightarrow> rkey cl a < rkey cl b"
  by (auto simp: betterRoute_def rkey_def less_prod_def)

lemma rkey_inject: "rkey cl a = rkey cl b \<Longrightarrow> r_seq a = r_seq b"
  by (simp add: rkey_def)

text \<open>
  The interface of a choice by a strict order given through a key: the scan that keeps the
  better of two candidates finds a least eligible element.
\<close>

locale best_scan =
  fixes key :: "'a \<Rightarrow> 'k::linorder" and better :: "'a \<Rightarrow> 'a \<Rightarrow> bool"
    and scan :: "('a \<Rightarrow> bool) \<Rightarrow> 'a list \<Rightarrow> 'a option \<Rightarrow> 'a option"
  assumes better_key: "better a b \<longleftrightarrow> key a < key b"
    and scan_Nil: "scan P [] best = best"
    and scan_Cons: "scan P (x # xs) best =
      scan P xs (if P x \<and> (case best of None \<Rightarrow> True | Some b \<Rightarrow> better x b) then Some x else best)"
begin

lemma scan_spec:
  "case scan P xs best of
     None \<Rightarrow> best = None \<and> (\<forall>x\<in>set xs. \<not> P x)
   | Some r \<Rightarrow> ((r \<in> set xs \<and> P r) \<or> best = Some r) \<and> (\<forall>x\<in>set xs. P x \<longrightarrow> key r \<le> key x) \<and>
       (\<forall>b. best = Some b \<longrightarrow> key r \<le> key b)"
proof (induction xs arbitrary: best)
  case Nil
  then show ?case by (simp add: scan_Nil split: option.splits)
next
  case (Cons x xs)
  show ?case
  proof (cases "P x \<and> (case best of None \<Rightarrow> True | Some b \<Rightarrow> better x b)")
    case True
    then have eq: "scan P (x # xs) best = scan P xs (Some x)" by (simp add: scan_Cons)
    show ?thesis
      using Cons.IH [of "Some x"] True unfolding eq
      by (auto simp: better_key split: option.splits intro: order_trans less_imp_le)
  next
    case False
    then have eq: "scan P (x # xs) best = scan P xs best" by (auto simp: scan_Cons)
    show ?thesis
      using Cons.IH [of best] False unfolding eq
      by (auto simp: better_key not_less split: option.splits intro: order_trans)
  qed
qed

lemma scan_best:
  assumes "inj_on key {x \<in> set xs. P x}"
  shows "scan P xs None = Some r \<longleftrightarrow> r \<in> set xs \<and> P r \<and> (\<forall>x\<in>set xs. P x \<longrightarrow> x = r \<or> better r x)"
proof (cases "scan P xs None")
  case None
  then show ?thesis using scan_spec [where P = P and xs = xs and best = None] by auto
next
  case (Some r')
  then have r': "r' \<in> set xs" "P r'" "\<And>x. x \<in> set xs \<Longrightarrow> P x \<Longrightarrow> key r' \<le> key x"
    using scan_spec [where P = P and xs = xs and best = None] by auto
  have "x = r' \<or> better r' x" if "x \<in> set xs" "P x" for x
    using assms r' that unfolding better_key by (metis (mono_tags, lifting) inj_onD mem_Collect_eq order_le_less)
  with Some r' show ?thesis
    by (auto simp: better_key) (metis not_less_iff_gr_or_eq)
qed

end

interpretation route_scan: best_scan "rkey cl" "betterRoute cl" "select_loop cl" for cl
  by unfold_locales (auto simp: betterRoute_rkey)

lemma rkey_inj: "distinct (map r_seq rs) \<Longrightarrow> inj_on (rkey cl) {r \<in> set rs. P r}"
  by (auto simp: inj_on_def distinct_map dest: rkey_inject)

section \<open>The deepest node with routes\<close>

definition deepest_ok :: "(track_namespace \<Rightarrow> content) \<Rightarrow> track_namespace \<Rightarrow> track_namespace option \<Rightarrow> bool" where
  "deepest_ok A ns d \<longleftrightarrow> (case d of
       None \<Rightarrow> \<forall>q. prefix q ns \<longrightarrow> c_routes (A q) = []
     | Some p \<Rightarrow> prefix p ns \<and> c_routes (A p) \<noteq> [] \<and>
         (\<forall>q. prefix q ns \<and> strict_prefix p q \<longrightarrow> c_routes (A q) = []))"

lemma deepest_step:
  assumes "deepest_ok A cur d"
  shows "deepest_ok A (cur @ [x]) (if c_routes (A (cur @ [x])) \<noteq> [] then Some (cur @ [x]) else d)"
  using assms
  by (cases d) (auto simp: deepest_ok_def prefix_snoc strict_prefix_def dest: prefix_order.trans)

lemma route_walk_ok:
  "\<lbrakk>tree_wf t; node_at t cur \<noteq> None; deepest_ok (contents t) cur d\<rbrakk> \<Longrightarrow>
     deepest_ok (contents t) (cur @ rest) (route_walk t cur rest d)"
proof (induction rest arbitrary: cur d)
  case Nil
  then show ?case by simp
next
  case (Cons x rest)
  show ?case
  proof (cases "node_at t (cur @ [x])")
    case None
    have none: "c_routes (contents t q) = []" if "prefix q (cur @ x # rest)" "\<not> prefix q cur" for q
    proof -
      from that have "prefix (cur @ [x]) q"
        by (metis append_Cons append_Nil append_assoc prefixI prefix_append prefix_snoc
            prefix_order.antisym prefix_same_cases)
      then obtain r where "q = (cur @ [x]) @ r" by (auto simp: prefix_def)
      with None tree_wf_prefix [OF Cons.prems(1), of "cur @ [x]" r] have "node_at t q = None"
        by (cases "node_at t q") auto
      then show ?thesis by (simp add: contents_def no_content_def)
    qed
    have "route_walk t cur (x # rest) d = d" using None by simp
    with Cons.prems(3) none show ?thesis
      by (cases d) (auto simp: deepest_ok_def)
  next
    case (Some n)
    have "routes n = c_routes (contents t (cur @ [x]))" using Some by (simp add: contents_def)
    then have "route_walk t cur (x # rest) d =
        route_walk t (cur @ [x]) rest (if c_routes (contents t (cur @ [x])) \<noteq> [] then Some (cur @ [x]) else d)"
      using Some by (simp add: Let_def)
    moreover have "deepest_ok (contents t) ((cur @ [x]) @ rest)
        (route_walk t (cur @ [x]) rest (if c_routes (contents t (cur @ [x])) \<noteq> [] then Some (cur @ [x]) else d))"
      using Some by (intro Cons.IH Cons.prems(1) deepest_step Cons.prems(3)) simp
    ultimately show ?thesis by simp
  qed
qed

lemma findRouteNode_deepest:
  assumes "tree_ok t"
  shows "deepest_ok (contents t) ns (findRouteNode t ns)"
proof -
  have wf: "tree_wf t" and root: "node_at t [] \<noteq> None"
    using assms by (auto simp: tree_ok_def tree_inv_def tree_wf_def)
  then obtain n where n: "node_at t [] = Some n" by auto
  have "deepest_ok (contents t) [] (if routes n = [] then None else Some [])"
    using n by (auto simp: deepest_ok_def contents_def)
  from route_walk_ok [OF wf root this, of ns] show ?thesis by (simp add: findRouteNode_def n)
qed

section \<open>Overlapping subscriptions\<close>

definition subscribed :: "namespace_tree \<Rightarrow> session \<Rightarrow> track_namespace \<Rightarrow> bool" where
  "subscribed t s p \<longleftrightarrow> s \<in> fst ` set (c_subscribers (contents t p))"

lemma subscribed_node:
  "node_at t p = Some n \<Longrightarrow> subscribed t s p \<longleftrightarrow> map_of (subscribers n) s \<noteq> None"
  unfolding subscribed_def contents_def by (simp add: map_of_eq_None_iff del: not_None_eq)

lemma subscribed_exists: "subscribed t s p \<Longrightarrow> node_at t p \<noteq> None"
  by (auto simp: subscribed_def contents_def no_content_def split: option.splits)

lemma below_step:
  assumes "tree_wf t"
  shows "(\<exists>q. prefix p q \<and> Q q \<and> node_at t q \<noteq> None) \<longleftrightarrow>
     (Q p \<and> node_at t p \<noteq> None) \<or>
     (\<exists>k\<in>set (child_keys t p). \<exists>q. prefix (p @ [k]) q \<and> Q q \<and> node_at t q \<noteq> None)"
proof
  assume "\<exists>q. prefix p q \<and> Q q \<and> node_at t q \<noteq> None"
  then obtain r where r: "Q (p @ r)" "node_at t (p @ r) \<noteq> None" by (auto simp: prefix_def)
  show "(Q p \<and> node_at t p \<noteq> None) \<or>
     (\<exists>k\<in>set (child_keys t p). \<exists>q. prefix (p @ [k]) q \<and> Q q \<and> node_at t q \<noteq> None)"
  proof (cases r)
    case Nil
    with r show ?thesis by simp
  next
    case (Cons k r')
    then have "node_at t (p @ [k]) \<noteq> None"
      using tree_wf_prefix [OF assms, of "p @ [k]" r'] r by simp
    then have "k \<in> set (child_keys t p)" by (simp add: child_keys_iff del: not_None_eq)
    moreover have "prefix (p @ [k]) (p @ r)" using Cons by simp
    ultimately show ?thesis using r by blast
  qed
next
  assume "(Q p \<and> node_at t p \<noteq> None) \<or>
     (\<exists>k\<in>set (child_keys t p). \<exists>q. prefix (p @ [k]) q \<and> Q q \<and> node_at t q \<noteq> None)"
  then show "\<exists>q. prefix p q \<and> Q q \<and> node_at t q \<noteq> None"
    by (meson append_prefixD prefix_order.order_refl)
qed

lemma dfs_spec:
  "tree_wf t \<Longrightarrow> dfs_has_subscriber t s stack \<longleftrightarrow>
     (\<exists>p\<in>set stack. \<exists>q. prefix p q \<and> subscribed t s q)"
proof (induction t s stack rule: dfs_has_subscriber.induct)
  case (1 t s)
  then show ?case by simp
next
  case (2 t s p stack)
  have step: "(\<exists>q. prefix p q \<and> subscribed t s q) \<longleftrightarrow>
      subscribed t s p \<or> (\<exists>k\<in>set (child_keys t p). \<exists>q. prefix (p @ [k]) q \<and> subscribed t s q)"
    using below_step [OF 2(3), of p "subscribed t s"] subscribed_exists by metis
  show ?case
  proof (cases "node_at t p")
    case None
    then have "child_keys t p = []"
      using tree_wf_prefix [OF 2(3), of p "[_]"] child_keys_iff [of _ t p]
      by (metis list.set_intros(1) neq_Nil_conv)
    with None step subscribed_exists [of t s p] 2(1) [OF None 2(3)] show ?thesis
      by (auto simp: dfs_has_subscriber.simps(2))
  next
    case (Some n)
    show ?thesis
    proof (cases "subscribed t s p")
      case True
      with Some show ?thesis
        using step by (simp add: dfs_has_subscriber.simps(2) subscribed_node)
    next
      case False
      then have "\<not> map_of (subscribers n) s \<noteq> None" using Some by (simp add: subscribed_node)
      with 2(2) [OF Some this 2(3)] Some False step show ?thesis
        by (simp add: dfs_has_subscriber.simps(2) bex_Un)
    qed
  qed
qed

lemma overlap_walk_spec:
  "\<lbrakk>tree_wf t; node_at t cur \<noteq> None\<rbrakk> \<Longrightarrow> overlap_walk t s cur rest \<longleftrightarrow>
     (\<exists>q. subscribed t s q \<and> prefix cur q \<and> (prefix q (cur @ rest) \<or> prefix (cur @ rest) q))"
proof (induction rest arbitrary: cur)
  case Nil
  then show ?case
    by (auto simp: hasTracksSubscriptionInSubtree_def dfs_spec dest: prefix_order.antisym)
next
  case (Cons x rest)
  from Cons.prems(2) obtain n where n: "node_at t cur = Some n" by auto
  have sub: "subscribed t s cur \<longleftrightarrow> map_of (subscribers n) s \<noteq> None" by (rule subscribed_node [OF n])
  have split: "(prefix cur q \<and> (prefix q (cur @ x # rest) \<or> prefix (cur @ x # rest) q)) \<longleftrightarrow>
      q = cur \<or> (prefix (cur @ [x]) q \<and> (prefix q ((cur @ [x]) @ rest) \<or> prefix ((cur @ [x]) @ rest) q))" for q
    by (auto simp: prefix_def append_eq_Cons_conv Cons_eq_append_conv)
  show ?case
  proof (cases "node_at t (cur @ [x])")
    case None
    have "\<not> subscribed t s q" if "prefix (cur @ [x]) q" for q
      using that None subscribed_exists [of t s q] tree_wf_prefix [OF Cons.prems(1), of "cur @ [x]"]
      by (auto simp: prefix_def)
    then show ?thesis
      using n None sub by (auto simp: split simp del: not_None_eq)
  next
    case (Some m)
    then show ?thesis
      using n Cons.IH [of "cur @ [x]"] Cons.prems(1) sub by (auto simp: split simp del: not_None_eq)
  qed
qed

section \<open>The routes of a node\<close>

text \<open>
  Sessions either negotiated the cluster extension or did not; \<open>cluster\<close> says which. Then a
  node holds one route per session, at most one route from outside the cluster, and the
  route generations are distinct.
\<close>

definition routes_ok :: "(session \<Rightarrow> bool) \<Rightarrow> u64 \<Rightarrow> route list \<Rightarrow> bool" where
  "routes_ok cluster next rs \<longleftrightarrow>
     distinct (map r_seq rs) \<and> distinct (map r_session rs) \<and>
     (\<forall>r\<in>set rs. r_seq r \<le> next \<and> r_fromCluster r = cluster (r_session r)) \<and>
     length (filter (\<lambda>r. \<not> r_fromCluster r) rs) \<le> 1"

fun op_consistent :: "(session \<Rightarrow> bool) \<Rightarrow> tree_op \<Rightarrow> bool" where
  "op_consistent cluster (SetPublisher ns s cb peer rid hp c fc) \<longleftrightarrow> fc = cluster s"
| "op_consistent cluster _ \<longleftrightarrow> True"

lemma routes_ok_mono: "\<lbrakk>routes_ok cluster next rs; next \<le> next'\<rbrakk> \<Longrightarrow> routes_ok cluster next' rs"
  by (fastforce simp: routes_ok_def)

lemma set_erase_first: "set (erase_first P xs) \<subseteq> set xs"
  by (induction xs) auto

lemma erase_first_subseq: "subseq (erase_first P xs) xs"
  by (induction xs) auto

lemma distinct_subseq: "\<lbrakk>subseq xs ys; distinct ys\<rbrakk> \<Longrightarrow> distinct xs"
  by (induction rule: list_emb.induct) (auto dest: list_emb_set)

lemma routes_ok_subseq:
  assumes "routes_ok cluster next rs" and "subseq rs' rs"
  shows "routes_ok cluster next rs'"
proof -
  have sub: "subseq (map r_seq rs') (map r_seq rs)" "subseq (map r_session rs') (map r_session rs)"
    "subseq (filter (\<lambda>r. \<not> r_fromCluster r) rs') (filter (\<lambda>r. \<not> r_fromCluster r) rs)"
    using assms(2) by (auto intro: subseq_map subseq_filter)
  have "set rs' \<subseteq> set rs" using assms(2) by (auto dest: list_emb_set)
  then show ?thesis
    using assms(1) sub list_emb_length [OF sub(3)] distinct_subseq [OF sub(1)] distinct_subseq [OF sub(2)]
    by (auto simp: routes_ok_def)
qed

text \<open>At most one route answers the test with which \<^verbatim>\<open>setPublisher\<close> looks for the one to displace.\<close>

lemma displaced_unique:
  assumes "routes_ok cluster next rs" and "fc = cluster s"
    and P: "P = (\<lambda>r. r_session r = s \<or> (\<not> fc \<and> \<not> r_fromCluster r))"
  shows "\<forall>r\<in>set (erase_first P rs). \<not> P r"
  using assms(1)
proof (induction rs)
  case Nil
  then show ?case by simp
next
  case (Cons r rs)
  have rs: "routes_ok cluster next rs"
    using Cons.prems by (rule routes_ok_subseq) auto
  have "\<not> P r'" if "P r" "r' \<in> set rs" for r'
  proof
    assume "P r'"
    have "r_session r \<notin> r_session ` set rs" using Cons.prems by (simp add: routes_ok_def)
    then have ne: "r_session r' \<noteq> r_session r" using that(2) by (metis image_eqI)
    have "r_fromCluster r = cluster (r_session r)" "r_fromCluster r' = cluster (r_session r')"
      using Cons.prems that(2) by (simp_all add: routes_ok_def)
    then have nc: "\<not> r_fromCluster r" "\<not> r_fromCluster r'"
      using that(1) \<open>P r'\<close> ne assms(2) by (auto simp: P)
    have "length (filter (\<lambda>r. \<not> r_fromCluster r) (r # rs)) \<le> 1"
      using Cons.prems unfolding routes_ok_def by blast
    with nc(1) have "filter (\<lambda>r. \<not> r_fromCluster r) rs = []" by simp
    with nc(2) that(2) show False by (auto simp: filter_empty_conv)
  qed
  then show ?case
    using Cons.IH [OF rs] by (cases "P r") simp_all
qed

lemma routes_ok_append:
  assumes "routes_ok cluster next rs" and "r_seq r = Suc next" and "r_session r = s"
    and "r_fromCluster r = cluster s" and "\<forall>r'\<in>set rs. \<not> (r_session r' = s \<or> (\<not> cluster s \<and> \<not> r_fromCluster r'))"
  shows "routes_ok cluster (Suc next) (rs @ [r])"
proof -
  have "filter (\<lambda>r. \<not> r_fromCluster r) rs = [] \<or> cluster s"
    using assms(5) by (auto simp: filter_empty_conv)
  then show ?thesis
    using assms by (fastforce simp: routes_ok_def)
qed

lemma routes_ok_update:
  assumes "routes_ok cluster next rs" and "find P rs = Some e"
    and "r_session r = r_session e" and "r_fromCluster r = r_fromCluster e"
    and "r_seq r = r_seq e \<and> next' = next \<or> r_seq r = Suc next \<and> next' = Suc next"
  shows "routes_ok cluster next' (update_first P (\<lambda>_. r) rs)"
  using assms(1,2)
proof (induction rs)
  case Nil
  then show ?case by simp
next
  case (Cons x rs)
  have rs: "routes_ok cluster next rs" using Cons.prems(1) by (rule routes_ok_subseq) auto
  show ?case
  proof (cases "P x")
    case True
    with Cons.prems(2) have "x = e" by simp
    with True Cons.prems(1) assms(3-5) show ?thesis
      by (fastforce simp: routes_ok_def)
  next
    case False
    with Cons.prems(2) have fnd: "find P rs = Some e" by simp
    from Cons.IH [OF rs fnd] have ih: "routes_ok cluster next' (update_first P (\<lambda>_. r) rs)" .
    have mapped: "map g (update_first P (\<lambda>_. r) rs) = map g rs" if "g r = g e" for g :: "route \<Rightarrow> 'z"
      using fnd that by (induction rs) (auto split: if_splits)
    have filt: "length (filter Q (update_first P (\<lambda>_. r) rs)) = length (filter Q rs)" if "Q r = Q e" for Q
      using fnd that by (induction rs) (auto split: if_splits)
    have sub: "set (update_first P (\<lambda>_. r) rs) \<subseteq> insert r (set rs)"
      by (induction rs) auto
    have seqs: "r_seq x \<notin> r_seq ` set (update_first P (\<lambda>_. r) rs)"
    proof (cases "r_seq r = r_seq e")
      case True
      then have "r_seq ` set (update_first P (\<lambda>_. r) rs) = r_seq ` set rs"
        using mapped [of r_seq] by (metis list.set_map)
      with Cons.prems(1) show ?thesis by (auto simp: routes_ok_def)
    next
      case False
      with assms(5) have "r_seq r = Suc next" by simp
      then show ?thesis using sub Cons.prems(1) by (fastforce simp: routes_ok_def)
    qed
    have sess: "r_session ` set (update_first P (\<lambda>_. r) rs) = r_session ` set rs"
      using mapped [of r_session, OF assms(3)] by (metis list.set_map)
    have "next \<le> next'" using assms(5) by auto
    then show ?thesis
      using ih Cons.prems(1) False seqs sess filt [of "\<lambda>r. \<not> r_fromCluster r"] assms(4)
      by (auto simp: routes_ok_def)
  qed
qed

lemma spec_op_routes:
  assumes inv: "\<forall>ns. routes_ok cluster next (c_routes (A ns))" and bound: "next < u64_max"
    and cons: "op_consistent cluster x" and step: "spec_op (A, next) x = (A', next')"
  shows "(\<forall>ns. routes_ok cluster next' (c_routes (A' ns))) \<and> next' \<le> Suc next"
proof (cases x)
  case (SetPublisher ns s cb peer rid hp c fc)
  define P :: "route \<Rightarrow> bool" where "P = (\<lambda>r. r_session r = s \<or> (\<not> fc \<and> \<not> r_fromCluster r))"
  let ?rs = "c_routes (A ns)"
  have fc: "fc = cluster s" using cons SetPublisher by simp
  have suc: "u64_add next 1 = Suc next" using bound by (simp add: u64_add_exact)
  note ok = inv [rule_format, of ns]
  define r where "r = \<lparr>r_session = s, r_callback = cb, r_peerID = peer, r_requestID = rid, r_path = hp,
    r_cost = c, r_seq = Suc next, r_fromCluster = fc\<rparr>"
  have app: "routes_ok cluster (Suc next) (erase_first P ?rs @ [r])"
    using routes_ok_append [OF routes_ok_subseq [OF ok erase_first_subseq], of r s P]
      displaced_unique [OF ok fc P_def] fc by (auto simp: r_def P_def)
  have cases: "\<exists>rs'. (A', next') = (A(ns := (A ns)\<lparr>c_routes := rs'\<rparr>), next') \<and>
      routes_ok cluster next' rs' \<and> next \<le> next' \<and> next' \<le> Suc next"
  proof (cases "find P ?rs")
    case None
    then show ?thesis
      using step app erase_first_none [OF None]
      by (auto simp: SetPublisher spec_set_publisher_def Let_def P_def [symmetric] suc [simplified] r_def)
  next
    case (Some e)
    show ?thesis
    proof (cases "r_session e = s \<and> fc \<and> r_callback e = None \<and> cb = None")
      case True
      obtain r' n' rep where rev: "reviseRoute (e\<lparr>r_peerID := peer\<rparr>) hp c next = (r', n', rep)"
        by (metis prod_cases3)
      then have r': "r_session r' = r_session e" "r_fromCluster r' = r_fromCluster e"
        "r_seq r' = r_seq e \<and> n' = next \<or> r_seq r' = Suc next \<and> n' = Suc next"
        by (auto simp: reviseRoute_def suc [simplified] split: if_splits)
      from routes_ok_update [OF ok Some r'] have "routes_ok cluster n' (update_first P (\<lambda>_. r') ?rs)" .
      moreover have "(A', next') = (A(ns := (A ns)\<lparr>c_routes := update_first P (\<lambda>_. r') ?rs\<rparr>), n')"
        using step True Some rev
        unfolding SetPublisher spec_op.simps spec_set_publisher_def Let_def prod.case P_def [symmetric]
        by simp
      ultimately show ?thesis using r'(3) by auto
    next
      case False
      define again where "again \<longleftrightarrow> r_session e = s \<and> fc \<and> r_callback e = None \<and> cb = None"
      have "\<not> again" using False by (simp add: again_def)
      moreover have "(A', next') = (A(ns := (A ns)\<lparr>c_routes := erase_first P ?rs @ [r]\<rparr>), Suc next)"
        using step Some \<open>\<not> again\<close>
        unfolding SetPublisher spec_op.simps spec_set_publisher_def Let_def prod.case P_def [symmetric]
          suc r_def [symmetric] by (simp add: again_def [symmetric])
      ultimately show ?thesis using app by auto
    qed
  qed
  then show ?thesis
    using inv routes_ok_mono by (auto simp: fun_upd_def) blast
next
  case (UpdateRoute ns s rid p c)
  define P :: "route \<Rightarrow> bool" where "P = (\<lambda>r. r_session r = s \<and> r_requestID r = rid)"
  have suc: "u64_add next 1 = Suc next" using bound by (simp add: u64_add_exact)
  show ?thesis
  proof (cases "find P (c_routes (A ns))")
    case None
    with step inv show ?thesis
      by (auto simp: UpdateRoute spec_update_route_def P_def [symmetric] Let_def)
  next
    case (Some e)
    obtain r' n' rep where rev: "reviseRoute e p c next = (r', n', rep)" by (metis prod_cases3)
    then have r': "r_session r' = r_session e" "r_fromCluster r' = r_fromCluster e"
      "r_seq r' = r_seq e \<and> n' = next \<or> r_seq r' = Suc next \<and> n' = Suc next"
      by (auto simp: reviseRoute_def suc [simplified] split: if_splits)
    from routes_ok_update [OF inv [rule_format] Some r']
    have "routes_ok cluster n' (update_first P (\<lambda>_. r') (c_routes (A ns)))" .
    moreover have "(A', next') = (A(ns := (A ns)\<lparr>c_routes := update_first P (\<lambda>_. r') (c_routes (A ns))\<rparr>), n')"
      using step Some rev by (simp add: UpdateRoute spec_update_route_def P_def [symmetric] Let_def)
    ultimately show ?thesis
      using r'(3) inv routes_ok_mono [of cluster "next" _ n'] by auto
  qed
next
  case (UnpublishNamespace ns s rid)
  then show ?thesis
    using step inv routes_ok_subseq [OF inv [rule_format] erase_first_subseq]
    by (auto simp: spec_unpublish_namespace_def)
qed (use step inv in \<open>auto simp: spec_unpublish_track_def spec_add_publish_def spec_add_subscriber_def
      spec_remove_subscriber_def Let_def\<close>)

lemma spec_ops_routes:
  "\<lbrakk>\<forall>ns. routes_ok cluster next (c_routes (A ns)); next + length xs \<le> u64_max;
    \<forall>x\<in>set xs. op_consistent cluster x; foldl spec_op (A, next) xs = (A', next')\<rbrakk> \<Longrightarrow>
   \<forall>ns. routes_ok cluster next' (c_routes (A' ns))"
proof (induction xs arbitrary: A "next")
  case Nil
  then show ?case by simp
next
  case (Cons x xs)
  obtain A1 n1 where s: "spec_op (A, next) x = (A1, n1)" by (metis prod.exhaust)
  have "next < u64_max" using Cons.prems(2) by simp
  from spec_op_routes [OF Cons.prems(1) this _ s] Cons.prems(3)
  have "\<forall>ns. routes_ok cluster n1 (c_routes (A1 ns))" "n1 \<le> Suc next" by auto
  with Cons.IH [of n1 A1] Cons.prems s show ?case by auto
qed

lemma reachable_ok:
  assumes "run_ops empty_tree xs = Some t"
  shows "tree_ok t" and "abs_tree t = foldl spec_op (abs_tree empty_tree) xs"
  using run_ops_refine [OF empty_tree_ok, of xs] assms by auto

section \<open>Properties\<close>

text \<open>
  C1. The tree is a map: whatever sequence of operations the relay performs on an empty tree,
  no check of the tree fails and no null ranking is dereferenced, the invariant of the counts
  holds, and the tree holds for every namespace exactly the routes, tracks and subscribers
  that the same operations leave in a plain map without nodes, counts or pruning.
\<close>

theorem tree_refines_map:
  "\<exists>t. run_ops empty_tree xs = Some t \<and> tree_ok t \<and>
     abs_tree t = foldl spec_op ((\<lambda>_. no_content), 0) xs"
proof -
  have "abs_tree empty_tree = ((\<lambda>_. no_content), 0)"
    by (simp add: abs_tree_def contents_empty fun_eq_iff) (simp add: empty_tree_def)
  with run_ops_refine [OF empty_tree_ok, of xs] show ?thesis by simp
qed

lemma reachable_routes:
  assumes "run_ops empty_tree xs = Some t" and "length xs \<le> u64_max"
    and "\<forall>x\<in>set xs. op_consistent cluster x"
  shows "distinct (map r_session (c_routes (contents t ns))) \<and>
     length (filter (\<lambda>r. \<not> r_fromCluster r) (c_routes (contents t ns))) \<le> 1 \<and>
     distinct (map r_seq (c_routes (contents t ns)))"
proof -
  have start: "abs_tree empty_tree = ((\<lambda>_. no_content), 0)"
    by (simp add: abs_tree_def contents_empty fun_eq_iff) (simp add: empty_tree_def)
  have "routes_ok cluster (nextRouteSeq t) (c_routes (contents t ns))"
    using spec_ops_routes [of cluster 0 "\<lambda>_. no_content" xs "contents t" "nextRouteSeq t"]
      reachable_ok(2) [OF assms(1)] assms(2,3)
    unfolding start by (simp add: abs_tree_def no_content_def routes_ok_def)
  then show ?thesis by (simp add: routes_ok_def)
qed

text \<open>
  C29. One route per session: as long as each session announces as what it negotiated, every
  node of every reachable tree holds at most one route per session, at most one route from
  outside the cluster, and routes of pairwise distinct generations.
\<close>

theorem routes_per_session:
  assumes "run_ops empty_tree xs = Some t" and "length xs \<le> u64_max"
    and "\<forall>x\<in>set xs. op_consistent cluster x"
  shows "distinct (map r_session (c_routes (contents t ns))) \<and>
     length (filter (\<lambda>r. \<not> r_fromCluster r) (c_routes (contents t ns))) \<le> 1 \<and>
     distinct (map r_seq (c_routes (contents t ns)))"
  by (rule reachable_routes [OF assms])


text \<open>
  C31. Two subscriptions of one session overlap exactly when one namespace is a prefix of the
  other: the test walks to the requested prefix and then through its subtree, and misses
  neither an ancestor nor a descendant.
\<close>

theorem overlap_iff_prefix:
  assumes "tree_ok t"
  shows "hasOverlappingTracksSubscription t ns s \<longleftrightarrow>
     (\<exists>q. s \<in> fst ` set (c_subscribers (contents t q)) \<and> (prefix q ns \<or> prefix ns q))"
proof -
  have "tree_wf t" "node_at t [] \<noteq> None"
    using assms by (auto simp: tree_ok_def tree_inv_def tree_wf_def)
  from overlap_walk_spec [OF this, of s ns] show ?thesis
    by (simp add: hasOverlappingTracksSubscription_def subscribed_def)
qed

text \<open>
  C30. Who hears of an announcement or a published track: the subscribers of every prefix of
  the namespace, shortest prefix first, the namespace itself included, and nobody else.
\<close>

theorem announcement_audience:
  assumes "tree_ok t" and "setPublisher t ns s cb peer rid hp c fc = Some (t', r)"
    and "addPublish t \<lparr>trackNamespace = ns, trackName = tn\<rparr> s = Some (t'', subs, rks)"
  shows "sp_subscribers r = concat (map (\<lambda>i. c_subscribers (contents t (take i ns))) [0..<Suc (length ns)]) \<and>
     subs = sp_subscribers r"
proof -
  have "path_subs (contents t) [] ns @ c_subscribers (contents t ns) =
      concat (map (\<lambda>i. c_subscribers (contents t (take i ns))) [0..<Suc (length ns)])"
    by (simp add: path_subs_take)
  then show ?thesis
    using setPublisher_refines [OF assms(1), of ns s cb peer rid hp c fc] assms(2,3)
      addPublish_refines [OF assms(1), of "\<lparr>trackNamespace = ns, trackName = tn\<rparr>" s] by auto
qed

section \<open>Nodes that are never pruned\<close>

definition leak_ops :: "tree_op list" where
  "leak_ops =
     [AddPublish \<lparr>trackNamespace = [''x'', ''a'', ''b''], trackName = ''t''\<rparr> 1,
      AddPublish \<lparr>trackNamespace = [''x'', ''a''], trackName = ''t''\<rparr> 1,
      UnpublishTrack [''x'', ''a'', ''b''] ''t'',
      UnpublishTrack [''x'', ''a''] ''t'']"

text \<open>
  A node that has active children already counts as an active child of its parent; when
  it then gets content of its own it is counted a second time, and the extra count is never
  taken back. After publishing and unpublishing a track in \<^verbatim>\<open>x/a/b\<close> and one in \<^verbatim>\<open>x/a\<close> the tree
  holds no content at all, yet the node of \<^verbatim>\<open>x\<close> stays, childless, with a count of one; the same
  pair of tracks published in the other order is pruned completely.
\<close>

theorem emptied_tree_keeps_node:
  "(case run_ops empty_tree leak_ops of None \<Rightarrow> False
    | Some t \<Rightarrow> map (\<lambda>(p, n). (p, activeChildCount n, hasContent n)) (nodes t) =
        [([], 1, False), ([''x''], 1, False)] \<and> child_keys t [''x''] = []) \<and>
   (case run_ops empty_tree [leak_ops ! 1, leak_ops ! 0, leak_ops ! 2, leak_ops ! 3] of None \<Rightarrow> False
    | Some t \<Rightarrow> map (\<lambda>(p, n). (p, activeChildCount n, hasContent n)) (nodes t) = [([], 0, False)])"
  by code_simp

section \<open>Witnesses\<close>

definition demo_ops :: "tree_op list" where
  "demo_ops = [SetPublisher [''live''] 1 (Some 0) [] 2 [] 5 False,
     SetPublisher [''live''] 7 None ''peer'' 4 [9] 3 True,
     AddSubscriber [''live''] 8 \<lparr>forward = True, options = 0, namespacePublishHandle = None,
       trackNamespacePrefix = [''live''], trackFilter = None, peerID = []\<rparr>]"

definition demo_tree :: namespace_tree where
  "demo_tree = the (run_ops empty_tree demo_ops)"

lemma demo_tree_nodes:
  "nodes demo_tree = [([], (new_node [])\<lparr>activeChildCount := 1\<rparr>),
     ([''live''], (new_node [''live''])\<lparr>routes :=
        [\<lparr>r_session = 1, r_callback = Some 0, r_peerID = [], r_requestID = 2, r_path = [], r_cost = 5,
          r_seq = 1, r_fromCluster = False\<rparr>,
         \<lparr>r_session = 7, r_callback = None, r_peerID = ''peer'', r_requestID = 4, r_path = [9], r_cost = 3,
          r_seq = 2, r_fromCluster = True\<rparr>],
        subscribers := [(8, \<lparr>forward = True, options = 0, namespacePublishHandle = None,
          trackNamespacePrefix = [''live''], trackFilter = None, peerID = []\<rparr>)]\<rparr>)]"
  by (simp add: demo_tree_def demo_ops_def setPublisher_def findNode_def addNamespaceSubscriber_def
      node_at_def empty_tree_def add_node_def upd_node_def new_node_def node_routes_def node_subscribers_def
      guarded_def notifyParentIfFirstContent_def tryPruneSelf_def hasContent_def shouldKeep_def
      incrementActiveChildren.simps u64_add_def try_emplace_def Let_def)

lemma demo_tree_run: "run_ops empty_tree demo_ops = Some demo_tree"
  using run_ops_refine [OF empty_tree_ok, of demo_ops] by (auto simp: demo_tree_def)

lemma demo_tree_ok: "tree_ok demo_tree"
  using reachable_ok(1) [OF demo_tree_run] .

lemma demo_consistent: "\<forall>x\<in>set demo_ops. op_consistent (\<lambda>s. s = 7) x" "length demo_ops \<le> u64_max"
  by (simp_all add: demo_ops_def u64_max_def)

theorem routes_per_session_witness:
  "distinct (map r_session (c_routes (contents demo_tree [''live''])))"
  using routes_per_session [OF demo_tree_run demo_consistent(2) demo_consistent(1)] by blast

definition demo_cluster :: cluster_api where
  "demo_cluster = \<lparr>anonHopId = 0\<rparr>"


theorem overlap_iff_prefix_witness:
  "hasOverlappingTracksSubscription demo_tree [''live'', ''cam''] 8 \<and>
   (\<exists>q. 8 \<in> fst ` set (c_subscribers (contents demo_tree q)) \<and>
      (prefix q [''live'', ''cam''] \<or> prefix [''live'', ''cam''] q))"
proof -
  have "hasOverlappingTracksSubscription demo_tree [''live'', ''cam''] 8"
    by (simp add: hasOverlappingTracksSubscription_def node_at_def demo_tree_nodes new_node_def)
  with overlap_iff_prefix [OF demo_tree_ok] show ?thesis by blast
qed

theorem announcement_audience_witness:
  "\<exists>t' r. setPublisher demo_tree [''live'', ''cam''] 1 None [] 6 [] 0 False = Some (t', r) \<and>
     sp_subscribers r = c_subscribers (contents demo_tree []) @ c_subscribers (contents demo_tree [''live'']) @
       c_subscribers (contents demo_tree [''live'', ''cam''])"
proof -
  obtain t' r where sp: "setPublisher demo_tree [''live'', ''cam''] 1 None [] 6 [] 0 False = Some (t', r)"
    using setPublisher_refines [OF demo_tree_ok] by blast
  obtain t'' subs rks where
    "addPublish demo_tree \<lparr>trackNamespace = [''live'', ''cam''], trackName = []\<rparr> 1 = Some (t'', subs, rks)"
    using addPublish_refines [OF demo_tree_ok] by (metis prod.exhaust)
  from announcement_audience [OF demo_tree_ok sp this] sp show ?thesis
    by (auto simp: upt_conv_Cons)
qed

end
