(* ===== verification/Property_Ranking.thy ===== *)
theory Property_Ranking
  imports Moqx_Prelude
begin

text \<open>
  Ranking of tracks by a property value and the top-N selection of the groups of
  subscribers, \<^verbatim>\<open>src/relay/PropertyRanking.{h,cpp}\<close>. The ordered map of ranked tracks is the
  list of its entries in iteration order, best first; hash maps are association lists in
  iteration order. The callbacks into the relay are the events an operation emits, in the
  order of the calls; they do not re-enter the ranking, so the re-entrancy guard has no
  counterpart. All three callbacks are set, as the relay sets them.
\<close>

section \<open>Ranking keys\<close>

datatype rank_key = RankKey (rk_value: u64) (arrivalSeq: u64)

instantiation rank_key :: linorder
begin

definition less_rank_key :: "rank_key \<Rightarrow> rank_key \<Rightarrow> bool" where
  "less_rank_key a b \<longleftrightarrow>
     (if rk_value a \<noteq> rk_value b then rk_value a < rk_value b else arrivalSeq a > arrivalSeq b)"

definition less_eq_rank_key :: "rank_key \<Rightarrow> rank_key \<Rightarrow> bool" where
  "less_eq_rank_key a b \<longleftrightarrow> a < b \<or> a = b"

instance
  by standard
     (auto simp: less_rank_key_def less_eq_rank_key_def intro: rank_key.expand split: if_splits)

end

record ranked_entry =
  e_ftn :: full_track_name
  publisherRaw :: session

type_synonym ranked = "(rank_key \<times> ranked_entry) list"

record rank_index =
  rankIter :: rank_key
  cachedRank :: u64

section \<open>Groups\<close>

datatype track_state = Selected | Deselected

record session_info =
  s_forward :: bool
  waterlineKey :: "rank_key option"
  selectedTracks :: "full_track_name list"

record top_n_group =
  g_maxSelected :: u64
  sessions :: "(session \<times> session_info) list"
  trackStates :: "(full_track_name \<times> track_state) list"
  deselectedQueue :: "full_track_name list"

definition empty_group :: top_n_group where
  "empty_group = \<lparr>g_maxSelected = 0, sessions = [], trackStates = [], deselectedQueue = []\<rparr>"

datatype rank_event =
  OnSelected full_track_name session bool
| OnBatchSelected full_track_name "(session \<times> bool) list"
| OnEvicted full_track_name session

record property_ranking =
  maxDeselected :: u64
  idleTimeout :: int
  sweepThrottle :: int
  lastSweepTime :: "int option"
  rankedTracks :: ranked
  trackIndexByName :: "(full_track_name \<times> rank_index) list"
  topNGroups :: "(u64 \<times> top_n_group) list"
  publisherTrackCount :: "(session \<times> nat) list"
  nextSeq :: u64
  selectionThreshold :: u64
  publisherExtendedThreshold :: u64
  sortedThresholds :: "u64 list"
  rankCacheValid :: bool

definition new_ranking :: "u64 \<Rightarrow> int \<Rightarrow> int \<Rightarrow> property_ranking" where
  "new_ranking maxDes idle throttle =
     \<lparr>maxDeselected = maxDes, idleTimeout = idle, sweepThrottle = throttle, lastSweepTime = None,
      rankedTracks = [], trackIndexByName = [], topNGroups = [], publisherTrackCount = [],
      nextSeq = 0, selectionThreshold = 0, publisherExtendedThreshold = 0, sortedThresholds = [],
      rankCacheValid = False\<rparr>"

section \<open>The ordered map\<close>

text \<open>\<^verbatim>\<open>emplace\<close> on \<^verbatim>\<open>std::map<RankKey, RankedEntry, std::greater<>>\<close>.\<close>

fun rank_emplace :: "rank_key \<Rightarrow> ranked_entry \<Rightarrow> ranked \<Rightarrow> ranked" where
  "rank_emplace k e [] = [(k, e)]"
| "rank_emplace k e ((k', e') # rs) =
     (if k > k' then (k, e) # (k', e') # rs
      else if k = k' then (k', e') # rs
      else (k', e') # rank_emplace k e rs)"

definition rank_erase :: "rank_key \<Rightarrow> ranked \<Rightarrow> ranked" where
  "rank_erase k rs = filter (\<lambda>(k', _). k' \<noteq> k) rs"

fun rebuild_loop ::
  "nat \<Rightarrow> ranked \<Rightarrow> (full_track_name \<times> rank_index) list \<Rightarrow> (full_track_name \<times> rank_index) list" where
  "rebuild_loop rank [] idx = idx"
| "rebuild_loop rank ((k, e) # rs) idx =
     rebuild_loop (Suc rank) rs
       (map (\<lambda>(f, i). (f, if f = e_ftn e then i\<lparr>cachedRank := rank\<rparr> else i)) idx)"

definition rebuildRankCacheIfNeeded :: "property_ranking \<Rightarrow> property_ranking" where
  "rebuildRankCacheIfNeeded pr =
     (if rankCacheValid pr then pr
      else pr\<lparr>trackIndexByName := rebuild_loop 0 (rankedTracks pr) (trackIndexByName pr),
              rankCacheValid := True\<rparr>)"

definition getCachedRank :: "property_ranking \<Rightarrow> full_track_name \<Rightarrow> property_ranking \<times> u64" where
  "getCachedRank pr ftn =
     (let pr' = rebuildRankCacheIfNeeded pr in
      (pr', case map_of (trackIndexByName pr') ftn of None \<Rightarrow> u64_max | Some i \<Rightarrow> cachedRank i))"

definition getRank :: "property_ranking \<Rightarrow> rank_key \<Rightarrow> property_ranking \<times> u64" where
  "getRank pr key =
     (case map_of (rankedTracks pr) key of
        None \<Rightarrow> (pr, u64_max)
      | Some e \<Rightarrow> getCachedRank pr (e_ftn e))"

section \<open>Thresholds\<close>

definition updateSelectionThreshold :: "property_ranking \<Rightarrow> property_ranking" where
  "updateSelectionThreshold pr =
     pr\<lparr>sortedThresholds := sort (map fst (topNGroups pr)),
        selectionThreshold := u64_add (fold max (map fst (topNGroups pr)) 0) (maxDeselected pr)\<rparr>"

text \<open>The windows \<open>N + selfTrackCount\<close> of the subscribers that publish.\<close>

definition extended_windows :: "property_ranking \<Rightarrow> u64 list" where
  "extended_windows pr =
     concat (map (\<lambda>(n, g). List.map_filter (\<lambda>(s, info).
         map_option (\<lambda>c. u64_add n c) (map_of (publisherTrackCount pr) s)) (sessions g))
       (topNGroups pr))"

definition updatePublisherExtendedThreshold :: "property_ranking \<Rightarrow> property_ranking" where
  "updatePublisherExtendedThreshold pr =
     pr\<lparr>publisherExtendedThreshold := u64_add (fold max (extended_windows pr) 0) (maxDeselected pr)\<rparr>"

definition crossesThreshold :: "property_ranking \<Rightarrow> u64 \<Rightarrow> u64 \<Rightarrow> bool" where
  "crossesThreshold pr oldRank newRank =
     (if topNGroups pr = [] then False
      else
        let effective = max (selectionThreshold pr) (publisherExtendedThreshold pr) in
        if oldRank \<ge> effective \<and> newRank \<ge> effective then False
        else
          let minRank = min oldRank newRank;
              maxRank = max oldRank newRank
          in if (oldRank < selectionThreshold pr) \<noteq> (newRank < selectionThreshold pr) then True
             else if (case find (\<lambda>x. x > minRank) (sortedThresholds pr) of
                        None \<Rightarrow> False | Some x \<Rightarrow> x \<le> maxRank) then True
             else if publisherTrackCount pr \<noteq> [] then
               let maxN = fold max (map fst (topNGroups pr)) 0;
                   maxExtended = fold max (extended_windows pr) maxN
               in minRank < maxExtended \<or> maxRank < maxExtended
             else False)"

section \<open>Publisher-subscribers\<close>

definition isPublisher :: "property_ranking \<Rightarrow> session \<Rightarrow> bool" where
  "isPublisher pr s \<longleftrightarrow> map_of (publisherTrackCount pr) s \<noteq> None"

fun waterline_loop :: "session \<Rightarrow> u64 \<Rightarrow> nat \<Rightarrow> ranked \<Rightarrow> rank_key option" where
  "waterline_loop s n nonSelf [] = None"
| "waterline_loop s n nonSelf ((k, e) # rs) =
     (if publisherRaw e \<noteq> s then
        (if nonSelf + 1 = n then Some k else waterline_loop s n (nonSelf + 1) rs)
      else waterline_loop s n nonSelf rs)"

definition computeWaterlineKey :: "ranked \<Rightarrow> session \<Rightarrow> u64 \<Rightarrow> rank_key option" where
  "computeWaterlineKey rs s n = waterline_loop s n 0 rs"

definition reconcilePublisherSelection ::
  "ranked \<Rightarrow> session_info \<Rightarrow> u64 \<Rightarrow> session \<Rightarrow> session_info \<times> rank_event list" where
  "reconcilePublisherSelection rs info n s =
     (let w = computeWaterlineKey rs s n;
          nowSelected = map (e_ftn \<circ> snd)
            (filter (\<lambda>(k, e). publisherRaw e \<noteq> s \<and> (case w of None \<Rightarrow> True | Some wk \<Rightarrow> k \<ge> wk)) rs)
      in (info\<lparr>waterlineKey := w, selectedTracks := nowSelected\<rparr>,
          map (\<lambda>f. OnEvicted f s) (filter (\<lambda>f. f \<notin> set nowSelected) (selectedTracks info)) @
          map (\<lambda>f. OnSelected f s (s_forward info))
            (filter (\<lambda>f. f \<notin> set (selectedTracks info)) nowSelected)))"

section \<open>Group operations\<close>

definition set_state :: "full_track_name \<Rightarrow> track_state \<Rightarrow> top_n_group \<Rightarrow> top_n_group" where
  "set_state f st g = g\<lparr>trackStates := upsert f st (\<lambda>_. st) (trackStates g)\<rparr>"

definition erase_state :: "full_track_name \<Rightarrow> top_n_group \<Rightarrow> top_n_group" where
  "erase_state f g = g\<lparr>trackStates := filter (\<lambda>(k, _). k \<noteq> f) (trackStates g)\<rparr>"

function trim_loop :: "u64 \<Rightarrow> top_n_group \<Rightarrow> rank_event list \<Rightarrow> top_n_group \<times> rank_event list" where
  "trim_loop maxDes g evs =
     (if length (deselectedQueue g) > maxDes then
        let evicted = hd (deselectedQueue g);
            g' = erase_state evicted (g\<lparr>deselectedQueue := tl (deselectedQueue g)\<rparr>)
        in trim_loop maxDes g' (evs @ map (\<lambda>(s, _). OnEvicted evicted s) (sessions g'))
      else (g, evs))"
  by pat_completeness auto
termination
  by (relation "measure (\<lambda>(m, g, evs). length (deselectedQueue g))") (auto simp: erase_state_def)

declare trim_loop.simps [simp del]

definition trimDeselectedQueue :: "u64 \<Rightarrow> top_n_group \<Rightarrow> top_n_group \<times> rank_event list" where
  "trimDeselectedQueue maxDes g = trim_loop maxDes g []"

definition removeFromDeselectedQueue :: "full_track_name \<Rightarrow> top_n_group \<Rightarrow> top_n_group" where
  "removeFromDeselectedQueue f g = g\<lparr>deselectedQueue := filter (\<lambda>x. x \<noteq> f) (deselectedQueue g)\<rparr>"

definition demoteTrack :: "u64 \<Rightarrow> full_track_name \<Rightarrow> top_n_group \<Rightarrow> top_n_group \<times> rank_event list" where
  "demoteTrack maxDes f g =
     (let g1 = set_state f Deselected g
      in trimDeselectedQueue maxDes (g1\<lparr>deselectedQueue := deselectedQueue g1 @ [f]\<rparr>))"

definition demoteTrackAtRank :: "u64 \<Rightarrow> ranked \<Rightarrow> u64 \<Rightarrow> top_n_group \<Rightarrow> top_n_group \<times> rank_event list" where
  "demoteTrackAtRank maxDes rs n g =
     (if n < length rs then
        let f = e_ftn (snd (rs ! n)) in
        if map_of (trackStates g) f = Some Selected then demoteTrack maxDes f g else (g, [])
      else (g, []))"

text \<open>
  The loop over the sessions shared by \<^verbatim>\<open>notifyTrackSelected\<close> and \<^verbatim>\<open>recomputeTopNGroups\<close>:
  publishers that pass the test are reconciled, the others collected.
\<close>

fun session_loop ::
  "ranked \<Rightarrow> (session \<Rightarrow> bool) \<Rightarrow> (session \<Rightarrow> bool) \<Rightarrow> bool \<Rightarrow> u64 \<Rightarrow> (session \<times> session_info) list \<Rightarrow>
   (session \<times> session_info) list \<times> (session \<times> bool) list \<times> rank_event list" where
  "session_loop rs isPub rec batch n [] = ([], [], [])"
| "session_loop rs isPub rec batch n ((s, info) # ss) =
     (let (ss', vs, evs) = session_loop rs isPub rec batch n ss in
      if isPub s then
        if rec s then
          let (info', evs') = reconcilePublisherSelection rs info n s
          in ((s, info') # ss', vs, evs' @ evs)
        else ((s, info) # ss', vs, evs)
      else ((s, info) # ss', (if batch then [(s, s_forward info)] else []) @ vs, evs))"

definition notifyTrackSelected ::
  "ranked \<Rightarrow> (session \<Rightarrow> bool) \<Rightarrow> full_track_name \<Rightarrow> top_n_group \<Rightarrow> top_n_group \<times> rank_event list" where
  "notifyTrackSelected rs isPub f g =
     (let (ss, vs, evs) = session_loop rs isPub (\<lambda>_. True) True (g_maxSelected g) (sessions g)
      in (g\<lparr>sessions := ss\<rparr>, evs @ (if vs \<noteq> [] then [OnBatchSelected f vs] else [])))"

definition promoteNextAvailableTrack ::
  "ranked \<Rightarrow> (session \<Rightarrow> bool) \<Rightarrow> full_track_name \<Rightarrow> top_n_group \<Rightarrow> top_n_group \<times> rank_event list" where
  "promoteNextAvailableTrack rs isPub exclude g =
     (case find (\<lambda>(k, e). e_ftn e \<noteq> exclude \<and> map_of (trackStates g) (e_ftn e) \<noteq> Some Selected) rs of
        None \<Rightarrow> (g, [])
      | Some (k, e) \<Rightarrow>
          notifyTrackSelected rs isPub (e_ftn e)
            (removeFromDeselectedQueue (e_ftn e) (set_state (e_ftn e) Selected g)))"

section \<open>Operations\<close>

text \<open>One step per group, the events in the order of the groups.\<close>

definition map_groups ::
  "(u64 \<Rightarrow> top_n_group \<Rightarrow> top_n_group \<times> rank_event list) \<Rightarrow> property_ranking \<Rightarrow>
   property_ranking \<times> rank_event list" where
  "map_groups f pr =
     (pr\<lparr>topNGroups := map (\<lambda>(n, g). (n, fst (f n g))) (topNGroups pr)\<rparr>,
      concat (map (\<lambda>(n, g). snd (f n g)) (topNGroups pr)))"

definition reconcile_in_group ::
  "ranked \<Rightarrow> session \<Rightarrow> u64 \<Rightarrow> top_n_group \<Rightarrow> top_n_group \<times> rank_event list" where
  "reconcile_in_group rs s n g =
     (case map_of (sessions g) s of
        None \<Rightarrow> (g, [])
      | Some info \<Rightarrow>
          let wasPublisher = (selectedTracks info \<noteq> [] \<or> waterlineKey info \<noteq> None);
              info1 = (if wasPublisher then info
                       else info\<lparr>selectedTracks := map (e_ftn \<circ> snd) (take n rs)\<rparr>);
              (info2, evs) = reconcilePublisherSelection rs info1 n s
          in (g\<lparr>sessions := map (\<lambda>(t, i). (t, if t = s then info2 else i)) (sessions g)\<rparr>, evs))"

definition reconcilePublisherInAllGroups ::
  "property_ranking \<Rightarrow> session \<Rightarrow> property_ranking \<times> rank_event list" where
  "reconcilePublisherInAllGroups pr s = map_groups (reconcile_in_group (rankedTracks pr) s) pr"

definition register_in_group ::
  "property_ranking \<Rightarrow> full_track_name \<Rightarrow> u64 \<Rightarrow> u64 \<Rightarrow> top_n_group \<Rightarrow> top_n_group \<times> rank_event list" where
  "register_in_group pr ftn rank n g =
     (if rank < n then
        let g1 = set_state ftn Selected g;
            (g2, evs2) = notifyTrackSelected (rankedTracks pr) (isPublisher pr) ftn g1;
            (g3, evs3) = demoteTrackAtRank (maxDeselected pr) (rankedTracks pr) n g2
        in (g3, evs2 @ evs3)
      else
        let (ss, _, evs) = session_loop (rankedTracks pr) (isPublisher pr) (\<lambda>_. True) False n (sessions g)
        in (g\<lparr>sessions := ss\<rparr>, evs))"

definition registerTrack ::
  "property_ranking \<Rightarrow> full_track_name \<Rightarrow> u64 option \<Rightarrow> session \<Rightarrow> property_ranking \<times> rank_event list" where
  "registerTrack pr ftn initial publisher =
     (if map_of (trackIndexByName pr) ftn \<noteq> None then (pr, [])
      else
        let val = (case initial of None \<Rightarrow> 0 | Some v \<Rightarrow> v);
            key = RankKey val (nextSeq pr);
            pr1 = pr\<lparr>nextSeq := u64_add (nextSeq pr) 1,
                     publisherTrackCount := upsert publisher 0 (\<lambda>c. c + 1) (publisherTrackCount pr)\<rparr>;
            pr2 = updatePublisherExtendedThreshold pr1;
            pr3 = pr2\<lparr>rankedTracks :=
                        rank_emplace key \<lparr>e_ftn = ftn, publisherRaw = publisher\<rparr> (rankedTracks pr2),
                      trackIndexByName :=
                        upsert ftn \<lparr>rankIter = key, cachedRank = u64_max\<rparr>
                          (\<lambda>_. \<lparr>rankIter = key, cachedRank = u64_max\<rparr>) (trackIndexByName pr2),
                      rankCacheValid := False\<rparr>;
            (pr4, rank) = getCachedRank pr3 ftn;
            (pr5, evs5) = reconcilePublisherInAllGroups pr4 publisher;
            (pr6, evs6) = map_groups (register_in_group pr5 ftn rank) pr5
        in (pr6, evs5 @ evs6))"

definition recompute_in_group ::
  "property_ranking \<Rightarrow> full_track_name \<Rightarrow> u64 \<Rightarrow> u64 \<Rightarrow> u64 \<Rightarrow> top_n_group \<Rightarrow>
   top_n_group \<times> rank_event list" where
  "recompute_in_group pr ftn oldRank newRank n g =
     (let wasIn = (oldRank < n);
          nowIn = (newRank < n);
          (g1, evs1) =
            (if wasIn \<noteq> nowIn then
               if nowIn then (removeFromDeselectedQueue ftn (set_state ftn Selected g), [])
               else demoteTrack (maxDeselected pr) ftn g
             else (g, []));
          ftnPublisher =
            (case map_of (trackIndexByName pr) ftn of None \<Rightarrow> None
             | Some i \<Rightarrow> map_option publisherRaw (map_of (rankedTracks pr) (rankIter i)));
          (ss, vs, evs2) = session_loop (rankedTracks pr) (isPublisher pr)
            (\<lambda>s. Some s \<noteq> ftnPublisher) (\<not> wasIn \<and> nowIn) n (sessions g1);
          g2 = g1\<lparr>sessions := ss\<rparr>;
          evs3 = (if vs \<noteq> [] then [OnBatchSelected ftn vs] else []);
          (g3, evs4) =
            (if \<not> wasIn \<and> nowIn then demoteTrackAtRank (maxDeselected pr) (rankedTracks pr) n g2
             else (g2, []));
          (g4, evs5) =
            (if wasIn \<and> \<not> nowIn \<and> n - 1 < length (rankedTracks pr) then
               let f = e_ftn (snd (rankedTracks pr ! (n - 1))) in
               if map_of (trackStates g3) f \<noteq> Some Selected then
                 notifyTrackSelected (rankedTracks pr) (isPublisher pr) f
                   (removeFromDeselectedQueue f (set_state f Selected g3))
               else (g3, [])
             else (g3, []))
      in (g4, evs1 @ evs2 @ evs3 @ evs4 @ evs5))"

definition recomputeTopNGroups ::
  "property_ranking \<Rightarrow> full_track_name \<Rightarrow> u64 \<Rightarrow> u64 \<Rightarrow> property_ranking \<times> rank_event list" where
  "recomputeTopNGroups pr ftn oldRank newRank =
     map_groups (recompute_in_group pr ftn oldRank newRank) pr"

text \<open>
  \<^verbatim>\<open>sweepIdle\<close>; \<open>getLastActivity\<close> is the relay's callback, its times and the clock reading
  \<open>now\<close> in nanoseconds, 0 for a track that never published.
\<close>

fun sweep_loop ::
  "property_ranking \<Rightarrow> (full_track_name \<Rightarrow> int) \<Rightarrow> int \<Rightarrow> full_track_name list \<Rightarrow> top_n_group \<Rightarrow>
   top_n_group \<times> rank_event list" where
  "sweep_loop pr act now [] g = (g, [])"
| "sweep_loop pr act now (f # fs) g =
     (let neverPublished = (act f = 0) in
      if \<not> neverPublished \<and> now - act f \<le> idleTimeout pr * 10 ^ 6 then sweep_loop pr act now fs g
      else
        let (g1, evs1) = demoteTrack (maxDeselected pr) f g;
            (g2, evs2) = promoteNextAvailableTrack (rankedTracks pr) (isPublisher pr) f g1;
            (g3, evs3) = sweep_loop pr act now fs g2
        in (g3, evs1 @ evs2 @ evs3))"

definition sweepIdle ::
  "property_ranking \<Rightarrow> (full_track_name \<Rightarrow> int) \<Rightarrow> int \<Rightarrow> property_ranking \<times> rank_event list" where
  "sweepIdle pr act now =
     (if idleTimeout pr = 0 then (pr, [])
      else if sweepThrottle pr > 0 \<and>
              (case lastSweepTime pr of None \<Rightarrow> False
               | Some l \<Rightarrow> now - l < sweepThrottle pr * 10 ^ 6) then (pr, [])
      else
        let pr1 = pr\<lparr>lastSweepTime := Some now\<rparr> in
        map_groups (\<lambda>n g. sweep_loop pr1 act now
           (map fst (filter (\<lambda>(f, st). st = Selected) (trackStates g))) g) pr1)"

definition updateSortValue ::
  "property_ranking \<Rightarrow> full_track_name \<Rightarrow> u64 \<Rightarrow> (full_track_name \<Rightarrow> int) \<Rightarrow> int \<Rightarrow>
   property_ranking \<times> rank_event list" where
  "updateSortValue pr ftn val act now =
     (case map_of (trackIndexByName pr) ftn of
        None \<Rightarrow> (pr, [])
      | Some idx \<Rightarrow>
          let oldKey = rankIter idx in
          if rk_value oldKey = val then (pr, [])
          else
            let newKey = RankKey val (arrivalSeq oldKey);
                (pr1, oldRank) = getCachedRank pr ftn
            in case map_of (rankedTracks pr1) oldKey of
                 None \<Rightarrow> (pr1, [])
               | Some entry \<Rightarrow>
                   let pr2 = pr1\<lparr>rankedTracks :=
                               rank_emplace newKey entry (rank_erase oldKey (rankedTracks pr1)),
                             trackIndexByName :=
                               map (\<lambda>(f, i). (f, if f = ftn then i\<lparr>rankIter := newKey\<rparr> else i))
                                 (trackIndexByName pr1),
                             rankCacheValid := False\<rparr>;
                       (pr3, newRank) = getCachedRank pr2 ftn
                   in if \<not> crossesThreshold pr3 oldRank newRank then (pr3, [])
                      else
                        let (pr4, evs4) = recomputeTopNGroups pr3 ftn oldRank newRank;
                            (pr5, evs5) = sweepIdle pr4 act now
                        in (pr5, evs4 @ evs5))"

definition remove_in_group ::
  "property_ranking \<Rightarrow> full_track_name \<Rightarrow> u64 \<Rightarrow> top_n_group \<Rightarrow> top_n_group \<times> rank_event list" where
  "remove_in_group pr ftn n g =
     (case map_of (trackStates g) ftn of
        None \<Rightarrow> (g, [])
      | Some st \<Rightarrow>
          let g1 = removeFromDeselectedQueue ftn (erase_state ftn g) in
          if st = Selected then
            (case deselectedQueue g1 of
               promoted # rest \<Rightarrow>
                 notifyTrackSelected (rankedTracks pr) (isPublisher pr) promoted
                   (set_state promoted Selected (g1\<lparr>deselectedQueue := rest\<rparr>))
             | [] \<Rightarrow> promoteNextAvailableTrack (rankedTracks pr) (isPublisher pr) ftn g1)
          else (g1, []))"

definition removeTrack ::
  "property_ranking \<Rightarrow> full_track_name \<Rightarrow> property_ranking \<times> rank_event list" where
  "removeTrack pr ftn =
     (case map_of (trackIndexByName pr) ftn of
        None \<Rightarrow> (pr, [])
      | Some idx \<Rightarrow>
          let (pr1, oldRank) = getCachedRank pr ftn;
              pr2 =
                (case map_of (rankedTracks pr1) (rankIter idx) of
                   None \<Rightarrow> pr1
                 | Some e \<Rightarrow>
                     (case map_of (publisherTrackCount pr1) (publisherRaw e) of
                        None \<Rightarrow> pr1
                      | Some c \<Rightarrow>
                          updatePublisherExtendedThreshold
                            (pr1\<lparr>publisherTrackCount :=
                               (if c - 1 = 0
                                then filter (\<lambda>(s, _). s \<noteq> publisherRaw e) (publisherTrackCount pr1)
                                else map (\<lambda>(s, k). (s, if s = publisherRaw e then k - 1 else k))
                                       (publisherTrackCount pr1))\<rparr>)));
              pr3 = pr2\<lparr>rankedTracks := rank_erase (rankIter idx) (rankedTracks pr2),
                        trackIndexByName := filter (\<lambda>(f, _). f \<noteq> ftn) (trackIndexByName pr2),
                        rankCacheValid := False\<rparr>
          in map_groups (remove_in_group pr3 ftn) pr3)"

definition getOrCreateTopNGroup :: "property_ranking \<Rightarrow> u64 \<Rightarrow> property_ranking" where
  "getOrCreateTopNGroup pr n =
     (if map_of (topNGroups pr) n \<noteq> None then pr
      else
        let g = empty_group\<lparr>g_maxSelected := n,
                 trackStates := map (\<lambda>(k, e). (e_ftn e, Selected)) (take n (rankedTracks pr))\<rparr>
        in updateSelectionThreshold (pr\<lparr>topNGroups := topNGroups pr @ [(n, g)]\<rparr>))"

definition new_session_info :: "bool \<Rightarrow> session_info" where
  "new_session_info fwd = \<lparr>s_forward = fwd, waterlineKey = None, selectedTracks = []\<rparr>"

definition set_group :: "u64 \<Rightarrow> top_n_group \<Rightarrow> property_ranking \<Rightarrow> property_ranking" where
  "set_group n g pr = pr\<lparr>topNGroups := map (\<lambda>(m, h). (m, if m = n then g else h)) (topNGroups pr)\<rparr>"

definition addSessionToTopNGroup ::
  "property_ranking \<Rightarrow> u64 \<Rightarrow> session \<Rightarrow> bool \<Rightarrow> property_ranking \<times> rank_event list" where
  "addSessionToTopNGroup pr n s fwd =
     (let pr1 = getOrCreateTopNGroup pr n in
      case map_of (topNGroups pr1) n of
        None \<Rightarrow> (pr1, [])
      | Some g \<Rightarrow>
          let g1 = g\<lparr>sessions := upsert s (new_session_info fwd) (\<lambda>_. new_session_info fwd) (sessions g)\<rparr>;
              pr2 = set_group n g1 pr1
          in if isPublisher pr2 s then
               let pr3 = updatePublisherExtendedThreshold pr2;
                   (info, evs) = reconcilePublisherSelection (rankedTracks pr3) (new_session_info fwd) n s;
                   g2 = g1\<lparr>sessions := map (\<lambda>(t, i). (t, if t = s then info else i)) (sessions g1)\<rparr>
               in (set_group n g2 pr3, evs)
             else (pr2, map (\<lambda>(k, e). OnSelected (e_ftn e) s fwd) (take n (rankedTracks pr2))))"

definition removeTopNGroup :: "property_ranking \<Rightarrow> u64 \<Rightarrow> property_ranking" where
  "removeTopNGroup pr n =
     updateSelectionThreshold (pr\<lparr>topNGroups := filter (\<lambda>(m, _). m \<noteq> n) (topNGroups pr)\<rparr>)"

definition removeSessionFromTopNGroup :: "property_ranking \<Rightarrow> u64 \<Rightarrow> session \<Rightarrow> property_ranking" where
  "removeSessionFromTopNGroup pr n s =
     (case map_of (topNGroups pr) n of
        None \<Rightarrow> pr
      | Some g \<Rightarrow>
          let wasPublisher = isPublisher pr s;
              g1 = g\<lparr>sessions := filter (\<lambda>(t, _). t \<noteq> s) (sessions g)\<rparr>;
              pr1 = set_group n g1 pr;
              pr2 = (if sessions g1 = [] then removeTopNGroup pr1 n else pr1)
          in if wasPublisher then updatePublisherExtendedThreshold pr2 else pr2)"

definition updateSessionForward :: "property_ranking \<Rightarrow> u64 \<Rightarrow> session \<Rightarrow> bool \<Rightarrow> property_ranking" where
  "updateSessionForward pr n s fwd =
     (case map_of (topNGroups pr) n of
        None \<Rightarrow> pr
      | Some g \<Rightarrow>
          if map_of (sessions g) s = None then pr
          else set_group n
                 (g\<lparr>sessions := map (\<lambda>(t, i). (t, if t = s then i\<lparr>s_forward := fwd\<rparr> else i)) (sessions g)\<rparr>) pr)"

end
