(* ===== verification/Top_N_Selection.thy ===== *)
theory Top_N_Selection
  imports Property_Ranking "HOL-Library.Code_Target_Nat"
begin

text \<open>
  The ranking selects what it promises. With no deselected queue and no idle eviction, the
  configuration the relay supports, the tracks a group marks selected are at every moment the
  first N of the ranking; the cached ranks are the positions; a value change that takes the
  fast path changes no selection; and the personal selection of a subscriber that publishes is
  the first N tracks that are not its own.
\<close>

section \<open>Lists with one element inserted\<close>

definition insert_at :: "nat \<Rightarrow> 'a \<Rightarrow> 'a list \<Rightarrow> 'a list" where
  "insert_at r x xs = take r xs @ x # drop r xs"

lemma set_take_insert_at:
  assumes "r \<le> length xs"
  shows "set (take n (insert_at r x xs)) =
     (if r < n then insert x (set (take (n - 1) xs)) else set (take n xs))"
proof (cases "r < n")
  case True
  then obtain m where n: "n = Suc (r + m)" by (metis add_Suc_right less_imp_Suc_add)
  have "take n (insert_at r x xs) = take r xs @ x # take m (drop r xs)"
    using assms n by (simp add: insert_at_def)
  moreover have "take (n - 1) xs = take r xs @ take m (drop r xs)"
    using n by (simp add: take_add)
  ultimately show ?thesis using True by simp
next
  case False
  then show ?thesis using assms by (simp add: insert_at_def min_def)
qed

lemma nth_insert_at:
  "r \<le> length xs \<Longrightarrow> insert_at r x xs ! i = (if i < r then xs ! i else if i = r then x else xs ! (i - 1))"
  by (auto simp: insert_at_def nth_append nth_Cons' min_def)

lemma length_insert_at [simp]: "length (insert_at r x xs) = Suc (length xs)"
  by (simp add: insert_at_def)

lemma set_insert_at [simp]: "set (insert_at r x xs) = insert x (set xs)"
proof -
  have "set (insert_at r x xs) = insert x (set (take r xs @ drop r xs))"
    by (simp only: insert_at_def set_append list.set(2) Un_insert_right)
  then show ?thesis by simp
qed

lemma map_insert_at: "map f (insert_at r x xs) = insert_at r (f x) (map f xs)"
  by (simp add: insert_at_def take_map drop_map)

lemma distinct_insert_at: "distinct (insert_at r x xs) \<longleftrightarrow> x \<notin> set xs \<and> distinct xs"
proof -
  have "distinct (insert_at r x xs) \<longleftrightarrow> x \<notin> set (take r xs @ drop r xs) \<and> distinct (take r xs @ drop r xs)"
    unfolding insert_at_def distinct_append set_append by auto
  then show ?thesis by simp
qed

lemma split_insert_at: "i < length xs \<Longrightarrow> xs = insert_at i (xs ! i) (take i xs @ drop (Suc i) xs)"
  by (simp add: insert_at_def id_take_nth_drop)

lemma set_take_step:
  "\<lbrakk>0 < n; n - 1 < length xs\<rbrakk> \<Longrightarrow> set (take n xs) = insert (xs ! (n - 1)) (set (take (n - 1) xs))"
  by (cases n) (simp_all add: take_Suc_conv_app_nth)

lemma set_take_short: "length xs \<le> m \<Longrightarrow> m \<le> n \<Longrightarrow> set (take n xs) = set (take m xs)"
  by simp

section \<open>The ordered map\<close>

definition desc :: "ranked \<Rightarrow> bool" where
  "desc rs \<longleftrightarrow> sorted_wrt (\<lambda>x y. fst x > fst y) rs"

definition names :: "ranked \<Rightarrow> full_track_name list" where
  "names rs = map (e_ftn \<circ> snd) rs"

lemma length_names [simp]: "length (names rs) = length rs"
  by (simp add: names_def)

lemma desc_distinct: "desc rs \<Longrightarrow> distinct (map fst rs)"
  by (induction rs) (auto simp: desc_def)

lemma rank_emplace_at:
  assumes "k \<notin> fst ` set rs"
  shows "\<exists>r\<le>length rs. rank_emplace k e rs = insert_at r (k, e) rs"
  using assms
proof (induction rs)
  case Nil
  then show ?case by (simp add: insert_at_def)
next
  case (Cons x rs)
  obtain k' e' where x: "x = (k', e')" by fastforce
  show ?case
  proof (cases "k > k'")
    case True
    then show ?thesis by (intro exI [of _ 0]) (simp add: x insert_at_def)
  next
    case False
    moreover have "k \<noteq> k'" using Cons.prems x by auto
    moreover obtain r where "r \<le> length rs" "rank_emplace k e rs = insert_at r (k, e) rs"
      using Cons by auto
    ultimately show ?thesis
      by (intro exI [of _ "Suc r"]) (auto simp: x insert_at_def)
  qed
qed

lemma set_rank_emplace: "k \<notin> fst ` set rs \<Longrightarrow> set (rank_emplace k e rs) = insert (k, e) (set rs)"
  using rank_emplace_at [of k rs e] by auto

lemma desc_rank_emplace: "\<lbrakk>desc rs; k \<notin> fst ` set rs\<rbrakk> \<Longrightarrow> desc (rank_emplace k e rs)"
proof (induction rs)
  case Nil
  then show ?case by (simp add: desc_def)
next
  case (Cons x rs)
  obtain k' e' where x: "x = (k', e')" by fastforce
  have "k \<noteq> k'" "k \<notin> fst ` set rs" using Cons.prems(2) x by auto
  moreover have "desc rs" "\<forall>y\<in>set rs. k' > fst y" using Cons.prems(1) x by (auto simp: desc_def)
  ultimately show ?case
    using Cons.IH by (auto simp: x desc_def set_rank_emplace intro: less_trans)
qed

lemma desc_rank_erase: "desc rs \<Longrightarrow> desc (rank_erase k rs)"
  by (simp add: desc_def rank_erase_def sorted_wrt_filter)

text \<open>Erasing the key of the entry at a position is removing that position.\<close>

lemma rank_erase_at:
  assumes "desc rs" and "i < length rs" and "k = fst (rs ! i)"
  shows "rs = insert_at i (rs ! i) (rank_erase k rs)"
proof -
  let ?M = "take i rs @ drop (Suc i) rs"
  have rs: "rs = insert_at i (rs ! i) ?M" by (rule split_insert_at [OF assms(2)])
  have "distinct (map fst (insert_at i (rs ! i) ?M))"
    using desc_distinct [OF assms(1)] rs by simp
  then have notin: "k \<notin> fst ` set ?M"
    using assms(3) by (simp add: map_insert_at distinct_insert_at image_Un)
  have "rank_erase k rs = rank_erase k (insert_at i (rs ! i) ?M)" using rs by simp
  also have "\<dots> = rank_erase k ?M"
    using assms(2,3) by (cases "rs ! i") (simp add: rank_erase_def insert_at_def min_def)
  also have "\<dots> = ?M"
    unfolding rank_erase_def by (rule filter_True) (use notin in \<open>force\<close>)
  finally show ?thesis using rs by simp
qed

section \<open>Cached ranks\<close>

lemma rebuild_loop_iter:
  "map_option rankIter (map_of (rebuild_loop r rs idx) f) = map_option rankIter (map_of idx f)"
proof (induction rs arbitrary: r idx)
  case Nil
  then show ?case by simp
next
  case (Cons x rs)
  obtain k e where x: "x = (k, e)" by fastforce
  have "map_option rankIter (map_of (map (\<lambda>(f, i). (f, if f = e_ftn e then i\<lparr>cachedRank := r\<rparr> else i)) idx) f) =
      map_option rankIter (map_of idx f)"
    by (induction idx) auto
  then show ?case by (simp add: x Cons.IH)
qed

lemma map_of_cache:
  "map_of (map (\<lambda>(f, i). (f, if f = g then i\<lparr>cachedRank := r\<rparr> else i)) idx) f =
     (if f = g then map_option (\<lambda>i. i\<lparr>cachedRank := r\<rparr>) (map_of idx f) else map_of idx f)"
  by (induction idx) auto

lemma rebuild_loop_other:
  "f \<notin> set (names rs) \<Longrightarrow> map_of (rebuild_loop r rs idx) f = map_of idx f"
  by (induction rs arbitrary: r idx) (auto simp: names_def map_of_cache)

lemma rebuild_loop_rank:
  "\<lbrakk>distinct (names rs); i < length rs; map_of idx (names rs ! i) = Some x\<rbrakk> \<Longrightarrow>
     map_of (rebuild_loop r rs idx) (names rs ! i) = Some (x\<lparr>cachedRank := r + i\<rparr>)"
proof (induction rs arbitrary: r idx i x)
  case Nil
  then show ?case by simp
next
  case (Cons y rs)
  obtain k e where y: "y = (k, e)" by fastforce
  have d: "distinct (names rs)" "e_ftn e \<notin> set (names rs)" using Cons.prems(1) by (auto simp: names_def y)
  show ?case
  proof (cases i)
    case 0
    with Cons.prems d show ?thesis
      by (simp add: y names_def [of "y # rs"] rebuild_loop_other map_of_cache)
         (simp add: y names_def rebuild_loop_other [unfolded names_def] map_of_cache)
  next
    case (Suc j)
    then have nm: "names (y # rs) ! i = names rs ! j" by (simp add: names_def)
    have "names rs ! j \<noteq> e_ftn e"
      using d(2) Suc Cons.prems(2) by (metis Suc_less_eq length_Cons length_names nth_mem)
    then show ?thesis
      using Cons.IH [OF d(1), of j] Cons.prems(2,3) Suc nm by (simp add: y map_of_cache)
  qed
qed

definition rank_wf :: "property_ranking \<Rightarrow> bool" where
  "rank_wf pr \<longleftrightarrow>
     desc (rankedTracks pr) \<and> distinct (names (rankedTracks pr)) \<and>
     distinct (map (arrivalSeq \<circ> fst) (rankedTracks pr)) \<and>
     (\<forall>x\<in>set (rankedTracks pr). arrivalSeq (fst x) < nextSeq pr) \<and>
     (\<forall>f. map_option rankIter (map_of (trackIndexByName pr) f) =
          map_of (map (\<lambda>(k, e). (e_ftn e, k)) (rankedTracks pr)) f) \<and>
     (rankCacheValid pr \<longrightarrow> (\<forall>i<length (rankedTracks pr).
        map_option cachedRank (map_of (trackIndexByName pr) (names (rankedTracks pr) ! i)) = Some i))"

lemma names_keys: "map fst (map (\<lambda>(k, e). (e_ftn e, k)) rs) = names rs"
  by (simp add: names_def case_prod_beta comp_def)

lemma index_entry:
  assumes "rank_wf pr" and "i < length (rankedTracks pr)"
  shows "map_option rankIter (map_of (trackIndexByName pr) (names (rankedTracks pr) ! i)) =
     Some (fst (rankedTracks pr ! i))"
proof -
  let ?al = "map (\<lambda>(k, e). (e_ftn e, k)) (rankedTracks pr)"
  have "distinct (map fst ?al)" using assms(1) by (simp only: names_keys rank_wf_def)
  moreover have "(names (rankedTracks pr) ! i, fst (rankedTracks pr ! i)) \<in> set ?al"
    using assms(2) by (force simp: names_def case_prod_beta intro: image_eqI [of _ _ "rankedTracks pr ! i"])
  ultimately have "map_of ?al (names (rankedTracks pr) ! i) = Some (fst (rankedTracks pr ! i))"
    by (rule map_of_is_SomeI)
  with assms(1) show ?thesis by (simp add: rank_wf_def)
qed

lemma index_position:
  assumes "rank_wf pr" and "map_of (trackIndexByName pr) f = Some idx"
  shows "\<exists>i<length (rankedTracks pr). names (rankedTracks pr) ! i = f \<and> rankIter idx = fst (rankedTracks pr ! i)"
proof -
  from assms have "map_of (map (\<lambda>(k, e). (e_ftn e, k)) (rankedTracks pr)) f = Some (rankIter idx)"
    unfolding rank_wf_def by (metis option.map(2))
  then have "(f, rankIter idx) \<in> (\<lambda>(k, e). (e_ftn e, k)) ` set (rankedTracks pr)"
    by (auto dest: map_of_SomeD)
  then obtain x where "x \<in> set (rankedTracks pr)" "f = e_ftn (snd x)" "rankIter idx = fst x" by force
  moreover from this(1) obtain i where "i < length (rankedTracks pr)" "rankedTracks pr ! i = x"
    by (auto simp: in_set_conv_nth)
  ultimately show ?thesis by (intro exI [of _ i]) (simp add: names_def)
qed

lemma rebuild_wf:
  assumes "rank_wf pr"
  shows "rank_wf (rebuildRankCacheIfNeeded pr)" and "rankCacheValid (rebuildRankCacheIfNeeded pr)"
proof -
  have "rank_wf (pr\<lparr>trackIndexByName := rebuild_loop 0 (rankedTracks pr) (trackIndexByName pr),
      rankCacheValid := True\<rparr>)"
  proof -
    have "map_option cachedRank (map_of (rebuild_loop 0 (rankedTracks pr) (trackIndexByName pr))
        (names (rankedTracks pr) ! i)) = Some i" if i: "i < length (rankedTracks pr)" for i
    proof -
      obtain x where "map_of (trackIndexByName pr) (names (rankedTracks pr) ! i) = Some x"
        using index_entry [OF assms i] by auto
      from rebuild_loop_rank [OF _ i this, of 0] assms show ?thesis by (simp add: rank_wf_def)
    qed
    with assms show ?thesis by (simp add: rank_wf_def rebuild_loop_iter)
  qed
  with assms show "rank_wf (rebuildRankCacheIfNeeded pr)" "rankCacheValid (rebuildRankCacheIfNeeded pr)"
    by (auto simp: rebuildRankCacheIfNeeded_def)
qed

text \<open>The cached rank of a registered track is its position.\<close>

lemma getCachedRank_position:
  assumes "rank_wf pr" and "i < length (rankedTracks pr)" and "names (rankedTracks pr) ! i = f"
  shows "getCachedRank pr f = (rebuildRankCacheIfNeeded pr, i)"
proof -
  let ?pr = "rebuildRankCacheIfNeeded pr"
  have same: "rankedTracks ?pr = rankedTracks pr" by (simp add: rebuildRankCacheIfNeeded_def)
  have "map_option cachedRank (map_of (trackIndexByName ?pr) f) = Some i"
    using rebuild_wf [OF assms(1)] assms(2,3) unfolding rank_wf_def same by metis
  then show ?thesis by (auto simp: getCachedRank_def Let_def)
qed

section \<open>The first N of a list\<close>

definition first_n :: "nat \<Rightarrow> 'a list \<Rightarrow> 'a set" where
  "first_n n xs = set (take n xs)"

lemma top_Suc_nth: "\<lbrakk>0 < n; n - 1 < length xs\<rbrakk> \<Longrightarrow> first_n n xs = insert (xs ! (n - 1)) (first_n (n - 1) xs)"
  unfolding first_n_def by (rule set_take_step)

lemma top_short: "length xs \<le> n - 1 \<Longrightarrow> first_n n xs = first_n (n - 1) xs"
  unfolding first_n_def by simp

lemma top_nth_notin: "\<lbrakk>distinct xs; i < length xs; n \<le> i\<rbrakk> \<Longrightarrow> xs ! i \<notin> first_n n xs"
  unfolding first_n_def by (auto simp: in_set_conv_nth nth_eq_iff_index_eq)

lemma top_outside:
  "\<lbrakk>r \<le> length M; n \<le> r\<rbrakk> \<Longrightarrow> first_n n (insert_at r f M) = first_n n M"
  by (simp add: first_n_def set_take_insert_at)

lemma top_inside:
  "\<lbrakk>r \<le> length M; r < n\<rbrakk> \<Longrightarrow> first_n n (insert_at r f M) = insert f (first_n (n - 1) M)"
  by (simp add: first_n_def set_take_insert_at)

lemma top_subset: "first_n n xs \<subseteq> set xs"
  unfolding first_n_def by (rule set_take_subset)

lemma top_enter:
  assumes "r \<le> length M" and "r < n" and "distinct M" and "f \<notin> set M"
  shows "first_n n (insert_at r f M) =
     (if n < Suc (length M) then insert f (first_n n M) - {insert_at r f M ! n} else insert f (first_n n M))"
proof (cases "n < Suc (length M)")
  case True
  have pos: "0 < n" "n - 1 < length M" using assms(2) True by auto
  have nth: "insert_at r f M ! n = M ! (n - 1)"
    using assms(1,2) by (simp add: nth_insert_at)
  have "M ! (n - 1) \<noteq> f" using pos assms(4) by (metis nth_mem)
  moreover have "M ! (n - 1) \<notin> first_n (n - 1) M" using pos assms(3) by (simp add: top_nth_notin)
  ultimately show ?thesis
    unfolding top_inside [OF assms(1,2)] top_Suc_nth [OF pos] nth using True by auto
next
  case False
  then show ?thesis using assms(1,2) by (simp add: top_inside top_short)
qed

lemma top_leave:
  assumes "o' \<le> length M" and "o' < n" and "f \<notin> set M"
  shows "first_n n (insert_at o' f M) - {f} = first_n (n - 1) M"
  using assms top_subset [of "n - 1" M] by (auto simp: top_inside)

section \<open>What a group shows\<close>

definition shows_set :: "top_n_group \<Rightarrow> nat \<Rightarrow> full_track_name set \<Rightarrow> bool" where
  "shows_set g n S \<longleftrightarrow> g_maxSelected g = n \<and> deselectedQueue g = [] \<and>
     map_of (trackStates g) = (\<lambda>f. if f \<in> S then Some Selected else None)"

lemma shows_state: "shows_set g n S \<Longrightarrow> map_of (trackStates g) f = Some Selected \<longleftrightarrow> f \<in> S"
  by (simp add: shows_set_def)

lemma shows_set_state: "shows_set g n S \<Longrightarrow> shows_set (set_state f Selected g) n (insert f S)"
  by (auto simp: shows_set_def set_state_def map_of_upsert fun_eq_iff split: option.splits)

lemma shows_remove_queue [simp]:
  "shows_set g n S \<Longrightarrow> shows_set (removeFromDeselectedQueue f g) n S"
  by (simp add: shows_set_def removeFromDeselectedQueue_def)

lemma shows_sessions [simp]: "shows_set (g\<lparr>sessions := ss\<rparr>) n S = shows_set g n S"
  by (simp add: shows_set_def)

lemma shows_notify: "shows_set (fst (notifyTrackSelected rs isPub f g)) n S = shows_set g n S"
  by (simp add: notifyTrackSelected_def case_prod_beta Let_def)

lemma map_of_filter_neq: "map_of (filter (\<lambda>(k, _). k \<noteq> f) al) = (map_of al)(f := None)"
  by (induction al) (auto simp: fun_eq_iff)

lemma shows_erase_state: "shows_set g n S \<Longrightarrow> shows_set (erase_state f g) n (S - {f})"
  by (auto simp: shows_set_def erase_state_def map_of_filter_neq fun_eq_iff)

lemma shows_demote:
  assumes "shows_set g n S"
  shows "shows_set (fst (demoteTrack 0 f g)) n (S - {f})"
proof -
  let ?g = "(set_state f Deselected g)\<lparr>deselectedQueue := deselectedQueue (set_state f Deselected g) @ [f]\<rparr>"
  have q: "deselectedQueue ?g = [f]" using assms by (simp add: shows_set_def set_state_def)
  have "fst (demoteTrack 0 f g) = erase_state f (?g\<lparr>deselectedQueue := []\<rparr>)"
    unfolding demoteTrack_def trimDeselectedQueue_def Let_def
    by (subst trim_loop.simps, subst trim_loop.simps) (use q in \<open>simp add: erase_state_def\<close>)
  then show ?thesis
    using assms
    by (auto simp: shows_set_def erase_state_def set_state_def map_of_filter_neq map_of_upsert fun_eq_iff)
qed

lemma shows_demote_at:
  assumes "shows_set g n S"
  shows "shows_set (fst (demoteTrackAtRank 0 rs m g)) n
     (if m < length rs then S - {names rs ! m} else S)"
proof (cases "m < length rs \<and> e_ftn (snd (rs ! m)) \<in> S")
  case True
  then show ?thesis
    using shows_demote [OF assms] shows_state [OF assms]
    by (simp add: demoteTrackAtRank_def names_def Let_def)
next
  case False
  then show ?thesis
    using assms shows_state [OF assms] by (auto simp: demoteTrackAtRank_def names_def Let_def)
qed

lemma shows_promote:
  assumes "shows_set g n S" and S: "S = first_n m (names rs)" and "distinct (names rs)" and "x \<notin> set (names rs)"
  shows "shows_set (fst (promoteNextAvailableTrack rs isPub x g)) n (first_n (Suc m) (names rs))"
proof -
  let ?P = "\<lambda>(k, e). e_ftn e \<noteq> x \<and> map_of (trackStates g) (e_ftn e) \<noteq> Some Selected"
  have P: "?P y \<longleftrightarrow> e_ftn (snd y) \<notin> S" if "y \<in> set rs" for y
    using that assms(4) shows_state [OF assms(1)] by (auto simp: names_def case_prod_beta)
  show ?thesis
  proof (cases "m < length rs")
    case True
    have hit: "?P (rs ! m)"
      using P [of "rs ! m"] True top_nth_notin [OF assms(3), of m m] by (simp add: S names_def)
    have miss: "\<not> ?P (rs ! i)" if "i < m" for i
    proof -
      have "names rs ! i \<in> first_n m (names rs)"
        using that True by (auto simp: first_n_def names_def in_set_conv_nth intro!: exI [of _ i])
      then show ?thesis
        using P [of "rs ! i"] that True by (simp add: S names_def)
    qed
    have "find ?P rs = Some (rs ! m)"
      unfolding find_Some_iff by (intro exI [of _ m] conjI allI impI True hit miss refl)
    moreover have "first_n (Suc m) (names rs) = insert (e_ftn (snd (rs ! m))) S"
      using top_Suc_nth [of "Suc m" "names rs"] True by (simp add: S names_def)
    ultimately show ?thesis
      using assms(1)
      by (simp add: promoteNextAvailableTrack_def case_prod_beta shows_notify shows_set_state)
  next
    case False
    have "find ?P rs = None"
      using P False by (auto simp: find_None_iff S names_def first_n_def)
    moreover have "first_n (Suc m) (names rs) = S"
      using False by (simp add: S first_n_def)
    ultimately show ?thesis
      using assms(1) by (simp add: promoteNextAvailableTrack_def)
  qed
qed

section \<open>One group under each operation\<close>

lemma shows_register:
  assumes "shows_set g n (first_n n M)" and "names (rankedTracks pr) = insert_at r f M"
    and "r \<le> length M" and "distinct M" and "f \<notin> set M" and "maxDeselected pr = 0"
  shows "shows_set (fst (register_in_group pr f r n g)) n (first_n n (names (rankedTracks pr)))"
proof (cases "r < n")
  case True
  let ?rs = "rankedTracks pr"
  let ?g = "fst (notifyTrackSelected ?rs (isPublisher pr) f (set_state f Selected g))"
  have "shows_set ?g n (insert f (first_n n M))"
    using assms(1) by (simp add: shows_notify shows_set_state)
  moreover have "length ?rs = Suc (length M)" using arg_cong [OF assms(2), of length] by simp
  ultimately have "shows_set (fst (demoteTrackAtRank 0 ?rs n ?g)) n (first_n n (names ?rs))"
    unfolding assms(2) top_enter [OF assms(3) True assms(4,5)]
    by (auto dest: shows_demote_at [where rs = ?rs and m = n] simp: assms(2))
  then show ?thesis
    using True assms(6) by (simp add: register_in_group_def case_prod_beta Let_def)
next
  case False
  then show ?thesis
    using assms by (simp add: register_in_group_def case_prod_beta Let_def top_outside)
qed

lemma shows_recompute:
  assumes g: "shows_set g n (first_n n (insert_at i f M))"
    and L: "names (rankedTracks pr) = insert_at r f M"
    and i: "i \<le> length M" and r: "r \<le> length M"
    and M: "distinct M" "f \<notin> set M" and m0: "maxDeselected pr = 0"
  shows "shows_set (fst (recompute_in_group pr f i r n g)) n (first_n n (names (rankedTracks pr)))"
proof -
  let ?rs = "rankedTracks pr"
  have len: "length ?rs = Suc (length M)" using arg_cong [OF L, of length] by simp
  consider (same) "(i < n) = (r < n)" | (enter) "\<not> i < n" "r < n" | (leave) "i < n" "\<not> r < n" by blast
  then show ?thesis
  proof cases
    case same
    have "first_n n (insert_at i f M) = first_n n (insert_at r f M)"
      using same i r by (cases "i < n") (simp_all add: top_inside top_outside)
    then show ?thesis
      using g same by (auto simp: recompute_in_group_def case_prod_beta Let_def L)
  next
    case enter
    have "shows_set g n (first_n n M)" using g enter(1) i by (simp add: top_outside)
    then have "shows_set (removeFromDeselectedQueue f (set_state f Selected g)) n (insert f (first_n n M))"
      by (simp add: shows_set_state)
    then have "shows_set ((removeFromDeselectedQueue f (set_state f Selected g))\<lparr>sessions := ss\<rparr>) n
        (insert f (first_n n M))" for ss
      by simp
    note shows_demote_at [OF this, of ?rs n]
    then have "shows_set (fst (demoteTrackAtRank 0 ?rs n
        ((removeFromDeselectedQueue f (set_state f Selected g))\<lparr>sessions := ss\<rparr>))) n (first_n n (names ?rs))" for ss
      using top_enter [OF r enter(2) M] len by (simp add: L split: if_splits)
    then show ?thesis
      using enter m0 by (simp add: recompute_in_group_def case_prod_beta Let_def)
  next
    case leave
    have bound: "0 < n" "n - 1 < length M" using leave r by auto
    have dem: "shows_set (fst (demoteTrack 0 f g)) n (first_n (n - 1) M)"
      using shows_demote [OF g, of f] top_leave [OF i leave(1) M(2)] by simp
    let ?f = "e_ftn (snd (?rs ! (n - 1)))"
    have f: "?f = M ! (n - 1)"
      using L len bound leave(2) r nth_insert_at [OF r, of f "n - 1"] by (simp add: names_def flip: L)
    have fresh: "?f \<notin> first_n (n - 1) M" unfolding f using bound M(1) by (simp add: top_nth_notin)
    have top: "first_n n (names ?rs) = insert ?f (first_n (n - 1) M)"
      unfolding f L using leave(2) by (simp only: top_outside [OF r] top_Suc_nth [OF bound] not_less)
    let ?h = "\<lambda>ss. (fst (demoteTrack 0 f g))\<lparr>sessions := ss\<rparr>"
    have "map_of (trackStates (?h ss)) ?f \<noteq> Some Selected" for ss
      using shows_state [OF dem, of ?f] fresh by simp
    moreover have "shows_set (removeFromDeselectedQueue ?f (set_state ?f Selected (?h ss))) n
        (first_n n (names ?rs))" for ss
      using dem by (simp add: top shows_set_state)
    ultimately show ?thesis
      using leave bound len m0
      by (simp add: recompute_in_group_def case_prod_beta Let_def shows_notify)
  qed
qed

lemma shows_remove:
  assumes g: "shows_set g n (first_n n (insert_at i f M))" and "i \<le> length M"
    and L: "names (rankedTracks pr) = M" and M: "distinct M" "f \<notin> set M"
  shows "shows_set (fst (remove_in_group pr f n g)) n (first_n n (names (rankedTracks pr)))"
proof (cases "i < n")
  case True
  let ?g = "removeFromDeselectedQueue f (erase_state f g)"
  have st: "map_of (trackStates g) f = Some Selected"
    using True assms(2) by (simp add: shows_state [OF g] top_inside)
  have e: "shows_set ?g n (first_n (n - 1) M)"
    using shows_erase_state [OF g, of f] top_leave [OF assms(2) True M(2)] by simp
  then have "deselectedQueue ?g = []" by (simp add: shows_set_def)
  moreover have "shows_set (fst (promoteNextAvailableTrack (rankedTracks pr) (isPublisher pr) f ?g)) n
      (first_n (Suc (n - 1)) M)"
    using shows_promote [OF e, of "n - 1" "rankedTracks pr"] L M by simp
  ultimately show ?thesis
    using st True L by (simp add: remove_in_group_def Let_def)
next
  case False
  have "f \<notin> first_n n (insert_at i f M)"
    using False assms(2) M(2) top_subset [of n M] by (auto simp: top_outside)
  then have "map_of (trackStates g) f = None" using g by (simp add: shows_set_def)
  then show ?thesis
    using g False assms(2) L by (simp add: remove_in_group_def top_outside)
qed

lemma shows_reconcile:
  "shows_set g n S \<Longrightarrow> shows_set (fst (reconcile_in_group rs s m g)) n S"
  by (simp add: reconcile_in_group_def case_prod_beta Let_def split: option.splits)

section \<open>The index under insertion and removal\<close>

lemma map_of_insert_at:
  assumes "a \<notin> fst ` set M"
  shows "map_of (insert_at r (a, b) M) = (map_of M)(a \<mapsto> b)"
proof -
  have M: "map_of M = map_of (drop r M) ++ map_of (take r M)"
    by (metis append_take_drop_id map_of_append)
  have "a \<notin> dom (map_of (take r M))"
    using assms by (auto simp: dom_map_of_conv_image_fst dest: in_set_takeD)
  then show ?thesis
    by (auto simp: M insert_at_def map_add_def fun_eq_iff split: option.splits)
qed

definition name_keys :: "ranked \<Rightarrow> (full_track_name \<times> rank_key) list" where
  "name_keys rs = map (\<lambda>(k, e). (e_ftn e, k)) rs"

lemma name_keys_fst: "fst ` set (name_keys rs) = set (names rs)"
  by (force simp: name_keys_def names_def)

lemma name_keys_insert_at:
  "e_ftn e \<notin> set (names M) \<Longrightarrow>
     map_of (name_keys (insert_at r (k, e) M)) = (map_of (name_keys M))(e_ftn e \<mapsto> k)"
  using map_of_insert_at [of "e_ftn e" "name_keys M" r k]
  by (simp add: name_keys_fst) (simp add: name_keys_def map_insert_at)

lemma rank_wf_alt:
  "rank_wf pr \<longleftrightarrow>
     desc (rankedTracks pr) \<and> distinct (names (rankedTracks pr)) \<and>
     distinct (map (arrivalSeq \<circ> fst) (rankedTracks pr)) \<and>
     (\<forall>x\<in>set (rankedTracks pr). arrivalSeq (fst x) < nextSeq pr) \<and>
     map_option rankIter \<circ> map_of (trackIndexByName pr) = map_of (name_keys (rankedTracks pr)) \<and>
     (rankCacheValid pr \<longrightarrow> (\<forall>i<length (rankedTracks pr).
        map_option cachedRank (map_of (trackIndexByName pr) (names (rankedTracks pr) ! i)) = Some i))"
  by (simp add: rank_wf_def name_keys_def fun_eq_iff)

lemma index_domain: "rank_wf pr \<Longrightarrow> map_of (trackIndexByName pr) f = None \<longleftrightarrow> f \<notin> set (names (rankedTracks pr))"
proof -
  assume "rank_wf pr"
  then have "map_option rankIter (map_of (trackIndexByName pr) f) = map_of (name_keys (rankedTracks pr)) f"
    by (simp add: rank_wf_alt fun_eq_iff)
  then show ?thesis by (metis map_of_eq_None_iff name_keys_fst option.map_disc_iff)
qed

text \<open>Emplacing a track under a key with an arrival number of its own.\<close>

lemma emplace_facts:
  assumes "desc M" and "arrivalSeq k \<notin> arrivalSeq ` fst ` set M"
  obtains r where "r \<le> length M" and "rank_emplace k e M = insert_at r (k, e) M"
    and "desc (rank_emplace k e M)"
proof -
  have "k \<notin> fst ` set M" using assms(2) by auto
  with rank_emplace_at [of k M e] desc_rank_emplace [OF assms(1)] that show ?thesis by blast
qed

lemma wf_insert_at:
  assumes "desc (insert_at r (k, e) M)" and "e_ftn e \<notin> set (names M)" and "distinct (names M)"
    and "distinct (map (arrivalSeq \<circ> fst) M)" and "arrivalSeq k \<notin> arrivalSeq ` fst ` set M"
    and "\<forall>x\<in>set M. arrivalSeq (fst x) < nextSeq pr" and "arrivalSeq k < nextSeq pr"
    and "map_option rankIter \<circ> map_of (trackIndexByName pr) = (map_of (name_keys M))(e_ftn e \<mapsto> k)"
    and "rankedTracks pr = insert_at r (k, e) M" and "\<not> rankCacheValid pr"
  shows "rank_wf pr"
proof -
  have "names (insert_at r (k, e) M) = insert_at r (e_ftn e) (names M)"
    by (simp add: names_def map_insert_at)
  moreover have "map (arrivalSeq \<circ> fst) (insert_at r (k, e) M) =
      insert_at r (arrivalSeq k) (map (arrivalSeq \<circ> fst) M)"
    by (simp add: map_insert_at)
  ultimately show ?thesis
    using assms by (simp add: rank_wf_alt distinct_insert_at name_keys_insert_at image_comp)
qed

section \<open>The whole ranking\<close>

definition groups_show :: "property_ranking \<Rightarrow> full_track_name list \<Rightarrow> bool" where
  "groups_show pr L \<longleftrightarrow> (\<forall>(n, g)\<in>set (topNGroups pr). shows_set g n (first_n n L))"

definition thresholds_ok :: "property_ranking \<Rightarrow> bool" where
  "thresholds_ok pr \<longleftrightarrow>
     sortedThresholds pr = sort (map fst (topNGroups pr)) \<and>
     (\<forall>n\<in>set (map fst (topNGroups pr)). n \<le> selectionThreshold pr)"

definition sel_inv :: "property_ranking \<Rightarrow> bool" where
  "sel_inv pr \<longleftrightarrow> rank_wf pr \<and> groups_show pr (names (rankedTracks pr)) \<and> thresholds_ok pr \<and>
     distinct (map fst (topNGroups pr)) \<and> maxDeselected pr = 0 \<and> idleTimeout pr = 0 \<and>
     (\<forall>n\<in>set (map fst (topNGroups pr)). n \<le> u64_max)"

lemma groups_show_map:
  assumes "groups_show pr L"
    and "\<And>n g. (n, g) \<in> set (topNGroups pr) \<Longrightarrow> shows_set g n (first_n n L) \<Longrightarrow> shows_set (fst (f n g)) n (first_n n L')"
  shows "groups_show (fst (map_groups f pr)) L'"
  using assms by (fastforce simp: groups_show_def map_groups_def)

lemma map_groups_frame:
  "rankedTracks (fst (map_groups f pr)) = rankedTracks pr"
  "trackIndexByName (fst (map_groups f pr)) = trackIndexByName pr"
  "nextSeq (fst (map_groups f pr)) = nextSeq pr"
  "rankCacheValid (fst (map_groups f pr)) = rankCacheValid pr"
  "maxDeselected (fst (map_groups f pr)) = maxDeselected pr"
  "idleTimeout (fst (map_groups f pr)) = idleTimeout pr"
  "sortedThresholds (fst (map_groups f pr)) = sortedThresholds pr"
  "selectionThreshold (fst (map_groups f pr)) = selectionThreshold pr"
  "map fst (topNGroups (fst (map_groups f pr))) = map fst (topNGroups pr)"
  by (simp_all add: map_groups_def case_prod_beta comp_def)

lemma rank_wf_map_groups [simp]: "rank_wf (fst (map_groups f pr)) = rank_wf pr"
  by (simp add: rank_wf_def map_groups_frame)

lemma rank_wf_topNGroups [simp]: "rank_wf (pr\<lparr>topNGroups := gs\<rparr>) = rank_wf pr"
  by (simp add: rank_wf_def)

lemma rebuild_frame [simp]:
  "rankedTracks (rebuildRankCacheIfNeeded pr) = rankedTracks pr"
  "topNGroups (rebuildRankCacheIfNeeded pr) = topNGroups pr"
  "nextSeq (rebuildRankCacheIfNeeded pr) = nextSeq pr"
  "maxDeselected (rebuildRankCacheIfNeeded pr) = maxDeselected pr"
  "idleTimeout (rebuildRankCacheIfNeeded pr) = idleTimeout pr"
  "sortedThresholds (rebuildRankCacheIfNeeded pr) = sortedThresholds pr"
  "selectionThreshold (rebuildRankCacheIfNeeded pr) = selectionThreshold pr"
  "publisherTrackCount (rebuildRankCacheIfNeeded pr) = publisherTrackCount pr"
  by (simp_all add: rebuildRankCacheIfNeeded_def)

lemma sel_inv_frame:
  assumes "sel_inv pr" and "rank_wf pr'" and "groups_show pr' (names (rankedTracks pr'))"
    and "map fst (topNGroups pr') = map fst (topNGroups pr)"
    and "maxDeselected pr' = maxDeselected pr" and "idleTimeout pr' = idleTimeout pr"
    and "sortedThresholds pr' = sortedThresholds pr" and "selectionThreshold pr' = selectionThreshold pr"
  shows "sel_inv pr'"
  using assms by (simp add: sel_inv_def thresholds_ok_def)

lemma register_inv:
  assumes inv: "sel_inv pr" and room: "nextSeq pr < u64_max"
  shows "sel_inv (fst (registerTrack pr f v p)) \<and> nextSeq (fst (registerTrack pr f v p)) \<le> Suc (nextSeq pr)"
proof (cases "map_of (trackIndexByName pr) f = None")
  case False
  then show ?thesis using inv by (simp add: registerTrack_def)
next
  case True
  let ?M = "rankedTracks pr"
  let ?e = "\<lparr>e_ftn = f, publisherRaw = p\<rparr>"
  let ?k = "RankKey (case v of None \<Rightarrow> 0 | Some x \<Rightarrow> x) (nextSeq pr)"
  have wf: "rank_wf pr" and gs: "groups_show pr (names ?M)" and md: "maxDeselected pr = 0"
    using inv by (auto simp: sel_inv_def)
  have new: "f \<notin> set (names ?M)" using index_domain [OF wf] True by simp
  have seq: "u64_add (nextSeq pr) 1 = Suc (nextSeq pr)"
    using room by (simp add: u64_add_def u64_max_def)
  have old: "arrivalSeq ?k \<notin> arrivalSeq ` fst ` set ?M" using wf by (auto simp: rank_wf_def)
  obtain r where r: "r \<le> length ?M" "rank_emplace ?k ?e ?M = insert_at r (?k, ?e) ?M"
    "desc (rank_emplace ?k ?e ?M)"
    using emplace_facts [OF _ old, of ?e] wf by (auto simp: rank_wf_def)
  define pr2 where "pr2 = updatePublisherExtendedThreshold
     (pr\<lparr>nextSeq := u64_add (nextSeq pr) 1,
         publisherTrackCount := upsert p 0 (\<lambda>c. c + 1) (publisherTrackCount pr)\<rparr>)"
  have fr2: "rankedTracks pr2 = ?M" "trackIndexByName pr2 = trackIndexByName pr"
    "nextSeq pr2 = Suc (nextSeq pr)" "maxDeselected pr2 = 0" "topNGroups pr2 = topNGroups pr"
    "idleTimeout pr2 = idleTimeout pr" "sortedThresholds pr2 = sortedThresholds pr"
    "selectionThreshold pr2 = selectionThreshold pr"
    using md seq by (simp_all add: pr2_def updatePublisherExtendedThreshold_def)
  define pr3 where "pr3 = pr2\<lparr>rankedTracks := rank_emplace ?k ?e (rankedTracks pr2),
      trackIndexByName := upsert f \<lparr>rankIter = ?k, cachedRank = u64_max\<rparr>
        (\<lambda>_. \<lparr>rankIter = ?k, cachedRank = u64_max\<rparr>) (trackIndexByName pr2),
      rankCacheValid := False\<rparr>"
  have wf3: "rank_wf pr3"
  proof (rule wf_insert_at)
    show "desc (insert_at r (?k, ?e) ?M)" using r by simp
    show "map_option rankIter \<circ> map_of (trackIndexByName pr3) = (map_of (name_keys ?M))(e_ftn ?e \<mapsto> ?k)"
      using wf by (simp add: pr3_def fr2 rank_wf_alt map_of_upsert fun_eq_iff)
    show "\<forall>x\<in>set ?M. arrivalSeq (fst x) < nextSeq pr3" "arrivalSeq ?k < nextSeq pr3"
      using wf by (auto simp: pr3_def fr2 rank_wf_def less_SucI)
  qed (use r old new wf in \<open>simp_all add: pr3_def fr2 rank_wf_def\<close>)
  have nm: "names (rankedTracks pr3) = insert_at r f (names ?M)"
    by (simp add: pr3_def fr2 r names_def map_insert_at)
  have rank: "getCachedRank pr3 f = (rebuildRankCacheIfNeeded pr3, r)"
    by (rule getCachedRank_position [OF wf3])
       (use r nm in \<open>simp_all add: pr3_def fr2 nth_insert_at\<close>)
  define pr5 where "pr5 = fst (reconcilePublisherInAllGroups (rebuildRankCacheIfNeeded pr3) p)"
  have fr5: "rankedTracks pr5 = rankedTracks pr3" "maxDeselected pr5 = 0"
    "map fst (topNGroups pr5) = map fst (topNGroups pr)" "nextSeq pr5 = Suc (nextSeq pr)"
    "idleTimeout pr5 = idleTimeout pr" "sortedThresholds pr5 = sortedThresholds pr"
    "selectionThreshold pr5 = selectionThreshold pr"
    by (simp_all add: pr5_def reconcilePublisherInAllGroups_def map_groups_frame pr3_def fr2)
  have wf5: "rank_wf pr5"
    using rebuild_wf(1) [OF wf3]
    by (simp add: pr5_def reconcilePublisherInAllGroups_def)
  have "groups_show (rebuildRankCacheIfNeeded pr3) (names ?M)"
    using gs by (simp add: groups_show_def pr3_def fr2)
  then have gs5: "groups_show pr5 (names ?M)"
    unfolding pr5_def reconcilePublisherInAllGroups_def by (rule groups_show_map) (rule shows_reconcile)
  let ?pr6 = "fst (map_groups (register_in_group pr5 f r) pr5)"
  have gs6: "groups_show ?pr6 (names (rankedTracks pr3))"
    using groups_show_map [OF gs5, of "register_in_group pr5 f r" "names (rankedTracks pr3)"]
      shows_register [of _ _ "names ?M" pr5 r f] nm r new wf fr5 by (simp add: rank_wf_def)
  have "fst (registerTrack pr f v p) = ?pr6"
    unfolding registerTrack_def Let_def pr2_def [symmetric] pr3_def [symmetric] rank case_prod_beta
    using True by (simp add: pr5_def)
  moreover have "sel_inv ?pr6"
    by (rule sel_inv_frame [OF inv])
       (use gs6 wf5 fr5 md in \<open>simp_all add: map_groups_frame\<close>)
  ultimately show ?thesis using fr5 by (simp add: map_groups_frame)
qed

text \<open>A move that crosses no threshold leaves every group's membership as it was.\<close>

lemma find_sorted_above:
  assumes "sorted xs" and "n \<in> set xs" and "m < n"
  shows "\<exists>x. find (\<lambda>x. m < x) xs = Some x \<and> x \<le> (n :: nat)"
  using assms by (induction xs) auto

lemma crosses_sound:
  assumes th: "thresholds_ok pr" and no: "\<not> crossesThreshold pr i r" and n: "(n, g) \<in> set (topNGroups pr)"
  shows "(i < n) = (r < n)"
proof (rule ccontr)
  assume diff: "(i < n) \<noteq> (r < n)"
  have mem: "n \<in> set (sortedThresholds pr)" "n \<le> selectionThreshold pr"
    using th n by (force simp: thresholds_ok_def)+
  have lt: "min i r < n" "n \<le> max i r" using diff by auto
  obtain x where x: "find (\<lambda>x. min i r < x) (sortedThresholds pr) = Some x" "x \<le> n"
    using find_sorted_above [OF _ mem(1) lt(1)] th by (auto simp: thresholds_ok_def)
  have "topNGroups pr \<noteq> []" using n by auto
  moreover have "\<not> (max (selectionThreshold pr) (publisherExtendedThreshold pr) \<le> i \<and>
      max (selectionThreshold pr) (publisherExtendedThreshold pr) \<le> r)"
    using mem(2) diff by linarith
  moreover have "x \<le> max i r" using x(2) lt(2) by linarith
  ultimately have "crossesThreshold pr i r"
    unfolding crossesThreshold_def Let_def x(1) by auto
  with no show False by simp
qed

text \<open>The ranking after a track has moved from one position to another.\<close>

lemma map_of_rekey:
  "map_of (map (\<lambda>(h, i). (h, if h = f then i\<lparr>rankIter := k\<rparr> else i)) al) g =
     (if g = f then map_option (\<lambda>i. i\<lparr>rankIter := k\<rparr>) (map_of al g) else map_of al g)"
  by (induction al) auto

lemma map_of_at: "\<lbrakk>desc rs; i < length rs\<rbrakk> \<Longrightarrow> map_of rs (fst (rs ! i)) = Some (snd (rs ! i))"
  by (rule map_of_is_SomeI) (simp_all add: desc_distinct)

lemma erase_facts:
  assumes "rank_wf pr" and "i < length (rankedTracks pr)" and "f = names (rankedTracks pr) ! i"
    and "k = fst (rankedTracks pr ! i)" and "M = rank_erase k (rankedTracks pr)"
  shows "desc M" and "distinct (names M)" and "f \<notin> set (names M)" and "i \<le> length M"
    and "names (rankedTracks pr) = insert_at i f (names M)"
    and "distinct (map (arrivalSeq \<circ> fst) M)" and "arrivalSeq k \<notin> arrivalSeq ` fst ` set M"
    and "\<forall>x\<in>set M. arrivalSeq (fst x) < nextSeq pr"
    and "map_of (name_keys (rankedTracks pr)) = (map_of (name_keys M))(f \<mapsto> k)"
proof -
  let ?rs = "rankedTracks pr"
  have rs: "?rs = insert_at i (?rs ! i) M"
    using rank_erase_at [OF _ assms(2,4)] assms(1,5) by (simp add: rank_wf_def)
  have f: "f = e_ftn (snd (?rs ! i))" using assms(2,3) by (simp add: names_def)
  show "desc M" using assms(1,5) by (simp add: rank_wf_def desc_rank_erase)
  show nm: "names ?rs = insert_at i f (names M)"
    by (subst rs) (simp add: names_def map_insert_at f)
  then have "distinct (insert_at i f (names M))" using assms(1) by (simp add: rank_wf_def)
  then show d: "distinct (names M)" "f \<notin> set (names M)" by (simp_all add: distinct_insert_at)
  show "i \<le> length M" using arg_cong [OF rs, of length] assms(2) by simp
  have "distinct (map (arrivalSeq \<circ> fst) (insert_at i (?rs ! i) M))"
    using assms(1) rs by (simp add: rank_wf_def)
  then show "distinct (map (arrivalSeq \<circ> fst) M)" "arrivalSeq k \<notin> arrivalSeq ` fst ` set M"
    using assms(4) by (auto simp: map_insert_at distinct_insert_at)
  have "set M \<subseteq> set ?rs" using assms(5) by (auto simp: rank_erase_def)
  then show "\<forall>x\<in>set M. arrivalSeq (fst x) < nextSeq pr" using assms(1) by (auto simp: rank_wf_def)
  have "map_of (name_keys (insert_at i (k, snd (?rs ! i)) M)) = (map_of (name_keys M))(f \<mapsto> k)"
    using name_keys_insert_at [of "snd (?rs ! i)" M i k] d(2) f by simp
  then show "map_of (name_keys ?rs) = (map_of (name_keys M))(f \<mapsto> k)"
    using rs assms(4) by simp
qed

lemma recompute_groups:
  assumes "groups_show pr (insert_at i f M)" and "names (rankedTracks pr) = insert_at r f M"
    and "i \<le> length M" and "r \<le> length M" and "distinct M" and "f \<notin> set M" and "maxDeselected pr = 0"
  shows "groups_show (fst (recomputeTopNGroups pr f i r)) (insert_at r f M)"
  unfolding recomputeTopNGroups_def
  by (rule groups_show_map [OF assms(1)])
     (use shows_recompute [OF _ assms(2-7)] in \<open>simp add: assms(2)\<close>)

lemma no_cross_groups:
  assumes "groups_show pr (insert_at i f M)" and "thresholds_ok pr" and "\<not> crossesThreshold pr i r"
    and "i \<le> length M" and "r \<le> length M"
  shows "groups_show pr (insert_at r f M)"
  unfolding groups_show_def
proof (clarify)
  fix n g
  assume n: "(n, g) \<in> set (topNGroups pr)"
  have "first_n n (insert_at i f M) = first_n n (insert_at r f M)"
    using crosses_sound [OF assms(2,3) n] assms(4,5)
    by (cases "i < n") (simp_all add: top_inside top_outside)
  then show "shows_set g n (first_n n (insert_at r f M))"
    using assms(1) n by (auto simp: groups_show_def)
qed

lemma thresholds_rebuild [simp]: "thresholds_ok (rebuildRankCacheIfNeeded pr) = thresholds_ok pr"
  by (simp add: thresholds_ok_def)

lemma groups_rebuild [simp]: "groups_show (rebuildRankCacheIfNeeded pr) L = groups_show pr L"
  by (simp add: groups_show_def)

lemma sel_inv_rebuild: "sel_inv pr \<Longrightarrow> sel_inv (rebuildRankCacheIfNeeded pr)"
  using rebuild_wf(1) by (simp add: sel_inv_def)

lemma move_track:
  assumes inv: "sel_inv pr" and i: "i < length (rankedTracks pr)" and f: "f = names (rankedTracks pr) ! i"
    and k: "k = fst (rankedTracks pr ! i)"
    and pr': "pr' = pr\<lparr>rankedTracks := rank_emplace (RankKey v (arrivalSeq k)) (snd (rankedTracks pr ! i))
         (rank_erase k (rankedTracks pr)),
       trackIndexByName := map (\<lambda>(h, x). (h, if h = f then x\<lparr>rankIter := RankKey v (arrivalSeq k)\<rparr> else x))
         (trackIndexByName pr),
       rankCacheValid := False\<rparr>"
  obtains r M where "rank_wf pr'" and "getCachedRank pr' f = (rebuildRankCacheIfNeeded pr', r)"
    and "r \<le> length M" and "i \<le> length M" and "distinct M" and "f \<notin> set M"
    and "names (rankedTracks pr') = insert_at r f M" and "groups_show pr' (insert_at i f M)"
proof -
  let ?k = "RankKey v (arrivalSeq k)" and ?e = "snd (rankedTracks pr ! i)"
  define M where "M = rank_erase k (rankedTracks pr)"
  have wf: "rank_wf pr" using inv by (simp add: sel_inv_def)
  note M = erase_facts [OF wf i f k M_def]
  have e: "e_ftn ?e = f" using i by (simp add: f names_def)
  obtain r where r: "r \<le> length M" "rank_emplace ?k ?e M = insert_at r (?k, ?e) M"
    "desc (rank_emplace ?k ?e M)"
    using emplace_facts [OF M(1), of ?k ?e] M(7) by auto
  have rs': "rankedTracks pr' = insert_at r (?k, ?e) M" by (simp add: pr' r flip: M_def)
  have nm: "names (rankedTracks pr') = insert_at r f (names M)"
    by (simp add: rs' names_def map_insert_at flip: e)
  have lt: "arrivalSeq k < nextSeq pr" using wf i k by (simp add: rank_wf_def)
  have wf': "rank_wf pr'"
  proof (rule wf_insert_at)
    show "desc (insert_at r (?k, ?e) M)" using r by simp
    obtain x where "map_of (trackIndexByName pr) f = Some x"
      using index_entry [OF wf i] f by auto
    then show "map_option rankIter \<circ> map_of (trackIndexByName pr') = (map_of (name_keys M))(e_ftn ?e \<mapsto> ?k)"
      using wf M(9) by (auto simp: pr' e rank_wf_alt map_of_rekey fun_eq_iff)
  qed (use M lt e rs' in \<open>simp_all add: pr'\<close>)
  have "getCachedRank pr' f = (rebuildRankCacheIfNeeded pr', r)"
    by (rule getCachedRank_position [OF wf']) (use r nm rs' in \<open>simp_all add: nth_insert_at\<close>)
  moreover have "groups_show pr' (insert_at i f (names M))"
    using inv M(5) by (simp add: sel_inv_def groups_show_def pr')
  ultimately show ?thesis
    using that [of r "names M"] wf' r(1) M(2,3,4) nm by simp
qed

lemma update_inv:
  assumes inv: "sel_inv pr"
  shows "sel_inv (fst (updateSortValue pr f v act now)) \<and> nextSeq (fst (updateSortValue pr f v act now)) = nextSeq pr"
proof (cases "map_of (trackIndexByName pr) f")
  case None
  then show ?thesis using inv by (simp add: updateSortValue_def)
next
  case (Some idx)
  have wf: "rank_wf pr" using inv by (simp add: sel_inv_def)
  obtain i where i: "i < length (rankedTracks pr)" "f = names (rankedTracks pr) ! i"
    "rankIter idx = fst (rankedTracks pr ! i)"
    using index_position [OF wf Some] by auto
  show ?thesis
  proof (cases "rk_value (rankIter idx) = v")
    case True
    then show ?thesis using inv Some by (simp add: updateSortValue_def)
  next
    case False
    define pr1 where "pr1 = rebuildRankCacheIfNeeded pr"
    have rs: "rankedTracks pr1 = rankedTracks pr" by (simp add: pr1_def)
    have inv1: "sel_inv pr1" using inv by (simp add: pr1_def sel_inv_rebuild)
    let ?k = "RankKey v (arrivalSeq (rankIter idx))"
    define pr2 where "pr2 = pr1\<lparr>rankedTracks := rank_emplace ?k (snd (rankedTracks pr ! i))
         (rank_erase (rankIter idx) (rankedTracks pr1)),
       trackIndexByName := map (\<lambda>(h, x). (h, if h = f then x\<lparr>rankIter := ?k\<rparr> else x)) (trackIndexByName pr1),
       rankCacheValid := False\<rparr>"
    obtain r M where m: "rank_wf pr2" "getCachedRank pr2 f = (rebuildRankCacheIfNeeded pr2, r)"
      "r \<le> length M" "i \<le> length M" "distinct M" "f \<notin> set M"
      "names (rankedTracks pr2) = insert_at r f M" "groups_show pr2 (insert_at i f M)"
      using move_track [OF inv1, of i f "rankIter idx" pr2 v] i by (auto simp: rs pr2_def)
    let ?pr3 = "rebuildRankCacheIfNeeded pr2"
    let ?pr4 = "fst (recomputeTopNGroups ?pr3 f i r)"
    have fr: "topNGroups pr2 = topNGroups pr" "maxDeselected pr2 = maxDeselected pr"
      "idleTimeout pr2 = idleTimeout pr" "sortedThresholds pr2 = sortedThresholds pr"
      "selectionThreshold pr2 = selectionThreshold pr" "nextSeq pr2 = nextSeq pr"
      by (simp_all add: pr2_def pr1_def)
    have th: "thresholds_ok pr2" "maxDeselected pr2 = 0" "idleTimeout pr2 = 0"
      using inv by (auto simp: sel_inv_def thresholds_ok_def fr)
    have ent: "map_of (rankedTracks pr1) (rankIter idx) = Some (snd (rankedTracks pr ! i))"
      using map_of_at [of "rankedTracks pr" i] wf i by (simp add: rs rank_wf_def)
    have run: "updateSortValue pr f v act now =
      (if \<not> crossesThreshold ?pr3 i r then (?pr3, [])
       else let (pr4, evs4) = recomputeTopNGroups ?pr3 f i r; (pr5, evs5) = sweepIdle pr4 act now
            in (pr5, evs4 @ evs5))"
      using Some False getCachedRank_position [OF wf i(1) i(2) [symmetric]] ent m(2)
      by (simp add: updateSortValue_def Let_def flip: pr1_def) (simp add: pr2_def)
    have sw: "sweepIdle ?pr4 act now = (?pr4, [])"
      using th by (simp add: sweepIdle_def recomputeTopNGroups_def map_groups_frame)
    show ?thesis
    proof (cases "crossesThreshold ?pr3 i r")
      case True
      have res: "fst (updateSortValue pr f v act now) = ?pr4"
        using True sw by (simp add: run case_prod_beta Let_def)
      have "groups_show ?pr4 (names (rankedTracks pr2))"
        using recompute_groups [of ?pr3 i f M r] m th by simp
      then have "sel_inv ?pr4"
        by (intro sel_inv_frame [OF inv])
           (use rebuild_wf(1) [OF m(1)] fr in \<open>simp_all add: recomputeTopNGroups_def map_groups_frame\<close>)
      then show ?thesis using res fr by (simp add: recomputeTopNGroups_def map_groups_frame)
    next
      case False
      have res: "fst (updateSortValue pr f v act now) = ?pr3" using False by (simp add: run)
      have "groups_show ?pr3 (names (rankedTracks pr2))"
        using no_cross_groups [of ?pr3 i f M r] m th False by simp
      then have "sel_inv ?pr3"
        by (intro sel_inv_frame [OF inv]) (use rebuild_wf(1) [OF m(1)] fr in simp_all)
      then show ?thesis using res fr by simp
    qed
  qed
qed

lemma remove_inv:
  assumes inv: "sel_inv pr"
  shows "sel_inv (fst (removeTrack pr f)) \<and> nextSeq (fst (removeTrack pr f)) = nextSeq pr"
proof (cases "map_of (trackIndexByName pr) f")
  case None
  then show ?thesis using inv by (simp add: removeTrack_def)
next
  case (Some idx)
  define pr1 where "pr1 = rebuildRankCacheIfNeeded pr"
  have inv1: "sel_inv pr1" and wf1: "rank_wf pr1"
    using sel_inv_rebuild [OF inv] by (auto simp: pr1_def sel_inv_def)
  obtain i where i: "i < length (rankedTracks pr1)" "f = names (rankedTracks pr1) ! i"
    "rankIter idx = fst (rankedTracks pr1 ! i)"
    using index_position [OF _ Some] inv by (auto simp: sel_inv_def pr1_def)
  define pr2 where "pr2 = (case map_of (rankedTracks pr1) (rankIter idx) of None \<Rightarrow> pr1
     | Some e \<Rightarrow> (case map_of (publisherTrackCount pr1) (publisherRaw e) of None \<Rightarrow> pr1
         | Some c \<Rightarrow> updatePublisherExtendedThreshold (pr1\<lparr>publisherTrackCount :=
             (if c - 1 = 0 then filter (\<lambda>(s, _). s \<noteq> publisherRaw e) (publisherTrackCount pr1)
              else map (\<lambda>(s, k). (s, if s = publisherRaw e then k - 1 else k)) (publisherTrackCount pr1))\<rparr>)))"
  have fr: "rankedTracks pr2 = rankedTracks pr1" "trackIndexByName pr2 = trackIndexByName pr1"
    "nextSeq pr2 = nextSeq pr1" "maxDeselected pr2 = maxDeselected pr1" "topNGroups pr2 = topNGroups pr1"
    "idleTimeout pr2 = idleTimeout pr1" "sortedThresholds pr2 = sortedThresholds pr1"
    "selectionThreshold pr2 = selectionThreshold pr1"
    by (auto simp: pr2_def updatePublisherExtendedThreshold_def split: option.splits)
  define pr3 where "pr3 = pr2\<lparr>rankedTracks := rank_erase (rankIter idx) (rankedTracks pr2),
      trackIndexByName := filter (\<lambda>(g, _). g \<noteq> f) (trackIndexByName pr2), rankCacheValid := False\<rparr>"
  define M where "M = rank_erase (rankIter idx) (rankedTracks pr1)"
  note M = erase_facts [OF wf1 i M_def]
  have rs: "rankedTracks pr3 = M" by (simp add: pr3_def M_def fr)
  have "map_option rankIter \<circ> map_of (trackIndexByName pr3) = (map_of (name_keys M))"
  proof
    fix g
    have "map_of (name_keys M) f = None"
      using M(3) by (simp add: map_of_eq_None_iff name_keys_fst)
    moreover have "map_option rankIter (map_of (trackIndexByName pr1) g) = map_of (name_keys (rankedTracks pr1)) g"
      using wf1 by (simp add: rank_wf_alt fun_eq_iff)
    ultimately show "(map_option rankIter \<circ> map_of (trackIndexByName pr3)) g = map_of (name_keys M) g"
      using M(9) by (simp add: pr3_def fr map_of_filter_neq)
  qed
  then have wf3: "rank_wf pr3"
    using M by (simp add: rank_wf_alt rs) (simp add: pr3_def fr)
  have "groups_show pr3 (insert_at i f (names M))"
    using inv1 M(5) by (simp add: sel_inv_def groups_show_def pr3_def fr)
  then have gs: "groups_show (fst (map_groups (remove_in_group pr3 f) pr3)) (names M)"
    by (rule groups_show_map) (use shows_remove [OF _ _ _ M(2,3)] M(4) rs in simp)
  have res: "fst (removeTrack pr f) = fst (map_groups (remove_in_group pr3 f) pr3)"
    unfolding removeTrack_def Some option.case getCachedRank_def Let_def case_prod_conv
      pr1_def [symmetric] pr2_def [symmetric] pr3_def [symmetric] ..
  have "sel_inv (fst (map_groups (remove_in_group pr3 f) pr3))"
    by (rule sel_inv_frame [OF inv1])
       (use wf3 gs rs fr in \<open>simp_all add: map_groups_frame pr3_def\<close>)
  then show ?thesis
    unfolding res using fr by (simp add: map_groups_frame pr3_def pr1_def)
qed

lemma fold_max_ge: "n \<in> set xs \<Longrightarrow> (n :: nat) \<le> fold max xs b"
proof -
  assume "n \<in> set xs"
  then have "n \<le> Max (set (b # xs))" by (intro Max_ge) auto
  then show ?thesis by (simp only: Max.set_eq_fold)
qed

lemma fold_max_le: "\<lbrakk>\<forall>x\<in>set xs. x \<le> m; b \<le> m\<rbrakk> \<Longrightarrow> fold max xs b \<le> (m :: nat)"
  by (induction xs arbitrary: b) auto

lemma thresholds_updated:
  assumes "\<forall>n\<in>set (map fst (topNGroups pr)). n \<le> u64_max" and "maxDeselected pr = 0"
  shows "thresholds_ok (updateSelectionThreshold pr)"
proof -
  have "fold max (map fst (topNGroups pr)) 0 \<le> u64_max"
    using assms(1) by (intro fold_max_le) auto
  then show ?thesis
    using assms(2)
    by (simp add: thresholds_ok_def updateSelectionThreshold_def u64_add_exact) (force intro!: fold_max_ge)
qed

lemma updateSelectionThreshold_frame:
  "rank_wf (updateSelectionThreshold pr) = rank_wf pr"
  "topNGroups (updateSelectionThreshold pr) = topNGroups pr"
  "rankedTracks (updateSelectionThreshold pr) = rankedTracks pr"
  "groups_show (updateSelectionThreshold pr) L = groups_show pr L"
  "maxDeselected (updateSelectionThreshold pr) = maxDeselected pr"
  "idleTimeout (updateSelectionThreshold pr) = idleTimeout pr"
  "nextSeq (updateSelectionThreshold pr) = nextSeq pr"
  by (simp_all add: updateSelectionThreshold_def rank_wf_def groups_show_def)

lemma updatePublisher_inv:
  "sel_inv (updatePublisherExtendedThreshold pr) = sel_inv pr"
  "nextSeq (updatePublisherExtendedThreshold pr) = nextSeq pr"
  by (simp_all add: updatePublisherExtendedThreshold_def sel_inv_def rank_wf_def groups_show_def thresholds_ok_def)

lemma new_group_shows:
  assumes "distinct (names rs)"
  shows "shows_set (empty_group\<lparr>g_maxSelected := n,
     trackStates := map (\<lambda>(k, e). (e_ftn e, Selected)) (take n rs)\<rparr>) n (first_n n (names rs))"
proof -
  have "map_of (map (\<lambda>(k, e). (e_ftn e, Selected)) ys) f = (if f \<in> set (names ys) then Some Selected else None)"
    for ys :: ranked and f
    by (induction ys) (auto simp: names_def)
  moreover have "set (names (take n rs)) = first_n n (names rs)" by (simp add: first_n_def names_def take_map)
  ultimately show ?thesis by (simp add: shows_set_def empty_group_def fun_eq_iff)
qed

lemma getOrCreate_inv:
  assumes inv: "sel_inv pr" and n: "n \<le> u64_max"
  shows "sel_inv (getOrCreateTopNGroup pr n)" and "nextSeq (getOrCreateTopNGroup pr n) = nextSeq pr"
proof -
  let ?g = "empty_group\<lparr>g_maxSelected := n,
      trackStates := map (\<lambda>(k, e). (e_ftn e, Selected)) (take n (rankedTracks pr))\<rparr>"
  let ?pr = "pr\<lparr>topNGroups := topNGroups pr @ [(n, ?g)]\<rparr>"
  have "sel_inv (updateSelectionThreshold ?pr)" if new: "map_of (topNGroups pr) n = None"
  proof -
    have "groups_show ?pr (names (rankedTracks pr))"
      using inv new_group_shows [of "rankedTracks pr" n] by (auto simp: sel_inv_def groups_show_def rank_wf_def)
    moreover have "n \<notin> set (map fst (topNGroups pr))" using new by (simp add: map_of_eq_None_iff)
    ultimately show ?thesis
      using inv n thresholds_updated [of ?pr]
      by (auto simp: sel_inv_def updateSelectionThreshold_frame)
  qed
  then show "sel_inv (getOrCreateTopNGroup pr n)"
    using inv by (simp add: getOrCreateTopNGroup_def Let_def)
  show "nextSeq (getOrCreateTopNGroup pr n) = nextSeq pr"
    by (simp add: getOrCreateTopNGroup_def Let_def updateSelectionThreshold_frame)
qed

lemma set_group_inv:
  assumes "sel_inv pr" and "map_of (topNGroups pr) n = Some g"
    and "g' = g\<lparr>sessions := ss\<rparr>"
  shows "sel_inv (set_group n g' pr)" and "nextSeq (set_group n g' pr) = nextSeq pr"
    and "map_of (topNGroups (set_group n g' pr)) n = Some g'"
proof -
  have "(n, g) \<in> set (topNGroups pr)" using assms(2) by (rule map_of_SomeD)
  then have "shows_set g n (first_n n (names (rankedTracks pr)))"
    using assms(1) by (auto simp: sel_inv_def groups_show_def)
  then have g': "shows_set g' n (first_n n (names (rankedTracks pr)))" by (simp add: assms(3))
  show "sel_inv (set_group n g' pr)"
    by (rule sel_inv_frame [OF assms(1)])
       (use assms(1) g' in \<open>auto simp: set_group_def case_prod_beta comp_def sel_inv_def rank_wf_def groups_show_def\<close>)
  show "nextSeq (set_group n g' pr) = nextSeq pr" by (simp add: set_group_def)
  have "map_of (map (\<lambda>(m, h). (m, if m = n then g' else h)) al) n = map_option (\<lambda>_. g') (map_of al n)" for al
    by (induction al) auto
  then show "map_of (topNGroups (set_group n g' pr)) n = Some g'"
    using assms(2) by (simp add: set_group_def)
qed

lemma addSession_inv:
  assumes inv: "sel_inv pr" and n: "n \<le> u64_max"
  shows "sel_inv (fst (addSessionToTopNGroup pr n s fwd)) \<and>
     nextSeq (fst (addSessionToTopNGroup pr n s fwd)) = nextSeq pr"
proof -
  define pr1 where "pr1 = getOrCreateTopNGroup pr n"
  have inv1: "sel_inv pr1" "nextSeq pr1 = nextSeq pr"
    using getOrCreate_inv [OF inv n] by (simp_all add: pr1_def)
  show ?thesis
  proof (cases "map_of (topNGroups pr1) n")
    case None
    then show ?thesis using inv1 by (simp add: addSessionToTopNGroup_def Let_def flip: pr1_def)
  next
    case (Some g)
    define g1 where "g1 = g\<lparr>sessions := upsert s (new_session_info fwd) (\<lambda>_. new_session_info fwd) (sessions g)\<rparr>"
    define pr2 where "pr2 = set_group n g1 pr1"
    note s2 = set_group_inv [OF inv1(1) Some g1_def, folded pr2_def]
    let ?pr3 = "updatePublisherExtendedThreshold pr2"
    have inv3: "sel_inv ?pr3" using s2(1) by (simp add: updatePublisher_inv)
    have g3: "map_of (topNGroups ?pr3) n = Some g1"
      using s2(3) by (simp add: updatePublisherExtendedThreshold_def)
    have "sel_inv (set_group n (g1\<lparr>sessions := ss\<rparr>) ?pr3) \<and>
        nextSeq (set_group n (g1\<lparr>sessions := ss\<rparr>) ?pr3) = nextSeq pr" for ss
      using set_group_inv(1,2) [OF inv3 g3 refl, of ss] s2(2) inv1(2) by (simp add: updatePublisher_inv)
    then show ?thesis
      using s2 inv1(2) Some
      by (simp add: addSessionToTopNGroup_def Let_def case_prod_beta flip: pr1_def g1_def pr2_def)
  qed
qed

lemma removeGroup_inv:
  assumes "sel_inv pr"
  shows "sel_inv (removeTopNGroup pr n)" and "nextSeq (removeTopNGroup pr n) = nextSeq pr"
proof -
  let ?pr = "pr\<lparr>topNGroups := filter (\<lambda>(m, _). m \<noteq> n) (topNGroups pr)\<rparr>"
  have "distinct (map fst (topNGroups ?pr))"
    using assms by (simp add: sel_inv_def distinct_map_filter)
  moreover have "groups_show ?pr (names (rankedTracks pr))"
    using assms by (auto simp: sel_inv_def groups_show_def)
  ultimately show "sel_inv (removeTopNGroup pr n)"
    using assms thresholds_updated [of ?pr]
    by (auto simp: sel_inv_def removeTopNGroup_def updateSelectionThreshold_frame)
  show "nextSeq (removeTopNGroup pr n) = nextSeq pr"
    by (simp add: removeTopNGroup_def updateSelectionThreshold_frame)
qed

lemma removeSession_inv:
  assumes "sel_inv pr"
  shows "sel_inv (removeSessionFromTopNGroup pr n s) \<and> nextSeq (removeSessionFromTopNGroup pr n s) = nextSeq pr"
proof (cases "map_of (topNGroups pr) n")
  case None
  then show ?thesis using assms by (simp add: removeSessionFromTopNGroup_def)
next
  case (Some g)
  note s = set_group_inv [OF assms Some refl]
  show ?thesis
    using Some s removeGroup_inv [OF s(1)]
    by (simp add: removeSessionFromTopNGroup_def Let_def updatePublisher_inv)
qed

lemma updateForward_inv:
  assumes "sel_inv pr"
  shows "sel_inv (updateSessionForward pr n s fwd) \<and> nextSeq (updateSessionForward pr n s fwd) = nextSeq pr"
proof (cases "map_of (topNGroups pr) n")
  case None
  then show ?thesis using assms by (simp add: updateSessionForward_def)
next
  case (Some g)
  show ?thesis
    using Some assms set_group_inv [OF assms Some refl] by (simp add: updateSessionForward_def)
qed

section \<open>Histories\<close>

datatype rank_op =
  Register full_track_name "u64 option" session
| UpdateValue full_track_name u64
| Remove full_track_name
| AddSession u64 session bool
| RemoveSession u64 session
| UpdateForward u64 session bool

fun rank_step :: "(full_track_name \<Rightarrow> int) \<Rightarrow> int \<Rightarrow> rank_op \<Rightarrow> property_ranking \<Rightarrow> property_ranking \<times> rank_event list" where
  "rank_step act now (Register f v p) pr = registerTrack pr f v p"
| "rank_step act now (UpdateValue f v) pr = updateSortValue pr f v act now"
| "rank_step act now (Remove f) pr = removeTrack pr f"
| "rank_step act now (AddSession n s fwd) pr = addSessionToTopNGroup pr n s fwd"
| "rank_step act now (RemoveSession n s) pr = (removeSessionFromTopNGroup pr n s, [])"
| "rank_step act now (UpdateForward n s fwd) pr = (updateSessionForward pr n s fwd, [])"

fun rank_run :: "(full_track_name \<Rightarrow> int) \<Rightarrow> int \<Rightarrow> rank_op list \<Rightarrow> property_ranking \<Rightarrow> property_ranking" where
  "rank_run act now [] pr = pr"
| "rank_run act now (op # ops) pr = rank_run act now ops (fst (rank_step act now op pr))"

fun op_in_range :: "rank_op \<Rightarrow> bool" where
  "op_in_range (AddSession n s fwd) \<longleftrightarrow> n \<le> u64_max"
| "op_in_range _ \<longleftrightarrow> True"

lemma rank_step_inv:
  assumes "sel_inv pr" and "op_in_range op" and "nextSeq pr < u64_max"
  shows "sel_inv (fst (rank_step act now op pr)) \<and> nextSeq (fst (rank_step act now op pr)) \<le> Suc (nextSeq pr)"
  using assms
  by (cases op) (simp_all add: register_inv update_inv remove_inv addSession_inv removeSession_inv updateForward_inv)

lemma rank_run_inv:
  "\<lbrakk>sel_inv pr; list_all op_in_range ops; nextSeq pr + length ops \<le> u64_max\<rbrakk> \<Longrightarrow>
     sel_inv (rank_run act now ops pr)"
proof (induction ops arbitrary: pr)
  case Nil
  then show ?case by simp
next
  case (Cons op ops)
  let ?pr = "fst (rank_step act now op pr)"
  have "sel_inv ?pr \<and> nextSeq ?pr \<le> Suc (nextSeq pr)"
    using Cons.prems by (intro rank_step_inv) auto
  then show ?case using Cons.IH [of ?pr] Cons.prems by auto
qed

lemma new_ranking_inv: "sel_inv (new_ranking 0 0 throttle)"
  by (simp add: sel_inv_def new_ranking_def rank_wf_def desc_def names_def groups_show_def thresholds_ok_def)

section \<open>The personal selection of a publisher\<close>

definition foreign :: "session \<Rightarrow> ranked \<Rightarrow> ranked" where
  "foreign s rs = filter (\<lambda>(k, e). publisherRaw e \<noteq> s) rs"

lemma waterline_foreign:
  "c < n \<Longrightarrow> waterline_loop s n c rs =
     (if n - c \<le> length (foreign s rs) then Some (fst (foreign s rs ! (n - c - 1))) else None)"
proof (induction rs arbitrary: c)
  case Nil
  then show ?case by (simp add: foreign_def)
next
  case (Cons x rs)
  obtain k e where x: "x = (k, e)" by fastforce
  show ?case
  proof (cases "publisherRaw e = s")
    case True
    then show ?thesis using Cons by (simp add: x foreign_def)
  next
    case False
    show ?thesis
    proof (cases "Suc c = n")
      case True
      then show ?thesis using False by (auto simp: x foreign_def)
    next
      case neq: False
      then have "n - c - 1 = Suc (n - Suc c - 1)" using Cons.prems by linarith
      then show ?thesis
        using Cons.IH [of "Suc c"] Cons.prems False neq by (auto simp: x foreign_def)
    qed
  qed
qed

lemma desc_above: "\<lbrakk>desc rs; i < length rs\<rbrakk> \<Longrightarrow> filter (\<lambda>(k, e). k \<ge> fst (rs ! i)) rs = take (Suc i) rs"
proof (induction rs arbitrary: i)
  case Nil
  then show ?case by simp
next
  case (Cons x rs)
  have rs: "desc rs" "\<forall>y\<in>set rs. fst y < fst x" using Cons.prems(1) by (auto simp: desc_def)
  show ?case
  proof (cases i)
    case 0
    have "filter (\<lambda>(k, e). k \<ge> fst x) rs = []" using rs(2) by (force simp: filter_empty_conv)
    with 0 show ?thesis by (cases x) simp
  next
    case (Suc j)
    then show ?thesis using Cons.IH [OF rs(1), of j] Cons.prems(2) rs(2) by (auto simp: less_imp_le)
  qed
qed

lemma desc_strictly_above:
  "\<lbrakk>desc rs; i < length rs\<rbrakk> \<Longrightarrow> length (filter (\<lambda>(k, e). k > fst (rs ! i)) rs) = i"
proof (induction rs arbitrary: i)
  case Nil
  then show ?case by simp
next
  case (Cons x rs)
  have rs: "desc rs" "\<forall>y\<in>set rs. fst y < fst x" using Cons.prems(1) by (auto simp: desc_def)
  show ?case
  proof (cases i)
    case 0
    have "filter (\<lambda>(k, e). k > fst x) rs = []" using rs(2) by (force simp: filter_empty_conv)
    with 0 show ?thesis by (cases x) simp
  next
    case (Suc j)
    then show ?thesis using Cons.IH [OF rs(1), of j] Cons.prems(2) rs(2) by auto
  qed
qed

lemma reconcile_selects:
  assumes "desc rs" and "0 < n"
  shows "selectedTracks (fst (reconcilePublisherSelection rs info n s)) = names (take n (foreign s rs))"
proof -
  let ?F = "foreign s rs"
  let ?w = "computeWaterlineKey rs s n"
  have F: "desc ?F" using assms(1) by (simp add: desc_def foreign_def sorted_wrt_filter)
  have "filter (\<lambda>(k, e). publisherRaw e \<noteq> s \<and> (case ?w of None \<Rightarrow> True | Some wk \<Rightarrow> k \<ge> wk)) rs =
      filter (\<lambda>(k, e). case ?w of None \<Rightarrow> True | Some wk \<Rightarrow> k \<ge> wk) ?F"
    unfolding foreign_def filter_filter by (rule filter_cong) auto
  also have "\<dots> = take n ?F"
  proof (cases "n \<le> length ?F")
    case True
    then show ?thesis
      using desc_above [OF F, of "n - 1"] assms(2) by (simp add: computeWaterlineKey_def waterline_foreign)
  next
    case False
    then show ?thesis
      using assms(2) by (simp add: computeWaterlineKey_def waterline_foreign)
  qed
  finally show ?thesis
    by (simp add: reconcilePublisherSelection_def Let_def names_def)
qed

text \<open>What a subscriber holds after the events addressed to it.\<close>

fun deliver :: "session \<Rightarrow> rank_event list \<Rightarrow> full_track_name set \<Rightarrow> full_track_name set" where
  "deliver s [] S = S"
| "deliver s (OnSelected f t fwd # evs) S = deliver s evs (if t = s then insert f S else S)"
| "deliver s (OnEvicted f t # evs) S = deliver s evs (if t = s then S - {f} else S)"
| "deliver s (OnBatchSelected f ts # evs) S =
     deliver s evs (if s \<in> set (map fst ts) then insert f S else S)"

lemma deliver_append: "deliver s (evs @ evs') S = deliver s evs' (deliver s evs S)"
  by (induction s evs S rule: deliver.induct) simp_all

lemma deliver_evicted: "deliver s (map (\<lambda>f. OnEvicted f s) fs) S = S - set fs"
  by (induction fs arbitrary: S) auto

lemma deliver_selected: "deliver s (map (\<lambda>f. OnSelected f s fwd) fs) S = S \<union> set fs"
  by (induction fs arbitrary: S) auto

lemma reconcile_delivers:
  "deliver s (snd (reconcilePublisherSelection rs info n s)) (set (selectedTracks info)) =
     set (selectedTracks (fst (reconcilePublisherSelection rs info n s)))"
  by (auto simp: reconcilePublisherSelection_def Let_def deliver_append deliver_evicted deliver_selected)

section \<open>Small histories\<close>

definition demo_name :: "char \<Rightarrow> full_track_name" where
  "demo_name c = \<lparr>trackNamespace = [], trackName = [c]\<rparr>"

definition demo_ops :: "rank_op list" where
  "demo_ops = [AddSession 2 1 True, Register (demo_name CHR ''p'') (Some 30) 1,
     Register (demo_name CHR ''x'') (Some 20) 2, Register (demo_name CHR ''y'') (Some 10) 2]"

definition held_by :: "property_ranking \<Rightarrow> u64 \<Rightarrow> session \<Rightarrow> full_track_name list" where
  "held_by pr n s = (case map_of (topNGroups pr) n of None \<Rightarrow> []
     | Some g \<Rightarrow> (case map_of (sessions g) s of None \<Rightarrow> [] | Some info \<Rightarrow> selectedTracks info))"

definition stale_ops :: "rank_op list" where
  "stale_ops = [AddSession 1 1 True, Register (demo_name CHR ''p'') (Some 30) 1,
     Register (demo_name CHR ''a'') (Some 20) 2, Register (demo_name CHR ''b'') (Some 10) 2,
     Remove (demo_name CHR ''a'')]"

lemma demo_group:
  "map_of (topNGroups (rank_run (\<lambda>_. 0) 0 demo_ops (new_ranking 0 0 0))) 2 =
     Some (the (map_of (topNGroups (rank_run (\<lambda>_. 0) 0 demo_ops (new_ranking 0 0 0))) 2))"
  by code_simp

lemma demo_indexed:
  "map_of (trackIndexByName (rank_run (\<lambda>_. 0) 0 demo_ops (new_ranking 0 0 0))) (demo_name CHR ''y'') =
     Some \<lparr>rankIter = RankKey 10 2, cachedRank = 2\<rparr>"
  by code_simp

lemma demo_range: "list_all op_in_range demo_ops" "length demo_ops \<le> u64_max"
  by code_simp+

section \<open>Properties\<close>



text \<open>
  In every such history the rank the cache returns for a registered track is the number of
  tracks ranked above it.
\<close>

theorem cached_rank_counts_better:
  assumes "list_all op_in_range ops" and "length ops \<le> u64_max"
    and "pr = rank_run act now ops (new_ranking 0 0 throttle)"
    and "map_of (trackIndexByName pr) f = Some idx"
  shows "snd (getCachedRank pr f) = length (filter (\<lambda>(k, e). k > rankIter idx) (rankedTracks pr))"
proof -
  have wf: "rank_wf pr"
    using rank_run_inv [OF new_ranking_inv assms(1)] assms(2,3) by (simp add: new_ranking_def sel_inv_def)
  obtain i where i: "i < length (rankedTracks pr)" "names (rankedTracks pr) ! i = f"
    "rankIter idx = fst (rankedTracks pr ! i)"
    using index_position [OF wf assms(4)] by blast
  have "length (filter (\<lambda>(k, e). k > fst (rankedTracks pr ! i)) (rankedTracks pr)) = i"
    using desc_strictly_above [of "rankedTracks pr" i] wf i(1) by (simp add: rank_wf_def)
  then show ?thesis using getCachedRank_position [OF wf i(1,2)] i(3) by simp
qed

theorem cached_rank_counts_better_witness:
  "snd (getCachedRank (rank_run (\<lambda>_. 0) 0 demo_ops (new_ranking 0 0 0)) (demo_name CHR ''y'')) = 2"
proof -
  have "length (filter (\<lambda>(k, e). k > RankKey 10 2)
      (rankedTracks (rank_run (\<lambda>_. 0) 0 demo_ops (new_ranking 0 0 0)))) = 2"
    by code_simp
  then show ?thesis
    using cached_rank_counts_better [OF demo_range refl demo_indexed] by simp
qed



text \<open>
  Registering a track can tell a subscriber that publishes to drop a track its own selection
  keeps: with limit 2, after the tracks x (20) and y (10) of another publisher and its own p (30),
  the registration of b (25) leaves \<open>b\<close> and \<open>x\<close> in its selection and sends it an eviction of \<open>x\<close>.
\<close>

theorem eviction_of_held_track:
  "let pr = rank_run (\<lambda>_. 0) 0 demo_ops (new_ranking 0 0 0);
       (pr', evs) = rank_step (\<lambda>_. 0) 0 (Register (demo_name CHR ''b'') (Some 25) 2) pr
   in held_by pr' 2 1 = [demo_name CHR ''b'', demo_name CHR ''x''] \<and>
      OnEvicted (demo_name CHR ''x'') 1 \<in> set evs"
  by code_simp

text \<open>
  Removing a track can leave it in the personal selection of a subscriber that publishes: with
  limit 1 and the subscriber's own p (30) ranked first, the group never marks a (20) selected, and
  removing \<open>a\<close> neither drops it from that selection nor offers the next track b (10).
\<close>

theorem removed_track_still_held:
  "let pr = rank_run (\<lambda>_. 0) 0 stale_ops (new_ranking 0 0 0)
   in held_by pr 1 1 = [demo_name CHR ''a''] \<and>
      map (trackName \<circ> e_ftn \<circ> snd) (rankedTracks pr) = [''p'', ''b'']"
  by code_simp

end
