(* ===== verification/Cache_Ranges.thy ===== *)
theory Cache_Ranges
  imports Moqx_Prelude "HOL-Library.Product_Lexorder" "HOL-Library.Monad_Syntax"
    "HOL-Library.Code_Target_Nat"
begin

text \<open>
  Locations in a track and the range arithmetic of the object cache, the first part of
  \<^verbatim>\<open>src/MoqxCache.cpp\<close>: which ranges a fetch asks of the upstream for a run of misses, and which
  ranges an ordered response proves empty. What the code takes from the transport library (steps
  between locations, sets of locations kept as intervals, typed extensions) is a parameter, the
  record \<open>moxygen\<close>; \<open>location_laws\<close> and \<open>interval_laws\<close> say what is relied on.
\<close>

section \<open>The transport library\<close>

text \<open>\<^verbatim>\<open>AbsoluteLocation\<close>: group and object, ordered lexicographically.\<close>

type_synonym location = "u64 \<times> u64"

datatype group_order = DefaultOrder | OldestFirst | NewestFirst

record ('e, 's) moxygen =
  kLocationMax :: location
  loc_next :: "location \<Rightarrow> location option"
  loc_prev :: "location \<Rightarrow> location option"
  nextGroup :: "location \<Rightarrow> location option"
  prevGroup :: "location \<Rightarrow> location option"
  nextInGroup :: "location \<Rightarrow> location option"
  prevInGroup :: "location \<Rightarrow> location option"
  prevGroupEnd :: "location \<Rightarrow> location option"
  iv_empty :: 's
  iv_insert :: "location \<Rightarrow> location \<Rightarrow> 's \<Rightarrow> 's"
  iv_remove :: "location \<Rightarrow> location \<Rightarrow> 's \<Rightarrow> 's"
  iv_contains :: "'s \<Rightarrow> location \<Rightarrow> bool"
  findInterval :: "'s \<Rightarrow> location \<Rightarrow> (location \<times> location) option"
  findIntervalEnd :: "'s \<Rightarrow> location \<Rightarrow> location option"
  findNextInterval :: "'s \<Rightarrow> location \<Rightarrow> (location \<times> location) option"
  findPrevInterval :: "'s \<Rightarrow> location \<Rightarrow> (location \<times> location) option"
  iv_size :: "'s \<Rightarrow> nat"
  popFront :: "'s \<Rightarrow> ((location \<times> location) \<times> 's) option"
  noExtensions :: 'e
  priorGroupIdGap :: "'e \<Rightarrow> u64 option"
  priorObjectIdGap :: "'e \<Rightarrow> u64 option"
  maxCacheDurationMs :: "'e \<Rightarrow> u64 option"

text \<open>The largest group and object numbers, and the locations up to them.\<close>

abbreviation max_group :: "('e, 's) moxygen \<Rightarrow> u64" where
  "max_group X \<equiv> fst (kLocationMax X)"

abbreviation max_object :: "('e, 's) moxygen \<Rightarrow> u64" where
  "max_object X \<equiv> snd (kLocationMax X)"

definition valid_loc :: "('e, 's) moxygen \<Rightarrow> location \<Rightarrow> bool" where
  "valid_loc X l \<longleftrightarrow> fst l \<le> max_group X \<and> snd l \<le> max_object X"

definition location_laws :: "('e, 's) moxygen \<Rightarrow> bool" where
  "location_laws X \<longleftrightarrow> max_group X \<le> u64_max \<and> 0 < max_object X \<and> max_object X \<le> u64_max \<and>
     (\<forall>g ob. valid_loc X (g, ob) \<longrightarrow>
        nextGroup X (g, ob) = (if g < max_group X then Some (g + 1, 0) else None) \<and>
        prevGroup X (g, ob) = (if 0 < g then Some (g - 1, 0) else None) \<and>
        nextInGroup X (g, ob) = (if ob < max_object X then Some (g, ob + 1) else None) \<and>
        prevInGroup X (g, ob) = (if 0 < ob then Some (g, ob - 1) else None) \<and>
        prevGroupEnd X (g, ob) = (if 0 < g then Some (g - 1, max_object X) else None) \<and>
        loc_next X (g, ob) =
          (if ob < max_object X then Some (g, ob + 1)
           else if g < max_group X then Some (g + 1, 0) else None) \<and>
        loc_prev X (g, ob) =
          (if 0 < ob then Some (g, ob - 1)
           else if 0 < g then Some (g - 1, max_object X) else None))"

text \<open>A set of locations, asked and changed by inclusive ranges.\<close>

definition interval_laws :: "('e, 's) moxygen \<Rightarrow> bool" where
  "interval_laws X \<longleftrightarrow>
     (\<forall>l. valid_loc X l \<longrightarrow> \<not> iv_contains X (iv_empty X) l) \<and>
     (\<forall>s a b l. valid_loc X l \<longrightarrow>
        iv_contains X (iv_insert X a b s) l = (iv_contains X s l \<or> (a \<le> l \<and> l \<le> b))) \<and>
     (\<forall>s a b l. valid_loc X l \<longrightarrow>
        iv_contains X (iv_remove X a b s) l = (iv_contains X s l \<and> \<not> (a \<le> l \<and> l \<le> b))) \<and>
     (\<forall>s l. valid_loc X l \<longrightarrow>
        (case findInterval X s l of
           None \<Rightarrow> \<not> iv_contains X s l
         | Some (a, b) \<Rightarrow> valid_loc X a \<and> valid_loc X b \<and> a \<le> l \<and> l \<le> b \<and>
             (\<forall>x. valid_loc X x \<and> a \<le> x \<and> x \<le> b \<longrightarrow> iv_contains X s x))) \<and>
     (\<forall>s l. valid_loc X l \<longrightarrow> findIntervalEnd X s l = map_option snd (findInterval X s l)) \<and>
     (\<forall>s l. valid_loc X l \<and> \<not> iv_contains X s l \<longrightarrow>
        (case findNextInterval X s l of
           None \<Rightarrow> \<forall>x. valid_loc X x \<and> l < x \<longrightarrow> \<not> iv_contains X s x
         | Some (a, b) \<Rightarrow> valid_loc X a \<and> l < a \<and> iv_contains X s a \<and>
             (\<forall>x. valid_loc X x \<and> l < x \<and> x < a \<longrightarrow> \<not> iv_contains X s x))) \<and>
     (\<forall>s l. valid_loc X l \<and> \<not> iv_contains X s l \<longrightarrow>
        (case findPrevInterval X s l of
           None \<Rightarrow> \<forall>x. valid_loc X x \<and> x < l \<longrightarrow> \<not> iv_contains X s x
         | Some (a, b) \<Rightarrow> valid_loc X b \<and> b < l \<and> iv_contains X s b \<and>
             (\<forall>x. valid_loc X x \<and> b < x \<and> x < l \<longrightarrow> \<not> iv_contains X s x))) \<and>
     (\<forall>s. popFront X s = None \<longleftrightarrow> iv_size X s = 0) \<and>
     (\<forall>s. case popFront X s of
        None \<Rightarrow> True
      | Some ((a, b), s') \<Rightarrow> iv_size X s = Suc (iv_size X s') \<and>
          (\<forall>l. valid_loc X l \<longrightarrow> iv_contains X s' l = (iv_contains X s l \<and> \<not> (a \<le> l \<and> l \<le> b))))"

section \<open>Ranges\<close>

definition toExclusiveEnd :: "('e, 's) moxygen \<Rightarrow> location \<Rightarrow> location" where
  "toExclusiveEnd X wireEnd =
     (if snd wireEnd \<noteq> 0 then wireEnd
      else case nextGroup X wireEnd of Some l \<Rightarrow> l | None \<Rightarrow> kLocationMax X)"

definition computeDescendingAfterGap ::
  "('e, 's) moxygen \<Rightarrow> location \<Rightarrow> location \<Rightarrow> location \<Rightarrow> location option" where
  "computeDescendingAfterGap X current gapStart minLocation =
     (if snd gapStart > 0 \<and> fst gapStart \<noteq> fst current then
        Some (fst gapStart, if fst gapStart = fst minLocation then snd minLocation else 0)
      else
        case prevGroup X gapStart of
          None \<Rightarrow> None
        | Some a \<Rightarrow> Some (if fst a = fst minLocation then (fst a, snd minLocation) else a))"

definition getFetchIntervals ::
  "('e, 's) moxygen \<Rightarrow> location \<Rightarrow> location \<Rightarrow> location \<Rightarrow> location \<Rightarrow> group_order \<Rightarrow> bool \<Rightarrow>
   (location \<times> location) list" where
  "getFetchIntervals X start stop miss hit order isTail =
     (if order \<noteq> NewestFirst then [(miss, if isTail then stop else hit)]
      else if fst miss = fst hit then
        [(miss, if isTail then (case nextGroup X miss of Some l \<Rightarrow> l | None \<Rightarrow> stop) else hit)]
      else
        let intervalEnd =
              (if fst miss = fst stop then stop
               else case nextGroup X miss of Some l \<Rightarrow> l | None \<Rightarrow> stop);
            num = u64_sub (u64_sub (fst miss) (fst hit)) 1;
            front =
              (if num > 0 then
                 if snd miss = 0 then [(max start (u64_sub (fst miss) num, 0), intervalEnd)]
                 else
                   let intStart = (u64_add (fst hit) 1, 0);
                       intStart' = (if fst start = fst intStart then (fst intStart, snd start) else intStart)
                   in [(miss, intervalEnd), (intStart', (fst miss, 0))]
               else [(miss, intervalEnd)]);
            lastStart = (if fst start = fst hit then start else (fst hit, 0))
        in front @ (if snd hit \<noteq> 0 \<and> lastStart < hit then [(lastStart, hit)] else []))"

definition getGapRanges ::
  "('e, 's) moxygen \<Rightarrow> location \<Rightarrow> location \<Rightarrow> group_order \<Rightarrow> location \<Rightarrow> location \<Rightarrow>
   (location \<times> location) list option" where
  "getGapRanges X start stop order fetchStart fetchEnd =
     (let isEmpty =
        (if order \<noteq> NewestFirst then start \<ge> stop
         else fst start < fst stop \<or> (fst start = fst stop \<and> snd start \<ge> snd stop))
      in if isEmpty then Some []
         else if fst start = fst stop then
           Some (case prevInGroup X stop of None \<Rightarrow> [] | Some p \<Rightarrow> [(start, p)])
         else if order \<noteq> NewestFirst then
           do { gapEnd \<leftarrow> loc_prev X stop; Some [(start, gapEnd)] }
         else do {
           startGroupEnd \<leftarrow> (if fst start = fst fetchEnd then prevInGroup X fetchEnd
                             else Some (fst start, max_object X));
           endNextGroup \<leftarrow> nextGroup X stop;
           startPrevGroupEnd \<leftarrow> prevGroupEnd X start;
           let endGroupStart = (if fst stop = fst fetchStart then fetchStart else (fst stop, 0));
           third \<leftarrow> (if endGroupStart < stop
                     then do { p \<leftarrow> prevInGroup X stop; Some [(endGroupStart, p)] } else Some []);
           Some ([(start, startGroupEnd)] @
             (if fst startPrevGroupEnd \<ge> fst endNextGroup then [(endNextGroup, startPrevGroupEnd)] else []) @
             third) })"

definition isGroupNonExistent :: "('e, 's) moxygen \<Rightarrow> 's \<Rightarrow> u64 \<Rightarrow> bool" where
  "isGroupNonExistent X gaps groupID =
     (case findIntervalEnd X gaps (groupID, 0) of
        None \<Rightarrow> False
      | Some e \<Rightarrow> fst e > groupID \<or> (fst e = groupID \<and> snd e = max_object X))"

section \<open>What the ranges cover\<close>

text \<open>The positions an iteration passes from \<open>start\<close> up to, not including, \<open>stop\<close>.\<close>

definition passed :: "group_order \<Rightarrow> location \<Rightarrow> location \<Rightarrow> location \<Rightarrow> bool" where
  "passed order start stop l =
     (if order \<noteq> NewestFirst then start \<le> l \<and> l < stop
      else (fst l < fst start \<or> (fst l = fst start \<and> snd start \<le> snd l)) \<and>
           (fst stop < fst l \<or> (fst l = fst stop \<and> snd l < snd stop)))"

definition in_closed :: "(location \<times> location) list \<Rightarrow> location \<Rightarrow> bool" where
  "in_closed rs l \<longleftrightarrow> (\<exists>(a, b)\<in>set rs. a \<le> l \<and> l \<le> b)"

definition in_half_open :: "(location \<times> location) list \<Rightarrow> location \<Rightarrow> bool" where
  "in_half_open rs l \<longleftrightarrow> (\<exists>(a, b)\<in>set rs. a \<le> l \<and> l < b)"

lemma in_closed_simps [simp]:
  "in_closed [] l = False" "in_closed ((a, b) # rs) l = ((a \<le> l \<and> l \<le> b) \<or> in_closed rs l)"
  by (auto simp: in_closed_def)

lemma in_half_open_simps [simp]:
  "in_half_open [] l = False" "in_half_open ((a, b) # rs) l = ((a \<le> l \<and> l < b) \<or> in_half_open rs l)"
  by (auto simp: in_half_open_def)

lemma location_steps:
  assumes "location_laws X" and "g \<le> max_group X" and "ob \<le> max_object X"
  shows "nextGroup X (g, ob) = (if g < max_group X then Some (g + 1, 0) else None)"
    and "prevGroup X (g, ob) = (if 0 < g then Some (g - 1, 0) else None)"
    and "nextInGroup X (g, ob) = (if ob < max_object X then Some (g, ob + 1) else None)"
    and "prevInGroup X (g, ob) = (if 0 < ob then Some (g, ob - 1) else None)"
    and "prevGroupEnd X (g, ob) = (if 0 < g then Some (g - 1, max_object X) else None)"
    and "loc_next X (g, ob) = (if ob < max_object X then Some (g, ob + 1)
         else if g < max_group X then Some (g + 1, 0) else None)"
    and "loc_prev X (g, ob) = (if 0 < ob then Some (g, ob - 1)
         else if 0 < g then Some (g - 1, max_object X) else None)"
  using assms unfolding location_laws_def valid_loc_def fst_conv snd_conv by blast+

lemma gap_ranges_ascending:
  assumes X: "location_laws X" and v: "valid_loc X start" "valid_loc X stop" "valid_loc X l"
    and order: "order \<noteq> NewestFirst"
  shows "\<exists>rs. getGapRanges X start stop order fs fe = Some rs \<and>
     (in_closed rs l \<longleftrightarrow> start \<le> l \<and> l < stop)"
proof -
  obtain sg so eg eo lg lo where p: "start = (sg, so)" "stop = (eg, eo)" "l = (lg, lo)" by fastforce
  note steps = location_steps [OF X, of eg eo]
  have "eg \<le> max_group X" "eo \<le> max_object X" using v p by (auto simp: valid_loc_def)
  note st = steps(4,7) [OF this]
  have lo: "lo \<le> max_object X" using v(3) p by (simp add: valid_loc_def)
  consider (empty) "stop \<le> start" | (same) "start < stop" "sg = eg" | (other) "start < stop" "sg < eg"
    using p by force
  then show ?thesis
  proof cases
    case empty
    then have "getGapRanges X start stop order fs fe = Some []" using order by (simp add: getGapRanges_def)
    then show ?thesis using empty by auto
  next
    case same
    then have eo: "so < eo" by (simp add: p)
    then have "getGapRanges X start stop order fs fe = Some [(start, (eg, eo - 1))]"
      using order same st(1) by (simp add: getGapRanges_def p)
    moreover have "start \<le> l \<and> l \<le> (eg, eo - 1) \<longleftrightarrow> start \<le> l \<and> l < stop"
      using eo by (auto simp: p)
    ultimately show ?thesis by auto
  next
    case other
    let ?q = "if 0 < eo then (eg, eo - 1) else (eg - 1, max_object X)"
    have "getGapRanges X start stop order fs fe = Some [(start, ?q)]"
      using order other st(2) by (simp add: getGapRanges_def p)
    moreover have "l \<le> ?q \<longleftrightarrow> l < stop" using lo other(2) by (auto simp: p)
    ultimately show ?thesis by auto
  qed
qed

lemma gap_ranges_descending:
  assumes X: "location_laws X"
    and v: "valid_loc X start" "valid_loc X stop" "valid_loc X fs" "valid_loc X fe" "valid_loc X l"
    and r: "fs \<le> start" "start < fe" "fs \<le> stop" "stop \<le> fe"
  shows "\<exists>rs. getGapRanges X start stop NewestFirst fs fe = Some rs \<and>
     (in_closed rs l \<longleftrightarrow> passed NewestFirst start stop l \<and> fs \<le> l \<and> l < fe)"
proof -
  obtain sg so where s: "start = (sg, so)" by fastforce
  obtain eg eo where e: "stop = (eg, eo)" by fastforce
  obtain fg fo where f: "fs = (fg, fo)" by fastforce
  obtain hg ho where h: "fe = (hg, ho)" by fastforce
  obtain lg lo where l: "l = (lg, lo)" by fastforce
  note p = s e f h l
  have b: "sg \<le> max_group X" "so \<le> max_object X" "eg \<le> max_group X" "eo \<le> max_object X"
    "hg \<le> max_group X" "ho \<le> max_object X" "lo \<le> max_object X"
    using v p by (auto simp: valid_loc_def)
  note st = location_steps [OF X b(1,2)] location_steps [OF X b(3,4)] location_steps [OF X b(5,6)]
  consider "sg < eg" | "sg = eg" | "eg < sg" by linarith
  then show ?thesis
  proof cases
    case 1
    then show ?thesis by (auto simp: getGapRanges_def passed_def p)
  next
    case 2
    have "getGapRanges X start stop NewestFirst fs fe = Some (if so < eo then [((sg, so), (eg, eo - 1))] else [])"
      using 2 st(11) by (simp add: getGapRanges_def p)
    moreover have "in_closed (if so < eo then [((sg, so), (eg, eo - 1))] else []) l \<longleftrightarrow>
        lg = sg \<and> so \<le> lo \<and> lo < eo"
      using 2 by (auto simp: p)
    moreover have "\<dots> \<longleftrightarrow> passed NewestFirst start stop l \<and> fs \<le> l \<and> l < fe"
      using 2 r by (auto simp: passed_def p)
    ultimately show ?thesis by simp
  next
    case 3
    then have pos: "0 < sg" "eg < max_group X" using b by auto
    have top: "0 < ho" if "sg = hg" using r(2) that by (auto simp: p)
    let ?E = "(sg, if sg = hg then ho - 1 else max_object X)"
    let ?S = "if eg = fg then (fg, fo) else (eg, 0)"
    let ?mid = "if eg + 1 \<le> sg - 1 then [((eg + 1, 0), (sg - 1, max_object X))] else []"
    let ?last = "if ?S < (eg, eo) then [(?S, (eg, eo - 1))] else []"
    have third: "(if ?S < (eg, eo) then do { q \<leftarrow> prevInGroup X (eg, eo); Some [(?S, q)] } else Some []) = Some ?last"
      using st(11) by (auto split: if_splits)
    have first: "(if sg = hg then prevInGroup X (hg, ho) else Some (sg, max_object X)) = Some ?E"
      using st(18) top by auto
    have eq: "getGapRanges X start stop NewestFirst fs fe = Some ([((sg, so), ?E)] @ ?mid @ ?last)"
      unfolding getGapRanges_def p fst_conv snd_conv Let_def first third
      using 3 pos st(5,8) by simp
    have ord: "sg \<le> hg" "fg \<le> eg" using r(2,3) by (auto simp: p)
    have A: "(sg, so) \<le> l \<and> l \<le> ?E \<longleftrightarrow> lg = sg \<and> so \<le> lo \<and> l < fe"
      using b(7) ord(1) top by (auto simp: p)
    have B: "in_closed ?mid l \<longleftrightarrow> eg < lg \<and> lg < sg"
      using b(7) by (auto simp: p)
    have C: "in_closed ?last l \<longleftrightarrow> lg = eg \<and> lo < eo \<and> fs \<le> l"
      using ord(2) by (auto simp: p)
    have app: "in_closed (xs @ ys) l = (in_closed xs l \<or> in_closed ys l)" for xs ys
      by (auto simp: in_closed_def)
    have "in_closed ([((sg, so), ?E)] @ ?mid @ ?last) l \<longleftrightarrow>
        (lg = sg \<and> so \<le> lo \<and> l < fe) \<or> (eg < lg \<and> lg < sg) \<or> (lg = eg \<and> lo < eo \<and> fs \<le> l)"
      unfolding app B C in_closed_simps A by simp
    also have "\<dots> \<longleftrightarrow> passed NewestFirst start stop l \<and> fs \<le> l \<and> l < fe"
      unfolding passed_def p using 3 ord by auto
    finally show ?thesis using eq by simp
  qed
qed

lemma fetch_intervals_ascending:
  "order \<noteq> NewestFirst \<Longrightarrow>
     in_half_open (getFetchIntervals X start stop miss hit order isTail) l \<longleftrightarrow>
       passed order miss (if isTail then stop else hit) l"
  by (simp add: getFetchIntervals_def passed_def)

text \<open>
  In descending order, when the hit lies in the range asked for, or when there is no hit (the
  location 0,0 stands for it), the miss is the first object of its group and the range starts
  above group 0.
\<close>

lemma fetch_intervals_descending:
  assumes X: "location_laws X" and v: "valid_loc X miss" "valid_loc X stop" "valid_loc X l"
    and r: "start \<le> miss" "miss < stop" "hit \<le> stop"
    and hit: "passed NewestFirst miss hit miss"
    and c: "(\<not> isTail \<and> start \<le> hit) \<or> (hit = (0, 0) \<and> snd miss = 0 \<and> 0 < fst start)"
  shows "in_half_open (getFetchIntervals X start stop miss hit NewestFirst isTail) l \<longleftrightarrow>
     passed NewestFirst miss hit l \<and> start \<le> l \<and> l < stop"
proof -
  obtain sg so where s: "start = (sg, so)" by fastforce
  obtain eg eo where e: "stop = (eg, eo)" by fastforce
  obtain mg mo where m: "miss = (mg, mo)" by fastforce
  obtain hg ho where h: "hit = (hg, ho)" by fastforce
  obtain lg lo where l: "l = (lg, lo)" by fastforce
  note p = s e m h l
  have b: "mg \<le> max_group X" "mo \<le> max_object X" "eg \<le> max_group X" using v p by (auto simp: valid_loc_def)
  have u: "max_group X \<le> u64_max" using X by (simp add: location_laws_def)
  have ord: "sg \<le> mg" "mg \<le> eg" using r by (auto simp: p)
  have ng: "nextGroup X (mg, mo) = Some (mg + 1, 0)" if "mg < eg"
    using location_steps(1) [OF X b(1,2)] that b(3) by simp
  show ?thesis
  proof (cases "mg = hg")
    case True
    have "\<not> isTail" using c True ord by (auto simp: p)
    moreover have "sg < mg \<or> (sg = mg \<and> so \<le> mo)" using r(1) by (auto simp: p)
    moreover have "mo < ho" using hit True by (simp add: passed_def p)
    ultimately show ?thesis
      using True r(2,3) by (auto simp: getFetchIntervals_def passed_def p)
  next
    case False
    then have lt: "hg < mg" using hit by (auto simp: passed_def p)
    have num: "u64_sub (u64_sub mg hg) 1 = mg - hg - 1" "u64_sub mg (mg - hg - 1) = hg + 1"
      "u64_add hg 1 = hg + 1"
      using lt b(1) u by (auto simp: u64_sub_exact u64_add_exact)
    let ?E = "if mg = eg then (eg, eo) else (mg + 1, 0)"
    have E: "(if mg = eg then (eg, eo) else case nextGroup X (mg, mo) of Some x \<Rightarrow> x | None \<Rightarrow> (eg, eo)) = ?E"
      using ng ord(2) by auto
    have below: "sg \<le> hg \<or> (hg = 0 \<and> ho = 0 \<and> mo = 0 \<and> 0 < sg)"
      using c by (auto simp: p)
    have startle: "(sg, so) \<le> (hg, ho) \<or> (hg = 0 \<and> ho = 0 \<and> mo = 0 \<and> 0 < sg)"
      using c by (auto simp: p)
    let ?front = "if 0 < mg - hg - 1 then
        if mo = 0 then [(max (sg, so) (hg + 1, 0), ?E)]
        else [((mg, mo), ?E), (if sg = hg + 1 then (hg + 1, so) else (hg + 1, 0), (mg, 0))]
      else [((mg, mo), ?E)]"
    let ?S = "if sg = hg then (sg, so) else (hg, 0)"
    have eq: "getFetchIntervals X start stop miss hit NewestFirst isTail =
        ?front @ (if ho \<noteq> 0 \<and> ?S < (hg, ho) then [(?S, (hg, ho))] else [])"
      using False unfolding getFetchIntervals_def p fst_conv snd_conv Let_def num E by simp
    have A: "in_half_open ?front l \<longleftrightarrow> ((mg = lg \<and> mo \<le> lo) \<or> (hg < lg \<and> lg < mg)) \<and> start \<le> l \<and> l < stop"
    proof (cases "0 < mg - hg - 1 \<and> mo = 0")
      case True
      have "in_half_open ?front l \<longleftrightarrow> (sg, so) \<le> l \<and> hg < lg \<and> l < ?E"
        using True by (auto simp: p)
      moreover have "hg < lg \<and> l < ?E \<longleftrightarrow> ((mg = lg \<and> mo \<le> lo) \<or> (hg < lg \<and> lg < mg)) \<and> l < stop"
        using True lt ord(2) by (auto simp: p)
      ultimately show ?thesis by (auto simp: s)
    next
      case False
      have top: "(mg, mo) \<le> l \<and> l < ?E \<longleftrightarrow> mg = lg \<and> mo \<le> lo \<and> l < stop"
        using ord(2) by (auto simp: p)
      show ?thesis
      proof (cases "sg \<le> hg")
        case sg: True
        have "(hg + 1, 0) \<le> l \<and> l < (mg, 0) \<longleftrightarrow> hg < lg \<and> lg < mg" by (auto simp: p)
        moreover have "start \<le> l" if "hg < lg" using that sg by (auto simp: p)
        moreover have "l < stop" if "lg < mg" using that ord(2) by (auto simp: p)
        ultimately show ?thesis using False sg lt top by auto
      next
        case sg: False
        then have one: "hg = 0" "mg = 1" "mo = 0" using below False lt by auto
        have "start \<le> l" if "mg = lg" "mo \<le> lo" using that r(1) by (auto simp: p)
        then show ?thesis using one top by auto
      qed
    qed
    have B: "in_half_open (if ho \<noteq> 0 \<and> ?S < (hg, ho) then [(?S, (hg, ho))] else []) l \<longleftrightarrow>
        hg = lg \<and> lo < ho \<and> start \<le> l \<and> l < stop"
      using startle lt ord(2) by (auto simp: p)
    have app: "in_half_open (xs @ ys) l = (in_half_open xs l \<or> in_half_open ys l)" for xs ys
      by (auto simp: in_half_open_def)
    have "passed NewestFirst miss hit l \<longleftrightarrow>
        (mg = lg \<and> mo \<le> lo) \<or> (hg < lg \<and> lg < mg) \<or> (hg = lg \<and> lo < ho)"
      using lt by (auto simp: passed_def m h l)
    then show ?thesis unfolding eq app A B by blast
  qed
qed

section \<open>A small transport library\<close>

text \<open>
  Group and object numbers up to \<open>n\<close>, a set of locations as their ascending list: the laws can
  hold. Extensions are the three values the cache reads.
\<close>

definition all_locations :: "nat \<Rightarrow> location list" where
  "all_locations n = List.product [0..<Suc n] [0..<Suc n]"

definition small_moxygen ::
  "nat \<Rightarrow> (u64 option \<times> u64 option \<times> u64 option, location list) moxygen" where
  "small_moxygen n =
     \<lparr>kLocationMax = (n, n),
      loc_next = (\<lambda>(g, ob). if ob < n then Some (g, ob + 1) else if g < n then Some (g + 1, 0) else None),
      loc_prev = (\<lambda>(g, ob). if 0 < ob then Some (g, ob - 1) else if 0 < g then Some (g - 1, n) else None),
      nextGroup = (\<lambda>(g, ob). if g < n then Some (g + 1, 0) else None),
      prevGroup = (\<lambda>(g, ob). if 0 < g then Some (g - 1, 0) else None),
      nextInGroup = (\<lambda>(g, ob). if ob < n then Some (g, ob + 1) else None),
      prevInGroup = (\<lambda>(g, ob). if 0 < ob then Some (g, ob - 1) else None),
      prevGroupEnd = (\<lambda>(g, ob). if 0 < g then Some (g - 1, n) else None),
      iv_empty = [],
      iv_insert = (\<lambda>a b s. filter (\<lambda>l. l \<in> set s \<or> (a \<le> l \<and> l \<le> b)) (all_locations n)),
      iv_remove = (\<lambda>a b s. filter (\<lambda>l. \<not> (a \<le> l \<and> l \<le> b)) s),
      iv_contains = (\<lambda>s l. l \<in> set s),
      findInterval = (\<lambda>s l. if l \<in> set s then Some (l, l) else None),
      findIntervalEnd = (\<lambda>s l. if l \<in> set s then Some l else None),
      findNextInterval = (\<lambda>s l. map_option (\<lambda>a. (a, a)) (find (\<lambda>x. x \<in> set s \<and> l < x) (all_locations n))),
      findPrevInterval = (\<lambda>s l. map_option (\<lambda>a. (a, a)) (find (\<lambda>x. x \<in> set s \<and> x < l) (rev (all_locations n)))),
      iv_size = length \<circ> remdups,
      popFront = (\<lambda>s. case s of [] \<Rightarrow> None | a # _ \<Rightarrow> Some ((a, a), filter (\<lambda>x. x \<noteq> a) s)),
      noExtensions = (None, None, None),
      priorGroupIdGap = fst,
      priorObjectIdGap = fst \<circ> snd,
      maxCacheDurationMs = snd \<circ> snd\<rparr>"

lemma small_location_laws: "\<lbrakk>0 < n; n \<le> u64_max\<rbrakk> \<Longrightarrow> location_laws (small_moxygen n)"
  by (simp add: location_laws_def small_moxygen_def)

lemma set_all_locations: "l \<in> set (all_locations n) \<longleftrightarrow> valid_loc (small_moxygen n) l"
  by (cases l) (auto simp: all_locations_def valid_loc_def small_moxygen_def)

lemma sorted_product:
  fixes xs :: "'a :: linorder list" and ys :: "'b :: linorder list"
  shows "\<lbrakk>sorted_wrt (<) xs; sorted_wrt (<) ys\<rbrakk> \<Longrightarrow> sorted_wrt (<) (List.product xs ys)"
  by (induction xs) (auto simp: sorted_wrt_append sorted_wrt_map)

lemma sorted_all_locations: "sorted_wrt (<) (all_locations n)"
  unfolding all_locations_def by (rule sorted_product) (simp_all del: upt_Suc)

lemma find_first_sorted:
  "\<lbrakk>sorted_wrt R xs; find P xs = Some a; x \<in> set xs; P x\<rbrakk> \<Longrightarrow> x = a \<or> R a x"
  by (induction xs) (auto split: if_splits)

lemma length_remdups_filter_neq:
  "a \<in> set s \<Longrightarrow> length (remdups s) = Suc (length (remdups (filter (\<lambda>x. x \<noteq> a) s)))"
proof -
  assume a: "a \<in> set s"
  have eq: "set (filter (\<lambda>x. x \<noteq> a) s) = set s - {a}" by auto
  show ?thesis
    unfolding length_remdups_card_conv eq using a by (simp only: card_Suc_Diff1 List.finite_set)
qed

lemma small_next:
  assumes "findNextInterval (small_moxygen n) s l = Some (a, b)"
  shows "valid_loc (small_moxygen n) a \<and> l < a \<and> a \<in> set s \<and>
     (\<forall>x. valid_loc (small_moxygen n) x \<and> l < x \<and> x < a \<longrightarrow> x \<notin> set s)"
proof -
  have f: "find (\<lambda>x. x \<in> set s \<and> l < x) (all_locations n) = Some a"
    using assms by (auto simp: small_moxygen_def)
  have "x \<notin> set s" if "valid_loc (small_moxygen n) x" "l < x" "x < a" for x
    using find_first_sorted [OF sorted_all_locations f, of x] that by (auto simp: set_all_locations)
  with f show ?thesis by (auto simp: find_Some_iff simp flip: set_all_locations)
qed

lemma small_prev:
  assumes "findPrevInterval (small_moxygen n) s l = Some (a, b)"
  shows "valid_loc (small_moxygen n) b \<and> b < l \<and> b \<in> set s \<and>
     (\<forall>x. valid_loc (small_moxygen n) x \<and> b < x \<and> x < l \<longrightarrow> x \<notin> set s)"
proof -
  have f: "find (\<lambda>x. x \<in> set s \<and> x < l) (rev (all_locations n)) = Some b"
    using assms by (auto simp: small_moxygen_def)
  have "sorted_wrt (\<lambda>x y. y < x) (rev (all_locations n))"
    using sorted_all_locations by (simp add: sorted_wrt_rev)
  then have "x \<notin> set s" if "valid_loc (small_moxygen n) x" "b < x" "x < l" for x
    using find_first_sorted [OF _ f, of "\<lambda>x y. y < x" x] that by (auto simp: set_all_locations)
  moreover have "b \<in> set s" "b < l" using f by (auto simp: find_Some_iff)
  moreover have "b \<in> set (rev (all_locations n))" using f unfolding find_Some_iff by (metis nth_mem)
  ultimately show ?thesis by (simp add: set_all_locations)
qed

lemma small_interval_laws: "interval_laws (small_moxygen n)"
proof -
  let ?X = "small_moxygen n"
  have next_none: "x \<notin> set s" if "findNextInterval ?X s l = None" "valid_loc ?X x" "l < x" for s l x
    using that(1,3) that(2) [folded set_all_locations] by (cases x) (auto simp: small_moxygen_def find_None_iff)
  have prev_none: "x \<notin> set s" if "findPrevInterval ?X s l = None" "valid_loc ?X x" "x < l" for s l x
    using that(1,3) that(2) [folded set_all_locations] by (cases x) (auto simp: small_moxygen_def find_None_iff)
  have sel: "iv_contains ?X = (\<lambda>s l. l \<in> set s)" "iv_empty ?X = []" "iv_size ?X = length \<circ> remdups"
    "iv_remove ?X = (\<lambda>a b s. filter (\<lambda>l. \<not> (a \<le> l \<and> l \<le> b)) s)"
    "findInterval ?X = (\<lambda>s l. if l \<in> set s then Some (l, l) else None)"
    "findIntervalEnd ?X = (\<lambda>s l. if l \<in> set s then Some l else None)"
    "popFront ?X = (\<lambda>s. case s of [] \<Rightarrow> None | a # _ \<Rightarrow> Some ((a, a), filter (\<lambda>x. x \<noteq> a) s))"
    "iv_insert ?X = (\<lambda>a b s. filter (\<lambda>l. l \<in> set s \<or> (a \<le> l \<and> l \<le> b)) (all_locations n))"
    by (simp_all add: small_moxygen_def)
  have pop: "iv_size ?X s = Suc (iv_size ?X s')" if "popFront ?X s = Some ((a, b), s')" for s a b s'
    using that length_remdups_filter_neq [of a s] by (auto simp: sel split: list.splits)
  show ?thesis
    unfolding interval_laws_def
  proof (intro conjI allI impI)
    fix s :: "location list" and l :: location
    show "case findNextInterval ?X s l of None \<Rightarrow> \<forall>x. valid_loc ?X x \<and> l < x \<longrightarrow> \<not> iv_contains ?X s x
        | Some (a, b) \<Rightarrow> valid_loc ?X a \<and> l < a \<and> iv_contains ?X s a \<and>
            (\<forall>x. valid_loc ?X x \<and> l < x \<and> x < a \<longrightarrow> \<not> iv_contains ?X s x)"
      using next_none small_next by (auto simp: sel split: option.splits)
    show "case findPrevInterval ?X s l of None \<Rightarrow> \<forall>x. valid_loc ?X x \<and> x < l \<longrightarrow> \<not> iv_contains ?X s x
        | Some (a, b) \<Rightarrow> valid_loc ?X b \<and> b < l \<and> iv_contains ?X s b \<and>
            (\<forall>x. valid_loc ?X x \<and> b < x \<and> x < l \<longrightarrow> \<not> iv_contains ?X s x)"
      using prev_none small_prev by (auto simp: sel split: option.splits)
    show "case popFront ?X s of None \<Rightarrow> True | Some ((a, b), s') \<Rightarrow> iv_size ?X s = Suc (iv_size ?X s') \<and>
        (\<forall>l. valid_loc ?X l \<longrightarrow> iv_contains ?X s' l = (iv_contains ?X s l \<and> \<not> (a \<le> l \<and> l \<le> b)))"
      using pop by (auto simp: sel split: option.splits list.splits)
  qed (auto simp: sel set_all_locations split: list.splits)
qed

section \<open>Properties\<close>

text \<open>
  C16. The gap ranges computed for an ordered fetch response are exactly the positions the
  iteration passes between two locations of the fetch range: none outside that range and none of
  the positions still to come, in both group orders.
\<close>

theorem gap_ranges_exact:
  assumes "location_laws X"
    and "valid_loc X start" and "valid_loc X stop" and "valid_loc X fs" and "valid_loc X fe" and "valid_loc X l"
    and "fs \<le> start" and "start < fe" and "fs \<le> stop" and "stop \<le> fe"
  shows "\<exists>rs. getGapRanges X start stop order fs fe = Some rs \<and>
     (in_closed rs l \<longleftrightarrow> passed order start stop l \<and> fs \<le> l \<and> l < fe)"
proof (cases "order = NewestFirst")
  case True
  then show ?thesis using gap_ranges_descending [OF assms] by simp
next
  case False
  then show ?thesis
    using gap_ranges_ascending [OF assms(1-3,6) False, of fs fe] assms(7,10)
    by (auto simp: passed_def intro: order_trans less_le_trans)
qed

theorem gap_ranges_exact_witness:
  "\<exists>rs. getGapRanges (small_moxygen 9) (5, 2) (3, 1) NewestFirst (2, 0) (5, 6) = Some rs \<and>
     (in_closed rs (4, 7) \<longleftrightarrow> passed NewestFirst (5, 2) (3, 1) (4, 7) \<and> (2, 0) \<le> (4 :: nat, 7 :: nat) \<and>
        (4, 7) < (5 :: nat, 6 :: nat))"
  by (rule gap_ranges_exact [OF small_location_laws])
     (simp_all add: u64_max_def valid_loc_def small_moxygen_def)



text \<open>
  When a descending fetch finds nothing cached below the miss, the location 0,0 stands for the
  missing hit and is taken for a hit in group 0. A fetch of groups 0 and 1 then asks the upstream
  for group 1 only, and a fetch that starts at object 2 of group 3 asks for groups 1 and 2, which
  nobody requested.
\<close>

theorem descending_tail_ranges:
  "getFetchIntervals (small_moxygen 9) (0, 0) (2, 0) (1, 0) (0, 0) NewestFirst True = [((1, 0), (2, 0))] \<and>
   getFetchIntervals (small_moxygen 9) (3, 2) (3, 5) (3, 2) (0, 0) NewestFirst True =
     [((3, 2), (3, 5)), ((1, 0), (3, 0))]"
  by code_simp

end
