(* ===== verification/Cache_Store.thy ===== *)
theory Cache_Store
  imports Cache_Ranges
begin

text \<open>
  The store of the object cache, \<^verbatim>\<open>src/MoqxCache.{h,cpp}\<close>: tracks, their groups and objects, the
  lists that order tracks and groups for eviction, and the count of cached bytes. Tracks and
  groups are shared objects that writers keep beyond eviction, so they live in two heaps and are
  named by address; an iterator a track or group keeps into a list is the mark that its node is
  there, and the node carries the address of its owner. An aborting check is the result \<open>None\<close>.
  Byte counts are natural numbers; every subtraction is either checked by the code or shown not
  to go below zero. Times are nanoseconds, durations milliseconds.
\<close>

section \<open>Data\<close>

datatype object_status = NORMAL | END_OF_GROUP | END_OF_TRACK

text \<open>A buffer chain, or no buffer.\<close>

type_synonym payload = "string option"

definition payload_size :: "payload \<Rightarrow> nat" where
  "payload_size p = (case p of None \<Rightarrow> 0 | Some bs \<Rightarrow> length bs)"

datatype publish_error = MalformedTrack string

record 'e cache_entry =
  subgroup :: u64
  status :: object_status
  entry_extensions :: 'e
  entry_payload :: payload
  payloadSize :: nat
  complete :: bool
  forwardingPreferenceIsDatagram :: bool
  cachedAt :: int

record 'e cache_group =
  objects :: "(u64 \<times> 'e cache_entry) list"
  maxCachedObject :: u64
  endOfGroup :: bool
  seenPriorGroupIdGap :: "u64 option"
  totalBytes :: nat
  pinCount :: nat
  group_in_lru :: bool
  group_in_global :: bool

definition new_group :: "'e cache_group" where
  "new_group =
     \<lparr>objects = [], maxCachedObject = 0, endOfGroup = False, seenPriorGroupIdGap = None,
      totalBytes = 0, pinCount = 0, group_in_lru = False, group_in_global = False\<rparr>"

type_synonym taddr = nat
type_synonym gaddr = nat
type_synonym waddr = nat

record fetch_in_progress =
  fip_end :: location
  fip_progress :: location
  fip_writeback :: waddr

record ('e, 's) cache_track =
  groups :: "(u64 \<times> gaddr) list"
  gaps :: 's
  cachedContent :: 's
  liveWritebackCount :: nat
  endOfTrack :: bool
  largestGroupAndObject :: "location option"
  fetchesInProgress :: "(location \<times> fetch_in_progress) list"
  track_in_lru :: bool
  groupLRU :: "(gaddr \<times> u64) list"
  maxCacheDuration :: "int option"
  track_extensions :: 'e
  evicted :: bool
  lastWrite :: int

text \<open>\<^verbatim>\<open>TimePoint::min()\<close>.\<close>

definition time_point_min :: int where
  "time_point_min = - (2 ^ 63)"

definition new_track :: "('e, 's) moxygen \<Rightarrow> ('e, 's) cache_track" where
  "new_track X =
     \<lparr>groups = [], gaps = iv_empty X, cachedContent = iv_empty X, liveWritebackCount = 0,
      endOfTrack = False, largestGroupAndObject = None, fetchesInProgress = [], track_in_lru = False,
      groupLRU = [], maxCacheDuration = None, track_extensions = noExtensions X, evicted = False,
      lastWrite = time_point_min\<rparr>"

record ('e, 's) moqx_cache =
  cache :: "(full_track_name \<times> taddr) list"
  trackLRU :: "(taddr \<times> full_track_name) list"
  globalGroupLRU :: "(gaddr \<times> full_track_name \<times> u64) list"
  maxCachedTracks :: nat
  maxCachedGroupsPerTrack :: nat
  maxCachedBytes :: nat
  minEvictionBytes :: nat
  totalCachedBytes :: nat
  defaultMaxCacheDuration :: "int option"
  maxAllowedCacheDuration :: "int option"
  track_heap :: "taddr \<Rightarrow> ('e, 's) cache_track"
  group_heap :: "gaddr \<Rightarrow> 'e cache_group"
  next_taddr :: taddr
  next_gaddr :: gaddr

definition new_cache :: "('e, 's) moxygen \<Rightarrow> nat \<Rightarrow> nat \<Rightarrow> nat \<Rightarrow> nat \<Rightarrow> ('e, 's) moqx_cache" where
  "new_cache X tracks per_track bytes min_eviction =
     \<lparr>cache = [], trackLRU = [], globalGroupLRU = [], maxCachedTracks = tracks,
      maxCachedGroupsPerTrack = per_track, maxCachedBytes = bytes, minEvictionBytes = min_eviction,
      totalCachedBytes = 0, defaultMaxCacheDuration = None, maxAllowedCacheDuration = None,
      track_heap = (\<lambda>_. new_track X), group_heap = (\<lambda>_. new_group), next_taddr = 0, next_gaddr = 0\<rparr>"

definition upd_track ::
  "taddr \<Rightarrow> (('e, 's) cache_track \<Rightarrow> ('e, 's) cache_track) \<Rightarrow> ('e, 's) moqx_cache \<Rightarrow> ('e, 's) moqx_cache" where
  "upd_track t f c = c\<lparr>track_heap := (track_heap c)(t := f (track_heap c t))\<rparr>"

definition upd_group ::
  "gaddr \<Rightarrow> ('e cache_group \<Rightarrow> 'e cache_group) \<Rightarrow> ('e, 's) moqx_cache \<Rightarrow> ('e, 's) moqx_cache" where
  "upd_group g f c = c\<lparr>group_heap := (group_heap c)(g := f (group_heap c g))\<rparr>"

text \<open>\<^verbatim>\<open>std::make_shared\<close> of a track or a group.\<close>

definition alloc_track :: "('e, 's) moxygen \<Rightarrow> ('e, 's) moqx_cache \<Rightarrow> ('e, 's) moqx_cache \<times> taddr" where
  "alloc_track X c =
     (upd_track (next_taddr c) (\<lambda>_. new_track X) c\<lparr>next_taddr := next_taddr c + 1\<rparr>, next_taddr c)"

definition alloc_group :: "('e, 's) moqx_cache \<Rightarrow> ('e, 's) moqx_cache \<times> gaddr" where
  "alloc_group c =
     (upd_group (next_gaddr c) (\<lambda>_. new_group) c\<lparr>next_gaddr := next_gaddr c + 1\<rparr>, next_gaddr c)"

section \<open>A track\<close>

definition kMaxGapIntervalsPerTrack :: nat where
  "kMaxGapIntervalsPerTrack = 256"

definition kMaxGapValidation :: nat where
  "kMaxGapValidation = 100"

definition updateLargest ::
  "location \<Rightarrow> bool \<Rightarrow> ('e, 's) cache_track \<Rightarrow> ('e, 's) cache_track \<times> publish_error option" where
  "updateLargest current eot T =
     (if largestGroupAndObject T = None \<or> current > the (largestGroupAndObject T) then
        if endOfTrack T then (T, Some (MalformedTrack ''Malformed track''))
        else (T\<lparr>endOfTrack := eot, largestGroupAndObject := Some current\<rparr>, None)
      else if eot then
        if current \<noteq> the (largestGroupAndObject T) then (T, Some (MalformedTrack ''Malformed track''))
        else (T\<lparr>endOfTrack := True\<rparr>, None)
      else (T, None))"

definition fetchOkEnd ::
  "('e, 's) moxygen \<Rightarrow> location \<Rightarrow> location \<Rightarrow> ('e, 's) cache_track \<Rightarrow> location \<times> bool" where
  "fetchOkEnd X start exclusiveEnd T =
     (case largestGroupAndObject T of
        None \<Rightarrow> (exclusiveEnd, False)
      | Some lg \<Rightarrow>
          let trackEnd = (case loc_next X lg of None \<Rightarrow> kLocationMax X | Some l \<Rightarrow> l) in
          if exclusiveEnd < trackEnd then (exclusiveEnd, False)
          else if trackEnd \<le> start then (start, False)
          else if \<not> endOfTrack T \<and> liveWritebackCount T = 0 then (exclusiveEnd, False)
          else (trackEnd, endOfTrack T))"

definition canEvict :: "('e, 's) cache_track \<Rightarrow> bool" where
  "canEvict T \<longleftrightarrow> liveWritebackCount T = 0 \<and> fetchesInProgress T = []"

definition isJoinPoint :: "('e, 's) cache_track \<Rightarrow> u64 \<Rightarrow> bool" where
  "isJoinPoint T groupID \<longleftrightarrow> liveWritebackCount T > 0 \<and>
     (case largestGroupAndObject T of None \<Rightarrow> False | Some l \<Rightarrow> fst l = groupID)"

definition shouldSkipCaching :: "('e, 's) cache_track \<Rightarrow> bool" where
  "shouldSkipCaching T \<longleftrightarrow> evicted T \<or> maxCacheDuration T = Some 0"

text \<open>
  The loop of \<^verbatim>\<open>enforceGapLimit\<close>; every round removes an interval, so their number is fuel enough
  (\<open>enforceGapLimit_bound\<close>).
\<close>

fun gap_loop :: "('e, 's) moxygen \<Rightarrow> nat \<Rightarrow> ('e, 's) cache_track \<Rightarrow> ('e, 's) cache_track" where
  "gap_loop X 0 T = T"
| "gap_loop X (Suc n) T =
     (if iv_size X (gaps T) > kMaxGapIntervalsPerTrack then
        (case popFront X (gaps T) of
           None \<Rightarrow> T
         | Some ((a, b), s) \<Rightarrow>
             gap_loop X n (T\<lparr>gaps := s, cachedContent := iv_remove X a b (cachedContent T)\<rparr>))
      else T)"

definition enforceGapLimit :: "('e, 's) moxygen \<Rightarrow> ('e, 's) cache_track \<Rightarrow> ('e, 's) cache_track" where
  "enforceGapLimit X T = gap_loop X (iv_size X (gaps T)) T"

definition insertGap ::
  "('e, 's) moxygen \<Rightarrow> location \<Rightarrow> location \<Rightarrow> ('e, 's) cache_track \<Rightarrow> ('e, 's) cache_track" where
  "insertGap X a b T =
     enforceGapLimit X (T\<lparr>gaps := iv_insert X a b (gaps T),
                          cachedContent := iv_insert X a b (cachedContent T)\<rparr>)"

definition forgetRange ::
  "('e, 's) moxygen \<Rightarrow> location \<Rightarrow> location \<Rightarrow> ('e, 's) cache_track \<Rightarrow> ('e, 's) cache_track" where
  "forgetRange X a b T =
     enforceGapLimit X (T\<lparr>gaps := iv_remove X a b (gaps T),
                          cachedContent := iv_remove X a b (cachedContent T)\<rparr>)"

section \<open>Eviction order\<close>

definition addTrackToLRU :: "full_track_name \<Rightarrow> taddr \<Rightarrow> ('e, 's) moqx_cache \<Rightarrow> ('e, 's) moqx_cache" where
  "addTrackToLRU ftn t c =
     (if track_in_lru (track_heap c t) then c
      else upd_track t (\<lambda>T. T\<lparr>track_in_lru := True\<rparr>) (c\<lparr>trackLRU := (t, ftn) # trackLRU c\<rparr>))"

definition removeTrackFromLRU :: "taddr \<Rightarrow> ('e, 's) moqx_cache \<Rightarrow> ('e, 's) moqx_cache" where
  "removeTrackFromLRU t c =
     (if \<not> track_in_lru (track_heap c t) then c
      else upd_track t (\<lambda>T. T\<lparr>track_in_lru := False\<rparr>)
             (c\<lparr>trackLRU := filter (\<lambda>(a, _). a \<noteq> t) (trackLRU c)\<rparr>))"

definition onTrackBecameEvictable :: "full_track_name \<Rightarrow> ('e, 's) moqx_cache \<Rightarrow> ('e, 's) moqx_cache" where
  "onTrackBecameEvictable ftn c =
     (case map_of (cache c) ftn of
        None \<Rightarrow> c
      | Some t \<Rightarrow> if canEvict (track_heap c t) then addTrackToLRU ftn t c else c)"

definition addGroupToLRU ::
  "full_track_name \<Rightarrow> u64 \<Rightarrow> gaddr \<Rightarrow> taddr \<Rightarrow> ('e, 's) moqx_cache \<Rightarrow> ('e, 's) moqx_cache" where
  "addGroupToLRU ftn groupID g t c =
     (if group_in_lru (group_heap c g) then c
      else if evicted (track_heap c t) \<or> map_of (groups (track_heap c t)) groupID \<noteq> Some g then c
      else upd_group g (\<lambda>G. G\<lparr>group_in_lru := True, group_in_global := True\<rparr>)
             (upd_track t (\<lambda>T. T\<lparr>groupLRU := (g, groupID) # groupLRU T\<rparr>)
                (c\<lparr>globalGroupLRU := (g, ftn, groupID) # globalGroupLRU c\<rparr>)))"

text \<open>Unlink the node of a group from the list of its track, and from the global list.\<close>

definition unlink_track_node :: "gaddr \<Rightarrow> taddr \<Rightarrow> ('e, 's) moqx_cache \<Rightarrow> ('e, 's) moqx_cache" where
  "unlink_track_node g t c =
     upd_group g (\<lambda>G. G\<lparr>group_in_lru := False\<rparr>)
       (upd_track t (\<lambda>T. T\<lparr>groupLRU := filter (\<lambda>(a, _). a \<noteq> g) (groupLRU T)\<rparr>) c)"

definition unlink_global_node :: "gaddr \<Rightarrow> ('e, 's) moqx_cache \<Rightarrow> ('e, 's) moqx_cache" where
  "unlink_global_node g c =
     upd_group g (\<lambda>G. G\<lparr>group_in_global := False\<rparr>)
       (c\<lparr>globalGroupLRU := filter (\<lambda>(a, _). a \<noteq> g) (globalGroupLRU c)\<rparr>)"

definition removeGroupFromLRU :: "gaddr \<Rightarrow> taddr \<Rightarrow> ('e, 's) moqx_cache \<Rightarrow> ('e, 's) moqx_cache" where
  "removeGroupFromLRU g t c =
     (if \<not> group_in_lru (group_heap c g) then c
      else
        let c1 = unlink_track_node g t c
        in if group_in_global (group_heap c1 g) then unlink_global_node g c1 else c1)"

definition pinGroup :: "gaddr \<Rightarrow> taddr \<Rightarrow> ('e, 's) moqx_cache \<Rightarrow> ('e, 's) moqx_cache" where
  "pinGroup g t c =
     (let n = pinCount (group_heap c g);
          c1 = upd_group g (\<lambda>G. G\<lparr>pinCount := n + 1\<rparr>) c
      in if n = 0 then removeGroupFromLRU g t c1 else c1)"

definition unpinGroup ::
  "full_track_name \<Rightarrow> u64 \<Rightarrow> gaddr \<Rightarrow> taddr \<Rightarrow> ('e, 's) moqx_cache \<Rightarrow> ('e, 's) moqx_cache option" where
  "unpinGroup ftn groupID g t c =
     (if pinCount (group_heap c g) = 0 then None
      else
        let c1 = upd_group g (\<lambda>G. G\<lparr>pinCount := pinCount G - 1\<rparr>) c
        in Some (if pinCount (group_heap c1 g) = 0 then addGroupToLRU ftn groupID g t c1 else c1))"

section \<open>Eviction\<close>

definition evictGroup ::
  "('e, 's) moxygen \<Rightarrow> taddr \<Rightarrow> u64 \<Rightarrow> ('e, 's) moqx_cache \<Rightarrow> ('e, 's) moqx_cache option" where
  "evictGroup X t groupID c =
     (case map_of (groups (track_heap c t)) groupID of
        None \<Rightarrow> Some c
      | Some g \<Rightarrow>
          let c1 = (if group_in_lru (group_heap c g) then unlink_track_node g t c else c);
              c2 = (if group_in_global (group_heap c1 g) then unlink_global_node g c1 else c1);
              c3 = upd_track t (forgetRange X (groupID, 0) (groupID, max_object X)) c2;
              gap = (case seenPriorGroupIdGap (group_heap c3 g) of None \<Rightarrow> 0 | Some v \<Rightarrow> v);
              c4 = (if gap > 0
                    then upd_track t (forgetRange X (u64_sub groupID gap, 0) (u64_sub groupID 1, max_object X)) c3
                    else c3)
          in if totalCachedBytes c4 < totalBytes (group_heap c4 g) then None
             else Some (upd_track t (\<lambda>T. T\<lparr>groups := filter (\<lambda>(k, _). k \<noteq> groupID) (groups T)\<rparr>)
                    (c4\<lparr>totalCachedBytes := totalCachedBytes c4 - totalBytes (group_heap c4 g)\<rparr>)))"

text \<open>Gap bookkeeping changes nothing else of a track.\<close>

lemma gap_loop_shape: "\<exists>a b. gap_loop X n T = T\<lparr>gaps := a, cachedContent := b\<rparr>"
proof (induction X n T rule: gap_loop.induct)
  case (1 X T)
  show ?case by (rule exI [of _ "gaps T"], rule exI [of _ "cachedContent T"]) simp
next
  case (2 X n T)
  have same: "\<exists>a b. T = T\<lparr>gaps := a, cachedContent := b\<rparr>"
    by (rule exI [of _ "gaps T"], rule exI [of _ "cachedContent T"]) simp
  show ?case
  proof (cases "iv_size X (gaps T) > kMaxGapIntervalsPerTrack")
    case True
    then show ?thesis using 2 same by (auto split: option.splits)
  next
    case False
    then show ?thesis using same by simp
  qed
qed

lemma forgetRange_shape: "\<exists>a b. forgetRange X l h T = T\<lparr>gaps := a, cachedContent := b\<rparr>"
  using gap_loop_shape [of X "iv_size X (iv_remove X l h (gaps T))"
      "T\<lparr>gaps := iv_remove X l h (gaps T), cachedContent := iv_remove X l h (cachedContent T)\<rparr>"]
  by (auto simp: forgetRange_def enforceGapLimit_def)

lemma insertGap_shape: "\<exists>a b. insertGap X l h T = T\<lparr>gaps := a, cachedContent := b\<rparr>"
  using gap_loop_shape [of X "iv_size X (iv_insert X l h (gaps T))"
      "T\<lparr>gaps := iv_insert X l h (gaps T), cachedContent := iv_insert X l h (cachedContent T)\<rparr>"]
  by (auto simp: insertGap_def enforceGapLimit_def)

lemma forgetRange_frame [simp]:
  "groups (forgetRange X l h T) = groups T"
  "groupLRU (forgetRange X l h T) = groupLRU T"
  "liveWritebackCount (forgetRange X l h T) = liveWritebackCount T"
  "fetchesInProgress (forgetRange X l h T) = fetchesInProgress T"
  "track_in_lru (forgetRange X l h T) = track_in_lru T"
  "evicted (forgetRange X l h T) = evicted T"
  "largestGroupAndObject (forgetRange X l h T) = largestGroupAndObject T"
  "endOfTrack (forgetRange X l h T) = endOfTrack T"
  "maxCacheDuration (forgetRange X l h T) = maxCacheDuration T"
  using forgetRange_shape [of X l h T] by auto

lemma insertGap_frame [simp]:
  "groups (insertGap X l h T) = groups T"
  "groupLRU (insertGap X l h T) = groupLRU T"
  "liveWritebackCount (insertGap X l h T) = liveWritebackCount T"
  "fetchesInProgress (insertGap X l h T) = fetchesInProgress T"
  "track_in_lru (insertGap X l h T) = track_in_lru T"
  "evicted (insertGap X l h T) = evicted T"
  "largestGroupAndObject (insertGap X l h T) = largestGroupAndObject T"
  "endOfTrack (insertGap X l h T) = endOfTrack T"
  "maxCacheDuration (insertGap X l h T) = maxCacheDuration T"
  using insertGap_shape [of X l h T] by auto

text \<open>What an eviction leaves of the state.\<close>

definition unlinked :: "'e cache_group \<Rightarrow> 'e cache_group" where
  "unlinked G = G\<lparr>group_in_lru := False, group_in_global := False\<rparr>"

text \<open>What an eviction of a group leaves of the state.\<close>

definition evicts_to :: "taddr \<Rightarrow> u64 \<Rightarrow> gaddr \<Rightarrow> ('e, 's) moqx_cache \<Rightarrow> ('e, 's) moqx_cache \<Rightarrow> bool" where
  "evicts_to t gid g c c' \<longleftrightarrow>
     totalBytes (group_heap c g) \<le> totalCachedBytes c \<and>
     totalCachedBytes c' = totalCachedBytes c - totalBytes (group_heap c g) \<and>
     cache c' = cache c \<and> trackLRU c' = trackLRU c \<and>
     next_taddr c' = next_taddr c \<and> next_gaddr c' = next_gaddr c \<and>
     maxCachedTracks c' = maxCachedTracks c \<and> maxCachedGroupsPerTrack c' = maxCachedGroupsPerTrack c \<and>
     maxCachedBytes c' = maxCachedBytes c \<and> minEvictionBytes c' = minEvictionBytes c \<and>
     globalGroupLRU c' = (if group_in_global (group_heap c g)
       then filter (\<lambda>(x, _). x \<noteq> g) (globalGroupLRU c) else globalGroupLRU c) \<and>
     group_heap c' = (group_heap c)(g := unlinked (group_heap c g)) \<and>
     (\<forall>s. s \<noteq> t \<longrightarrow> track_heap c' s = track_heap c s) \<and>
     groups (track_heap c' t) = filter (\<lambda>(k, _). k \<noteq> gid) (groups (track_heap c t)) \<and>
     groupLRU (track_heap c' t) = (if group_in_lru (group_heap c g)
       then filter (\<lambda>(x, _). x \<noteq> g) (groupLRU (track_heap c t)) else groupLRU (track_heap c t)) \<and>
     liveWritebackCount (track_heap c' t) = liveWritebackCount (track_heap c t) \<and>
     fetchesInProgress (track_heap c' t) = fetchesInProgress (track_heap c t) \<and>
     track_in_lru (track_heap c' t) = track_in_lru (track_heap c t) \<and>
     largestGroupAndObject (track_heap c' t) = largestGroupAndObject (track_heap c t) \<and>
     evicted (track_heap c' t) = evicted (track_heap c t)"

lemma evictGroup_state:
  assumes g: "map_of (groups (track_heap c t)) gid = Some g" and ev: "evictGroup X t gid c = Some c'"
  shows "evicts_to t gid g c c'"
proof -
  define c1 where "c1 = (if group_in_lru (group_heap c g) then unlink_track_node g t c else c)"
  define c2 where "c2 = (if group_in_global (group_heap c1 g) then unlink_global_node g c1 else c1)"
  define c3 where "c3 = upd_track t (forgetRange X (gid, 0) (gid, max_object X)) c2"
  define gap where "gap = (case seenPriorGroupIdGap (group_heap c3 g) of None \<Rightarrow> 0 | Some v \<Rightarrow> v)"
  define c4 where "c4 = (if gap > 0
     then upd_track t (forgetRange X (u64_sub gid gap, 0) (u64_sub gid 1, max_object X)) c3 else c3)"
  have "evictGroup X t gid c =
      (if totalCachedBytes c4 < totalBytes (group_heap c4 g) then None
       else Some (upd_track t (\<lambda>T. T\<lparr>groups := filter (\<lambda>(k, _). k \<noteq> gid) (groups T)\<rparr>)
         (c4\<lparr>totalCachedBytes := totalCachedBytes c4 - totalBytes (group_heap c4 g)\<rparr>)))"
    unfolding evictGroup_def g option.case Let_def c1_def [symmetric]
    unfolding c2_def [symmetric] unfolding c3_def [symmetric] unfolding gap_def [symmetric]
    unfolding c4_def [symmetric] ..
  then have ev': "\<not> totalCachedBytes c4 < totalBytes (group_heap c4 g)"
    "c' = upd_track t (\<lambda>T. T\<lparr>groups := filter (\<lambda>(k, _). k \<noteq> gid) (groups T)\<rparr>)
       (c4\<lparr>totalCachedBytes := totalCachedBytes c4 - totalBytes (group_heap c4 g)\<rparr>)"
    using ev by (simp_all split: if_splits)
  note d = unlink_track_node_def unlink_global_node_def upd_track_def upd_group_def
  have gh: "group_heap c2 = (group_heap c)(g := unlinked (group_heap c g))"
    by (cases "group_heap c g") (auto simp: c2_def c1_def d unlinked_def fun_eq_iff)
  have f2: "totalCachedBytes c2 = totalCachedBytes c" "cache c2 = cache c" "trackLRU c2 = trackLRU c"
    "next_taddr c2 = next_taddr c" "next_gaddr c2 = next_gaddr c"
    "maxCachedTracks c2 = maxCachedTracks c" "maxCachedGroupsPerTrack c2 = maxCachedGroupsPerTrack c"
    "maxCachedBytes c2 = maxCachedBytes c" "minEvictionBytes c2 = minEvictionBytes c"
    "globalGroupLRU c2 = (if group_in_global (group_heap c g)
       then filter (\<lambda>(x, _). x \<noteq> g) (globalGroupLRU c) else globalGroupLRU c)"
    by (simp_all add: c2_def c1_def d)
  have t2: "track_heap c2 = (track_heap c)(t := (track_heap c t)\<lparr>groupLRU := (if group_in_lru (group_heap c g)
       then filter (\<lambda>(x, _). x \<noteq> g) (groupLRU (track_heap c t)) else groupLRU (track_heap c t))\<rparr>)"
    by (simp add: c2_def c1_def d)
  have f4: "group_heap c4 = group_heap c2" "totalCachedBytes c4 = totalCachedBytes c2" "cache c4 = cache c2"
    "trackLRU c4 = trackLRU c2" "next_taddr c4 = next_taddr c2" "next_gaddr c4 = next_gaddr c2"
    "globalGroupLRU c4 = globalGroupLRU c2"
    "maxCachedTracks c4 = maxCachedTracks c2" "maxCachedGroupsPerTrack c4 = maxCachedGroupsPerTrack c2"
    "maxCachedBytes c4 = maxCachedBytes c2" "minEvictionBytes c4 = minEvictionBytes c2"
    by (simp_all add: c4_def c3_def upd_track_def)
  have t4: "groups (track_heap c4 t) = groups (track_heap c2 t)"
    "groupLRU (track_heap c4 t) = groupLRU (track_heap c2 t)"
    "liveWritebackCount (track_heap c4 t) = liveWritebackCount (track_heap c2 t)"
    "fetchesInProgress (track_heap c4 t) = fetchesInProgress (track_heap c2 t)"
    "track_in_lru (track_heap c4 t) = track_in_lru (track_heap c2 t)"
    "largestGroupAndObject (track_heap c4 t) = largestGroupAndObject (track_heap c2 t)"
    "evicted (track_heap c4 t) = evicted (track_heap c2 t)"
    "s \<noteq> t \<Longrightarrow> track_heap c4 s = track_heap c2 s" for s
    by (simp_all add: c4_def c3_def upd_track_def)
  have b: "totalBytes (unlinked (group_heap c g)) = totalBytes (group_heap c g)" by (simp add: unlinked_def)
  show ?thesis
    using ev'(1) unfolding evicts_to_def ev'(2)
    by (simp add: upd_track_def f4 f2 t4 t2 gh b)
qed

lemma evictGroup_absent: "map_of (groups (track_heap c t)) gid = None \<Longrightarrow> evictGroup X t gid c = Some c"
  by (simp add: evictGroup_def)

lemma evictGroup_runs:
  assumes "map_of (groups (track_heap c t)) gid = Some g" and "totalBytes (group_heap c g) \<le> totalCachedBytes c"
  shows "\<exists>c'. evictGroup X t gid c = Some c'"
  using assms
  by (auto simp: evictGroup_def Let_def upd_track_def upd_group_def unlink_track_node_def
      unlink_global_node_def split: option.splits)

lemma evictGroup_groups:
  assumes "evictGroup X t gid c = Some c'"
  shows "groups (track_heap c' t) = filter (\<lambda>(k, _). k \<noteq> gid) (groups (track_heap c t))"
proof (cases "map_of (groups (track_heap c t)) gid")
  case None
  then have "\<forall>x\<in>set (groups (track_heap c t)). case x of (k, _) \<Rightarrow> k \<noteq> gid"
    by (force simp: map_of_eq_None_iff)
  then have "filter (\<lambda>(k, _). k \<noteq> gid) (groups (track_heap c t)) = groups (track_heap c t)"
    by (rule filter_True)
  then show ?thesis using assms None by (simp add: evictGroup_def)
next
  case (Some g)
  from evictGroup_state [OF this assms] show ?thesis by (simp add: evicts_to_def)
qed

text \<open>The loop of \<^verbatim>\<open>evictTrack\<close> over the groups that are left.\<close>

function evict_all_groups ::
  "('e, 's) moxygen \<Rightarrow> taddr \<Rightarrow> ('e, 's) moqx_cache \<Rightarrow> ('e, 's) moqx_cache option" where
  "evict_all_groups X t c =
     (case groups (track_heap c t) of
        [] \<Rightarrow> Some c
      | (gid, g) # _ \<Rightarrow> do { c' \<leftarrow> evictGroup X t gid c; evict_all_groups X t c' })"
  by pat_completeness auto
termination
proof (relation "measure (\<lambda>(X, t, c). length (groups (track_heap c t)))", goal_cases)
  case 1
  show ?case by simp
next
  case (2 X t c x xs gid g c')
  then show ?case by (auto simp: evictGroup_groups le_imp_less_Suc length_filter_le)
qed

declare evict_all_groups.simps [simp del]

definition evictTrack ::
  "('e, 's) moxygen \<Rightarrow> full_track_name \<Rightarrow> ('e, 's) moqx_cache \<Rightarrow> (('e, 's) moqx_cache \<times> nat) option" where
  "evictTrack X ftn c =
     (case map_of (cache c) ftn of
        None \<Rightarrow> Some (c, 0)
      | Some t \<Rightarrow> do {
          let c1 = removeTrackFromLRU t (upd_track t (\<lambda>T. T\<lparr>evicted := True\<rparr>) c);
          c2 \<leftarrow> evict_all_groups X t c1;
          Some (c2\<lparr>cache := filter (\<lambda>(k, _). k \<noteq> ftn) (cache c2)\<rparr>, 1) })"

definition evictOldestTrackIfNeeded ::
  "('e, 's) moxygen \<Rightarrow> ('e, 's) moqx_cache \<Rightarrow> (('e, 's) moqx_cache \<times> bool) option" where
  "evictOldestTrackIfNeeded X c =
     (if maxCachedTracks c = 0 \<or> length (cache c) < maxCachedTracks c then Some (c, True)
      else if trackLRU c = [] then Some (c, False)
      else do { (c', _) \<leftarrow> evictTrack X (snd (last (trackLRU c))) c; Some (c', True) })"

fun evict_tracks ::
  "('e, 's) moxygen \<Rightarrow> full_track_name list \<Rightarrow> ('e, 's) moqx_cache \<Rightarrow> (('e, 's) moqx_cache \<times> nat) option" where
  "evict_tracks X [] c = Some (c, 0)"
| "evict_tracks X (f # fs) c =
     do { (c1, n) \<leftarrow> evictTrack X f c; (c2, m) \<leftarrow> evict_tracks X fs c1; Some (c2, n + m) }"

definition purge_namespace ::
  "('e, 's) moxygen \<Rightarrow> track_namespace \<Rightarrow> ('e, 's) moqx_cache \<Rightarrow> (('e, 's) moqx_cache \<times> nat) option" where
  "purge_namespace X ns c =
     evict_tracks X (filter (\<lambda>f. trackNamespace f = ns) (map fst (cache c))) c"

definition purge_all ::
  "('e, 's) moxygen \<Rightarrow> ('e, 's) moqx_cache \<Rightarrow> (('e, 's) moqx_cache \<times> nat) option" where
  "purge_all X c =
     do { (c', _) \<leftarrow> evict_tracks X (map fst (cache c)) c; Some (c', length (cache c)) }"

text \<open>
  The loop of \<^verbatim>\<open>evictOldestGroupsIfNeeded\<close>: the oldest node is last. A node without its group is
  dropped, as the code does after reporting it.
\<close>

lemma evictGroup_groupLRU:
  assumes "evictGroup X t gid c = Some c'"
  shows "length (groupLRU (track_heap c' t)) \<le> length (groupLRU (track_heap c t))"
proof (cases "map_of (groups (track_heap c t)) gid")
  case None
  then show ?thesis using assms by (simp add: evictGroup_absent)
next
  case (Some g)
  from evictGroup_state [OF this assms] show ?thesis by (simp add: evicts_to_def length_filter_le)
qed

function evict_groups_loop ::
  "('e, 's) moxygen \<Rightarrow> taddr \<Rightarrow> ('e, 's) moqx_cache \<Rightarrow> ('e, 's) moqx_cache option" where
  "evict_groups_loop X t c =
     (if length (groups (track_heap c t)) > maxCachedGroupsPerTrack c \<and> groupLRU (track_heap c t) \<noteq> [] then
        let oldest = snd (last (groupLRU (track_heap c t))) in
        if map_of (groups (track_heap c t)) oldest = None
        then evict_groups_loop X t (upd_track t (\<lambda>T. T\<lparr>groupLRU := butlast (groupLRU T)\<rparr>) c)
        else do { c' \<leftarrow> evictGroup X t oldest c; evict_groups_loop X t c' }
      else Some c)"
  by pat_completeness auto
termination
proof (relation "measure (\<lambda>(X, t, c). length (groups (track_heap c t)) + length (groupLRU (track_heap c t)))",
    goal_cases)
  case 1
  show ?case by simp
next
  case (2 X t c oldest)
  then show ?case by (auto simp: upd_track_def)
next
  case (3 X t c oldest c')
  have "length (groups (track_heap c' t)) < length (groups (track_heap c t))"
  proof -
    obtain g where "(oldest, g) \<in> set (groups (track_heap c t))"
      using 3(3) by (auto dest: map_of_SomeD)
    then have "\<exists>x\<in>set (groups (track_heap c t)). \<not> (case x of (k, _) \<Rightarrow> k \<noteq> oldest)" by force
    then show ?thesis using 3(4) by (metis evictGroup_groups length_filter_less)
  qed
  moreover have "length (groupLRU (track_heap c' t)) \<le> length (groupLRU (track_heap c t))"
    using 3(4) by (rule evictGroup_groupLRU)
  ultimately show ?case by simp
qed

declare evict_groups_loop.simps [simp del]

definition evictOldestGroupsIfNeeded ::
  "('e, 's) moxygen \<Rightarrow> taddr \<Rightarrow> ('e, 's) moqx_cache \<Rightarrow> ('e, 's) moqx_cache option" where
  "evictOldestGroupsIfNeeded X t c =
     (if maxCachedGroupsPerTrack c = 0 then Some c else evict_groups_loop X t c)"

text \<open>
  The pass of \<^verbatim>\<open>evictForByteLimitIfNeeded\<close> over the global list, oldest node first. A step unlinks
  at most the node it looks at, so the pass visits the nodes there were at the start.
\<close>

fun byte_limit_loop ::
  "('e, 's) moxygen \<Rightarrow> nat \<Rightarrow> (gaddr \<times> full_track_name \<times> u64) list \<Rightarrow> ('e, 's) moqx_cache \<Rightarrow>
   ('e, 's) moqx_cache option" where
  "byte_limit_loop X target [] c = Some c"
| "byte_limit_loop X target ((g, ftn, gid) # nodes) c =
     (if totalCachedBytes c > target then
        (case map_of (cache c) ftn of
           None \<Rightarrow> byte_limit_loop X target nodes
             (c\<lparr>globalGroupLRU := filter (\<lambda>(a, _). a \<noteq> g) (globalGroupLRU c)\<rparr>)
         | Some t \<Rightarrow>
             if map_of (groups (track_heap c t)) gid = None
             then byte_limit_loop X target nodes
               (c\<lparr>globalGroupLRU := filter (\<lambda>(a, _). a \<noteq> g) (globalGroupLRU c)\<rparr>)
             else if isJoinPoint (track_heap c t) gid then byte_limit_loop X target nodes c
             else do {
               c1 \<leftarrow> evictGroup X t gid c;
               c2 \<leftarrow> (if groups (track_heap c1 t) = [] \<and> canEvict (track_heap c1 t)
                      then map_option fst (evictTrack X ftn c1) else Some c1);
               byte_limit_loop X target nodes c2 })
      else Some c)"

definition evictForByteLimitIfNeeded ::
  "('e, 's) moxygen \<Rightarrow> ('e, 's) moqx_cache \<Rightarrow> (('e, 's) moqx_cache \<times> bool) option" where
  "evictForByteLimitIfNeeded X c =
     (if maxCachedBytes c = 0 \<or> totalCachedBytes c \<le> maxCachedBytes c then Some (c, True)
      else
        let target = (if minEvictionBytes c < maxCachedBytes c
                      then maxCachedBytes c - minEvictionBytes c else 0)
        in do { c' \<leftarrow> byte_limit_loop X target (rev (globalGroupLRU c)) c;
                Some (c', \<not> totalCachedBytes c' > maxCachedBytes c') })"

section \<open>Groups and objects\<close>

definition getOrCreateGroup ::
  "taddr \<Rightarrow> u64 \<Rightarrow> ('e, 's) moqx_cache \<Rightarrow> ('e, 's) moqx_cache \<times> gaddr" where
  "getOrCreateGroup t groupID c =
     (case map_of (groups (track_heap c t)) groupID of
        Some g \<Rightarrow> (c, g)
      | None \<Rightarrow>
          let (c1, g) = alloc_group c
          in (upd_track t (\<lambda>T. T\<lparr>groups := groups T @ [(groupID, g)]\<rparr>) c1, g))"

definition getOrCreateGroupWithEviction ::
  "('e, 's) moxygen \<Rightarrow> full_track_name \<Rightarrow> taddr \<Rightarrow> u64 \<Rightarrow> ('e, 's) moqx_cache \<Rightarrow>
   (('e, 's) moqx_cache \<times> gaddr) option" where
  "getOrCreateGroupWithEviction X ftn t groupID c =
     (case map_of (groups (track_heap c t)) groupID of
        Some g \<Rightarrow> Some (c, g)
      | None \<Rightarrow> do {
          c1 \<leftarrow> evictOldestGroupsIfNeeded X t c;
          let (c2, g) = alloc_group c1;
          let c3 = upd_track t (\<lambda>T. T\<lparr>groups := groups T @ [(groupID, g)]\<rparr>) c2;
          Some (addGroupToLRU ftn groupID g t c3, g) })"

definition processGroupGap ::
  "('e, 's) moxygen \<Rightarrow> taddr \<Rightarrow> u64 \<Rightarrow> u64 \<Rightarrow> ('e, 's) moqx_cache \<Rightarrow>
   ('e, 's) moqx_cache \<times> publish_error option" where
  "processGroupGap X t groupID gap c =
     (if gap > groupID then (c, Some (MalformedTrack ''Prior Group ID Gap larger than Group ID''))
      else
        let (c1, g) = getOrCreateGroup t groupID c in
        case seenPriorGroupIdGap (group_heap c1 g) of
          Some seen \<Rightarrow>
            if seen \<noteq> gap then (c1, Some (MalformedTrack ''Inconsistent Prior Group ID Gap values in group''))
            else (c1, None)
        | None \<Rightarrow>
            let c2 = upd_group g (\<lambda>G. G\<lparr>seenPriorGroupIdGap := Some gap\<rparr>) c1 in
            if gap > 0 then
              if list_ex (\<lambda>k. case map_of (groups (track_heap c2 t)) k of
                     None \<Rightarrow> False | Some h \<Rightarrow> objects (group_heap c2 h) \<noteq> [])
                   [groupID - min gap kMaxGapValidation..<groupID]
              then (c2, Some (MalformedTrack ''Prior Group ID Gap covers existing object''))
              else (upd_track t (insertGap X (groupID - gap, 0) (groupID - 1, max_object X)) c2, None)
            else (c2, None))"

definition processObjectGap ::
  "('e, 's) moxygen \<Rightarrow> taddr \<Rightarrow> u64 \<Rightarrow> u64 \<Rightarrow> u64 \<Rightarrow> ('e, 's) moqx_cache \<Rightarrow>
   ('e, 's) moqx_cache \<times> publish_error option" where
  "processObjectGap X t groupID objectID gap c =
     (if gap > objectID then (c, Some (MalformedTrack ''Prior Object ID Gap larger than Object ID''))
      else if gap > 0 then
        let (c1, g) = getOrCreateGroup t groupID c in
        if list_ex (\<lambda>k. map_of (objects (group_heap c1 g)) k \<noteq> None)
             [objectID - min gap kMaxGapValidation..<objectID]
        then (c1, Some (MalformedTrack ''Prior Object ID Gap covers existing object''))
        else (upd_track t (insertGap X (groupID, objectID - gap) (groupID, objectID - 1)) c1, None)
      else (c, None))"

definition processGapExtensions ::
  "('e, 's) moxygen \<Rightarrow> taddr \<Rightarrow> u64 \<Rightarrow> u64 \<Rightarrow> 'e \<Rightarrow> ('e, 's) moqx_cache \<Rightarrow>
   ('e, 's) moqx_cache \<times> publish_error option" where
  "processGapExtensions X t groupID objectID ext c =
     (let (c1, err) = (case priorGroupIdGap X ext of
            None \<Rightarrow> (c, None) | Some gap \<Rightarrow> processGroupGap X t groupID gap c)
      in if err \<noteq> None then (c1, err)
         else case priorObjectIdGap X ext of
                None \<Rightarrow> (c1, None)
              | Some gap \<Rightarrow> processObjectGap X t groupID objectID gap c1)"

text \<open>An end-of-group or end-of-track object leaves nothing behind it.\<close>

definition mark_end ::
  "('e, 's) moxygen \<Rightarrow> gaddr \<Rightarrow> taddr \<Rightarrow> u64 \<Rightarrow> u64 \<Rightarrow> object_status \<Rightarrow> ('e, 's) moqx_cache \<Rightarrow> ('e, 's) moqx_cache" where
  "mark_end X g t groupID objectID st c =
     (if st = END_OF_GROUP \<or> st = END_OF_TRACK then
        let c1 = (case nextInGroup X (groupID, objectID) of
                    None \<Rightarrow> c
                  | Some nx \<Rightarrow> upd_track t (insertGap X nx (groupID, max_object X)) c);
            c2 = (if st = END_OF_TRACK
                  then (case nextGroup X (groupID, 0) of
                          None \<Rightarrow> c1
                        | Some ng \<Rightarrow> upd_track t (insertGap X ng (kLocationMax X)) c1)
                  else c1)
        in upd_group g (\<lambda>G. G\<lparr>endOfGroup := True\<rparr>) c2
      else c)"

text \<open>The entry for a copy of an object that is already there, and the bytes it adds.\<close>

definition merge_entry ::
  "object_status \<Rightarrow> 'e \<Rightarrow> payload \<Rightarrow> bool \<Rightarrow> int \<Rightarrow> nat \<Rightarrow> 'e cache_entry \<Rightarrow> 'e cache_entry \<times> nat \<times> bool" where
  "merge_entry st ext pl compl now offset e =
     (let e1 = e\<lparr>status := st\<rparr>;
          e2 = (if offset = 0 then e1\<lparr>entry_extensions := ext, cachedAt := now\<rparr> else e1)
      in if complete e2 then (e2, 0, False)
         else
           let frontier = payloadSize e2;
               stop = offset + payload_size pl;
               grows = (offset \<le> frontier \<and> stop > frontier);
               tail = (case pl of None \<Rightarrow> [] | Some bs \<Rightarrow> drop (frontier - offset) bs);
               e3 = (if grows
                     then e2\<lparr>entry_payload := Some ((case entry_payload e2 of None \<Rightarrow> [] | Some bs \<Rightarrow> bs) @ tail),
                             payloadSize := stop\<rparr>
                     else e2)
           in if \<not> compl \<or> payloadSize e3 \<noteq> stop
              then (e3, if grows then stop - frontier else 0, False)
              else (e3\<lparr>complete := True\<rparr>, if grows then stop - frontier else 0, True))"

definition put_object ::
  "u64 \<Rightarrow> 'e cache_entry \<Rightarrow> nat \<Rightarrow> 'e cache_group \<Rightarrow> 'e cache_group" where
  "put_object objectID e added G =
     G\<lparr>objects := upsert objectID e (\<lambda>_. e) (objects G), totalBytes := totalBytes G + added\<rparr>"

text \<open>The last lines of \<^verbatim>\<open>cacheObject\<close>.\<close>

definition note_cached ::
  "('e, 's) moxygen \<Rightarrow> gaddr \<Rightarrow> taddr \<Rightarrow> u64 \<Rightarrow> u64 \<Rightarrow> bool \<Rightarrow> ('e, 's) moqx_cache \<Rightarrow> ('e, 's) moqx_cache" where
  "note_cached X g t groupID objectID compl c =
     upd_group g (\<lambda>G. if objectID \<ge> maxCachedObject G then G\<lparr>maxCachedObject := objectID\<rparr> else G)
       (if compl
        then upd_track t (\<lambda>T. T\<lparr>cachedContent :=
               iv_insert X (groupID, objectID) (groupID, objectID) (cachedContent T)\<rparr>) c
        else c)"

definition payload_mismatch :: "object_status \<Rightarrow> payload \<Rightarrow> bool \<Rightarrow> nat \<Rightarrow> 'e cache_entry \<Rightarrow> bool" where
  "payload_mismatch st pl compl offset e \<longleftrightarrow>
     st = NORMAL \<and> offset = 0 \<and> compl \<and> complete e \<and>
     ((pl = None \<and> entry_payload e \<noteq> None) \<or> (pl \<noteq> None \<and> entry_payload e = None) \<or>
      (pl \<noteq> None \<and> entry_payload e \<noteq> None \<and> payload_size pl \<noteq> payloadSize e))"

record 'e write_request =
  w_subgroup :: u64
  w_object :: u64
  w_status :: object_status
  w_extensions :: 'e
  w_payload :: payload
  w_complete :: bool
  w_datagram :: bool
  w_now :: int
  w_offset :: nat

definition store_object ::
  "('e, 's) moxygen \<Rightarrow> gaddr \<Rightarrow> taddr \<Rightarrow> u64 \<Rightarrow> 'e write_request \<Rightarrow> ('e, 's) moqx_cache \<Rightarrow>
   ('e, 's) moqx_cache \<times> publish_error option" where
  "store_object X g t groupID w c =
     (case map_of (objects (group_heap c g)) (w_object w) of
        None \<Rightarrow>
          if w_offset w > 0 then (c, None)
          else
            let e = \<lparr>subgroup = w_subgroup w, status = w_status w, entry_extensions = w_extensions w,
                     entry_payload = w_payload w, payloadSize = payload_size (w_payload w),
                     complete = w_complete w, forwardingPreferenceIsDatagram = w_datagram w,
                     cachedAt = w_now w\<rparr>
            in (note_cached X g t groupID (w_object w) (w_complete w)
                  (upd_group g (put_object (w_object w) e (payload_size (w_payload w))) c), None)
      | Some e \<Rightarrow>
          if w_status w \<noteq> status e then (c, Some (MalformedTrack ''Invalid status change''))
          else if payload_mismatch (w_status w) (w_payload w) (w_complete w) (w_offset w) e
          then (c, Some (MalformedTrack ''payload mismatch''))
          else if forwardingPreferenceIsDatagram e \<noteq> w_datagram w
          then (c, Some (MalformedTrack ''forwardingPreference mismatch''))
          else
            let (e', added, finished) =
                  merge_entry (w_status w) (w_extensions w) (w_payload w) (w_complete w) (w_now w) (w_offset w) e;
                c' = upd_group g (put_object (w_object w) e' added) c
            in (if finished then note_cached X g t groupID (w_object w) (w_complete w) c' else c', None))"

definition cacheObject ::
  "('e, 's) moxygen \<Rightarrow> gaddr \<Rightarrow> taddr \<Rightarrow> u64 \<Rightarrow> 'e write_request \<Rightarrow> ('e, 's) moqx_cache \<Rightarrow>
   ('e, 's) moqx_cache \<times> publish_error option" where
  "cacheObject X g t groupID w c =
     (if iv_contains X (gaps (track_heap c t)) (groupID, w_object w)
      then (c, Some (MalformedTrack ''Object in known gap''))
      else
        let (c1, err) = processGapExtensions X t groupID (w_object w) (w_extensions w) c
        in if err \<noteq> None then (c1, err)
           else store_object X g t groupID w (mark_end X g t groupID (w_object w) (w_status w) c1))"

definition cacheObjectAndUpdateBytes ::
  "('e, 's) moxygen \<Rightarrow> gaddr \<Rightarrow> taddr \<Rightarrow> u64 \<Rightarrow> 'e write_request \<Rightarrow> ('e, 's) moqx_cache \<Rightarrow>
   (('e, 's) moqx_cache \<times> publish_error option) option" where
  "cacheObjectAndUpdateBytes X g t groupID w c =
     (let old = totalBytes (group_heap c g);
          (c1, err) = cacheObject X g t groupID w c;
          new = totalBytes (group_heap c1 g)
      in if err \<noteq> None then Some (c1, err)
         else if new < old \<and> totalCachedBytes c1 < old - new then None
         else do {
           let c2 = c1\<lparr>totalCachedBytes := (if new \<ge> old then totalCachedBytes c1 + (new - old)
                                              else totalCachedBytes c1 - (old - new))\<rparr>;
           let c3 = upd_track t (\<lambda>T. T\<lparr>lastWrite := w_now w\<rparr>) c2;
           (c4, _) \<leftarrow> evictForByteLimitIfNeeded X c3;
           Some (c4, None) })"

section \<open>Lookup and expiry\<close>

text \<open>A duration compared with a time difference is converted to nanoseconds in 64 bits.\<close>

definition expired :: "int \<Rightarrow> int \<Rightarrow> 'e cache_entry \<Rightarrow> bool" where
  "expired durationMs now e \<longleftrightarrow> now - cachedAt e > wrap_i64 (durationMs * 10 ^ 6)"

definition effective_duration :: "taddr \<Rightarrow> ('e, 's) moqx_cache \<Rightarrow> int option" where
  "effective_duration t c =
     (case maxCacheDuration (track_heap c t) of Some d \<Rightarrow> Some d | None \<Rightarrow> defaultMaxCacheDuration c)"

definition getCachedObjectMaybe ::
  "('e, 's) moxygen \<Rightarrow> taddr \<Rightarrow> location \<Rightarrow> int \<Rightarrow> ('e, 's) moqx_cache \<Rightarrow>
   ('e, 's) moqx_cache \<times> 'e cache_entry option" where
  "getCachedObjectMaybe X t current now c =
     (case map_of (groups (track_heap c t)) (fst current) of
        None \<Rightarrow> (c, None)
      | Some g \<Rightarrow>
          case map_of (objects (group_heap c g)) (snd current) of
            None \<Rightarrow> (c, None)
          | Some e \<Rightarrow>
              if (case effective_duration t c of None \<Rightarrow> False | Some d \<Rightarrow> expired d now e) then
                (upd_group g (\<lambda>G. G\<lparr>totalBytes := totalBytes G - payloadSize e,
                                    objects := filter (\<lambda>(k, _). k \<noteq> snd current) (objects G)\<rparr>)
                   (upd_track t (\<lambda>T. T\<lparr>cachedContent := iv_remove X current current (cachedContent T)\<rparr>)
                      (c\<lparr>totalCachedBytes := totalCachedBytes c - payloadSize e\<rparr>)), None)
              else if \<not> complete e then (c, None)
              else (c, Some e))"

definition hasCachedObject ::
  "('e, 's) moxygen \<Rightarrow> full_track_name \<Rightarrow> location \<Rightarrow> int \<Rightarrow> ('e, 's) moqx_cache \<Rightarrow> ('e, 's) moqx_cache \<times> bool" where
  "hasCachedObject X ftn l now c =
     (case map_of (cache c) ftn of
        None \<Rightarrow> (c, False)
      | Some t \<Rightarrow> let (c', e) = getCachedObjectMaybe X t l now c in (c', e \<noteq> None))"

section \<open>Tracks and settings\<close>

text \<open>\<^verbatim>\<open>cache_.emplace(ftn, std::make_shared<CacheTrack>())\<close> for a name that is not there.\<close>

definition emplace_track ::
  "('e, 's) moxygen \<Rightarrow> full_track_name \<Rightarrow> ('e, 's) moqx_cache \<Rightarrow> ('e, 's) moqx_cache \<times> taddr" where
  "emplace_track X ftn c =
     (let (c1, t) = alloc_track X c in (c1\<lparr>cache := cache c1 @ [(ftn, t)]\<rparr>, t))"

definition getOrCreateTrack ::
  "('e, 's) moxygen \<Rightarrow> full_track_name \<Rightarrow> ('e, 's) moqx_cache \<Rightarrow> ('e, 's) moqx_cache \<times> taddr" where
  "getOrCreateTrack X ftn c =
     (case map_of (cache c) ftn of
        Some t \<Rightarrow> (c, t)
      | None \<Rightarrow> let (c1, t) = emplace_track X ftn c in (addTrackToLRU ftn t c1, t))"

definition setMaxCacheDuration ::
  "('e, 's) moxygen \<Rightarrow> full_track_name \<Rightarrow> int \<Rightarrow> ('e, 's) moqx_cache \<Rightarrow> ('e, 's) moqx_cache" where
  "setMaxCacheDuration X ftn duration c =
     (let (c1, t) = getOrCreateTrack X ftn c
      in upd_track t (\<lambda>T. T\<lparr>maxCacheDuration := Some duration\<rparr>) c1)"

definition clearMaxCacheDuration :: "full_track_name \<Rightarrow> ('e, 's) moqx_cache \<Rightarrow> ('e, 's) moqx_cache" where
  "clearMaxCacheDuration ftn c =
     (case map_of (cache c) ftn of
        None \<Rightarrow> c
      | Some t \<Rightarrow> upd_track t (\<lambda>T. T\<lparr>maxCacheDuration := None\<rparr>) c)"

definition getEffectiveCacheDuration :: "('e, 's) moxygen \<Rightarrow> 'e \<Rightarrow> ('e, 's) moqx_cache \<Rightarrow> int option" where
  "getEffectiveCacheDuration X ext c =
     (case maxCacheDurationMs X ext of
        Some ms \<Rightarrow>
          let dur = wrap_i64 (int ms)
          in Some (case maxAllowedCacheDuration c of None \<Rightarrow> dur | Some cap \<Rightarrow> min dur cap)
      | None \<Rightarrow> defaultMaxCacheDuration c)"

definition setTrackState ::
  "('e, 's) moxygen \<Rightarrow> full_track_name \<Rightarrow> location option \<Rightarrow> 'e \<Rightarrow> ('e, 's) moqx_cache \<Rightarrow> ('e, 's) moqx_cache" where
  "setTrackState X ftn largest ext c =
     (let c1 = (case getEffectiveCacheDuration X ext c of
                  Some d \<Rightarrow> setMaxCacheDuration X ftn d c
                | None \<Rightarrow> clearMaxCacheDuration ftn c);
          (c2, t) = getOrCreateTrack X ftn c1;
          c3 = upd_track t (\<lambda>T. T\<lparr>track_extensions := ext\<rparr>) c2
      in case largest of
           None \<Rightarrow> c3
         | Some l \<Rightarrow> upd_track t (\<lambda>T. fst (updateLargest l False T)) c3)"

text \<open>\<^verbatim>\<open>setMaxCachedTracks\<close> loops while a track can be evicted.\<close>

partial_function (option) evict_tracks_loop ::
  "('e, 's) moxygen \<Rightarrow> ('e, 's) moqx_cache \<Rightarrow> ('e, 's) moqx_cache option" where
  "evict_tracks_loop X c =
     (if maxCachedTracks c > 0 \<and> length (cache c) > maxCachedTracks c \<and> trackLRU c \<noteq> []
      then do { (c', _) \<leftarrow> evictOldestTrackIfNeeded X c; evict_tracks_loop X c' }
      else Some c)"

definition setMaxCachedTracks ::
  "('e, 's) moxygen \<Rightarrow> nat \<Rightarrow> ('e, 's) moqx_cache \<Rightarrow> ('e, 's) moqx_cache option" where
  "setMaxCachedTracks X n c = evict_tracks_loop X (c\<lparr>maxCachedTracks := n\<rparr>)"

definition setMaxCachedBytes ::
  "('e, 's) moxygen \<Rightarrow> nat \<Rightarrow> ('e, 's) moqx_cache \<Rightarrow> ('e, 's) moqx_cache option" where
  "setMaxCachedBytes X n c = map_option fst (evictForByteLimitIfNeeded X (c\<lparr>maxCachedBytes := n\<rparr>))"

fun evict_groups_of ::
  "('e, 's) moxygen \<Rightarrow> taddr list \<Rightarrow> ('e, 's) moqx_cache \<Rightarrow> ('e, 's) moqx_cache option" where
  "evict_groups_of X [] c = Some c"
| "evict_groups_of X (t # ts) c = do { c' \<leftarrow> evictOldestGroupsIfNeeded X t c; evict_groups_of X ts c' }"

definition setMaxCachedGroupsPerTrack ::
  "('e, 's) moxygen \<Rightarrow> nat \<Rightarrow> ('e, 's) moqx_cache \<Rightarrow> ('e, 's) moqx_cache option" where
  "setMaxCachedGroupsPerTrack X n c =
     (let c1 = c\<lparr>maxCachedGroupsPerTrack := n\<rparr>
      in if n < maxCachedGroupsPerTrack c then evict_groups_of X (map snd (cache c1)) c1 else Some c1)"

section \<open>Statistics\<close>

record track_stats =
  stats_name :: full_track_name
  stats_endOfTrack :: bool
  stats_lastWrite :: int
  stats_groups :: "(u64 \<times> nat) list"

definition getTrackStats :: "('e, 's) moqx_cache \<Rightarrow> track_stats list" where
  "getTrackStats c =
     map (\<lambda>(ftn, t).
       \<lparr>stats_name = ftn, stats_endOfTrack = endOfTrack (track_heap c t),
        stats_lastWrite = lastWrite (track_heap c t),
        stats_groups = sort_key fst
          (map (\<lambda>(gid, g). (gid, length (objects (group_heap c g)))) (groups (track_heap c t)))\<rparr>) (cache c)"

end
