(* ===== verification/Cache_Writeback.thy ===== *)
theory Cache_Writeback
  imports Cache_Store
begin

text \<open>
  The writers of the object cache, \<^verbatim>\<open>src/MoqxCache.cpp\<close>: the filters on a subscription and on its
  subgroups. A filter passes each call on to its consumer or fails it; the consumer is outside the model, so
  an operation returns \<open>Forward\<close> with the end-of-stream flag it passes on, or \<open>Fail\<close> with the error
  and whether the consumer is reset. \<open>None\<close> is an aborting check or a loop without end.
\<close>

datatype outcome = Forward bool | Fail publish_error bool

definition result :: "bool \<Rightarrow> publish_error option \<Rightarrow> bool \<Rightarrow> outcome" where
  "result resets err fin = (case err of None \<Rightarrow> Forward fin | Some e \<Rightarrow> Fail e resets)"

section \<open>Subgroups\<close>

record subgroup_writeback =
  gw_group :: u64
  gw_subgroup :: u64
  gw_track :: taddr
  gw_gaddr :: gaddr
  gw_ftn :: full_track_name
  gw_currentObject :: u64
  gw_currentLength :: nat
  gw_currentOffset :: nat
  gw_caching :: bool

definition new_subgroup_writeback ::
  "u64 \<Rightarrow> u64 \<Rightarrow> taddr \<Rightarrow> gaddr \<Rightarrow> full_track_name \<Rightarrow> ('e, 's) moqx_cache \<Rightarrow>
   subgroup_writeback \<times> ('e, 's) moqx_cache" where
  "new_subgroup_writeback grp sub t g ftn c =
     (\<lparr>gw_group = grp, gw_subgroup = sub, gw_track = t, gw_gaddr = g, gw_ftn = ftn,
       gw_currentObject = 0, gw_currentLength = 0, gw_currentOffset = 0, gw_caching = False\<rparr>,
      pinGroup g t c)"

definition subgroup_destroy ::
  "subgroup_writeback \<Rightarrow> ('e, 's) moqx_cache \<Rightarrow> ('e, 's) moqx_cache option" where
  "subgroup_destroy wb c = unpinGroup (gw_ftn wb) (gw_group wb) (gw_gaddr wb) (gw_track wb) c"

text \<open>Note the largest location, then write.\<close>

definition note_and_write ::
  "('e, 's) moxygen \<Rightarrow> gaddr \<Rightarrow> taddr \<Rightarrow> u64 \<Rightarrow> bool \<Rightarrow> 'e write_request \<Rightarrow> ('e, 's) moqx_cache \<Rightarrow>
   (('e, 's) moqx_cache \<times> publish_error option) option" where
  "note_and_write X g t groupID eot w c =
     (let (T, err) = updateLargest (groupID, w_object w) eot (track_heap c t);
          c1 = upd_track t (\<lambda>_. T) c
      in if err \<noteq> None then Some (c1, err) else cacheObjectAndUpdateBytes X g t groupID w c1)"

definition subgroup_object ::
  "('e, 's) moxygen \<Rightarrow> subgroup_writeback \<Rightarrow> u64 \<Rightarrow> payload \<Rightarrow> 'e \<Rightarrow> bool \<Rightarrow> int \<Rightarrow> ('e, 's) moqx_cache \<Rightarrow>
   (('e, 's) moqx_cache \<times> outcome) option" where
  "subgroup_object X wb objID pl ext finSub now c =
     (if shouldSkipCaching (track_heap c (gw_track wb)) then Some (c, Forward finSub)
      else do {
        (c1, err) \<leftarrow> note_and_write X (gw_gaddr wb) (gw_track wb) (gw_group wb) False
          \<lparr>w_subgroup = gw_subgroup wb, w_object = objID, w_status = NORMAL, w_extensions = ext,
           w_payload = pl, w_complete = True, w_datagram = False, w_now = now, w_offset = 0\<rparr> c;
        Some (c1, result True err finSub) })"

definition subgroup_beginObject ::
  "('e, 's) moxygen \<Rightarrow> subgroup_writeback \<Rightarrow> u64 \<Rightarrow> nat \<Rightarrow> payload \<Rightarrow> 'e \<Rightarrow> int \<Rightarrow> ('e, 's) moqx_cache \<Rightarrow>
   (subgroup_writeback \<times> ('e, 's) moqx_cache \<times> outcome) option" where
  "subgroup_beginObject X wb objID len initial ext now c =
     (let wb1 = wb\<lparr>gw_caching := \<not> shouldSkipCaching (track_heap c (gw_track wb))\<rparr> in
      if \<not> gw_caching wb1 then Some (wb1, c, Forward False)
      else
        let (T, err) = updateLargest (gw_group wb, objID) False (track_heap c (gw_track wb));
            c1 = upd_track (gw_track wb) (\<lambda>_. T) c
        in case err of
             Some e \<Rightarrow> Some (wb1, c1, Fail e True)
           | None \<Rightarrow>
               if \<not> payload_size initial \<le> len then None
               else do {
                 (c2, err2) \<leftarrow> cacheObjectAndUpdateBytes X (gw_gaddr wb) (gw_track wb) (gw_group wb)
                   \<lparr>w_subgroup = gw_subgroup wb, w_object = objID, w_status = NORMAL, w_extensions = ext,
                    w_payload = initial, w_complete = (payload_size initial = len), w_datagram = False,
                    w_now = now, w_offset = 0\<rparr> c1;
                 Some (if err2 \<noteq> None then wb1
                       else wb1\<lparr>gw_currentObject := objID, gw_currentLength := len,
                                gw_currentOffset := payload_size initial\<rparr>,
                       c2, result True err2 False) })"

definition subgroup_objectPayload ::
  "('e, 's) moxygen \<Rightarrow> subgroup_writeback \<Rightarrow> string \<Rightarrow> bool \<Rightarrow> int \<Rightarrow> ('e, 's) moqx_cache \<Rightarrow>
   (subgroup_writeback \<times> ('e, 's) moqx_cache \<times> outcome) option" where
  "subgroup_objectPayload X wb bs finSub now c =
     (if \<not> gw_caching wb \<or> evicted (track_heap c (gw_track wb)) then Some (wb, c, Forward finSub)
      else if gw_currentOffset wb + length bs > gw_currentLength wb
      then Some (wb, c, Fail (MalformedTrack ''Payload past object length'') True)
      else do {
        (c1, err) \<leftarrow> cacheObjectAndUpdateBytes X (gw_gaddr wb) (gw_track wb) (gw_group wb)
          \<lparr>w_subgroup = gw_subgroup wb, w_object = gw_currentObject wb, w_status = NORMAL,
           w_extensions = noExtensions X, w_payload = Some bs,
           w_complete = (gw_currentOffset wb + length bs = gw_currentLength wb), w_datagram = False,
           w_now = now, w_offset = gw_currentOffset wb\<rparr> c;
        Some (if err \<noteq> None then wb else wb\<lparr>gw_currentOffset := gw_currentOffset wb + length bs\<rparr>,
              c1, result True err finSub) })"

definition subgroup_endOfGroup ::
  "('e, 's) moxygen \<Rightarrow> subgroup_writeback \<Rightarrow> u64 \<Rightarrow> int \<Rightarrow> ('e, 's) moqx_cache \<Rightarrow>
   (('e, 's) moqx_cache \<times> outcome) option" where
  "subgroup_endOfGroup X wb objID now c =
     (if shouldSkipCaching (track_heap c (gw_track wb)) then Some (c, Forward False)
      else do {
        (c1, err) \<leftarrow> note_and_write X (gw_gaddr wb) (gw_track wb) (gw_group wb) False
          \<lparr>w_subgroup = gw_subgroup wb, w_object = objID, w_status = END_OF_GROUP,
           w_extensions = noExtensions X, w_payload = None, w_complete = True, w_datagram = False,
           w_now = now, w_offset = 0\<rparr> c;
        Some (c1, result True err False) })"

definition subgroup_endOfTrackAndGroup ::
  "('e, 's) moxygen \<Rightarrow> subgroup_writeback \<Rightarrow> u64 \<Rightarrow> int \<Rightarrow> ('e, 's) moqx_cache \<Rightarrow>
   (('e, 's) moqx_cache \<times> outcome) option" where
  "subgroup_endOfTrackAndGroup X wb objID now c =
     (if shouldSkipCaching (track_heap c (gw_track wb)) then Some (c, Forward False)
      else do {
        (c1, err) \<leftarrow> note_and_write X (gw_gaddr wb) (gw_track wb) (gw_group wb) True
          \<lparr>w_subgroup = gw_subgroup wb, w_object = objID, w_status = END_OF_TRACK,
           w_extensions = noExtensions X, w_payload = None, w_complete = True, w_datagram = False,
           w_now = now, w_offset = 0\<rparr> c;
        Some (c1, result True err False) })"

section \<open>Subscriptions\<close>

record subscribe_writeback =
  sw_track :: taddr
  sw_ftn :: full_track_name

definition new_subscribe_writeback ::
  "taddr \<Rightarrow> full_track_name \<Rightarrow> ('e, 's) moqx_cache \<Rightarrow> subscribe_writeback \<times> ('e, 's) moqx_cache" where
  "new_subscribe_writeback t ftn c =
     (\<lparr>sw_track = t, sw_ftn = ftn\<rparr>,
      upd_track t (\<lambda>T. T\<lparr>liveWritebackCount := liveWritebackCount T + 1\<rparr>) (removeTrackFromLRU t c))"

definition subscribe_destroy ::
  "subscribe_writeback \<Rightarrow> ('e, 's) moqx_cache \<Rightarrow> ('e, 's) moqx_cache option" where
  "subscribe_destroy wb c =
     (if liveWritebackCount (track_heap c (sw_track wb)) = 0 then None
      else Some (onTrackBecameEvictable (sw_ftn wb)
             (upd_track (sw_track wb) (\<lambda>T. T\<lparr>liveWritebackCount := liveWritebackCount T - 1\<rparr>) c)))"

definition getSubscribeWriteback ::
  "('e, 's) moxygen \<Rightarrow> full_track_name \<Rightarrow> ('e, 's) moqx_cache \<Rightarrow>
   (subscribe_writeback \<times> ('e, 's) moqx_cache) option" where
  "getSubscribeWriteback X ftn c =
     (case map_of (cache c) ftn of
        Some t \<Rightarrow> Some (new_subscribe_writeback t ftn c)
      | None \<Rightarrow> do {
          c1 \<leftarrow> (if length (cache c) \<ge> maxCachedTracks c
                 then map_option fst (evictOldestTrackIfNeeded X c) else Some c);
          let (c2, t) = emplace_track X ftn c1;
          Some (new_subscribe_writeback t ftn c2) })"

text \<open>\<open>accepted\<close> is whether the consumer opened the subgroup.\<close>

definition subscribe_beginSubgroup ::
  "('e, 's) moxygen \<Rightarrow> subscribe_writeback \<Rightarrow> u64 \<Rightarrow> u64 \<Rightarrow> bool \<Rightarrow> ('e, 's) moqx_cache \<Rightarrow>
   (subgroup_writeback option \<times> ('e, 's) moqx_cache \<times> outcome) option" where
  "subscribe_beginSubgroup X wb groupID subgroupID accepted c =
     (if isGroupNonExistent X (gaps (track_heap c (sw_track wb))) groupID
      then Some (None, c, Fail (MalformedTrack ''Invalid status change'') False)
      else if accepted \<and> \<not> shouldSkipCaching (track_heap c (sw_track wb)) then do {
        (c1, g) \<leftarrow> getOrCreateGroupWithEviction X (sw_ftn wb) (sw_track wb) groupID c;
        let (sg, c2) = new_subgroup_writeback groupID subgroupID (sw_track wb) g (sw_ftn wb) c1;
        Some (Some sg, c2, Forward False) }
      else Some (None, c, Forward False))"

record 'e object_header =
  h_group :: u64
  h_subgroup :: u64
  h_id :: u64
  h_status :: object_status
  h_extensions :: 'e

definition subscribe_write ::
  "('e, 's) moxygen \<Rightarrow> bool \<Rightarrow> subscribe_writeback \<Rightarrow> 'e object_header \<Rightarrow> payload \<Rightarrow> int \<Rightarrow>
   ('e, 's) moqx_cache \<Rightarrow> (('e, 's) moqx_cache \<times> outcome) option" where
  "subscribe_write X dgram wb h pl now c =
     (if shouldSkipCaching (track_heap c (sw_track wb)) then Some (c, Forward False)
      else
        let (T, err) = updateLargest (h_group h, h_id h) (h_status h = END_OF_TRACK) (track_heap c (sw_track wb));
            c1 = upd_track (sw_track wb) (\<lambda>_. T) c
        in case err of
             Some e \<Rightarrow> Some (c1, Fail e False)
           | None \<Rightarrow> do {
               (c2, g) \<leftarrow> getOrCreateGroupWithEviction X (sw_ftn wb) (sw_track wb) (h_group h) c1;
               (c3, err3) \<leftarrow> cacheObjectAndUpdateBytes X g (sw_track wb) (h_group h)
                 \<lparr>w_subgroup = h_subgroup h, w_object = h_id h, w_status = h_status h,
                  w_extensions = h_extensions h, w_payload = pl, w_complete = True, w_datagram = dgram,
                  w_now = now, w_offset = 0\<rparr> c2;
               Some (c3, result False err3 False) })"

definition objectStream where
  "objectStream X = subscribe_write X False"

definition datagram where
  "datagram X = subscribe_write X True"

end
