(* ===== verification/Cache_Fetch.thy ===== *)
theory Cache_Fetch
  imports Cache_Writeback
begin

text \<open>
  The cursor of a fetch over its range and the filter that writes an upstream fetch response to
  the cache, \<^verbatim>\<open>FetchRangeIterator\<close> and \<^verbatim>\<open>FetchWriteback\<close> of \<^verbatim>\<open>src/MoqxCache.cpp\<close>. The cursor keeps the
  group it looked up last by address, as the code keeps a shared pointer. The entry a response
  has in \<^verbatim>\<open>fetchesInProgress\<close> is found by the address of the filter; \<open>fw_key\<close> is its key, \<open>None\<close> once
  it is erased. Batons are the facts that they have been posted.
\<close>

section \<open>The cursor\<close>

record fetch_iterator =
  minLocation :: location
  maxLocation :: location
  it_order :: group_order
  it_track :: taddr
  it_current :: location
  it_end :: location
  it_valid :: bool
  cachedGroupId :: u64
  cachedGroupPtr :: "gaddr option"
  cachedEndGroupId :: u64
  cachedEndGroupPtr :: "gaddr option"

text \<open>The end of a group, and the looked-up group kept for the next call.\<close>

definition findGroupEndMaybe ::
  "('e, 's) moxygen \<Rightarrow> ('e, 's) moqx_cache \<Rightarrow> fetch_iterator \<Rightarrow> u64 \<Rightarrow> u64 \<Rightarrow> gaddr option \<Rightarrow>
   u64 option \<times> u64 \<times> gaddr option" where
  "findGroupEndMaybe X c it currGroup cid cptr =
     (let isFirstGroup = (currGroup = fst (minLocation it));
          isLastGroup = (currGroup = fst (maxLocation it));
          isDescending = (it_order it = NewestFirst)
      in if isLastGroup then
           (Some (if isDescending \<and> \<not> isFirstGroup then u64_sub (snd (maxLocation it)) 1
                  else snd (maxLocation it)), cid, cptr)
         else
           let cptr' = (if cid \<noteq> currGroup then map_of (groups (track_heap c (it_track it))) currGroup else cptr)
           in case cptr' of
                None \<Rightarrow> (None, currGroup, None)
              | Some g \<Rightarrow>
                  let G = group_heap c g;
                      maxObj = maxCachedObject G;
                      endIncl = (if maxObj < max_object X then maxObj + 1 else maxObj);
                      firstUncached = (if endIncl < max_object X then endIncl + 1 else endIncl)
                  in (Some (if isFirstGroup \<and> isDescending
                            then (if endOfGroup G then endIncl else firstUncached)
                            else (if endOfGroup G then maxObj else endIncl)), currGroup, Some g))"

definition advanceOne ::
  "('e, 's) moxygen \<Rightarrow> ('e, 's) moqx_cache \<Rightarrow> fetch_iterator \<Rightarrow> fetch_iterator" where
  "advanceOne X c it =
     (if \<not> it_valid it then it
      else if it_current it = it_end it then it
      else
        let (groupEnd, cid, cptr) =
              findGroupEndMaybe X c it (fst (it_current it)) (cachedGroupId it) (cachedGroupPtr it);
            it1 = it\<lparr>cachedGroupId := cid, cachedGroupPtr := cptr\<rparr>;
            (g, ob) = it_current it
        in if (case groupEnd of None \<Rightarrow> False | Some e \<Rightarrow> ob < e) then it1\<lparr>it_current := (g, u64_add ob 1)\<rparr>
           else if it_order it = NewestFirst then
             if g = 0 then it1\<lparr>it_valid := False\<rparr>
             else it1\<lparr>it_current := (g - 1, if g - 1 = fst (minLocation it) then snd (minLocation it) else 0)\<rparr>
           else if g = fst (maxLocation it) then it1\<lparr>it_current := it_end it\<rparr>
           else it1\<lparr>it_current := (u64_add g 1, 0)\<rparr>)"

partial_function (option) skipGaps ::
  "('e, 's) moxygen \<Rightarrow> ('e, 's) moqx_cache \<Rightarrow> fetch_iterator \<Rightarrow> fetch_iterator option" where
  "skipGaps X c it =
     (if it_valid it \<and> iv_contains X (gaps (track_heap c (it_track it))) (it_current it) then
        (case findInterval X (gaps (track_heap c (it_track it))) (it_current it) of
           None \<Rightarrow> skipGaps X c (advanceOne X c it)
         | Some (gapStart, gapEnd) \<Rightarrow>
             (case (if it_order it \<noteq> NewestFirst then loc_next X gapEnd
                    else computeDescendingAfterGap X (it_current it) gapStart (minLocation it)) of
                None \<Rightarrow> Some (it\<lparr>it_current := it_end it\<rparr>)
              | Some l \<Rightarrow>
                  if (if it_order it \<noteq> NewestFirst then l < it_end it else l \<ge> minLocation it)
                  then skipGaps X c (it\<lparr>it_current := l\<rparr>)
                  else Some (it\<lparr>it_current := it_end it\<rparr>)))
      else Some it)"

declare skipGaps.simps [code]

definition new_iterator ::
  "('e, 's) moxygen \<Rightarrow> location \<Rightarrow> location \<Rightarrow> group_order \<Rightarrow> taddr \<Rightarrow> ('e, 's) moqx_cache \<Rightarrow>
   fetch_iterator option" where
  "new_iterator X start stop order t c =
     (let base = \<lparr>minLocation = start, maxLocation = stop, it_order = order, it_track = t,
                  it_current = start, it_end = stop, it_valid = True,
                  cachedGroupId = max_group X, cachedGroupPtr = None,
                  cachedEndGroupId = max_group X, cachedEndGroupPtr = None\<rparr>;
          it = (if order = NewestFirst \<and> fst start \<noteq> fst stop then
                  let cur = (if snd stop = 0
                             then (u64_sub (fst stop) 1, if u64_sub (fst stop) 1 = fst start then snd start else 0)
                             else (fst stop, 0));
                      endObj = (case map_of (groups (track_heap c t)) (fst start) of
                                  None \<Rightarrow> max_object X
                                | Some g \<Rightarrow>
                                    if endOfGroup (group_heap c g) \<and> maxCachedObject (group_heap c g) < max_object X
                                    then maxCachedObject (group_heap c g) + 1 else max_object X)
                  in base\<lparr>it_current := cur, it_end := (fst start, endObj)\<rparr>
                else base)
      in skipGaps X c it)"

definition invalidate :: "fetch_iterator \<Rightarrow> fetch_iterator" where
  "invalidate it = it\<lparr>it_current := maxLocation it, it_valid := False\<rparr>"

definition advanceTo ::
  "('e, 's) moxygen \<Rightarrow> ('e, 's) moqx_cache \<Rightarrow> location \<Rightarrow> fetch_iterator \<Rightarrow> fetch_iterator option" where
  "advanceTo X c loc it =
     (let it1 = it\<lparr>it_current := loc\<rparr> in
      if (if it_order it \<noteq> NewestFirst then loc > maxLocation it else loc < minLocation it)
      then Some (it1\<lparr>it_valid := False\<rparr>)
      else skipGaps X c it1)"

definition it_next ::
  "('e, 's) moxygen \<Rightarrow> ('e, 's) moqx_cache \<Rightarrow> fetch_iterator \<Rightarrow> fetch_iterator option" where
  "it_next X c it = (if \<not> it_valid it then Some it else skipGaps X c (advanceOne X c it))"

definition findPrevGroupCachedPosition ::
  "('e, 's) moxygen \<Rightarrow> ('e, 's) moqx_cache \<Rightarrow> fetch_iterator \<Rightarrow> location option option" where
  "findPrevGroupCachedPosition X c it =
     (let content = cachedContent (track_heap c (it_track it)) in
      case prevGroupEnd X (it_current it) of
        None \<Rightarrow> Some None
      | Some prevGE \<Rightarrow>
          case (case findInterval X content prevGE of
                  None \<Rightarrow> findPrevInterval X content prevGE | Some i \<Rightarrow> Some i) of
            None \<Rightarrow> Some None
          | Some (_, hi) \<Rightarrow>
              if hi < minLocation it then Some None
              else
                let targetGroup = min (fst hi) (fst prevGE);
                    target = max (targetGroup, 0) (minLocation it)
                in if iv_contains X content target then Some (Some target)
                   else case findNextInterval X content target of
                          None \<Rightarrow> None
                        | Some (lo, _) \<Rightarrow> if fst lo = targetGroup then Some (Some lo) else None)"

definition skipUncached ::
  "('e, 's) moxygen \<Rightarrow> ('e, 's) moqx_cache \<Rightarrow> fetch_iterator \<Rightarrow> fetch_iterator option" where
  "skipUncached X c it =
     (let content = cachedContent (track_heap c (it_track it)) in
      if \<not> it_valid it \<or> it_current it = it_end it then Some it
      else if iv_contains X content (it_current it) then Some it
      else if it_order it \<noteq> NewestFirst then
        (case findNextInterval X content (it_current it) of
           None \<Rightarrow> Some (it\<lparr>it_current := it_end it\<rparr>)
         | Some (lo, _) \<Rightarrow> Some (it\<lparr>it_current := (if lo \<ge> it_end it then it_end it else lo)\<rparr>))
      else
        case findNextInterval X content (it_current it) of
          Some (lo, _) \<Rightarrow>
            if fst lo = fst (it_current it) then Some (it\<lparr>it_current := lo\<rparr>)
            else do { target \<leftarrow> findPrevGroupCachedPosition X c it;
                      Some (case target of None \<Rightarrow> it\<lparr>it_current := (0, 0), it_valid := False\<rparr>
                                         | Some l \<Rightarrow> it\<lparr>it_current := l\<rparr>) }
        | None \<Rightarrow> do { target \<leftarrow> findPrevGroupCachedPosition X c it;
                      Some (case target of None \<Rightarrow> it\<lparr>it_current := (0, 0), it_valid := False\<rparr>
                                         | Some l \<Rightarrow> it\<lparr>it_current := l\<rparr>) })"

definition it_end_location ::
  "('e, 's) moxygen \<Rightarrow> ('e, 's) moqx_cache \<Rightarrow> fetch_iterator \<Rightarrow> fetch_iterator \<times> location" where
  "it_end_location X c it =
     (let T = track_heap c (it_track it) in
      if (endOfTrack T \<and> it_current it > the (largestGroupAndObject T)) \<or> \<not> it_valid it
      then (it\<lparr>it_end := it_current it\<rparr>, it_current it)
      else if it_order it \<noteq> NewestFirst then (it, it_end it)
      else
        let (ge, cid, cptr) = findGroupEndMaybe X c it (fst (it_end it)) (cachedEndGroupId it) (cachedEndGroupPtr it);
            it1 = it\<lparr>cachedEndGroupId := cid, cachedEndGroupPtr := cptr\<rparr>;
            it2 = (case ge of None \<Rightarrow> it1 | Some e \<Rightarrow> it1\<lparr>it_end := (fst (it_end it), e)\<rparr>)
        in (it2, it_end it2))"

section \<open>The response filter\<close>

record fetch_writeback =
  fw_id :: waddr
  fw_key :: "location option"
  fw_pinned :: "gaddr option"
  fw_proxyFin :: bool
  fw_complete :: bool
  fw_currentSubgroup :: u64
  fw_currentLength :: nat
  fw_currentOffset :: nat
  fw_accepted :: bool
  fw_wasReset :: bool
  fw_it :: fetch_iterator
  fw_ftn :: full_track_name
  fw_cachingEnabled :: bool
  fw_upstreamEnd :: "location option"
  fw_largestReceived :: "location option"
  fw_pendingGaps :: "(location \<times> location) list"

abbreviation fw_track :: "fetch_writeback \<Rightarrow> taddr" where
  "fw_track fw \<equiv> it_track (fw_it fw)"

text \<open>\<^verbatim>\<open>std::multimap::emplace\<close>: behind the entries with keys up to the new one.\<close>

fun multimap_emplace :: "location \<Rightarrow> 'a \<Rightarrow> (location \<times> 'a) list \<Rightarrow> (location \<times> 'a) list" where
  "multimap_emplace k v [] = [(k, v)]"
| "multimap_emplace k v ((k', v') # xs) =
     (if k < k' then (k, v) # (k', v') # xs else (k', v') # multimap_emplace k v xs)"

definition findFetchInProgress :: "location \<Rightarrow> ('e, 's) cache_track \<Rightarrow> waddr option" where
  "findFetchInProgress loc T =
     map_option (fip_writeback \<circ> snd)
       (find (\<lambda>(k, e). loc < fip_end e \<and> loc \<ge> fip_progress e)
          (rev (filter (\<lambda>(k, e). k \<le> loc) (fetchesInProgress T))))"

definition emplaceAndPinGroup ::
  "('e, 's) moxygen \<Rightarrow> location \<Rightarrow> fetch_in_progress \<Rightarrow> fetch_writeback \<Rightarrow> ('e, 's) moqx_cache \<Rightarrow>
   (fetch_writeback \<times> ('e, 's) moqx_cache) option" where
  "emplaceAndPinGroup X loc entry fw c = do {
     let t = fw_track fw;
     let c1 = upd_track t (\<lambda>T. T\<lparr>fetchesInProgress := multimap_emplace loc entry (fetchesInProgress T)\<rparr>) c;
     (c2, g) \<leftarrow> (case map_of (groups (track_heap c1 t)) (fst loc) of
         Some g \<Rightarrow> Some (c1, g)
       | None \<Rightarrow> do {
           ca \<leftarrow> evictOldestGroupsIfNeeded X t c1;
           let (cb, g) = alloc_group ca;
           Some (upd_track t (\<lambda>T. T\<lparr>groups := groups T @ [(fst loc, g)]\<rparr>) cb, g) });
     Some (fw\<lparr>fw_key := Some loc, fw_pinned := Some g\<rparr>, pinGroup g t c2) }"

definition eraseAndMakeGroupEvictable ::
  "fetch_writeback \<Rightarrow> ('e, 's) moqx_cache \<Rightarrow> (fetch_writeback \<times> ('e, 's) moqx_cache) option" where
  "eraseAndMakeGroupEvictable fw c =
     (case fw_key fw of
        None \<Rightarrow> Some (fw, c)
      | Some key \<Rightarrow>
          let c1 = upd_track (fw_track fw) (\<lambda>T. T\<lparr>fetchesInProgress :=
                     filter (\<lambda>(_, e). fip_writeback e \<noteq> fw_id fw) (fetchesInProgress T)\<rparr>) c;
              fw1 = fw\<lparr>fw_key := None\<rparr>
          in case fw_pinned fw1 of
               None \<Rightarrow> Some (fw1, c1)
             | Some g \<Rightarrow> do { c2 \<leftarrow> unpinGroup (fw_ftn fw) (fst key) g (fw_track fw) c1;
                            Some (fw1\<lparr>fw_pinned := None\<rparr>, c2) })"

definition new_fetch_writeback ::
  "('e, 's) moxygen \<Rightarrow> waddr \<Rightarrow> bool \<Rightarrow> fetch_iterator \<Rightarrow> full_track_name \<Rightarrow> ('e, 's) moqx_cache \<Rightarrow>
   (fetch_writeback \<times> ('e, 's) moqx_cache) option" where
  "new_fetch_writeback X w proxyFin it ftn c =
     (let fw = \<lparr>fw_id = w, fw_key = None, fw_pinned = None, fw_proxyFin = proxyFin, fw_complete = False,
                fw_currentSubgroup = 0, fw_currentLength = 0, fw_currentOffset = 0, fw_accepted = False,
                fw_wasReset = False, fw_it = it, fw_ftn = ftn,
                fw_cachingEnabled = (\<not> shouldSkipCaching (track_heap c (it_track it))),
                fw_upstreamEnd = None, fw_largestReceived = None, fw_pendingGaps = []\<rparr>;
          c1 = removeTrackFromLRU (it_track it) c
      in if fw_cachingEnabled fw
         then emplaceAndPinGroup X (minLocation it)
                \<lparr>fip_end = maxLocation it, fip_progress = minLocation it, fip_writeback = w\<rparr> fw c1
         else Some (fw, c1))"

definition fetch_destroy :: "fetch_writeback \<Rightarrow> ('e, 's) moqx_cache \<Rightarrow> ('e, 's) moqx_cache option" where
  "fetch_destroy fw c =
     do { (_, c1) \<leftarrow> eraseAndMakeGroupEvictable fw c; Some (onTrackBecameEvictable (fw_ftn fw) c1) }"

definition updateInProgress ::
  "('e, 's) moxygen \<Rightarrow> fetch_writeback \<Rightarrow> ('e, 's) moqx_cache \<Rightarrow>
   (fetch_writeback \<times> ('e, 's) moqx_cache) option" where
  "updateInProgress X fw c =
     (if it_valid (fw_it fw) then
        let current = it_current (fw_it fw) in
        case fw_key fw of
          None \<Rightarrow> Some (fw, c)
        | Some key \<Rightarrow>
            let c1 = upd_track (fw_track fw) (\<lambda>T. T\<lparr>fetchesInProgress :=
                       map (\<lambda>(k, e). (k, if fip_writeback e = fw_id fw then e\<lparr>fip_progress := current\<rparr> else e))
                         (fetchesInProgress T)\<rparr>) c
            in if fst current > fst key then
                 if current < maxLocation (fw_it fw) then do {
                   (fw1, c2) \<leftarrow> eraseAndMakeGroupEvictable fw c1;
                   emplaceAndPinGroup X current
                     \<lparr>fip_end = maxLocation (fw_it fw), fip_progress = current, fip_writeback = fw_id fw\<rparr> fw1 c2 }
                 else eraseAndMakeGroupEvictable fw c1
               else Some (fw, c1)
      else eraseAndMakeGroupEvictable fw c)"

definition fw_skipCaching :: "fetch_writeback \<Rightarrow> ('e, 's) moqx_cache \<Rightarrow> bool" where
  "fw_skipCaching fw c \<longleftrightarrow> \<not> fw_cachingEnabled fw \<or> evicted (track_heap c (fw_track fw))"

definition checkInRange :: "location \<Rightarrow> fetch_writeback \<Rightarrow> publish_error option" where
  "checkInRange loc fw =
     (if loc < minLocation (fw_it fw) \<or> loc \<ge> maxLocation (fw_it fw)
      then Some (MalformedTrack ''Object outside fetch range'') else None)"

definition fw_insertGap ::
  "('e, 's) moxygen \<Rightarrow> location \<Rightarrow> location \<Rightarrow> fetch_writeback \<Rightarrow> ('e, 's) moqx_cache \<Rightarrow>
   (fetch_writeback \<times> ('e, 's) moqx_cache) option" where
  "fw_insertGap X start stop fw c =
     (case fw_upstreamEnd fw of
        None \<Rightarrow>
          (case fw_largestReceived fw of
             Some lr \<Rightarrow>
               if start < lr then do {
                 p \<leftarrow> loc_prev X lr;
                 let finalEnd = min stop p;
                 let c1 = upd_track (fw_track fw) (insertGap X start finalEnd) c;
                 if finalEnd = stop then Some (fw, c1)
                 else do { start' \<leftarrow> loc_next X finalEnd;
                           Some (fw\<lparr>fw_pendingGaps := fw_pendingGaps fw @ [(start', stop)]\<rparr>, c1) } }
               else Some (fw\<lparr>fw_pendingGaps := fw_pendingGaps fw @ [(start, stop)]\<rparr>, c)
           | None \<Rightarrow> Some (fw\<lparr>fw_pendingGaps := fw_pendingGaps fw @ [(start, stop)]\<rparr>, c))
      | Some ue \<Rightarrow>
          if start \<ge> ue then Some (fw, c)
          else do { p \<leftarrow> loc_prev X ue;
                    Some (fw, upd_track (fw_track fw) (insertGap X start (min stop p)) c) })"

fun fw_insertGaps ::
  "('e, 's) moxygen \<Rightarrow> (location \<times> location) list \<Rightarrow> fetch_writeback \<Rightarrow> ('e, 's) moqx_cache \<Rightarrow>
   (fetch_writeback \<times> ('e, 's) moqx_cache) option" where
  "fw_insertGaps X [] fw c = Some (fw, c)"
| "fw_insertGaps X ((a, b) # rs) fw c = do { (fw1, c1) \<leftarrow> fw_insertGap X a b fw c; fw_insertGaps X rs fw1 c1 }"

definition setUpstreamEnd ::
  "('e, 's) moxygen \<Rightarrow> location \<Rightarrow> fetch_writeback \<Rightarrow> ('e, 's) moqx_cache \<Rightarrow>
   (fetch_writeback \<times> ('e, 's) moqx_cache) option" where
  "setUpstreamEnd X stop fw c =
     fw_insertGaps X (fw_pendingGaps fw) (fw\<lparr>fw_upstreamEnd := Some stop, fw_pendingGaps := []\<rparr>) c"

definition markNonExistentTo ::
  "('e, 's) moxygen \<Rightarrow> location \<Rightarrow> fetch_writeback \<Rightarrow> ('e, 's) moqx_cache \<Rightarrow>
   (fetch_writeback \<times> ('e, 's) moqx_cache) option" where
  "markNonExistentTo X target fw c =
     (if it_current (fw_it fw) = target then Some (fw, c)
      else do {
        ranges \<leftarrow> getGapRanges X (it_current (fw_it fw)) target (it_order (fw_it fw))
          (minLocation (fw_it fw)) (maxLocation (fw_it fw));
        (fw1, c1) \<leftarrow> fw_insertGaps X ranges fw c;
        it \<leftarrow> advanceTo X c1 target (fw_it fw1);
        Some (fw1\<lparr>fw_it := it\<rparr>, c1) })"

definition finishRange ::
  "('e, 's) moxygen \<Rightarrow> fetch_writeback \<Rightarrow> ('e, 's) moqx_cache \<Rightarrow>
   (fetch_writeback \<times> ('e, 's) moqx_cache) option" where
  "finishRange X fw c = do {
     let (it, stop) = it_end_location X c (fw_it fw);
     (fw1, c1) \<leftarrow> markNonExistentTo X stop (fw\<lparr>fw_it := it\<rparr>) c;
     Some (fw1\<lparr>fw_it := invalidate (fw_it fw1)\<rparr>, c1) }"

definition onFetchStreamEnd ::
  "('e, 's) moxygen \<Rightarrow> fetch_writeback \<Rightarrow> ('e, 's) moqx_cache \<Rightarrow>
   (fetch_writeback \<times> ('e, 's) moqx_cache) option" where
  "onFetchStreamEnd X fw c = do {
     (fw1, c1) \<leftarrow> (if fw_skipCaching fw c then Some (fw\<lparr>fw_it := invalidate (fw_it fw)\<rparr>, c)
                   else finishRange X fw c);
     (fw2, c2) \<leftarrow> updateInProgress X fw1 c1;
     Some (fw2\<lparr>fw_complete := True\<rparr>, c2) }"

definition cacheImpl ::
  "('e, 's) moxygen \<Rightarrow> u64 \<Rightarrow> 'e write_request \<Rightarrow> bool \<Rightarrow> fetch_writeback \<Rightarrow> ('e, 's) moqx_cache \<Rightarrow>
   (fetch_writeback \<times> ('e, 's) moqx_cache \<times> publish_error option) option" where
  "cacheImpl X groupID w finFetch fw c = do {
     let t = fw_track fw;
     (c1, g) \<leftarrow> getOrCreateGroupWithEviction X (fw_ftn fw) t groupID c;
     (c2, err) \<leftarrow> cacheObjectAndUpdateBytes X g t groupID w c1;
     let loc = (groupID, w_object w);
     let fw1 = (if fw_largestReceived fw = None \<or> loc > the (fw_largestReceived fw)
                then fw\<lparr>fw_largestReceived := Some loc\<rparr> else fw);
     (fw2, c3) \<leftarrow> markNonExistentTo X loc fw1 c2;
     if err \<noteq> None then do { (fw3, c4) \<leftarrow> updateInProgress X fw2 c3; Some (fw3, c4, err) }
     else do {
       let (T, err2) = updateLargest loc (w_status w = END_OF_TRACK) (track_heap c3 t);
       let c4 = upd_track t (\<lambda>_. T) c3;
       if err2 \<noteq> None then do { (fw3, c5) \<leftarrow> updateInProgress X fw2 c4; Some (fw3, c5, err2) }
       else if w_complete w then do {
         it \<leftarrow> it_next X c4 (fw_it fw2);
         (fw3, c5) \<leftarrow> updateInProgress X (fw2\<lparr>fw_it := it\<rparr>) c4;
         if finFetch then do {
           (fw4, c6) \<leftarrow> finishRange X fw3 c5;
           (fw5, c7) \<leftarrow> updateInProgress X fw4 c6;
           Some (fw5\<lparr>fw_complete := True\<rparr>, c7, None) }
         else Some (fw3, c5, None) }
       else Some (fw2, c4, None) } }"

section \<open>Calls of the upstream\<close>

type_synonym ('e, 's) fetch_result = "(fetch_writeback \<times> ('e, 's) moqx_cache \<times> outcome) option"

definition fetch_object ::
  "('e, 's) moxygen \<Rightarrow> u64 \<Rightarrow> u64 \<Rightarrow> u64 \<Rightarrow> payload \<Rightarrow> 'e \<Rightarrow> bool \<Rightarrow> bool \<Rightarrow> int \<Rightarrow> fetch_writeback \<Rightarrow>
   ('e, 's) moqx_cache \<Rightarrow> ('e, 's) fetch_result" where
  "fetch_object X gID sgID objID pl ext fin dgram now fw c =
     (case checkInRange (gID, objID) fw of
        Some e \<Rightarrow> Some (fw, c, Fail e False)
      | None \<Rightarrow>
          if fw_skipCaching fw c then do {
            (fw1, c1) \<leftarrow> (if fin then onFetchStreamEnd X fw c else Some (fw, c));
            Some (fw1, c1, Forward (fin \<and> fw_proxyFin fw)) }
          else do {
            (fw1, c1, err) \<leftarrow> cacheImpl X gID
              \<lparr>w_subgroup = sgID, w_object = objID, w_status = NORMAL, w_extensions = ext, w_payload = pl,
               w_complete = True, w_datagram = dgram, w_now = now, w_offset = 0\<rparr> fin fw c;
            Some (fw1, c1, result False err (fin \<and> fw_proxyFin fw)) })"

definition fetch_beginObject ::
  "('e, 's) moxygen \<Rightarrow> u64 \<Rightarrow> u64 \<Rightarrow> u64 \<Rightarrow> nat \<Rightarrow> payload \<Rightarrow> 'e \<Rightarrow> int \<Rightarrow> fetch_writeback \<Rightarrow>
   ('e, 's) moqx_cache \<Rightarrow> ('e, 's) fetch_result" where
  "fetch_beginObject X gID sgID objID len initial ext now fw c =
     (let inRange = checkInRange (gID, objID) fw;
          fw1 = fw\<lparr>fw_accepted := (inRange = None)\<rparr>
      in case inRange of
           Some e \<Rightarrow> Some (fw1, c, Fail e False)
         | None \<Rightarrow>
             if fw_skipCaching fw1 c then Some (fw1, c, Forward False)
             else if \<not> payload_size initial \<le> len then None
             else do {
               (fw2, c1, err) \<leftarrow> cacheImpl X gID
                 \<lparr>w_subgroup = sgID, w_object = objID, w_status = NORMAL, w_extensions = ext,
                  w_payload = initial, w_complete = (payload_size initial = len), w_datagram = False,
                  w_now = now, w_offset = 0\<rparr> False fw1 c;
               Some (if err \<noteq> None then fw2
                     else fw2\<lparr>fw_currentSubgroup := sgID, fw_currentLength := len,
                              fw_currentOffset := payload_size initial\<rparr>,
                     c1, result False err False) })"

definition fetch_reset ::
  "('e, 's) moxygen \<Rightarrow> fetch_writeback \<Rightarrow> ('e, 's) moqx_cache \<Rightarrow>
   (fetch_writeback \<times> ('e, 's) moqx_cache) option" where
  "fetch_reset X fw c =
     updateInProgress X (fw\<lparr>fw_wasReset := True, fw_complete := True, fw_it := invalidate (fw_it fw)\<rparr>) c"

definition fetch_objectPayload ::
  "('e, 's) moxygen \<Rightarrow> string \<Rightarrow> bool \<Rightarrow> int \<Rightarrow> fetch_writeback \<Rightarrow> ('e, 's) moqx_cache \<Rightarrow>
   ('e, 's) fetch_result" where
  "fetch_objectPayload X bs finFetch now fw c =
     (if \<not> fw_accepted fw then Some (fw, c, Fail (MalformedTrack ''Payload without beginObject'') False)
      else if fw_skipCaching fw c then do {
        (fw1, c1) \<leftarrow> (if finFetch then onFetchStreamEnd X fw c else Some (fw, c));
        Some (fw1, c1, Forward (finFetch \<and> fw_proxyFin fw)) }
      else if fw_currentOffset fw + length bs > fw_currentLength fw then do {
        (fw1, c1) \<leftarrow> fetch_reset X fw c;
        Some (fw1, c1, Fail (MalformedTrack ''Payload past object length'') True) }
      else do {
        let objectComplete = (fw_currentOffset fw + length bs = fw_currentLength fw);
        let t = fw_track fw;
        let (gid, oid) = it_current (fw_it fw);
        (c1, err) \<leftarrow> (case map_of (groups (track_heap c t)) gid of
            None \<Rightarrow> Some (c, None)
          | Some g \<Rightarrow> cacheObjectAndUpdateBytes X g t gid
              \<lparr>w_subgroup = fw_currentSubgroup fw, w_object = oid, w_status = NORMAL,
               w_extensions = noExtensions X, w_payload = Some bs, w_complete = objectComplete,
               w_datagram = False, w_now = now, w_offset = fw_currentOffset fw\<rparr> c);
        case err of
          Some e \<Rightarrow> Some (fw, c1, Fail e False)
        | None \<Rightarrow> do {
            let fw1 = fw\<lparr>fw_currentOffset := fw_currentOffset fw + length bs\<rparr>;
            (fw2, c2) \<leftarrow> (if objectComplete \<or> finFetch then do {
                it \<leftarrow> it_next X c1 (fw_it fw1);
                (fw3, c3) \<leftarrow> (if finFetch then finishRange X (fw1\<lparr>fw_it := it\<rparr>) c1
                              else Some (fw1\<lparr>fw_it := it\<rparr>, c1));
                updateInProgress X fw3 c3 }
              else Some (fw1, c1));
            Some (fw2, c2, Forward (finFetch \<and> fw_proxyFin fw)) } })"

definition fetch_endOfGroup ::
  "('e, 's) moxygen \<Rightarrow> u64 \<Rightarrow> u64 \<Rightarrow> u64 \<Rightarrow> bool \<Rightarrow> int \<Rightarrow> fetch_writeback \<Rightarrow> ('e, 's) moqx_cache \<Rightarrow>
   ('e, 's) fetch_result" where
  "fetch_endOfGroup X gID sgID objID fin now fw c =
     (case checkInRange (gID, objID) fw of
        Some e \<Rightarrow> Some (fw, c, Fail e False)
      | None \<Rightarrow>
          if fw_skipCaching fw c then do {
            (fw1, c1) \<leftarrow> (if fin then onFetchStreamEnd X fw c else Some (fw, c));
            Some (fw1, c1, Forward (fin \<and> fw_proxyFin fw)) }
          else do {
            (fw1, c1, err) \<leftarrow> cacheImpl X gID
              \<lparr>w_subgroup = sgID, w_object = objID, w_status = END_OF_GROUP, w_extensions = noExtensions X,
               w_payload = None, w_complete = True, w_datagram = False, w_now = now, w_offset = 0\<rparr> fin fw c;
            Some (fw1, c1, result False err (fin \<and> fw_proxyFin fw)) })"

definition fetch_endOfTrackAndGroup ::
  "('e, 's) moxygen \<Rightarrow> u64 \<Rightarrow> u64 \<Rightarrow> u64 \<Rightarrow> int \<Rightarrow> fetch_writeback \<Rightarrow> ('e, 's) moqx_cache \<Rightarrow>
   ('e, 's) fetch_result" where
  "fetch_endOfTrackAndGroup X gID sgID objID now fw c =
     (case checkInRange (gID, objID) fw of
        Some e \<Rightarrow> Some (fw, c, Fail e False)
      | None \<Rightarrow>
          if fw_skipCaching fw c then do {
            (fw1, c1) \<leftarrow> onFetchStreamEnd X fw c;
            Some (fw1, c1, Forward True) }
          else do {
            (fw1, c1, err) \<leftarrow> cacheImpl X gID
              \<lparr>w_subgroup = sgID, w_object = objID, w_status = END_OF_TRACK, w_extensions = noExtensions X,
               w_payload = None, w_complete = True, w_datagram = False, w_now = now, w_offset = 0\<rparr> True fw c;
            Some (fw1, c1, result False err True) })"

definition fetch_endOfFetch ::
  "('e, 's) moxygen \<Rightarrow> fetch_writeback \<Rightarrow> ('e, 's) moqx_cache \<Rightarrow> ('e, 's) fetch_result" where
  "fetch_endOfFetch X fw c =
     do { (fw1, c1) \<leftarrow> onFetchStreamEnd X fw c; Some (fw1, c1, Forward (fw_proxyFin fw)) }"

definition fetch_endOfUnknownRange ::
  "('e, 's) moxygen \<Rightarrow> u64 \<Rightarrow> u64 \<Rightarrow> bool \<Rightarrow> fetch_writeback \<Rightarrow> ('e, 's) moqx_cache \<Rightarrow>
   ('e, 's) fetch_result" where
  "fetch_endOfUnknownRange X groupId objectId finFetch fw c = do {
     it1 \<leftarrow> advanceTo X c (groupId, objectId) (fw_it fw);
     it2 \<leftarrow> it_next X c it1;
     (fw1, c1) \<leftarrow> updateInProgress X (fw\<lparr>fw_it := it2\<rparr>) c;
     Some (if finFetch then fw1\<lparr>fw_complete := True\<rparr> else fw1, c1, Forward (finFetch \<and> fw_proxyFin fw)) }"

text \<open>
  \<^verbatim>\<open>recordUpstreamEndOfTrack\<close> on the end-of-track flag and the end location of a successful
  upstream response.
\<close>

definition recordUpstreamEndOfTrack ::
  "('e, 's) moxygen \<Rightarrow> taddr \<Rightarrow> bool \<Rightarrow> location \<Rightarrow> ('e, 's) moqx_cache \<Rightarrow> ('e, 's) moqx_cache" where
  "recordUpstreamEndOfTrack X t eot endLocation c =
     (if \<not> eot then c
      else case loc_prev X endLocation of
             None \<Rightarrow> c
           | Some l \<Rightarrow> upd_track t (\<lambda>T. fst (updateLargest l True T)) c)"

end
