(* ===== verification/Cache_Invariant.thy ===== *)
theory Cache_Invariant
  imports Cache_Fetch
begin

text \<open>
  The invariant of the object cache and its preservation by every operation that changes the
  store. It is kept in five parts: the table of tracks, the groups they hold, the two orders of
  eviction, the byte counts, and the flag of evicted tracks.
\<close>

section \<open>The invariant\<close>

definition tracks :: "('e, 's) moqx_cache \<Rightarrow> taddr set" where
  "tracks c = snd ` set (cache c)"

definition owns :: "('e, 's) moqx_cache \<Rightarrow> taddr \<Rightarrow> u64 \<Rightarrow> gaddr \<Rightarrow> bool" where
  "owns c t gid g \<longleftrightarrow> (gid, g) \<in> set (groups (track_heap c t))"

definition held :: "('e, 's) moqx_cache \<Rightarrow> taddr \<Rightarrow> u64 \<Rightarrow> gaddr \<Rightarrow> bool" where
  "held c t gid g \<longleftrightarrow> t \<in> tracks c \<and> owns c t gid g"

definition held_groups :: "('e, 's) moqx_cache \<Rightarrow> gaddr set" where
  "held_groups c = {g. \<exists>t gid. held c t gid g}"

definition names_ok :: "('e, 's) moqx_cache \<Rightarrow> bool" where
  "names_ok c \<longleftrightarrow> distinct (map fst (cache c)) \<and> distinct (map snd (cache c)) \<and>
     (\<forall>t\<in>tracks c. t < next_taddr c)"

definition groups_ok :: "('e, 's) moqx_cache \<Rightarrow> bool" where
  "groups_ok c \<longleftrightarrow>
     (\<forall>t. distinct (map fst (groups (track_heap c t)))) \<and>
     (\<forall>t gid g. owns c t gid g \<longrightarrow> g < next_gaddr c) \<and>
     (\<forall>t gid g t' gid'. owns c t gid g \<and> owns c t' gid' g \<longrightarrow> t = t' \<and> gid = gid')"

definition track_lru_ok :: "('e, 's) moqx_cache \<Rightarrow> bool" where
  "track_lru_ok c \<longleftrightarrow>
     distinct (map fst (trackLRU c)) \<and>
     (\<forall>t ftn. (t, ftn) \<in> set (trackLRU c) \<longleftrightarrow> (ftn, t) \<in> set (cache c) \<and> track_in_lru (track_heap c t)) \<and>
     (\<forall>t. track_in_lru (track_heap c t) \<longrightarrow> t \<in> tracks c \<and> canEvict (track_heap c t))"

text \<open>A group is in both lists or in none, and in them exactly while no writer pins it; \<open>E\<close> is exempt.\<close>

definition lists_ok :: "('e, 's) moqx_cache \<Rightarrow> bool" where
  "lists_ok c \<longleftrightarrow>
     (\<forall>t. distinct (map fst (groupLRU (track_heap c t)))) \<and>
     (\<forall>t gid g. (g, gid) \<in> set (groupLRU (track_heap c t)) \<longleftrightarrow> held c t gid g \<and> group_in_lru (group_heap c g)) \<and>
     distinct (map fst (globalGroupLRU c)) \<and>
     (\<forall>g ftn gid. (g, ftn, gid) \<in> set (globalGroupLRU c) \<longleftrightarrow>
        (\<exists>t. (ftn, t) \<in> set (cache c) \<and> held c t gid g \<and> group_in_lru (group_heap c g))) \<and>
     (\<forall>g. group_in_global (group_heap c g) = group_in_lru (group_heap c g)) \<and>
     (\<forall>g. group_in_lru (group_heap c g) \<longrightarrow> g \<in> held_groups c)"

definition group_lru_ok :: "gaddr set \<Rightarrow> ('e, 's) moqx_cache \<Rightarrow> bool" where
  "group_lru_ok E c \<longleftrightarrow> lists_ok c \<and>
     (\<forall>g\<in>held_groups c - E. group_in_lru (group_heap c g) \<longleftrightarrow> pinCount (group_heap c g) = 0)"

definition objects_ok :: "'e cache_group \<Rightarrow> bool" where
  "objects_ok G \<longleftrightarrow> distinct (map fst (objects G)) \<and>
     (\<forall>(k, e)\<in>set (objects G). payloadSize e = payload_size (entry_payload e)) \<and>
     totalBytes G = (\<Sum>(k, e)\<leftarrow>objects G. payloadSize e)"

definition bytes_ok :: "('e, 's) moqx_cache \<Rightarrow> bool" where
  "bytes_ok c \<longleftrightarrow> (\<forall>g. objects_ok (group_heap c g)) \<and>
     totalCachedBytes c = (\<Sum>g\<in>held_groups c. totalBytes (group_heap c g))"

definition flags_ok :: "('e, 's) moqx_cache \<Rightarrow> bool" where
  "flags_ok c \<longleftrightarrow> (\<forall>t<next_taddr c. evicted (track_heap c t) \<longleftrightarrow> t \<notin> tracks c)"

definition store_ok :: "gaddr set \<Rightarrow> ('e, 's) moqx_cache \<Rightarrow> bool" where
  "store_ok E c \<longleftrightarrow> names_ok c \<and> groups_ok c \<and> track_lru_ok c \<and> group_lru_ok E c"

lemma finite_held [simp]: "finite (held_groups c)"
proof -
  have "held_groups c \<subseteq> (\<Union>t\<in>tracks c. snd ` set (groups (track_heap c t)))"
  proof
    fix g assume "g \<in> held_groups c"
    then obtain t gid where "held c t gid g" by (auto simp: held_groups_def)
    then have "t \<in> tracks c" "(gid, g) \<in> set (groups (track_heap c t))" by (simp_all add: held_def owns_def)
    then show "g \<in> (\<Union>t\<in>tracks c. snd ` set (groups (track_heap c t)))"
      by (auto intro!: bexI [of _ t] image_eqI [of _ _ "(gid, g)"])
  qed
  then show ?thesis by (rule finite_subset) (simp add: tracks_def)
qed

lemma heldI: "held c t gid g \<Longrightarrow> g \<in> held_groups c"
  by (auto simp: held_groups_def)

lemma tracks_iff: "t \<in> tracks c \<longleftrightarrow> (\<exists>f. (f, t) \<in> set (cache c))"
  by (force simp: tracks_def)

lemma owns_lookup: "groups_ok c \<Longrightarrow> map_of (groups (track_heap c t)) gid = Some g \<longleftrightarrow> owns c t gid g"
  by (simp add: groups_ok_def owns_def)

lemma held_lookup: "groups_ok c \<Longrightarrow> held c t gid g \<Longrightarrow> map_of (groups (track_heap c t)) gid = Some g"
  by (simp add: owns_lookup held_def)

lemma lookup_held:
  "groups_ok c \<Longrightarrow> t \<in> tracks c \<Longrightarrow> map_of (groups (track_heap c t)) gid = Some g \<Longrightarrow> held c t gid g"
  by (simp add: owns_lookup held_def)

lemma held_unique:
  assumes "groups_ok c" and "held c t gid g"
  shows "held c s k g \<longleftrightarrow> s = t \<and> k = gid" and "held c t gid h \<longleftrightarrow> h = g" and "g < next_gaddr c" and "t \<in> tracks c"
proof -
  have o: "owns c t gid g" and t: "t \<in> tracks c" using assms(2) by (simp_all add: held_def)
  show "held c s k g \<longleftrightarrow> s = t \<and> k = gid" using assms o unfolding groups_ok_def held_def by blast
  show "held c t gid h \<longleftrightarrow> h = g"
    using assms(1) o t eq_key_imp_eq_value [of "groups (track_heap c t)" gid h g]
    by (auto simp: groups_ok_def held_def owns_def)
  show "g < next_gaddr c" using assms(1) o unfolding groups_ok_def by blast
  show "t \<in> tracks c" by (rule t)
qed

lemma cached_lookup: "names_ok c \<Longrightarrow> map_of (cache c) ftn = Some t \<longleftrightarrow> (ftn, t) \<in> set (cache c)"
  by (simp add: names_ok_def)

lemma names_unique:
  assumes "names_ok c" and "(f, t) \<in> set (cache c)"
  shows "(f', t) \<in> set (cache c) \<Longrightarrow> f' = f" and "(f, t') \<in> set (cache c) \<Longrightarrow> t' = t"
proof -
  have "inj_on fst (set (cache c))" "inj_on snd (set (cache c))"
    using assms(1) by (simp_all add: names_ok_def distinct_map)
  then show "(f', t) \<in> set (cache c) \<Longrightarrow> f' = f" "(f, t') \<in> set (cache c) \<Longrightarrow> t' = t"
    using assms(2) by (auto dest: inj_onD [of snd _ "(f', t)" "(f, t)"] inj_onD [of fst _ "(f, t')" "(f, t)"])
qed

section \<open>What an update leaves alone\<close>

text \<open>Two states with the same tables and orders, whatever their objects and gaps are.\<close>

definition same_store :: "('e, 's) moqx_cache \<Rightarrow> ('e, 's) moqx_cache \<Rightarrow> bool" where
  "same_store c c' \<longleftrightarrow>
     cache c' = cache c \<and> trackLRU c' = trackLRU c \<and> globalGroupLRU c' = globalGroupLRU c \<and>
     next_taddr c' = next_taddr c \<and> next_gaddr c' = next_gaddr c \<and>
     (\<forall>t. groups (track_heap c' t) = groups (track_heap c t) \<and>
          groupLRU (track_heap c' t) = groupLRU (track_heap c t) \<and>
          track_in_lru (track_heap c' t) = track_in_lru (track_heap c t) \<and>
          liveWritebackCount (track_heap c' t) = liveWritebackCount (track_heap c t) \<and>
          fetchesInProgress (track_heap c' t) = fetchesInProgress (track_heap c t) \<and>
          evicted (track_heap c' t) = evicted (track_heap c t)) \<and>
     (\<forall>g. group_in_lru (group_heap c' g) = group_in_lru (group_heap c g) \<and>
          group_in_global (group_heap c' g) = group_in_global (group_heap c g) \<and>
          pinCount (group_heap c' g) = pinCount (group_heap c g))"

lemma same_store_refl [simp]: "same_store c c"
  by (simp add: same_store_def)

lemma same_store_trans: "same_store c d \<Longrightarrow> same_store d e \<Longrightarrow> same_store c e"
  by (simp add: same_store_def)

lemma same_store_views:
  assumes "same_store c c'"
  shows "tracks c' = tracks c" "owns c' = owns c" "held c' = held c" "held_groups c' = held_groups c"
    "canEvict (track_heap c' t) = canEvict (track_heap c t)"
  using assms by (auto simp: same_store_def tracks_def held_def owns_def held_groups_def canEvict_def fun_eq_iff)

lemma same_store_ok:
  assumes "same_store c c'"
  shows "store_ok E c' = store_ok E c" "flags_ok c' = flags_ok c"
proof -
  note v = same_store_views [OF assms]
  show "store_ok E c' = store_ok E c" "flags_ok c' = flags_ok c"
    using assms v
    by (simp_all add: store_ok_def flags_ok_def names_ok_def groups_ok_def track_lru_ok_def group_lru_ok_def lists_ok_def same_store_def)
qed

text \<open>Updates of a track and of a group that are of this kind.\<close>

definition track_frame :: "(('e, 's) cache_track \<Rightarrow> ('e, 's) cache_track) \<Rightarrow> bool" where
  "track_frame f \<longleftrightarrow> (\<forall>T. groups (f T) = groups T \<and> groupLRU (f T) = groupLRU T \<and>
     track_in_lru (f T) = track_in_lru T \<and> liveWritebackCount (f T) = liveWritebackCount T \<and>
     fetchesInProgress (f T) = fetchesInProgress T \<and> evicted (f T) = evicted T)"

definition group_frame :: "('e cache_group \<Rightarrow> 'e cache_group) \<Rightarrow> bool" where
  "group_frame f \<longleftrightarrow> (\<forall>G. group_in_lru (f G) = group_in_lru G \<and> group_in_global (f G) = group_in_global G \<and>
     pinCount (f G) = pinCount G)"

lemma same_store_upd_track: "track_frame f \<Longrightarrow> same_store c (upd_track t f c)"
  by (simp add: track_frame_def same_store_def upd_track_def)

lemma same_store_upd_group: "group_frame f \<Longrightarrow> same_store c (upd_group g f c)"
  by (simp add: group_frame_def same_store_def upd_group_def)

lemma track_frame_gaps [simp]: "track_frame (insertGap X l h)" "track_frame (forgetRange X l h)"
  by (simp_all add: track_frame_def)

section \<open>Eviction\<close>

lemma distinct_filter_fst [simp]: "distinct (map fst xs) \<Longrightarrow> distinct (map fst (filter P xs))"
  by (simp add: distinct_map inj_on_def)

lemma evicts_to_held:
  assumes ok: "groups_ok c" and ev: "evicts_to t gid g c c'" and g: "held c t gid g"
  shows "owns c' s k h \<longleftrightarrow> owns c s k h \<and> h \<noteq> g" and "held c' s k h \<longleftrightarrow> held c s k h \<and> h \<noteq> g"
    and "tracks c' = tracks c" and "held_groups c' = held_groups c - {g}"
proof -
  have o: "owns c t gid g" using g by (simp add: held_def)
  have u: "owns c s k g \<longleftrightarrow> s = t \<and> k = gid" for s k
    using ok o unfolding groups_ok_def by blast
  have d: "owns c t gid h \<longleftrightarrow> h = g" for h
    using ok o eq_key_imp_eq_value [of "groups (track_heap c t)" gid h g] by (auto simp: groups_ok_def owns_def)
  have h: "owns c' s k h \<longleftrightarrow> owns c s k h \<and> (s = t \<longrightarrow> k \<noteq> gid)" for s k h
    using ev by (cases "s = t") (auto simp: evicts_to_def owns_def)
  show owns: "owns c' s k h \<longleftrightarrow> owns c s k h \<and> h \<noteq> g" for s k h
    using u d h by blast
  show tr: "tracks c' = tracks c" using ev by (simp add: evicts_to_def tracks_def)
  show held: "held c' s k h \<longleftrightarrow> held c s k h \<and> h \<noteq> g" for s k h by (auto simp: held_def owns tr)
  show "held_groups c' = held_groups c - {g}" by (auto simp: held_groups_def held)
qed

lemma evictGroup_ok:
  assumes ok: "store_ok E c" and g: "held c t gid g" and ev: "evicts_to t gid g c c'"
  shows "store_ok E c'"
proof -
  have parts: "names_ok c" "groups_ok c" "track_lru_ok c" "group_lru_ok E c"
    using ok by (simp_all add: store_ok_def)
  note h = evicts_to_held [OF parts(2) ev g]
  have th: "track_in_lru (track_heap c' s) = track_in_lru (track_heap c s)"
    "canEvict (track_heap c' s) = canEvict (track_heap c s)" for s
    using ev by (cases "s = t"; simp add: evicts_to_def canEvict_def)+
  have gl: "(x, k) \<in> set (groupLRU (track_heap c' s)) \<longleftrightarrow> (x, k) \<in> set (groupLRU (track_heap c s)) \<and> x \<noteq> g" for x k s
  proof (cases "s = t")
    case True
    have "\<not> group_in_lru (group_heap c g) \<Longrightarrow> (g, k) \<notin> set (groupLRU (track_heap c t))"
      using parts(4) by (auto simp: group_lru_ok_def lists_ok_def)
    then show ?thesis using ev True by (auto simp: evicts_to_def)
  next
    case False
    then have "(g, k) \<notin> set (groupLRU (track_heap c s))"
      using parts(4) held_unique(1) [OF parts(2) g] by (auto simp: group_lru_ok_def lists_ok_def)
    then show ?thesis using ev False by (auto simp: evicts_to_def)
  qed
  have dl: "distinct (map fst (groupLRU (track_heap c' s)))" for s
    using ev parts(4) by (cases "s = t") (simp_all add: evicts_to_def group_lru_ok_def lists_ok_def)
  have gg: "(x, f, k) \<in> set (globalGroupLRU c') \<longleftrightarrow> (x, f, k) \<in> set (globalGroupLRU c) \<and> x \<noteq> g" for x f k
  proof -
    have "\<not> group_in_global (group_heap c g) \<Longrightarrow> (g, f, k) \<notin> set (globalGroupLRU c)"
      using parts(4) by (auto simp: group_lru_ok_def lists_ok_def)
    then show ?thesis using ev by (auto simp: evicts_to_def)
  qed
  have dg: "distinct (map fst (globalGroupLRU c'))"
    using ev parts(4) by (simp add: evicts_to_def group_lru_ok_def lists_ok_def)
  have gh: "group_heap c' = (group_heap c)(g := unlinked (group_heap c g))"
    and ca: "cache c' = cache c" "trackLRU c' = trackLRU c" "next_taddr c' = next_taddr c" "next_gaddr c' = next_gaddr c"
    using ev by (simp_all add: evicts_to_def)
  have "names_ok c'" using parts(1) h(3) ca by (simp add: names_ok_def)
  moreover have "groups_ok c'"
  proof -
    have "distinct (map fst (groups (track_heap c' s)))" for s
      using ev parts(2) by (cases "s = t") (simp_all add: evicts_to_def groups_ok_def)
    then show ?thesis using parts(2) unfolding groups_ok_def h ca by blast
  qed
  moreover have "track_lru_ok c'"
    using parts(3) h(3) ca th by (simp add: track_lru_ok_def)
  moreover have "group_lru_ok E c'"
    using parts(4) dl dg unfolding group_lru_ok_def lists_ok_def gl gg h ca gh
    by (auto simp: unlinked_def)
  ultimately show ?thesis by (simp add: store_ok_def)
qed

text \<open>
  Eviction of groups of one track, and eviction in general: groups and tracks are dropped, nothing
  else of what remains changes. A pinned group stays unless its track goes; \<open>spares\<close> says that a
  track with a live writer or a fetch in progress stays.
\<close>

definition same_core :: "('e, 's) moqx_cache \<Rightarrow> ('e, 's) moqx_cache \<Rightarrow> bool" where
  "same_core c c' \<longleftrightarrow>
     next_taddr c' = next_taddr c \<and> next_gaddr c' = next_gaddr c \<and>
     maxCachedTracks c' = maxCachedTracks c \<and> maxCachedGroupsPerTrack c' = maxCachedGroupsPerTrack c \<and>
     maxCachedBytes c' = maxCachedBytes c \<and> minEvictionBytes c' = minEvictionBytes c \<and>
     (\<forall>s. liveWritebackCount (track_heap c' s) = liveWritebackCount (track_heap c s) \<and>
          fetchesInProgress (track_heap c' s) = fetchesInProgress (track_heap c s) \<and>
          largestGroupAndObject (track_heap c' s) = largestGroupAndObject (track_heap c s)) \<and>
     (\<forall>g. unlinked (group_heap c' g) = unlinked (group_heap c g))"

definition held_le :: "('e, 's) moqx_cache \<Rightarrow> ('e, 's) moqx_cache \<Rightarrow> bool" where
  "held_le c' c \<longleftrightarrow> (\<forall>s k h. held c' s k h \<longrightarrow> held c s k h)"

definition strips :: "taddr \<Rightarrow> ('e, 's) moqx_cache \<Rightarrow> ('e, 's) moqx_cache \<Rightarrow> bool" where
  "strips t c c' \<longleftrightarrow> same_core c c' \<and> cache c' = cache c \<and> trackLRU c' = trackLRU c \<and>
     (\<forall>s. track_in_lru (track_heap c' s) = track_in_lru (track_heap c s) \<and>
          evicted (track_heap c' s) = evicted (track_heap c s)) \<and>
     held_le c' c \<and> (\<forall>s k h. s \<noteq> t \<and> held c s k h \<longrightarrow> held c' s k h)"

definition frees :: "('e, 's) moqx_cache \<Rightarrow> ('e, 's) moqx_cache \<Rightarrow> bool" where
  "frees c c' \<longleftrightarrow> same_core c c' \<and> set (cache c') \<subseteq> set (cache c) \<and>
     (\<forall>s\<in>tracks c'. track_in_lru (track_heap c' s) = track_in_lru (track_heap c s)) \<and>
     held_le c' c \<and> (\<forall>s k h. held c s k h \<and> pinCount (group_heap c h) > 0 \<and> s \<in> tracks c' \<longrightarrow> held c' s k h)"

definition spares :: "('e, 's) moqx_cache \<Rightarrow> ('e, 's) moqx_cache \<Rightarrow> bool" where
  "spares c c' \<longleftrightarrow> (\<forall>ftn t. (ftn, t) \<in> set (cache c) \<and> \<not> canEvict (track_heap c t) \<longrightarrow> (ftn, t) \<in> set (cache c'))"

lemma unlinked_eqD:
  assumes "unlinked G' = unlinked G"
  shows "pinCount G' = pinCount G" "totalBytes G' = totalBytes G" "objects G' = objects G"
    "maxCachedObject G' = maxCachedObject G" "objects_ok G' = objects_ok G"
proof -
  have "pinCount (unlinked G') = pinCount (unlinked G)" "totalBytes (unlinked G') = totalBytes (unlinked G)"
    "objects (unlinked G') = objects (unlinked G)" "maxCachedObject (unlinked G') = maxCachedObject (unlinked G)"
    by (simp_all only: assms)
  then show "pinCount G' = pinCount G" "totalBytes G' = totalBytes G" "objects G' = objects G"
    "maxCachedObject G' = maxCachedObject G" by (simp_all add: unlinked_def)
  then show "objects_ok G' = objects_ok G" by (simp add: objects_ok_def)
qed

lemma same_core_refl [simp]: "same_core c c"
  by (simp add: same_core_def)

lemma same_core_trans: "same_core c d \<Longrightarrow> same_core d e \<Longrightarrow> same_core c e"
  by (simp add: same_core_def)

lemma same_core_pins: "same_core c c' \<Longrightarrow> pinCount (group_heap c' g) = pinCount (group_heap c g)"
  unfolding same_core_def by (blast dest: unlinked_eqD(1))

lemma same_core_bytes:
  "same_core c c' \<Longrightarrow> totalBytes (group_heap c' g) = totalBytes (group_heap c g)"
  "same_core c c' \<Longrightarrow> objects_ok (group_heap c' g) = objects_ok (group_heap c g)"
  unfolding same_core_def by (blast dest: unlinked_eqD)+

lemma same_core_canEvict: "same_core c d \<Longrightarrow> canEvict (track_heap d t) = canEvict (track_heap c t)"
  by (simp add: same_core_def canEvict_def)

lemma held_le_refl [simp]: "held_le c c"
  by (simp add: held_le_def)

lemma held_le_trans: "held_le d c \<Longrightarrow> held_le e d \<Longrightarrow> held_le e c"
  unfolding held_le_def by blast

lemma strips_refl [simp]: "strips t c c"
  by (simp add: strips_def)

lemma strips_trans:
  assumes "strips t c d" and "strips t d e"
  shows "strips t c e"
proof -
  have "same_core c e" "held_le e c"
    using assms by (auto simp: strips_def intro: same_core_trans held_le_trans)
  moreover have "s \<noteq> t \<and> held c s k h \<longrightarrow> held e s k h" for s k h
    using assms unfolding strips_def by blast
  moreover have "cache e = cache c" "trackLRU e = trackLRU c"
    "\<forall>s. track_in_lru (track_heap e s) = track_in_lru (track_heap c s) \<and> evicted (track_heap e s) = evicted (track_heap c s)"
    using assms unfolding strips_def by metis+
  ultimately show ?thesis unfolding strips_def by blast
qed

lemma frees_refl [simp]: "frees c c"
  by (simp add: frees_def)

lemma spares_refl [simp]: "spares c c"
  by (simp add: spares_def)

lemma frees_tracks: "frees c c' \<Longrightarrow> t \<in> tracks c' \<Longrightarrow> t \<in> tracks c"
  by (auto simp: frees_def tracks_def)

lemma frees_core: "frees c c' \<Longrightarrow> same_core c c'"
  by (simp add: frees_def)

lemma frees_trans:
  assumes 1: "frees c d" and 2: "frees d e"
  shows "frees c e"
proof -
  have t: "s \<in> tracks d" if "s \<in> tracks e" for s using 2 that by (rule frees_tracks)
  have p: "pinCount (group_heap d g) = pinCount (group_heap c g)" for g
    using 1 by (simp add: frees_core same_core_pins)
  have h: "held e s k h" if "held c s k h" "pinCount (group_heap c h) > 0" "s \<in> tracks e" for s k h
  proof -
    have "held d s k h" using that 1 t unfolding frees_def by blast
    moreover have "pinCount (group_heap d h) > 0" using that p by simp
    ultimately show "held e s k h" using 2 that(3) unfolding frees_def by blast
  qed
  have s: "set (cache e) \<subseteq> set (cache c)" using 1 2 unfolding frees_def by blast
  have l: "track_in_lru (track_heap e s) = track_in_lru (track_heap c s)" if "s \<in> tracks e" for s
    using 1 2 t that unfolding frees_def by metis
  have k: "held_le e c" "same_core c e"
    using 1 2 by (auto simp: frees_def intro: held_le_trans same_core_trans)
  show ?thesis unfolding frees_def using k s l h by blast
qed

lemma spares_trans: "frees c d \<Longrightarrow> spares c d \<Longrightarrow> spares d e \<Longrightarrow> spares c e"
  unfolding spares_def by (auto dest!: frees_core simp: same_core_canEvict)

definition sound :: "gaddr set \<Rightarrow> ('e, 's) moqx_cache \<Rightarrow> bool" where
  "sound E c \<longleftrightarrow> store_ok E c \<and> bytes_ok c"

lemma soundD:
  assumes "sound E c"
  shows "store_ok E c" "bytes_ok c" "names_ok c" "groups_ok c" "track_lru_ok c" "group_lru_ok E c"
  using assms by (simp_all add: sound_def store_ok_def)

lemma sound_lists:
  assumes "sound E c"
  shows "(g, gid) \<in> set (groupLRU (track_heap c t)) \<longleftrightarrow> held c t gid g \<and> group_in_lru (group_heap c g)"
    "(g, ftn, gid) \<in> set (globalGroupLRU c) \<longleftrightarrow>
       (\<exists>t. (ftn, t) \<in> set (cache c) \<and> held c t gid g \<and> group_in_lru (group_heap c g))"
    "group_in_global (group_heap c g) = group_in_lru (group_heap c g)"
    "group_in_lru (group_heap c g) \<Longrightarrow> g \<in> held_groups c"
    "g \<in> held_groups c \<Longrightarrow> g \<notin> E \<Longrightarrow> group_in_lru (group_heap c g) \<longleftrightarrow> pinCount (group_heap c g) = 0"
    "distinct (map fst (groupLRU (track_heap c t)))" "distinct (map fst (globalGroupLRU c))"
  using soundD(6) [OF assms] by (simp_all add: group_lru_ok_def lists_ok_def)

lemma unlinked_idem [simp]: "unlinked (unlinked G) = unlinked G"
  by (simp add: unlinked_def)

lemma evicts_to_strips:
  assumes ok: "groups_ok c" and ev: "evicts_to t gid g c c'" and g: "held c t gid g"
  shows "strips t c c'"
proof -
  note h = evicts_to_held [OF ok ev g]
  have "s \<noteq> t \<and> held c s k x \<longrightarrow> held c' s k x" for s k x
    using held_unique(1) [OF ok g] by (auto simp: h)
  moreover have "held_le c' c" by (simp add: held_le_def h)
  moreover have f: "track_in_lru (track_heap c' s) = track_in_lru (track_heap c s)"
    "evicted (track_heap c' s) = evicted (track_heap c s)"
    "liveWritebackCount (track_heap c' s) = liveWritebackCount (track_heap c s)"
    "fetchesInProgress (track_heap c' s) = fetchesInProgress (track_heap c s)"
    "largestGroupAndObject (track_heap c' s) = largestGroupAndObject (track_heap c s)" for s
    using ev by (cases "s = t"; simp add: evicts_to_def)+
  moreover have "same_core c c'" using ev f(3-5) by (simp add: same_core_def evicts_to_def)
  ultimately show ?thesis using ev unfolding strips_def evicts_to_def by blast
qed

lemma evicts_to_bytes:
  assumes b: "bytes_ok c" and ok: "groups_ok c" and ev: "evicts_to t gid g c c'" and g: "held c t gid g"
  shows "bytes_ok c'"
proof -
  note h = evicts_to_held [OF ok ev g]
  have core: "same_core c c'" using evicts_to_strips [OF ok ev g] by (simp add: strips_def)
  have "g \<in> held_groups c" using g by (auto simp: held_groups_def)
  then have "(\<Sum>x\<in>held_groups c. totalBytes (group_heap c x)) =
      totalBytes (group_heap c g) + (\<Sum>x\<in>held_groups c - {g}. totalBytes (group_heap c x))"
    using ok by (simp add: sum.remove)
  moreover have "totalCachedBytes c' = totalCachedBytes c - totalBytes (group_heap c g)"
    using ev by (simp add: evicts_to_def)
  ultimately show ?thesis using b unfolding bytes_ok_def h by (simp add: same_core_bytes [OF core])
qed

lemma held_bytes: "bytes_ok c \<Longrightarrow> groups_ok c \<Longrightarrow> held c t gid g \<Longrightarrow> totalBytes (group_heap c g) \<le> totalCachedBytes c"
  unfolding bytes_ok_def
  by (auto dest!: heldI intro!: member_le_sum [where f = "\<lambda>g. totalBytes (group_heap c g)"])

lemma evictGroup_sound:
  assumes ok: "sound E c" and g: "held c t gid g"
  obtains c' where "evictGroup X t gid c = Some c'" "evicts_to t gid g c c'" "sound E c'" "strips t c c'"
proof -
  note s = soundD [OF ok]
  have m: "map_of (groups (track_heap c t)) gid = Some g" using g s(4) by (simp add: held_lookup)
  obtain c' where e: "evictGroup X t gid c = Some c'"
    using evictGroup_runs [OF m] held_bytes [OF s(2,4) g] by blast
  have t: "evicts_to t gid g c c'" using m e by (rule evictGroup_state)
  show thesis
    using evictGroup_ok [OF s(1) g t] evicts_to_bytes [OF s(2,4) t g] evicts_to_strips [OF s(4) t g] e t
    by (intro that [of c']) (simp_all add: sound_def)
qed

lemma strips_flags: "strips t c c' \<Longrightarrow> flags_ok c' = flags_ok c"
  by (simp add: strips_def flags_ok_def tracks_def same_core_def)

lemma strips_frees:
  assumes "strips t c c'" and "\<And>k h. held c t k h \<Longrightarrow> pinCount (group_heap c h) > 0 \<Longrightarrow> held c' t k h"
  shows "frees c c'" "spares c c'"
proof -
  have "held c s k h \<and> pinCount (group_heap c h) > 0 \<and> s \<in> tracks c' \<longrightarrow> held c' s k h" for s k h
    using assms unfolding strips_def by (cases "s = t") blast+
  then show "frees c c'" using assms(1) unfolding strips_def frees_def by simp
  show "spares c c'" using assms(1) unfolding strips_def spares_def by simp
qed

lemma evict_all_groups_sound:
  assumes "sound E c" and "t \<in> tracks c"
  shows "\<exists>c'. evict_all_groups X t c = Some c' \<and> sound E c' \<and> strips t c c' \<and> groups (track_heap c' t) = []"
  using assms
proof (induction X t c rule: evict_all_groups.induct)
  case (1 X t c)
  show ?case
  proof (cases "groups (track_heap c t)")
    case Nil
    then show ?thesis using 1(2,3) by (simp add: evict_all_groups.simps [of X t c])
  next
    case (Cons x xs)
    obtain gid g where x: "x = (gid, g)" by (cases x)
    have h: "held c t gid g" using Cons x 1(3) by (simp add: held_def owns_def)
    obtain d where d: "evictGroup X t gid c = Some d" "sound E d" "strips t c d"
      using evictGroup_sound [OF 1(2) h] by blast
    have "\<exists>c'. evict_all_groups X t d = Some c' \<and> sound E c' \<and> strips t d c' \<and> groups (track_heap c' t) = []"
      using 1(1) [OF Cons x [symmetric] d(1) d(2)] 1(3) d(3) by (simp add: strips_def tracks_def)
    then show ?thesis using d strips_trans by (auto simp: evict_all_groups.simps [of X t c] Cons x)
  qed
qed

text \<open>The list of tracks.\<close>

lemma removeTrackFromLRU_fields [simp]:
  "cache (removeTrackFromLRU t c) = cache c"
  "globalGroupLRU (removeTrackFromLRU t c) = globalGroupLRU c"
  "group_heap (removeTrackFromLRU t c) = group_heap c"
  "next_taddr (removeTrackFromLRU t c) = next_taddr c"
  "next_gaddr (removeTrackFromLRU t c) = next_gaddr c"
  "totalCachedBytes (removeTrackFromLRU t c) = totalCachedBytes c"
  "maxCachedTracks (removeTrackFromLRU t c) = maxCachedTracks c"
  "groups (track_heap (removeTrackFromLRU t c) s) = groups (track_heap c s)"
  "groupLRU (track_heap (removeTrackFromLRU t c) s) = groupLRU (track_heap c s)"
  "liveWritebackCount (track_heap (removeTrackFromLRU t c) s) = liveWritebackCount (track_heap c s)"
  "fetchesInProgress (track_heap (removeTrackFromLRU t c) s) = fetchesInProgress (track_heap c s)"
  "largestGroupAndObject (track_heap (removeTrackFromLRU t c) s) = largestGroupAndObject (track_heap c s)"
  "evicted (track_heap (removeTrackFromLRU t c) s) = evicted (track_heap c s)"
  "track_in_lru (track_heap (removeTrackFromLRU t c) s) \<longleftrightarrow> s \<noteq> t \<and> track_in_lru (track_heap c s)"
  by (auto simp: removeTrackFromLRU_def upd_track_def)

lemma addTrackToLRU_fields [simp]:
  "cache (addTrackToLRU ftn t c) = cache c"
  "globalGroupLRU (addTrackToLRU ftn t c) = globalGroupLRU c"
  "group_heap (addTrackToLRU ftn t c) = group_heap c"
  "next_taddr (addTrackToLRU ftn t c) = next_taddr c"
  "next_gaddr (addTrackToLRU ftn t c) = next_gaddr c"
  "totalCachedBytes (addTrackToLRU ftn t c) = totalCachedBytes c"
  "groups (track_heap (addTrackToLRU ftn t c) s) = groups (track_heap c s)"
  "groupLRU (track_heap (addTrackToLRU ftn t c) s) = groupLRU (track_heap c s)"
  "liveWritebackCount (track_heap (addTrackToLRU ftn t c) s) = liveWritebackCount (track_heap c s)"
  "fetchesInProgress (track_heap (addTrackToLRU ftn t c) s) = fetchesInProgress (track_heap c s)"
  "largestGroupAndObject (track_heap (addTrackToLRU ftn t c) s) = largestGroupAndObject (track_heap c s)"
  "evicted (track_heap (addTrackToLRU ftn t c) s) = evicted (track_heap c s)"
  "track_in_lru (track_heap (addTrackToLRU ftn t c) s) \<longleftrightarrow> s = t \<or> track_in_lru (track_heap c s)"
  by (auto simp: addTrackToLRU_def upd_track_def)

lemma track_list_views [simp]:
  "tracks (removeTrackFromLRU t c) = tracks c" "tracks (addTrackToLRU ftn t c) = tracks c"
  "held (removeTrackFromLRU t c) = held c" "held (addTrackToLRU ftn t c) = held c"
  "held_groups (removeTrackFromLRU t c) = held_groups c" "held_groups (addTrackToLRU ftn t c) = held_groups c"
  "canEvict (track_heap (removeTrackFromLRU t c) s) = canEvict (track_heap c s)"
  "canEvict (track_heap (addTrackToLRU ftn t c) s) = canEvict (track_heap c s)"
  by (simp_all add: tracks_def held_def owns_def fun_eq_iff held_groups_def canEvict_def)

lemma track_list_owns [simp]: "owns (removeTrackFromLRU t c) = owns c" "owns (addTrackToLRU ftn t c) = owns c"
  by (simp_all add: owns_def fun_eq_iff)

lemma track_list_frame:
  assumes "cache c' = cache c" "globalGroupLRU c' = globalGroupLRU c" "group_heap c' = group_heap c"
    "next_taddr c' = next_taddr c" "next_gaddr c' = next_gaddr c" "totalCachedBytes c' = totalCachedBytes c"
    "\<And>s. groups (track_heap c' s) = groups (track_heap c s)"
    "\<And>s. groupLRU (track_heap c' s) = groupLRU (track_heap c s)"
    and "sound E c" "track_lru_ok c'"
  shows "sound E c'"
proof -
  have "tracks c' = tracks c" "owns c' = owns c" "held c' = held c" "held_groups c' = held_groups c"
    using assms(1,7) by (simp_all add: tracks_def held_def owns_def fun_eq_iff held_groups_def)
  then show ?thesis
    using assms by (simp add: sound_def store_ok_def names_ok_def groups_ok_def group_lru_ok_def lists_ok_def bytes_ok_def)
qed

lemma removeTrackFromLRU_sound:
  assumes "sound E c"
  shows "sound E (removeTrackFromLRU t c)"
proof -
  have lru: "track_lru_ok c" using assms by (rule soundD)
  have "trackLRU (removeTrackFromLRU t c) = filter (\<lambda>(a, _). a \<noteq> t) (trackLRU c)"
  proof (cases "track_in_lru (track_heap c t)")
    case False
    then have "\<forall>x\<in>set (trackLRU c). case x of (a, _) \<Rightarrow> a \<noteq> t" using lru by (auto simp: track_lru_ok_def)
    then have "filter (\<lambda>(a, _). a \<noteq> t) (trackLRU c) = trackLRU c" by (rule filter_True)
    then show ?thesis using False by (simp add: removeTrackFromLRU_def)
  qed (simp add: removeTrackFromLRU_def upd_track_def)
  then have "track_lru_ok (removeTrackFromLRU t c)" using lru by (auto simp: track_lru_ok_def)
  with assms show ?thesis by (rule track_list_frame [rotated 8]) simp_all
qed

lemma addTrackToLRU_sound:
  assumes "sound E c" and "(ftn, t) \<in> set (cache c)" and "canEvict (track_heap c t)"
  shows "sound E (addTrackToLRU ftn t c)"
proof -
  have lru: "track_lru_ok c" and n: "names_ok c" using assms(1) by (auto dest: soundD)
  have u: "(f, t) \<in> set (cache c) \<longleftrightarrow> f = ftn" for f
    using names_unique(1) [OF n assms(2)] assms(2) by blast
  have tr: "t \<in> tracks c" using assms(2) by (force simp: tracks_def)
  have "track_lru_ok (addTrackToLRU ftn t c)"
  proof (cases "track_in_lru (track_heap c t)")
    case True
    then show ?thesis using lru by (simp add: addTrackToLRU_def)
  next
    case False
    then have "trackLRU (addTrackToLRU ftn t c) = (t, ftn) # trackLRU c"
      by (simp add: addTrackToLRU_def upd_track_def)
    moreover have "t \<notin> fst ` set (trackLRU c)" using False lru by (auto simp: track_lru_ok_def)
    ultimately show ?thesis using lru tr assms(3) unfolding track_lru_ok_def by (simp add: u) (metis u)
  qed
  with assms(1) show ?thesis by (rule track_list_frame [rotated 8]) simp_all
qed

lemma onTrackBecameEvictable_sound:
  assumes "sound E c"
  shows "sound E (onTrackBecameEvictable ftn c)"
  using assms soundD(3) [OF assms]
  by (auto simp: onTrackBecameEvictable_def cached_lookup addTrackToLRU_sound split: option.split)

text \<open>Eviction of a track.\<close>

lemma drop_track_sound:
  assumes ok: "sound E c" and ft: "(ftn, t) \<in> set (cache c)" and empty: "groups (track_heap c t) = []"
    and out: "\<not> track_in_lru (track_heap c t)"
  shows "sound E (c\<lparr>cache := filter (\<lambda>(k, _). k \<noteq> ftn) (cache c)\<rparr>)" (is "sound E ?c")
    and "tracks (c\<lparr>cache := filter (\<lambda>(k, _). k \<noteq> ftn) (cache c)\<rparr>) = tracks c - {t}"
proof -
  note s = soundD [OF ok]
  have in': "(f, s) \<in> set (cache ?c) \<longleftrightarrow> (f, s) \<in> set (cache c) \<and> s \<noteq> t" for f s
    using names_unique [OF s(3) ft] by auto
  have tr: "tracks ?c = tracks c - {t}" unfolding set_eq_iff tracks_iff Diff_iff in' by auto
  then show "tracks (c\<lparr>cache := filter (\<lambda>(k, _). k \<noteq> ftn) (cache c)\<rparr>) = tracks c - {t}" .
  have no: "\<not> owns c t k g" for k g using empty by (simp add: owns_def)
  have o: "owns ?c = owns c" by (simp add: owns_def fun_eq_iff)
  have "held ?c s k g = held c s k g" for s k g using no unfolding held_def o tr by auto
  then have h: "held ?c = held c" "held_groups ?c = held_groups c" by (simp_all add: fun_eq_iff held_groups_def)
  have nt: "\<not> held c t k g" for k g using no by (simp add: held_def)
  have d: "distinct (map snd (cache ?c))" using s(3) by (simp add: names_ok_def distinct_map_filter)
  have "names_ok ?c" using s(3) d tr by (simp add: names_ok_def)
  moreover have "groups_ok ?c" using s(4) unfolding groups_ok_def o by simp
  moreover have "track_lru_ok ?c" using s(5) out unfolding track_lru_ok_def tr in' by (auto simp: canEvict_def)
  moreover have "group_lru_ok E ?c" using s(6) nt unfolding group_lru_ok_def lists_ok_def h in' by simp blast
  moreover have "bytes_ok ?c" using s(2) unfolding bytes_ok_def h by simp
  ultimately show "sound E ?c" by (simp add: sound_def store_ok_def)
qed

lemma evictTrack_sound:
  assumes ok: "sound E c" and fl: "flags_ok c" and ft: "(ftn, t) \<in> set (cache c)"
  obtains c' where "evictTrack X ftn c = Some (c', 1)" "sound E c'" "flags_ok c'" "frees c c'"
    "canEvict (track_heap c t) \<longrightarrow> spares c c'" "cache c' = filter (\<lambda>(k, _). k \<noteq> ftn) (cache c)"
    "\<forall>s k h. held c' s k h \<longleftrightarrow> held c s k h \<and> s \<noteq> t"
proof -
  note s = soundD [OF ok]
  have m: "map_of (cache c) ftn = Some t" using ft s(3) by (simp add: cached_lookup)
  define c0 where "c0 = upd_track t (\<lambda>T. T\<lparr>evicted := True\<rparr>) c"
  define c1 where "c1 = removeTrackFromLRU t c0"
  have f0: "cache c0 = cache c" "trackLRU c0 = trackLRU c" "globalGroupLRU c0 = globalGroupLRU c"
    "group_heap c0 = group_heap c" "next_taddr c0 = next_taddr c" "next_gaddr c0 = next_gaddr c"
    "totalCachedBytes c0 = totalCachedBytes c" "tracks c0 = tracks c" "held c0 = held c"
    by (simp_all add: c0_def upd_track_def tracks_def held_def owns_def fun_eq_iff)
  have t0: "groups (track_heap c0 s) = groups (track_heap c s)" "groupLRU (track_heap c0 s) = groupLRU (track_heap c s)"
    "track_in_lru (track_heap c0 s) = track_in_lru (track_heap c s)" "canEvict (track_heap c0 s) = canEvict (track_heap c s)"
    "liveWritebackCount (track_heap c0 s) = liveWritebackCount (track_heap c s)"
    "fetchesInProgress (track_heap c0 s) = fetchesInProgress (track_heap c s)"
    "largestGroupAndObject (track_heap c0 s) = largestGroupAndObject (track_heap c s)"
    "evicted (track_heap c0 s) \<longleftrightarrow> s = t \<or> evicted (track_heap c s)" for s
    by (simp_all add: c0_def upd_track_def canEvict_def)
  have l0: "maxCachedTracks c1 = maxCachedTracks c" "maxCachedGroupsPerTrack c1 = maxCachedGroupsPerTrack c"
    "maxCachedBytes c1 = maxCachedBytes c" "minEvictionBytes c1 = minEvictionBytes c"
    by (simp_all add: c1_def c0_def upd_track_def removeTrackFromLRU_def)
  have "track_lru_ok c0" using s(5) by (simp add: track_lru_ok_def f0 t0)
  with ok have "sound E c0" by (rule track_list_frame [rotated 8]) (simp_all add: f0 t0)
  then have s1: "sound E c1" unfolding c1_def by (rule removeTrackFromLRU_sound)
  have "t \<in> tracks c1" using ft by (auto simp: c1_def f0 tracks_iff)
  then obtain c2 where c2: "evict_all_groups X t c1 = Some c2" "sound E c2" "strips t c1 c2" "groups (track_heap c2 t) = []"
    using evict_all_groups_sound [OF s1, of t X] by blast
  define c3 where "c3 = c2\<lparr>cache := filter (\<lambda>(k, _). k \<noteq> ftn) (cache c2)\<rparr>"
  have ca2: "cache c2 = cache c" using c2(3) by (simp add: strips_def c1_def f0)
  have ev: "evictTrack X ftn c = Some (c3, 1)"
    by (simp add: evictTrack_def m c0_def [symmetric] c1_def [symmetric] c2(1) c3_def)
  have ft2: "(ftn, t) \<in> set (cache c2)" using ft ca2 by simp
  have lr: "\<not> track_in_lru (track_heap c2 t)" using c2(3) by (simp add: strips_def c1_def)
  note s3 = drop_track_sound [OF c2(2) ft2 c2(4) lr, folded c3_def]
  have tr3: "tracks c3 = tracks c - {t}" using s3(2) ca2 by (simp add: tracks_def)
  have core: "same_core c c3"
    using c2(3) l0 unfolding strips_def same_core_def by (simp add: c3_def c1_def f0 t0)
  have "owns c3 = owns c2" by (simp add: c3_def owns_def fun_eq_iff)
  then have h3: "held c3 s k h \<longleftrightarrow> held c2 s k h \<and> s \<noteq> t" for s k h
    unfolding held_def s3(2) by auto
  have "flags_ok c3"
    using fl c2(3) tr3 names_ok_def [of c] s(3) ft unfolding strips_def same_core_def flags_ok_def
    by (auto simp: c3_def c1_def f0 t0)
  moreover have "frees c c3"
  proof -
    have "held_le c3 c" using c2(3) by (simp add: strips_def held_le_def h3 c1_def f0)
    moreover have "set (cache c3) \<subseteq> set (cache c)" by (auto simp: c3_def ca2)
    moreover have "track_in_lru (track_heap c3 s) = track_in_lru (track_heap c s)" if "s \<in> tracks c3" for s
      using that c2(3) tr3 by (simp add: c3_def strips_def c1_def t0)
    moreover have "held c3 s k h" if "held c s k h" "s \<in> tracks c3" for s k h
      using that c2(3) tr3 by (simp add: h3 strips_def c1_def f0)
    ultimately show ?thesis using core unfolding frees_def by blast
  qed
  moreover have "canEvict (track_heap c t) \<longrightarrow> spares c c3"
    using names_unique [OF s(3) ft] by (auto simp: spares_def c3_def ca2)
  moreover have "held c3 s k h \<longleftrightarrow> held c s k h \<and> s \<noteq> t" for s k h
  proof -
    have "held c2 s k h \<Longrightarrow> held c s k h" "s \<noteq> t \<Longrightarrow> held c s k h \<Longrightarrow> held c2 s k h"
      using c2(3) by (simp_all add: strips_def held_le_def c1_def f0)
    then show ?thesis unfolding h3 by blast
  qed
  ultimately show thesis using that [of c3] ev s3(1) by (simp add: c3_def ca2)
qed

text \<open>
  The loops. \<open>freed c c'\<close> collects what they all promise: the invariant, nothing but groups that
  nobody pins and tracks that nobody uses dropped.
\<close>

definition freed :: "('e, 's) moqx_cache \<Rightarrow> ('e, 's) moqx_cache \<Rightarrow> bool" where
  "freed c c' \<longleftrightarrow> sound {} c' \<and> flags_ok c' \<and> frees c c' \<and> spares c c'"

lemma freed_refl [simp]: "freed c c \<longleftrightarrow> sound {} c \<and> flags_ok c"
  by (simp add: freed_def)

lemma freed_trans: "freed c d \<Longrightarrow> freed d e \<Longrightarrow> freed c e"
  unfolding freed_def using frees_trans spares_trans by blast

lemma freedD: "freed c c' \<Longrightarrow> sound {} c'" "freed c c' \<Longrightarrow> flags_ok c'"
  by (simp_all add: freed_def)

lemma evictGroup_freed:
  assumes ok: "sound {} c" and fl: "flags_ok c" and g: "held c t gid g" and l: "group_in_lru (group_heap c g)"
  obtains c' where "evictGroup X t gid c = Some c'" "freed c c'" "held_groups c' = held_groups c - {g}"
    "evicts_to t gid g c c'"
proof -
  note s = soundD [OF ok]
  obtain c' where c': "evictGroup X t gid c = Some c'" "evicts_to t gid g c c'" "sound {} c'" "strips t c c'"
    by (rule evictGroup_sound [OF ok g])
  note h = evicts_to_held [OF s(4) c'(2) g]
  have "g \<in> held_groups c" using g by (auto simp: held_groups_def)
  then have "pinCount (group_heap c g) = 0" using s(6) l by (simp add: group_lru_ok_def lists_ok_def)
  then have "held c' t k x" if "held c t k x" "pinCount (group_heap c x) > 0" for k x
    using that h(2) by auto
  from strips_frees [OF c'(4) this] have "freed c c'"
    using c'(3) fl strips_flags [OF c'(4)] by (simp add: freed_def)
  then show thesis using that c' h(4) by blast
qed

lemma evictOldestTrackIfNeeded_sound:
  assumes ok: "sound {} c" and fl: "flags_ok c"
  obtains c' b where "evictOldestTrackIfNeeded X c = Some (c', b)" "freed c c'"
    "maxCachedTracks c > 0 \<Longrightarrow> length (cache c) \<ge> maxCachedTracks c \<Longrightarrow> trackLRU c \<noteq> [] \<Longrightarrow>
       length (cache c') < length (cache c)"
proof (cases "maxCachedTracks c = 0 \<or> length (cache c) < maxCachedTracks c \<or> trackLRU c = []")
  case True
  then have "\<exists>b. evictOldestTrackIfNeeded X c = Some (c, b)" by (auto simp: evictOldestTrackIfNeeded_def)
  then show ?thesis using that [of c] True ok fl by auto
next
  case False
  obtain t ftn where l: "last (trackLRU c) = (t, ftn)" by (cases "last (trackLRU c)")
  have "(t, ftn) \<in> set (trackLRU c)" using False l by (metis last_in_set)
  then have ft: "(ftn, t) \<in> set (cache c)" and ce: "canEvict (track_heap c t)"
    using soundD(5) [OF ok] by (auto simp: track_lru_ok_def)
  obtain c' where c': "evictTrack X ftn c = Some (c', 1)" "sound {} c'" "flags_ok c'" "frees c c'"
    "canEvict (track_heap c t) \<longrightarrow> spares c c'" "cache c' = filter (\<lambda>(k, _). k \<noteq> ftn) (cache c)"
    by (rule evictTrack_sound [OF ok fl ft]) blast
  have "length (cache c') < length (cache c)"
    unfolding c'(6) using ft by (intro length_filter_less [of "(ftn, t)"]) auto
  then show ?thesis using that [of c' True] False l c' ce
    by (simp add: evictOldestTrackIfNeeded_def freed_def)
qed

lemma evict_tracks_sound:
  assumes "sound {} c" and "flags_ok c"
  shows "\<exists>c' n. evict_tracks X fs c = Some (c', n) \<and> sound {} c' \<and> flags_ok c' \<and> frees c c' \<and>
    cache c' = filter (\<lambda>(k, _). k \<notin> set fs) (cache c)"
  using assms
proof (induction X fs c rule: evict_tracks.induct)
  case (1 X c)
  then show ?case by simp
next
  case (2 X f fs c)
  show ?case
  proof (cases "map_of (cache c) f")
    case None
    then have e: "evictTrack X f c = Some (c, 0)" by (simp add: evictTrack_def)
    have "f \<notin> fst ` set (cache c)" using None by (simp add: map_of_eq_None_iff)
    then have q: "filter (\<lambda>(k, _). k \<notin> set (f # fs)) (cache c) = filter (\<lambda>(k, _). k \<notin> set fs) (cache c)"
      by (intro filter_cong) force+
    show ?thesis using 2(1) [OF e refl 2(2,3)] unfolding q by (auto simp: e)
  next
    case (Some t)
    then have ft: "(f, t) \<in> set (cache c)" by (rule map_of_SomeD)
    obtain d where d: "evictTrack X f c = Some (d, 1)" "sound {} d" "flags_ok d" "frees c d"
      "cache d = filter (\<lambda>(k, _). k \<noteq> f) (cache c)"
      using evictTrack_sound [OF 2(2,3) ft] by metis
    have q: "filter (\<lambda>(k, _). k \<notin> set fs) (cache d) = filter (\<lambda>(k, _). k \<notin> set (f # fs)) (cache c)"
      unfolding d(5) filter_filter by (rule filter_cong) auto
    obtain c' n where "evict_tracks X fs d = Some (c', n)" "sound {} c'" "flags_ok c'" "frees d c'"
      "cache c' = filter (\<lambda>(k, _). k \<notin> set fs) (cache d)"
      using 2(1) [OF d(1) refl d(2,3)] by blast
    then show ?thesis using d frees_trans unfolding q by auto
  qed
qed

lemma evict_groups_loop_sound:
  assumes "sound {} c" and "flags_ok c"
  shows "\<exists>c'. evict_groups_loop X t c = Some c' \<and> freed c c' \<and> cache c' = cache c \<and>
    (length (groups (track_heap c' t)) \<le> maxCachedGroupsPerTrack c \<or> groupLRU (track_heap c' t) = [])"
  using assms
proof (induction X t c rule: evict_groups_loop.induct)
  case (1 X t c)
  show ?case
  proof (cases "length (groups (track_heap c t)) > maxCachedGroupsPerTrack c \<and> groupLRU (track_heap c t) \<noteq> []")
    case False
    then show ?thesis using 1(3,4) by (auto simp: evict_groups_loop.simps [of X t c])
  next
    case True
    note s = soundD [OF 1(3)]
    obtain g gid where l: "last (groupLRU (track_heap c t)) = (g, gid)" by (cases "last (groupLRU (track_heap c t))")
    then have "(g, gid) \<in> set (groupLRU (track_heap c t))" using True by (metis last_in_set)
    then have g: "held c t gid g" "group_in_lru (group_heap c g)" using s(6) by (auto simp: group_lru_ok_def lists_ok_def)
    then have m: "map_of (groups (track_heap c t)) gid = Some g" using s(4) by (simp add: held_lookup)
    obtain d where d: "evictGroup X t gid c = Some d" "freed c d" "evicts_to t gid g c d"
      using evictGroup_freed [OF 1(3,4) g] by metis
    have "\<exists>c'. evict_groups_loop X t d = Some c' \<and> freed d c' \<and> cache c' = cache d \<and>
        (length (groups (track_heap c' t)) \<le> maxCachedGroupsPerTrack d \<or> groupLRU (track_heap c' t) = [])"
      using 1(2) [OF True] d m l by (simp add: freedD)
    then show ?thesis using True d m l freed_trans
      by (auto simp: evict_groups_loop.simps [of X t c] evicts_to_def)
  qed
qed

lemma evictOldestGroupsIfNeeded_sound:
  assumes "sound {} c" and "flags_ok c"
  obtains c' where "evictOldestGroupsIfNeeded X t c = Some c'" "freed c c'" "cache c' = cache c"
  using that evict_groups_loop_sound [OF assms, of X t] assms
  by (cases "maxCachedGroupsPerTrack c = 0") (auto simp: evictOldestGroupsIfNeeded_def)

lemma global_iff:
  assumes "sound {} c"
  shows "(g, f, k) \<in> set (globalGroupLRU c) \<longleftrightarrow>
    (\<exists>t. (f, t) \<in> set (cache c) \<and> held c t k g \<and> pinCount (group_heap c g) = 0)"
proof -
  have "held c t k g \<Longrightarrow> group_in_lru (group_heap c g) \<longleftrightarrow> pinCount (group_heap c g) = 0" for t
    using soundD(6) [OF assms] heldI [of c t k g] by (simp add: group_lru_ok_def lists_ok_def)
  then show ?thesis using soundD(6) [OF assms] unfolding group_lru_ok_def lists_ok_def by metis
qed

text \<open>A node of the global list that byte pressure does not touch.\<close>

definition at_join_point :: "('e, 's) moqx_cache \<Rightarrow> gaddr \<times> full_track_name \<times> u64 \<Rightarrow> bool" where
  "at_join_point c n = (case n of (g, f, k) \<Rightarrow> \<exists>t. (f, t) \<in> set (cache c) \<and> isJoinPoint (track_heap c t) k)"

lemma at_join_point_freed:
  assumes "freed c c'" and "at_join_point c n"
  shows "at_join_point c' n"
proof -
  obtain g f k where n: "n = (g, f, k)" by (cases n)
  then obtain t where t: "(f, t) \<in> set (cache c)" "isJoinPoint (track_heap c t) k"
    using assms(2) by (auto simp: at_join_point_def)
  have core: "same_core c c'" and sp: "spares c c'" using assms(1) by (simp_all add: freed_def frees_def)
  have "\<not> canEvict (track_heap c t)" using t(2) by (simp add: isJoinPoint_def canEvict_def)
  then have "(f, t) \<in> set (cache c')" using sp t(1) by (auto simp: spares_def)
  moreover have "isJoinPoint (track_heap c' t) k" using core t(2) by (simp add: isJoinPoint_def same_core_def)
  ultimately show ?thesis using n by (auto simp: at_join_point_def)
qed

text \<open>One step of the pass over the nodes: the group goes, and its track with it when that is left empty.\<close>

lemma byte_limit_step:
  assumes ok: "sound {} c" and fl: "flags_ok c" and n: "(g, ftn, gid) \<in> set (globalGroupLRU c)"
    and ft: "(ftn, t) \<in> set (cache c)"
  obtains c1 c2 where "evictGroup X t gid c = Some c1"
    "(if groups (track_heap c1 t) = [] \<and> canEvict (track_heap c1 t)
      then map_option fst (evictTrack X ftn c1) else Some c1) = Some c2"
    "freed c c2" "set (globalGroupLRU c2) = set (globalGroupLRU c) - {(g, ftn, gid)}"
proof -
  note s = soundD [OF ok]
  have g: "held c t gid g" "group_in_lru (group_heap c g)"
    using s(6) n names_unique(2) [OF s(3) ft] by (auto simp: group_lru_ok_def lists_ok_def)
  obtain c1 where c1: "evictGroup X t gid c = Some c1" "freed c c1" "evicts_to t gid g c c1"
    using evictGroup_freed [OF ok fl g] by metis
  note h = evicts_to_held [OF s(4) c1(3) g(1)]
  have core: "same_core c c1" using c1(2) by (simp add: freed_def frees_def)
  note u = held_unique(1) [OF s(4) g(1)]
  have gl1: "set (globalGroupLRU c1) = set (globalGroupLRU c) - {(g, ftn, gid)}"
  proof -
    have ca: "cache c1 = cache c" using c1(3) by (simp add: evicts_to_def)
    have "(x, f, k) \<in> set (globalGroupLRU c1) \<longleftrightarrow> (x, f, k) \<in> set (globalGroupLRU c) - {(g, ftn, gid)}" for x f k
      using u names_unique(1) [OF s(3) ft]
      by (auto simp: global_iff [OF ok] global_iff [OF freedD(1) [OF c1(2)]] ca h same_core_pins [OF core])
    then show ?thesis by auto
  qed
  show thesis
  proof (cases "groups (track_heap c1 t) = [] \<and> canEvict (track_heap c1 t)")
    case False
    show ?thesis by (rule that [OF c1(1) _ c1(2) gl1]) (simp only: False if_False)
  next
    case True
    have ft1: "(ftn, t) \<in> set (cache c1)" using ft c1(3) by (simp add: evicts_to_def)
    obtain c2 where c2: "evictTrack X ftn c1 = Some (c2, 1)" "sound {} c2" "flags_ok c2" "frees c1 c2" "spares c1 c2"
      "cache c2 = filter (\<lambda>(k, _). k \<noteq> ftn) (cache c1)" "\<forall>s k h. held c2 s k h \<longleftrightarrow> held c1 s k h \<and> s \<noteq> t"
      using evictTrack_sound [OF freedD [OF c1(2)] ft1] True by metis
    have f2: "freed c1 c2" using c2 by (simp add: freed_def)
    have nt: "\<not> held c1 t k h" for k h using True by (simp add: held_def owns_def)
    have n1: "names_ok c1" using freedD(1) [OF c1(2)] by (rule soundD)
    have e: "(f, s) \<in> set (cache c2) \<and> held c2 s k x \<longleftrightarrow> (f, s) \<in> set (cache c1) \<and> held c1 s k x" for f s k x
    proof (cases "held c1 s k x")
      case True
      then have "s \<noteq> t" using nt by blast
      then have "(f, s) \<in> set (cache c2) \<longleftrightarrow> (f, s) \<in> set (cache c1)"
        using names_unique(2) [OF n1 ft1, of s] unfolding c2(6) by auto
      then show ?thesis using True \<open>s \<noteq> t\<close> c2(7) by simp
    qed (simp add: c2(7))
    have "(x, f, k) \<in> set (globalGroupLRU c2) \<longleftrightarrow> (x, f, k) \<in> set (globalGroupLRU c1)" for x f k
      unfolding global_iff [OF c2(2)] global_iff [OF freedD(1) [OF c1(2)]] same_core_pins [OF frees_core [OF c2(4)]]
      using e [of f _ k x] by blast
    then have "set (globalGroupLRU c2) = set (globalGroupLRU c1)" by auto
    then show ?thesis using that [of c1 c2] True c1 c2(1) gl1 freed_trans [OF c1(2) f2] by simp
  qed
qed

lemma byte_limit_loop_sound:
  assumes "sound {} c" and "flags_ok c" and "set nodes \<subseteq> set (globalGroupLRU c)" and "distinct nodes"
    and "\<forall>n\<in>set (globalGroupLRU c) - set nodes. at_join_point c n"
  shows "\<exists>c'. byte_limit_loop X target nodes c = Some c' \<and> freed c c' \<and>
    (totalCachedBytes c' \<le> target \<or> (\<forall>n\<in>set (globalGroupLRU c'). at_join_point c' n))"
  using assms
proof (induction X target nodes c rule: byte_limit_loop.induct)
  case (1 X target c)
  then show ?case by simp
next
  case (2 X target g ftn gid nodes c)
  note ok = 2(5) and fl = 2(6) and sub = 2(7) and dist = 2(8) and rest = 2(9)
  note s = soundD [OF ok]
  show ?case
  proof (cases "totalCachedBytes c > target")
    case False
    then show ?thesis using ok fl by simp
  next
    case True
    have n: "(g, ftn, gid) \<in> set (globalGroupLRU c)" using sub by simp
    then obtain t where ft: "(ftn, t) \<in> set (cache c)" and g: "held c t gid g"
      using global_iff [OF ok] by blast
    have m: "map_of (cache c) ftn = Some t" using ft s(3) by (simp add: cached_lookup)
    have mg: "map_of (groups (track_heap c t)) gid = Some g" using g s(4) by (simp add: held_lookup)
    then have mg': "map_of (groups (track_heap c t)) gid \<noteq> None" by simp
    show ?thesis
    proof (cases "isJoinPoint (track_heap c t) gid")
      case True
      then have "at_join_point c (g, ftn, gid)" using ft by (auto simp: at_join_point_def)
      then have "\<forall>n\<in>set (globalGroupLRU c) - set nodes. at_join_point c n" using rest by auto
      then have "\<exists>c'. byte_limit_loop X target nodes c = Some c' \<and> freed c c' \<and>
          (totalCachedBytes c' \<le> target \<or> (\<forall>n\<in>set (globalGroupLRU c'). at_join_point c' n))"
        using 2(3) [OF \<open>totalCachedBytes c > target\<close> m mg' True ok fl] sub dist by simp
      then show ?thesis using m mg True \<open>totalCachedBytes c > target\<close> by simp
    next
      case False
      obtain c1 c2 where c: "evictGroup X t gid c = Some c1"
        "(if groups (track_heap c1 t) = [] \<and> canEvict (track_heap c1 t)
          then map_option fst (evictTrack X ftn c1) else Some c1) = Some c2"
        "freed c c2" "set (globalGroupLRU c2) = set (globalGroupLRU c) - {(g, ftn, gid)}"
        by (rule byte_limit_step [OF ok fl n ft])
      have "\<forall>n\<in>set (globalGroupLRU c2) - set nodes. at_join_point c2 n"
        using rest at_join_point_freed [OF c(3)] unfolding c(4) by auto
      then have "\<exists>c'. byte_limit_loop X target nodes c2 = Some c' \<and> freed c2 c' \<and>
          (totalCachedBytes c' \<le> target \<or> (\<forall>n\<in>set (globalGroupLRU c'). at_join_point c' n))"
        using 2(4) [OF \<open>totalCachedBytes c > target\<close> m mg' False c(1,2) freedD [OF c(3)]] sub dist c(4) by auto
      then show ?thesis using m mg False \<open>totalCachedBytes c > target\<close> c freed_trans [OF c(3)] by auto
    qed
  qed
qed

lemma evictForByteLimitIfNeeded_sound:
  assumes ok: "sound {} c" and fl: "flags_ok c"
  obtains c' b where "evictForByteLimitIfNeeded X c = Some (c', b)" "freed c c'"
    "maxCachedBytes c = 0 \<or> totalCachedBytes c' \<le> maxCachedBytes c \<or>
       (\<forall>n\<in>set (globalGroupLRU c'). at_join_point c' n)"
    "b \<longleftrightarrow> maxCachedBytes c = 0 \<or> totalCachedBytes c' \<le> maxCachedBytes c"
proof (cases "maxCachedBytes c = 0 \<or> totalCachedBytes c \<le> maxCachedBytes c")
  case True
  show ?thesis by (rule that [of c True]) (use True ok fl in \<open>auto simp: evictForByteLimitIfNeeded_def\<close>)
next
  case False
  define target where "target = (if minEvictionBytes c < maxCachedBytes c then maxCachedBytes c - minEvictionBytes c else 0)"
  have "distinct (globalGroupLRU c)" using soundD(6) [OF ok] by (simp add: group_lru_ok_def lists_ok_def distinct_map)
  then obtain c' where c': "byte_limit_loop X target (rev (globalGroupLRU c)) c = Some c'" "freed c c'"
    "totalCachedBytes c' \<le> target \<or> (\<forall>n\<in>set (globalGroupLRU c'). at_join_point c' n)"
    using byte_limit_loop_sound [OF ok fl, of "rev (globalGroupLRU c)" X target] by auto
  have m: "maxCachedBytes c' = maxCachedBytes c" using c'(2) by (simp add: freed_def frees_def same_core_def)
  have "evictForByteLimitIfNeeded X c = Some (c', totalCachedBytes c' \<le> maxCachedBytes c)"
    using False c'(1) m by (simp add: evictForByteLimitIfNeeded_def target_def [symmetric] Let_def linorder_not_less)
  moreover have "target \<le> maxCachedBytes c" by (simp add: target_def)
  ultimately show ?thesis using that [of c' "totalCachedBytes c' \<le> maxCachedBytes c"] c'(2,3) False by auto
qed

section \<open>Pins\<close>

text \<open>Two states that differ at most in the order of groups.\<close>

definition relinks :: "('e, 's) moqx_cache \<Rightarrow> ('e, 's) moqx_cache \<Rightarrow> bool" where
  "relinks c c' \<longleftrightarrow> same_core c c' \<and> cache c' = cache c \<and> trackLRU c' = trackLRU c \<and>
     totalCachedBytes c' = totalCachedBytes c \<and>
     (\<forall>s. groups (track_heap c' s) = groups (track_heap c s) \<and>
          track_in_lru (track_heap c' s) = track_in_lru (track_heap c s) \<and>
          evicted (track_heap c' s) = evicted (track_heap c s))"

lemma relinks_refl [simp]: "relinks c c"
  by (simp add: relinks_def)

lemma relinks_views:
  assumes "relinks c c'"
  shows "tracks c' = tracks c" "held c' = held c" "held_groups c' = held_groups c" "flags_ok c' = flags_ok c"
    "canEvict (track_heap c' s) = canEvict (track_heap c s)" "owns c' = owns c"
  using assms
  by (simp_all add: relinks_def tracks_def held_def owns_def fun_eq_iff held_groups_def flags_ok_def same_core_def canEvict_def)

lemma relinks_sound:
  assumes r: "relinks c c'" and ok: "sound E c" and l: "group_lru_ok E' c'"
  shows "sound E' c'"
proof -
  note v = relinks_views [OF r] and s = soundD [OF ok]
  have core: "same_core c c'" using r by (simp add: relinks_def)
  have "names_ok c'" "groups_ok c'" "track_lru_ok c'" "bytes_ok c'"
    using s r core by (simp_all add: names_ok_def groups_ok_def track_lru_ok_def bytes_ok_def v
        same_core_bytes [OF core] relinks_def same_core_def)
  then show ?thesis using l by (simp add: sound_def store_ok_def)
qed

lemma addGroupToLRU_relinks: "relinks c (addGroupToLRU ftn gid g t c)"
  by (simp add: addGroupToLRU_def relinks_def same_core_def upd_group_def upd_track_def unlinked_def)

lemma removeGroupFromLRU_relinks: "relinks c (removeGroupFromLRU g t c)"
  by (simp add: removeGroupFromLRU_def relinks_def same_core_def upd_group_def upd_track_def unlinked_def
      unlink_track_node_def unlink_global_node_def Let_def)

lemma exempt_drop:
  assumes "sound (insert g E) c"
    and "g \<in> held_groups c \<Longrightarrow> group_in_lru (group_heap c g) \<longleftrightarrow> pinCount (group_heap c g) = 0"
  shows "sound E c"
proof -
  have "group_in_lru (group_heap c x) \<longleftrightarrow> pinCount (group_heap c x) = 0" if "x \<in> held_groups c - E" for x
    using that assms(2) sound_lists(5) [OF assms(1), of x] by (cases "x = g") simp_all
  then show ?thesis using assms(1) by (simp add: sound_def store_ok_def group_lru_ok_def)
qed

lemma addGroupToLRU_sound:
  assumes ok: "sound (insert g E) c" and ft: "(ftn, t) \<in> set (cache c)" and g: "held c t gid g"
    and live: "\<not> evicted (track_heap c t)" and pin: "pinCount (group_heap c g) = 0"
  shows "sound E (addGroupToLRU ftn gid g t c)" (is "sound E ?c")
proof (cases "group_in_lru (group_heap c g)")
  case True
  then have "sound E c" using exempt_drop [OF ok] pin by blast
  then show ?thesis using True by (simp add: addGroupToLRU_def)
next
  case False
  note s = soundD [OF ok]
  have m: "map_of (groups (track_heap c t)) gid = Some g" using g s(4) by (simp add: held_lookup)
  have c: "?c = upd_group g (\<lambda>G. G\<lparr>group_in_lru := True, group_in_global := True\<rparr>)
      (upd_track t (\<lambda>T. T\<lparr>groupLRU := (g, gid) # groupLRU T\<rparr>) (c\<lparr>globalGroupLRU := (g, ftn, gid) # globalGroupLRU c\<rparr>))"
    using False m live by (simp add: addGroupToLRU_def)
  note v = relinks_views [OF addGroupToLRU_relinks, of ftn gid g t c]
  note u = held_unique(1) [OF s(4) g]
  have new: "g \<notin> fst ` set (groupLRU (track_heap c t))" "g \<notin> fst ` set (globalGroupLRU c)"
    using False by (auto simp: sound_lists [OF ok])
  have gl: "(x, k) \<in> set (groupLRU (track_heap ?c s)) \<longleftrightarrow> (x, k) \<in> set (groupLRU (track_heap c s)) \<or> s = t \<and> x = g \<and> k = gid" for x k s
    by (auto simp: c upd_group_def upd_track_def)
  have gg: "(x, f, k) \<in> set (globalGroupLRU ?c) \<longleftrightarrow> (x, f, k) \<in> set (globalGroupLRU c) \<or> x = g \<and> f = ftn \<and> k = gid" for x f k
    by (auto simp: c upd_group_def upd_track_def)
  have fl: "group_in_lru (group_heap ?c x) \<longleftrightarrow> x = g \<or> group_in_lru (group_heap c x)"
    "group_in_global (group_heap ?c x) \<longleftrightarrow> x = g \<or> group_in_global (group_heap c x)"
    "pinCount (group_heap ?c x) = pinCount (group_heap c x)" for x
    by (simp_all add: c upd_group_def upd_track_def)
  have d: "distinct (map fst (groupLRU (track_heap ?c s)))" "distinct (map fst (globalGroupLRU ?c))" for s
    using sound_lists(6,7) [OF ok] new by (auto simp: c upd_group_def upd_track_def)
  have cc: "cache ?c = cache c" using addGroupToLRU_relinks [of c ftn gid g t] by (simp add: relinks_def)
  have "group_lru_ok E ?c"
    unfolding group_lru_ok_def lists_ok_def
  proof (intro conjI allI ballI impI)
    fix s k x
    show "(x, k) \<in> set (groupLRU (track_heap ?c s)) \<longleftrightarrow> held ?c s k x \<and> group_in_lru (group_heap ?c x)"
      using u unfolding gl v fl sound_lists(1) [OF ok] by auto
  next
    fix x f k
    have "(\<exists>s. (f, s) \<in> set (cache c) \<and> held c s k g) \<longleftrightarrow> f = ftn \<and> k = gid"
      unfolding u using ft names_unique(1) [OF s(3) ft, of f] by auto
    then show "(x, f, k) \<in> set (globalGroupLRU ?c) \<longleftrightarrow>
        (\<exists>s. (f, s) \<in> set (cache ?c) \<and> held ?c s k x \<and> group_in_lru (group_heap ?c x))"
      using False unfolding gg v fl cc sound_lists(2) [OF ok] by (cases "x = g") simp_all
  next
    fix x
    show "group_in_global (group_heap ?c x) = group_in_lru (group_heap ?c x)"
      unfolding fl sound_lists(3) [OF ok] ..
  next
    fix x assume "group_in_lru (group_heap ?c x)"
    then show "x \<in> held_groups ?c" using heldI [OF g] sound_lists(4) [OF ok] unfolding fl v by blast
  next
    fix x assume "x \<in> held_groups ?c - E"
    then show "group_in_lru (group_heap ?c x) \<longleftrightarrow> pinCount (group_heap ?c x) = 0"
      using pin sound_lists(5) [OF ok, of x] unfolding fl v by auto
  qed (rule d)+
  then show ?thesis by (rule relinks_sound [OF addGroupToLRU_relinks ok])
qed

lemma removeGroupFromLRU_sound:
  assumes ok: "sound E c" and g: "held c t gid g"
  shows "sound (insert g E) (removeGroupFromLRU g t c)" (is "sound ?E ?c")
    and "\<not> group_in_lru (group_heap (removeGroupFromLRU g t c) g)"
proof -
  note s = soundD [OF ok]
  note u = held_unique(1) [OF s(4) g]
  have fl: "group_in_lru (group_heap ?c x) \<longleftrightarrow> x \<noteq> g \<and> group_in_lru (group_heap c x)"
    "group_in_global (group_heap ?c x) \<longleftrightarrow> x \<noteq> g \<and> group_in_global (group_heap c x)"
    "pinCount (group_heap ?c x) = pinCount (group_heap c x)" for x
    using sound_lists(3) [OF ok, of g]
    by (auto simp: removeGroupFromLRU_def Let_def unlink_track_node_def unlink_global_node_def upd_group_def upd_track_def)
  show "\<not> group_in_lru (group_heap (removeGroupFromLRU g t c) g)" by (simp add: fl)
  have gl: "(x, k) \<in> set (groupLRU (track_heap ?c s)) \<longleftrightarrow> (x, k) \<in> set (groupLRU (track_heap c s)) \<and> x \<noteq> g" for x k s
  proof (cases "x = g")
    case True
    have "(g, k) \<in> set (groupLRU (track_heap c s)) \<Longrightarrow> s = t \<and> group_in_lru (group_heap c g)"
      by (simp add: sound_lists(1) [OF ok] u)
    then show ?thesis using True
      by (auto simp: removeGroupFromLRU_def Let_def unlink_track_node_def unlink_global_node_def upd_group_def upd_track_def)
  qed (auto simp: removeGroupFromLRU_def Let_def unlink_track_node_def unlink_global_node_def upd_group_def upd_track_def)
  have gg: "(x, f, k) \<in> set (globalGroupLRU ?c) \<longleftrightarrow> (x, f, k) \<in> set (globalGroupLRU c) \<and> x \<noteq> g" for x f k
  proof -
    have "\<not> group_in_lru (group_heap c g) \<Longrightarrow> (g, f, k) \<notin> set (globalGroupLRU c)"
      by (simp add: sound_lists(2) [OF ok])
    then show ?thesis using sound_lists(3) [OF ok, of g]
      by (auto simp: removeGroupFromLRU_def Let_def unlink_track_node_def unlink_global_node_def upd_group_def upd_track_def)
  qed
  have d: "distinct (map fst (groupLRU (track_heap ?c s)))" "distinct (map fst (globalGroupLRU ?c))" for s
    using sound_lists(6,7) [OF ok]
    by (simp_all add: removeGroupFromLRU_def Let_def unlink_track_node_def unlink_global_node_def upd_group_def upd_track_def)
  note r = removeGroupFromLRU_relinks [of c g t]
  note v = relinks_views [OF r]
  have cc: "cache ?c = cache c" using r by (simp add: relinks_def)
  have "group_lru_ok ?E ?c"
    unfolding group_lru_ok_def lists_ok_def gl gg fl v cc sound_lists(1-3) [OF ok]
    using sound_lists(4,5) [OF ok] d by blast
  then show "sound ?E ?c" by (rule relinks_sound [OF r ok])
qed

lemma upd_group_views [simp]:
  "tracks (upd_group g f c) = tracks c" "owns (upd_group g f c) = owns c" "held (upd_group g f c) = held c"
  "held_groups (upd_group g f c) = held_groups c"
  by (simp_all add: upd_group_def tracks_def held_def owns_def held_groups_def fun_eq_iff)

lemma set_pin_sound:
  assumes ok: "sound E c"
  shows "sound (insert g E) (upd_group g (\<lambda>G. G\<lparr>pinCount := n\<rparr>) c)" (is "sound ?E ?c")
proof -
  have f: "track_heap ?c = track_heap c" "cache ?c = cache c" "trackLRU ?c = trackLRU c" "globalGroupLRU ?c = globalGroupLRU c"
    "next_taddr ?c = next_taddr c" "next_gaddr ?c = next_gaddr c" "totalCachedBytes ?c = totalCachedBytes c"
    by (simp_all add: upd_group_def)
  have h: "group_in_lru (group_heap ?c x) = group_in_lru (group_heap c x)"
    "group_in_global (group_heap ?c x) = group_in_global (group_heap c x)"
    "totalBytes (group_heap ?c x) = totalBytes (group_heap c x)"
    "objects_ok (group_heap ?c x) = objects_ok (group_heap c x)" for x
    by (simp_all add: upd_group_def objects_ok_def)
  have p: "x \<noteq> g \<Longrightarrow> pinCount (group_heap ?c x) = pinCount (group_heap c x)" for x by (simp add: upd_group_def)
  have l: "group_in_lru (group_heap c x) = (pinCount (group_heap ?c x) = 0)" if "x \<in> held_groups c - ?E" for x
    using that sound_lists(5) [OF ok, of x] p [of x] by simp
  have "names_ok ?c" "groups_ok ?c" "track_lru_ok ?c" "bytes_ok ?c"
    using soundD [OF ok] by (simp_all add: names_ok_def groups_ok_def track_lru_ok_def bytes_ok_def f h)
  moreover have "lists_ok ?c"
    using soundD(6) [OF ok] unfolding group_lru_ok_def lists_ok_def f h upd_group_views by blast
  then have "group_lru_ok ?E ?c" using l by (simp add: group_lru_ok_def f h)
  ultimately show ?thesis by (simp add: sound_def store_ok_def)
qed

text \<open>What a change of a pin count leaves of the rest.\<close>

definition repins :: "gaddr \<Rightarrow> nat \<Rightarrow> ('e, 's) moqx_cache \<Rightarrow> ('e, 's) moqx_cache \<Rightarrow> bool" where
  "repins g n c c' \<longleftrightarrow> relinks (upd_group g (\<lambda>G. G\<lparr>pinCount := n\<rparr>) c) c'"

lemma repins_pins: "repins g n c c' \<Longrightarrow> pinCount (group_heap c' x) = (if x = g then n else pinCount (group_heap c x))"
  by (auto simp: repins_def relinks_def upd_group_def dest!: same_core_pins [of _ c' x])

lemma repins_views:
  assumes "repins g n c c'"
  shows "tracks c' = tracks c" "held c' = held c" "flags_ok c' = flags_ok c"
    "canEvict (track_heap c' s) = canEvict (track_heap c s)"
  using assms relinks_views [of "upd_group g (\<lambda>G. G\<lparr>pinCount := n\<rparr>) c" c']
  unfolding repins_def by simp_all (simp_all add: upd_group_def flags_ok_def tracks_def)

lemma pinGroup_sound:
  assumes ok: "sound (insert g E) c" and g: "held c t gid g"
    and pin: "pinCount (group_heap c g) > 0 \<longrightarrow> \<not> group_in_lru (group_heap c g)"
  shows "sound E (pinGroup g t c)" and "repins g (Suc (pinCount (group_heap c g))) c (pinGroup g t c)"
proof -
  define c1 where "c1 = upd_group g (\<lambda>G. G\<lparr>pinCount := Suc (pinCount (group_heap c g))\<rparr>) c"
  have p: "pinGroup g t c = (if pinCount (group_heap c g) = 0 then removeGroupFromLRU g t c1 else c1)"
    by (simp add: pinGroup_def c1_def)
  have s1: "sound (insert g E) c1" using set_pin_sound [OF ok, of g] by (simp add: c1_def)
  have h1: "held c1 t gid g" using g by (simp add: c1_def)
  have f1: "group_in_lru (group_heap c1 g) = group_in_lru (group_heap c g)"
    "pinCount (group_heap c1 g) = Suc (pinCount (group_heap c g))" by (simp_all add: c1_def upd_group_def)
  show r: "repins g (Suc (pinCount (group_heap c g))) c (pinGroup g t c)"
    unfolding repins_def c1_def [symmetric] p using removeGroupFromLRU_relinks [of c1 g t] by simp
  have "sound (insert g E) (pinGroup g t c)"
    using removeGroupFromLRU_sound(1) [OF s1 h1] s1 by (simp add: p)
  moreover have "\<not> group_in_lru (group_heap (pinGroup g t c) g)"
    using removeGroupFromLRU_sound(2) [OF s1 h1] pin f1 by (simp add: p)
  moreover have "pinCount (group_heap (pinGroup g t c) g) > 0" using repins_pins [OF r, of g] by simp
  ultimately show "sound E (pinGroup g t c)" by (intro exempt_drop [of g E]) simp_all
qed

lemma unpinGroup_sound:
  assumes ok: "sound E c" and pin: "pinCount (group_heap c g) > 0" and E: "g \<notin> E"
    and g: "g \<in> held_groups c \<Longrightarrow> held c t gid g \<and> (ftn, t) \<in> set (cache c) \<and> \<not> evicted (track_heap c t)"
    and n: "g \<notin> held_groups c \<Longrightarrow> evicted (track_heap c t)"
  obtains c' where "unpinGroup ftn gid g t c = Some c'" "sound E c'" "repins g (pinCount (group_heap c g) - 1) c c'"
proof -
  define c1 where "c1 = upd_group g (\<lambda>G. G\<lparr>pinCount := pinCount (group_heap c g) - 1\<rparr>) c"
  define c' where "c' = (if pinCount (group_heap c1 g) = 0 then addGroupToLRU ftn gid g t c1 else c1)"
  have e: "unpinGroup ftn gid g t c = Some c'" using pin by (simp add: unpinGroup_def c1_def c'_def upd_group_def)
  have s1: "sound (insert g E) c1" using set_pin_sound [OF ok] by (simp add: c1_def)
  have f: "held c1 = held c" "held_groups c1 = held_groups c" "cache c1 = cache c" "track_heap c1 = track_heap c"
    "group_in_lru (group_heap c1 g) = group_in_lru (group_heap c g)"
    by (simp_all add: c1_def) (simp_all add: upd_group_def)
  have r: "repins g (pinCount (group_heap c g) - 1) c c'"
    unfolding repins_def c1_def [symmetric] c'_def using addGroupToLRU_relinks [of c1 ftn gid g t] by simp
  have "sound E c'"
  proof (cases "g \<in> held_groups c")
    case True
    note h = g [OF True]
    have "\<not> group_in_lru (group_heap c g)" using sound_lists(5) [OF ok True E] pin by simp
    show ?thesis
    proof (cases "pinCount (group_heap c1 g) = 0")
      case True
      then show ?thesis using addGroupToLRU_sound [OF s1, of ftn t gid] h f by (simp add: c'_def)
    next
      case False
      then show ?thesis using exempt_drop [OF s1] \<open>\<not> group_in_lru (group_heap c g)\<close> f by (simp add: c'_def)
    qed
  next
    case False
    then have "evicted (track_heap c1 t)" using n f by simp
    then have "c' = c1" by (simp add: c'_def addGroupToLRU_def)
    then show ?thesis using exempt_drop [OF s1] False f by simp
  qed
  then show thesis using that e r by blast
qed

section \<open>New groups\<close>

definition add_group :: "taddr \<Rightarrow> u64 \<Rightarrow> ('e, 's) moqx_cache \<Rightarrow> ('e, 's) moqx_cache" where
  "add_group t gid c =
     upd_track t (\<lambda>T. T\<lparr>groups := groups T @ [(gid, next_gaddr c)]\<rparr>) (fst (alloc_group c))"

lemma add_group_fields [simp]:
  "cache (add_group t gid c) = cache c" "trackLRU (add_group t gid c) = trackLRU c"
  "globalGroupLRU (add_group t gid c) = globalGroupLRU c" "next_taddr (add_group t gid c) = next_taddr c"
  "next_gaddr (add_group t gid c) = Suc (next_gaddr c)" "totalCachedBytes (add_group t gid c) = totalCachedBytes c"
  "group_heap (add_group t gid c) = (group_heap c)(next_gaddr c := new_group)"
  "groupLRU (track_heap (add_group t gid c) s) = groupLRU (track_heap c s)"
  "track_in_lru (track_heap (add_group t gid c) s) = track_in_lru (track_heap c s)"
  "liveWritebackCount (track_heap (add_group t gid c) s) = liveWritebackCount (track_heap c s)"
  "fetchesInProgress (track_heap (add_group t gid c) s) = fetchesInProgress (track_heap c s)"
  "largestGroupAndObject (track_heap (add_group t gid c) s) = largestGroupAndObject (track_heap c s)"
  "evicted (track_heap (add_group t gid c) s) = evicted (track_heap c s)"
  "canEvict (track_heap (add_group t gid c) s) = canEvict (track_heap c s)"
  "tracks (add_group t gid c) = tracks c"
  "maxCachedGroupsPerTrack (add_group t gid c) = maxCachedGroupsPerTrack c"
  "groups (track_heap (add_group t gid c) s) =
     (if s = t then groups (track_heap c t) @ [(gid, next_gaddr c)] else groups (track_heap c s))"
  by (simp_all add: add_group_def alloc_group_def upd_track_def upd_group_def tracks_def canEvict_def)

lemma add_group_flags [simp]: "flags_ok (add_group t gid c) = flags_ok c"
  by (simp add: flags_ok_def)

lemma add_group_owns: "owns (add_group t gid c) s k h \<longleftrightarrow> owns c s k h \<or> s = t \<and> k = gid \<and> h = next_gaddr c"
  by (auto simp: owns_def)

lemma add_group_held:
  "held (add_group t gid c) s k h \<longleftrightarrow> held c s k h \<or> t \<in> tracks c \<and> s = t \<and> k = gid \<and> h = next_gaddr c"
  by (auto simp: held_def add_group_owns)

lemma new_group_ok [simp]:
  "objects_ok new_group" "totalBytes new_group = 0" "pinCount new_group = 0"
  "\<not> group_in_lru new_group" "\<not> group_in_global new_group" "objects new_group = []"
  by (simp_all add: new_group_def objects_ok_def)

lemma fresh_group:
  assumes "sound E c"
  shows "next_gaddr c \<notin> held_groups c" "\<not> group_in_lru (group_heap c (next_gaddr c))"
proof -
  show n: "next_gaddr c \<notin> held_groups c"
    using held_unique(3) [OF soundD(4) [OF assms]] by (auto simp: held_groups_def)
  show "\<not> group_in_lru (group_heap c (next_gaddr c))" using sound_lists(4) [OF assms] n by blast
qed

lemma add_group_sound:
  assumes ok: "sound E c" and new: "map_of (groups (track_heap c t)) gid = None"
  shows "sound (insert (next_gaddr c) E) (add_group t gid c)" (is "sound ?E ?c")
proof -
  note s = soundD [OF ok] and fr = fresh_group [OF ok]
  have no: "\<not> owns c s k (next_gaddr c)" for s k using s(4) unfolding groups_ok_def by blast
  have nh: "\<not> held c s k (next_gaddr c)" for s k using no by (simp add: held_def)
  have hg: "held_groups ?c = (if t \<in> tracks c then insert (next_gaddr c) (held_groups c) else held_groups c)"
    by (auto simp: held_groups_def add_group_held)
  have "names_ok ?c" "track_lru_ok ?c" using s(3,5) by (simp_all add: names_ok_def track_lru_ok_def)
  moreover have "groups_ok ?c"
    unfolding groups_ok_def
  proof (intro conjI allI impI)
    fix s
    show "distinct (map fst (groups (track_heap ?c s)))"
      using s(4) new by (auto simp: groups_ok_def map_of_eq_None_iff)
  next
    fix s k h assume "owns ?c s k h"
    moreover have "owns c s k h \<Longrightarrow> h < next_gaddr c" using s(4) unfolding groups_ok_def by blast
    ultimately show "h < next_gaddr ?c" by (auto simp: add_group_owns less_Suc_eq)
  next
    fix s k h s' k' assume "owns ?c s k h \<and> owns ?c s' k' h"
    moreover have "owns c s k h \<and> owns c s' k' h \<longrightarrow> s = s' \<and> k = k'" using s(4) unfolding groups_ok_def by blast
    ultimately show "s = s'" "k = k'" using no by (auto simp: add_group_owns)
  qed
  moreover have "group_lru_ok ?E ?c"
  proof -
    have f: "group_in_lru (group_heap ?c x) = group_in_lru (group_heap c x)"
      "group_in_global (group_heap ?c x) = group_in_global (group_heap c x)" for x
      using fr(2) sound_lists(3) [OF ok, of "next_gaddr c"] by simp_all
    have h: "held ?c s k x \<and> group_in_lru (group_heap c x) \<longleftrightarrow> held c s k x \<and> group_in_lru (group_heap c x)" for s k x
      using fr(2) by (auto simp: add_group_held)
    have p: "group_in_lru (group_heap c x) = (pinCount (group_heap ?c x) = 0)" if "x \<in> held_groups ?c - ?E" for x
      using that sound_lists(5) [OF ok, of x] by (auto simp: hg split: if_splits)
    show ?thesis
      unfolding group_lru_ok_def lists_ok_def f h
    proof (intro conjI allI impI ballI)
      fix x assume "group_in_lru (group_heap c x)"
      then show "x \<in> held_groups ?c" using sound_lists(4) [OF ok] by (simp add: hg)
    qed (simp_all add: sound_lists(1-3,6,7) [OF ok] p del: add_group_fields(7))
  qed
  moreover have "bytes_ok ?c"
  proof -
    have "(\<Sum>x\<in>held_groups c. totalBytes (group_heap ?c x)) = (\<Sum>x\<in>held_groups c. totalBytes (group_heap c x))"
      by (rule sum.cong) (use fr(1) in auto)
    then show ?thesis using s(2) fr(1) by (simp add: bytes_ok_def hg del: add_group_fields(7)) simp
  qed
  ultimately show ?thesis by (simp add: sound_def store_ok_def)
qed

section \<open>Writing an object\<close>

text \<open>\<open>edits g c c'\<close>: only objects and bytes of group \<open>g\<close>, and gaps and other marks, differ.\<close>

definition edits :: "gaddr \<Rightarrow> ('e, 's) moqx_cache \<Rightarrow> ('e, 's) moqx_cache \<Rightarrow> bool" where
  "edits g c c' \<longleftrightarrow> same_store c c' \<and> totalCachedBytes c' = totalCachedBytes c \<and>
     maxCachedTracks c' = maxCachedTracks c \<and> maxCachedGroupsPerTrack c' = maxCachedGroupsPerTrack c \<and>
     maxCachedBytes c' = maxCachedBytes c \<and> minEvictionBytes c' = minEvictionBytes c \<and>
     (\<forall>x. x \<noteq> g \<longrightarrow> totalBytes (group_heap c' x) = totalBytes (group_heap c x) \<and>
        objects (group_heap c' x) = objects (group_heap c x))"

lemma edits_refl [simp]: "edits g c c"
  by (simp add: edits_def)

lemma edits_trans: "edits g c d \<Longrightarrow> edits g d e \<Longrightarrow> edits g c e"
  unfolding edits_def by (auto intro: same_store_trans)

lemma edits_upd_track [simp]: "track_frame f \<Longrightarrow> edits g c (upd_track t f c)"
  by (simp add: edits_def same_store_upd_track) (simp add: upd_track_def)

lemma edits_upd_group [simp]: "group_frame f \<Longrightarrow> edits g c (upd_group g f c)"
  by (simp add: edits_def same_store_upd_group) (simp add: upd_group_def)

lemma upd_heaps [simp]:
  "group_heap (upd_track t f c) = group_heap c" "track_heap (upd_group g h c) = track_heap c"
  "group_heap (upd_group g h c) = (group_heap c)(g := h (group_heap c g))"
  "track_heap (upd_track t f c) = (track_heap c)(t := f (track_heap c t))"
  by (simp_all add: upd_track_def upd_group_def)

text \<open>\<open>annotates g c c'\<close>: not even objects and bytes differ.\<close>

definition annotates :: "gaddr \<Rightarrow> ('e, 's) moqx_cache \<Rightarrow> ('e, 's) moqx_cache \<Rightarrow> bool" where
  "annotates g c c' \<longleftrightarrow> edits g c c' \<and> objects (group_heap c' g) = objects (group_heap c g) \<and>
     totalBytes (group_heap c' g) = totalBytes (group_heap c g)"

lemma annotates_refl [simp]: "annotates g c c"
  by (simp add: annotates_def)

lemma annotates_trans: "annotates g c d \<Longrightarrow> annotates g d e \<Longrightarrow> annotates g c e"
  unfolding annotates_def using edits_trans by fastforce

lemma annotates_upd_track [simp]: "track_frame f \<Longrightarrow> annotates g c (upd_track t f c)"
  by (simp add: annotates_def)

lemma annotates_upd_group:
  "group_frame f \<Longrightarrow> (\<And>G. objects (f G) = objects G \<and> totalBytes (f G) = totalBytes G) \<Longrightarrow> annotates g c (upd_group g f c)"
  by (simp add: annotates_def)

lemma annotates_groups: "annotates g c c' \<Longrightarrow> groups (track_heap c' t) = groups (track_heap c t)"
  by (simp add: annotates_def edits_def same_store_def)

lemma annotates_objects: "annotates g c c' \<Longrightarrow> objects (group_heap c' x) = objects (group_heap c x)"
  by (cases "x = g") (simp_all add: annotates_def edits_def)

lemma processGroupGap_annotates:
  assumes "map_of (groups (track_heap c t)) gid = Some g"
  shows "annotates g c (fst (processGroupGap X t gid gap c))"
proof -
  have n: "annotates g c (upd_group g (\<lambda>G. G\<lparr>seenPriorGroupIdGap := Some gap\<rparr>) c)"
    by (rule annotates_upd_group) (simp_all add: group_frame_def)
  show ?thesis
    using assms n
    by (auto simp: processGroupGap_def getOrCreateGroup_def Let_def intro: annotates_trans split: option.split)
qed

lemma processObjectGap_annotates:
  assumes "map_of (groups (track_heap c t)) gid = Some g"
  shows "annotates g c (fst (processObjectGap X t gid oid gap c))"
  using assms by (auto simp: processObjectGap_def getOrCreateGroup_def Let_def)

lemma processGapExtensions_annotates:
  assumes "map_of (groups (track_heap c t)) gid = Some g"
  shows "annotates g c (fst (processGapExtensions X t gid oid ext c))"
proof -
  obtain c1 err where p: "(case priorGroupIdGap X ext of None \<Rightarrow> (c, None) | Some gap \<Rightarrow> processGroupGap X t gid gap c) = (c1, err)"
    by fastforce
  then have n: "annotates g c c1"
    using processGroupGap_annotates [OF assms, of X] by (auto split: option.splits) (metis fst_conv)
  have m: "map_of (groups (track_heap c1 t)) gid = Some g" using assms by (simp add: annotates_groups [OF n])
  show ?thesis
    using n annotates_trans [OF n processObjectGap_annotates [OF m]]
    by (auto simp: processGapExtensions_def p split: option.split)
qed

lemma mark_end_annotates: "annotates g c (mark_end X g t gid oid st c)"
proof -
  have e: "annotates g d (upd_group g (\<lambda>G. G\<lparr>endOfGroup := True\<rparr>) d)" for d :: "('a, 'b) moqx_cache"
    by (rule annotates_upd_group) (simp_all add: group_frame_def)
  define c1 where "c1 = (case nextInGroup X (gid, oid) of
      None \<Rightarrow> c | Some nx \<Rightarrow> upd_track t (insertGap X nx (gid, max_object X)) c)"
  define c2 where "c2 = (if st = END_OF_TRACK then (case nextGroup X (gid, 0) of
      None \<Rightarrow> c1 | Some ng \<Rightarrow> upd_track t (insertGap X ng (kLocationMax X)) c1) else c1)"
  have "annotates g c c1" by (simp add: c1_def split: option.split)
  moreover have "annotates g c1 c2" by (simp add: c2_def split: option.split)
  ultimately have "annotates g c (upd_group g (\<lambda>G. G\<lparr>endOfGroup := True\<rparr>) c2)" using e annotates_trans by blast
  then show ?thesis
    unfolding mark_end_def Let_def c1_def [symmetric] unfolding c2_def [symmetric] by simp
qed

lemma sum_upsert:
  fixes f :: "'v \<Rightarrow> nat"
  shows "(\<Sum>(k, e)\<leftarrow>upsert k v (\<lambda>_. v) al. f e) + (case map_of al k of None \<Rightarrow> 0 | Some e \<Rightarrow> f e) =
    (\<Sum>(k, e)\<leftarrow>al. f e) + f v"
  by (induction al) (auto split: option.splits)

lemma upsert_sum_grow:
  assumes "case map_of al k of None \<Rightarrow> f v = n | Some e \<Rightarrow> f v = f e + n"
  shows "(\<Sum>(k, e)\<leftarrow>upsert k v (\<lambda>_. v) al. f e) = (\<Sum>(k, e)\<leftarrow>al. f e) + (n :: nat)"
  using sum_upsert [of f k v al] assms by (auto split: option.splits)

lemma set_upsert: "set (upsert k v (\<lambda>_. v) al) \<subseteq> insert (k, v) (set al)"
  by (induction al) (auto split: if_splits)

lemma put_object_ok:
  assumes ok: "objects_ok G" and e: "payloadSize e = payload_size (entry_payload e)"
    and n: "case map_of (objects G) oid of None \<Rightarrow> payloadSize e = n | Some e0 \<Rightarrow> payloadSize e = payloadSize e0 + n"
  shows "objects_ok (put_object oid e n G)"
proof -
  have "(\<Sum>(k, e)\<leftarrow>upsert oid e (\<lambda>_. e) (objects G). payloadSize e) = (\<Sum>(k, e)\<leftarrow>objects G. payloadSize e) + n"
    using n by (rule upsert_sum_grow)
  then show ?thesis
    using ok e set_upsert [of oid e "objects G"]
    by (auto simp: objects_ok_def put_object_def distinct_upsert)
qed

lemma merge_entry_size:
  assumes "merge_entry st ext pl compl now offset e = (e', added, finished)"
    and "payloadSize e = payload_size (entry_payload e)"
  shows "payloadSize e' = payload_size (entry_payload e')" and "payloadSize e' = payloadSize e + added"
  using assms
  by (auto simp: merge_entry_def Let_def payload_size_def split: if_splits option.splits)

lemma note_cached_annotates: "annotates g c (note_cached X g t gid oid compl c)"
proof -
  have 1: "annotates g c (if compl then upd_track t (\<lambda>T. T\<lparr>cachedContent := iv_insert X (gid, oid) (gid, oid) (cachedContent T)\<rparr>) c else c)"
    (is "annotates g c ?d")
    by (simp add: track_frame_def)
  have "annotates g ?d (upd_group g (\<lambda>G. if oid \<ge> maxCachedObject G then G\<lparr>maxCachedObject := oid\<rparr> else G) ?d)"
    by (rule annotates_upd_group) (auto simp: group_frame_def)
  with 1 show ?thesis unfolding note_cached_def by (rule annotates_trans)
qed

text \<open>What a write does to the counts: it never lowers them, and a refused write leaves them alone.\<close>

definition writes :: "gaddr \<Rightarrow> ('e, 's) moqx_cache \<Rightarrow> ('e, 's) moqx_cache \<Rightarrow> publish_error option \<Rightarrow> bool" where
  "writes g c c' err \<longleftrightarrow> edits g c c' \<and> objects_ok (group_heap c' g) \<and>
     totalBytes (group_heap c g) \<le> totalBytes (group_heap c' g) \<and> (err \<noteq> None \<longrightarrow> annotates g c c')"

lemma annotates_ok: "annotates g c c' \<Longrightarrow> objects_ok (group_heap c' x) = objects_ok (group_heap c x)"
  by (cases "x = g") (simp_all add: annotates_def edits_def objects_ok_def)

lemma annotates_writes: "annotates g c c' \<Longrightarrow> objects_ok (group_heap c g) \<Longrightarrow> writes g c c' err"
  by (simp add: writes_def annotates_ok) (simp add: annotates_def)

lemma writes_before: "annotates g c d \<Longrightarrow> writes g d e err \<Longrightarrow> writes g c e err"
  by (auto simp: writes_def annotates_def intro: edits_trans)

lemma writes_after: "writes g c d None \<Longrightarrow> annotates g d e \<Longrightarrow> writes g c e None"
  unfolding writes_def using annotates_ok [of g d e g] by (auto simp: annotates_def intro: edits_trans)

lemma put_writes:
  assumes "objects_ok (put_object oid e n (group_heap c g))"
  shows "writes g c (upd_group g (put_object oid e n) c) None"
proof -
  have "group_frame (put_object oid e n)" by (simp add: group_frame_def put_object_def)
  then show ?thesis using assms by (simp add: writes_def) (simp add: put_object_def)
qed

lemma store_object_writes:
  assumes ok: "objects_ok (group_heap c g)"
  shows "writes g c (fst (store_object X g t gid w c)) (snd (store_object X g t gid w c))"
proof (cases "map_of (objects (group_heap c g)) (w_object w)")
  case None
  show ?thesis
  proof (cases "w_offset w > 0")
    case True
    then show ?thesis using None ok by (simp add: store_object_def annotates_writes)
  next
    case False
    define e where "e = \<lparr>subgroup = w_subgroup w, status = w_status w, entry_extensions = w_extensions w,
      entry_payload = w_payload w, payloadSize = payload_size (w_payload w), complete = w_complete w,
      forwardingPreferenceIsDatagram = w_datagram w, cachedAt = w_now w\<rparr>"
    have "objects_ok (put_object (w_object w) e (payload_size (w_payload w)) (group_heap c g))"
      by (rule put_object_ok [OF ok]) (simp_all add: e_def None)
    from writes_after [OF put_writes [OF this] note_cached_annotates]
    show ?thesis using None False by (simp add: store_object_def e_def [symmetric])
  qed
next
  case (Some e)
  obtain e' added finished where m: "merge_entry (w_status w) (w_extensions w) (w_payload w) (w_complete w) (w_now w) (w_offset w) e = (e', added, finished)"
    by (cases "merge_entry (w_status w) (w_extensions w) (w_payload w) (w_complete w) (w_now w) (w_offset w) e") auto
  have "(w_object w, e) \<in> set (objects (group_heap c g))" using Some by (rule map_of_SomeD)
  then have pe: "payloadSize e = payload_size (entry_payload e)" using ok by (auto simp: objects_ok_def)
  have "objects_ok (put_object (w_object w) e' added (group_heap c g))"
    by (rule put_object_ok [OF ok]) (use merge_entry_size [OF m pe] Some in simp_all)
  note p = put_writes [OF this]
  show ?thesis
    using Some m p writes_after [OF p note_cached_annotates] ok
    by (auto simp: store_object_def Let_def annotates_writes)
qed

lemma cacheObject_writes:
  assumes m: "map_of (groups (track_heap c t)) gid = Some g" and ok: "objects_ok (group_heap c g)"
  shows "writes g c (fst (cacheObject X g t gid w c)) (snd (cacheObject X g t gid w c))"
proof -
  obtain c1 err where p: "processGapExtensions X t gid (w_object w) (w_extensions w) c = (c1, err)" by fastforce
  have n1: "annotates g c c1" using processGapExtensions_annotates [OF m, of X "w_object w" "w_extensions w"] p by simp
  define c2 where "c2 = mark_end X g t gid (w_object w) (w_status w) c1"
  have n2: "annotates g c c2" using n1 mark_end_annotates annotates_trans unfolding c2_def by blast
  have "objects_ok (group_heap c2 g)" using ok by (simp add: annotates_ok [OF n2])
  from writes_before [OF n2 store_object_writes [OF this]] show ?thesis
    using n1 ok by (simp add: cacheObject_def p c2_def [symmetric] annotates_writes)
qed

section \<open>What writers can rely on\<close>

text \<open>
  \<open>keeps c c'\<close>: no writer, fetch or pin came or went, and a pinned group of a track that is still
  cached is still held by it.
\<close>

definition keeps :: "('e, 's) moqx_cache \<Rightarrow> ('e, 's) moqx_cache \<Rightarrow> bool" where
  "keeps c c' \<longleftrightarrow>
     next_taddr c \<le> next_taddr c' \<and> next_gaddr c \<le> next_gaddr c' \<and>
     (\<forall>t. liveWritebackCount (track_heap c' t) = liveWritebackCount (track_heap c t) \<and>
          fetchesInProgress (track_heap c' t) = fetchesInProgress (track_heap c t)) \<and>
     (\<forall>g. pinCount (group_heap c' g) = pinCount (group_heap c g)) \<and>
     (\<forall>f t. (f, t) \<in> set (cache c') \<and> t < next_taddr c \<longrightarrow> (f, t) \<in> set (cache c)) \<and>
     (\<forall>t k g. held c' t k g \<and> g < next_gaddr c \<longrightarrow> held c t k g) \<and>
     (\<forall>t k g. held c t k g \<and> pinCount (group_heap c g) > 0 \<and> t \<in> tracks c' \<longrightarrow> held c' t k g)"

text \<open>Addresses not yet given out carry no counts.\<close>

definition fresh_ok :: "('e, 's) moqx_cache \<Rightarrow> bool" where
  "fresh_ok c \<longleftrightarrow> (\<forall>g\<ge>next_gaddr c. pinCount (group_heap c g) = 0) \<and>
     (\<forall>t\<ge>next_taddr c. liveWritebackCount (track_heap c t) = 0 \<and> fetchesInProgress (track_heap c t) = [])"

definition cache_ok :: "('e, 's) moqx_cache \<Rightarrow> bool" where
  "cache_ok c \<longleftrightarrow> sound {} c \<and> flags_ok c \<and> fresh_ok c"

lemma keeps_refl [simp]: "keeps c c"
  by (simp add: keeps_def)

lemma keeps_tracks: "keeps c c' \<Longrightarrow> t < next_taddr c \<Longrightarrow> t \<in> tracks c' \<Longrightarrow> t \<in> tracks c"
  unfolding keeps_def tracks_iff by blast

lemma keeps_fresh: "keeps c c' \<Longrightarrow> fresh_ok c \<Longrightarrow> fresh_ok c'"
  unfolding keeps_def fresh_ok_def by auto

lemma keeps_trans:
  assumes 1: "keeps c d" and 2: "keeps d e" and t: "\<And>t k g. held c t k g \<Longrightarrow> t < next_taddr d \<and> g < next_gaddr d"
  shows "keeps c e"
proof -
  have n: "next_taddr c \<le> next_taddr d" "next_gaddr c \<le> next_gaddr d" "next_taddr d \<le> next_taddr e" "next_gaddr d \<le> next_gaddr e"
    and q: "\<forall>t. liveWritebackCount (track_heap e t) = liveWritebackCount (track_heap c t) \<and>
          fetchesInProgress (track_heap e t) = fetchesInProgress (track_heap c t)"
      "\<forall>g. pinCount (group_heap d g) = pinCount (group_heap c g)"
      "\<forall>g. pinCount (group_heap e g) = pinCount (group_heap c g)"
    using 1 2 by (simp_all add: keeps_def)
  have a: "(f, s) \<in> set (cache c)" if "(f, s) \<in> set (cache e)" "s < next_taddr c" for f s
    using 1 2 that n unfolding keeps_def by (meson order_less_le_trans)
  have b: "held c s k g" if "held e s k g" "g < next_gaddr c" for s k g
    using 1 2 that n unfolding keeps_def by (meson order_less_le_trans)
  have h: "held e s k g" if "held c s k g" "pinCount (group_heap c g) > 0" "s \<in> tracks e" for s k g
  proof -
    have "s \<in> tracks d" using keeps_tracks [OF 2] t [OF that(1)] that(3) by blast
    then have "held d s k g" using 1 that unfolding keeps_def by blast
    moreover have "pinCount (group_heap d g) > 0" using that q by simp
    ultimately show ?thesis using 2 that(3) unfolding keeps_def by blast
  qed
  show ?thesis unfolding keeps_def using n q(1,3) a b h by (meson order_trans)
qed

lemma sound_addresses:
  assumes "sound E c" and "held c t k g"
  shows "t < next_taddr c" "g < next_gaddr c" "t \<in> tracks c"
  using soundD(3,4) [OF assms(1)] assms(2) unfolding groups_ok_def names_ok_def held_def by blast+

lemma frees_keeps: "frees c c' \<Longrightarrow> keeps c c'"
  using same_core_pins [of c c'] unfolding frees_def keeps_def held_le_def
  by (auto simp: same_core_def)

lemma same_store_keeps: "same_store c c' \<Longrightarrow> keeps c c'"
  using same_store_views [of c c'] by (simp add: same_store_def keeps_def)

lemma relinks_keeps: "relinks c c' \<Longrightarrow> keeps c c'"
  using relinks_views [of c c'] same_core_pins [of c c'] by (simp add: relinks_def keeps_def same_core_def)

lemma add_group_keeps: "fresh_ok c \<Longrightarrow> keeps c (add_group t gid c)"
  by (auto simp: keeps_def add_group_held fresh_ok_def)

lemma track_list_keeps:
  "keeps c (removeTrackFromLRU t c)" "keeps c (addTrackToLRU ftn t c)"
  by (simp_all add: keeps_def)

text \<open>
  Steps that keep the invariant and what writers rely on compose. A step may in addition leave no
  track outside the list that was in it.
\<close>

definition moves :: "('e, 's) moqx_cache \<Rightarrow> ('e, 's) moqx_cache \<Rightarrow> bool" where
  "moves c c' \<longleftrightarrow> cache_ok c' \<and> keeps c c'"

definition unlisted :: "('e, 's) moqx_cache \<Rightarrow> taddr set" where
  "unlisted c = {t \<in> tracks c. \<not> track_in_lru (track_heap c t)}"

definition step_ok :: "('e, 's) moqx_cache \<Rightarrow> ('e, 's) moqx_cache \<Rightarrow> bool" where
  "step_ok c c' \<longleftrightarrow> moves c c' \<and> unlisted c' \<subseteq> unlisted c"

lemma step_ok_refl [simp]: "step_ok c c = cache_ok c"
  by (simp add: step_ok_def moves_def)

lemma step_okD: "step_ok c c' \<Longrightarrow> moves c c'" "step_ok c c' \<Longrightarrow> cache_ok c'" "step_ok c c' \<Longrightarrow> keeps c c'"
  by (simp_all add: step_ok_def moves_def)

lemma moves_trans:
  assumes "cache_ok c" and "moves c d" and "moves d e"
  shows "moves c e"
proof -
  have "keeps c e"
  proof (rule keeps_trans [of c d e])
    fix t k g assume "held c t k g"
    then have "t < next_taddr c" "g < next_gaddr c" using assms(1) sound_addresses by (auto simp: cache_ok_def)
    then show "t < next_taddr d \<and> g < next_gaddr d" using assms(2) by (auto simp: moves_def keeps_def)
  qed (use assms in \<open>simp_all add: moves_def\<close>)
  then show ?thesis using assms(3) by (simp add: moves_def)
qed

lemma step_ok_trans:
  assumes "cache_ok c" and "step_ok c d" and "step_ok d e"
  shows "step_ok c e"
  using assms moves_trans unfolding step_ok_def by blast

lemma frees_unlisted: "frees c c' \<Longrightarrow> unlisted c' \<subseteq> unlisted c"
  using frees_tracks by (auto simp: unlisted_def frees_def)

lemma same_store_unlisted: "same_store c c' \<Longrightarrow> unlisted c' = unlisted c"
  using same_store_views(1) [of c c'] by (simp add: unlisted_def same_store_def)

lemma relinks_unlisted: "relinks c c' \<Longrightarrow> unlisted c' = unlisted c"
  using relinks_views(1) [of c c'] by (simp add: unlisted_def relinks_def)

lemma cache_okD: "cache_ok c \<Longrightarrow> sound {} c" "cache_ok c \<Longrightarrow> flags_ok c" "cache_ok c \<Longrightarrow> fresh_ok c"
  by (simp_all add: cache_ok_def)

lemma freed_step: "cache_ok c \<Longrightarrow> freed c c' \<Longrightarrow> step_ok c c'"
  using frees_keeps [of c c'] keeps_fresh [of c c'] frees_unlisted [of c c']
  by (simp add: step_ok_def moves_def freed_def cache_ok_def)

lemma annotates_sound: "annotates g c c' \<Longrightarrow> sound E c' = sound E c"
proof -
  assume a: "annotates g c c'"
  then have s: "same_store c c'" "totalCachedBytes c' = totalCachedBytes c"
    and b: "totalBytes (group_heap c' x) = totalBytes (group_heap c x)" for x
    by (simp_all add: annotates_def edits_def) (cases "x = g"; simp add: annotates_def edits_def)
  show ?thesis
    using annotates_ok [OF a] s(2) by (simp add: sound_def same_store_ok [OF s(1)] bytes_ok_def same_store_views [OF s(1)] b)
qed

lemma same_store_step:
  assumes "cache_ok c" and "annotates g c c'"
  shows "step_ok c c'"
proof -
  have s: "same_store c c'" using assms(2) by (simp add: annotates_def edits_def)
  show ?thesis
    using assms annotates_sound [OF assms(2)] same_store_ok(2) [OF s] same_store_keeps [OF s] keeps_fresh
      same_store_unlisted [OF s]
    by (auto simp: step_ok_def moves_def cache_ok_def)
qed

section \<open>The operations of the store\<close>

lemma getOrCreateGroupWithEviction_step:
  assumes ok: "cache_ok c" and ft: "(ftn, t) \<in> set (cache c)"
  obtains c' g where "getOrCreateGroupWithEviction X ftn t gid c = Some (c', g)" "step_ok c c'" "held c' t gid g"
    "cache c' = cache c"
proof (cases "map_of (groups (track_heap c t)) gid")
  case (Some g)
  have "t \<in> tracks c" using ft by (auto simp: tracks_iff)
  then have "held c t gid g" using Some lookup_held [OF soundD(4) [OF cache_okD(1) [OF ok]]] by simp
  then show ?thesis using that [of c g] Some ok by (simp add: getOrCreateGroupWithEviction_def)
next
  case None
  obtain d where d: "evictOldestGroupsIfNeeded X t c = Some d" "freed c d" "cache d = cache c"
    by (rule evictOldestGroupsIfNeeded_sound [OF cache_okD(1,2) [OF ok]])
  have sd: "step_ok c d" by (rule freed_step [OF ok d(2)])
  then have okd: "cache_ok d" by (rule step_okD)
  have "\<not> held d t gid x" for x
  proof
    assume "held d t gid x"
    then have "held c t gid x" using d(2) by (simp add: freed_def frees_def held_le_def)
    then show False using None held_lookup [OF soundD(4) [OF cache_okD(1) [OF ok]]] by fastforce
  qed
  moreover have td: "t \<in> tracks d" using ft d(3) by (auto simp: tracks_iff)
  ultimately have nd: "map_of (groups (track_heap d t)) gid = None"
    using lookup_held [OF soundD(4) [OF cache_okD(1) [OF okd]]] by (metis not_Some_eq)
  define e where "e = add_group t gid d"
  have se: "sound {next_gaddr d} e" unfolding e_def
    using add_group_sound [OF cache_okD(1) [OF okd] nd] by simp
  have he: "held e t gid (next_gaddr d)" by (simp add: e_def add_group_held td)
  have ne: "\<not> evicted (track_heap e t)"
    using td cache_okD(2) [OF okd] soundD(3) [OF cache_okD(1) [OF okd]] by (simp add: e_def flags_ok_def names_ok_def)
  define c' where "c' = addGroupToLRU ftn gid (next_gaddr d) t e"
  have r: "relinks e c'" unfolding c'_def by (rule addGroupToLRU_relinks)
  have s': "sound {} c'" unfolding c'_def
    by (rule addGroupToLRU_sound [OF _ _ he ne]) (use se ft d(3) in \<open>simp_all add: e_def\<close>)
  have "keeps d e" unfolding e_def by (rule add_group_keeps [OF cache_okD(3) [OF okd]])
  moreover have "fresh_ok e" using keeps_fresh [OF \<open>keeps d e\<close> cache_okD(3) [OF okd]] .
  ultimately have "keeps d c'"
    using relinks_keeps [OF r] sound_addresses [OF cache_okD(1) [OF okd]]
    by (intro keeps_trans [of d e c']) (auto simp: e_def less_Suc_eq)
  moreover have "fresh_ok c'" using keeps_fresh [OF \<open>keeps d c'\<close> cache_okD(3) [OF okd]] .
  moreover have "flags_ok c'" using relinks_views(4) [OF r] cache_okD(2) [OF okd] by (simp add: e_def)
  moreover have "unlisted c' = unlisted d" using relinks_unlisted [OF r] by (simp add: e_def unlisted_def)
  ultimately have "step_ok d c'" using s' by (simp add: step_ok_def moves_def cache_ok_def)
  moreover have "held c' t gid (next_gaddr d)" using he by (simp add: relinks_views(2) [OF r])
  moreover have "cache c' = cache c" using r d(3) by (simp add: relinks_def e_def)
  moreover have "getOrCreateGroupWithEviction X ftn t gid c = Some (c', next_gaddr d)"
    using None d(1) by (simp add: getOrCreateGroupWithEviction_def alloc_group_def c'_def e_def add_group_def)
  ultimately show ?thesis using that step_ok_trans [OF ok sd] by blast
qed

text \<open>A write that is refused changes no object and no count, and one that succeeds keeps the limit on
bytes as far as evictable groups allow.\<close>

lemma cacheObjectAndUpdateBytes_outcome:
  assumes ok: "cache_ok c" and g: "held c t gid g"
  obtains c' err where "cacheObjectAndUpdateBytes X g t gid w c = Some (c', err)" "step_ok c c'"
    "err \<noteq> None \<longrightarrow> annotates g c c'"
    "err = None \<longrightarrow> maxCachedBytes c = 0 \<or> totalCachedBytes c' \<le> maxCachedBytes c \<or>
       (\<forall>n\<in>set (globalGroupLRU c'). at_join_point c' n)"
proof -
  note s = soundD [OF cache_okD(1) [OF ok]]
  have m: "map_of (groups (track_heap c t)) gid = Some g" using g s(4) by (simp add: held_lookup)
  obtain c1 err where co: "cacheObject X g t gid w c = (c1, err)" by fastforce
  have w: "writes g c c1 err" using cacheObject_writes [OF m, of X w] s(2) co by (simp add: bytes_ok_def)
  show thesis
  proof (cases "err = None")
    case False
    then have a: "annotates g c c1" using w by (simp add: writes_def)
    then have "step_ok c c1" by (rule same_store_step [OF ok])
    then show ?thesis using that [of c1 err] False a by (simp add: cacheObjectAndUpdateBytes_def co)
  next
    case True
    have ed: "edits g c c1" and le: "totalBytes (group_heap c g) \<le> totalBytes (group_heap c1 g)"
      and og: "objects_ok (group_heap c1 g)" using w by (simp_all add: writes_def)
    have ss: "same_store c c1" using ed by (simp add: edits_def)
    define n where "n = totalBytes (group_heap c1 g) - totalBytes (group_heap c g)"
    define c2 where "c2 = upd_track t (\<lambda>T. T\<lparr>lastWrite := w_now w\<rparr>) (c1\<lparr>totalCachedBytes := totalCachedBytes c1 + n\<rparr>)"
    have s2: "same_store c c2" using ss by (auto simp: same_store_def c2_def upd_track_def)
    have "bytes_ok c2"
    proof -
      have o2: "objects_ok (group_heap c2 x)" for x
        using og s(2) ed by (cases "x = g") (simp_all add: c2_def bytes_ok_def edits_def objects_ok_def)
      have t2: "totalBytes (group_heap c2 x) = totalBytes (group_heap c x) + (if x = g then n else 0)" for x
        using ed le by (cases "x = g") (simp_all add: c2_def n_def edits_def)
      have "totalCachedBytes c2 = totalCachedBytes c + n" using ed by (simp add: c2_def edits_def upd_track_def)
      moreover have "(\<Sum>x\<in>held_groups c. if x = g then n else 0) = n"
        using s(4) heldI [OF g] by (simp add: sum.delta)
      ultimately show ?thesis
        using o2 s(2) by (simp add: bytes_ok_def same_store_views [OF s2] t2 sum.distrib)
    qed
    then have ok2: "sound {} c2" using s(1) same_store_ok(1) [OF s2] by (simp add: sound_def)
    have fl2: "flags_ok c2" using cache_okD(2) [OF ok] same_store_ok(2) [OF s2] by simp
    have st2: "step_ok c c2"
      using ok2 fl2 same_store_keeps [OF s2] keeps_fresh cache_okD(3) [OF ok] same_store_unlisted [OF s2]
      by (auto simp: step_ok_def moves_def cache_ok_def)
    obtain c' b where c': "evictForByteLimitIfNeeded X c2 = Some (c', b)" "freed c2 c'"
      "maxCachedBytes c2 = 0 \<or> totalCachedBytes c' \<le> maxCachedBytes c2 \<or> (\<forall>n\<in>set (globalGroupLRU c'). at_join_point c' n)"
      by (rule evictForByteLimitIfNeeded_sound [OF ok2 fl2]) blast
    have mb: "maxCachedBytes c2 = maxCachedBytes c" using ed by (simp add: c2_def edits_def upd_track_def)
    have "cache_ok c2" using st2 by (rule step_okD)
    then have "step_ok c2 c'" using c'(2) by (rule freed_step)
    then have "step_ok c c'" by (rule step_ok_trans [OF ok st2])
    moreover have "cacheObjectAndUpdateBytes X g t gid w c = Some (c', None)"
      using True le c'(1) by (simp add: cacheObjectAndUpdateBytes_def co c2_def n_def Let_def)
    ultimately show ?thesis using that [of c' None] c'(3) unfolding mb by blast
  qed
qed

lemma cacheObjectAndUpdateBytes_step:
  assumes "cache_ok c" and "held c t gid g"
  obtains c' err where "cacheObjectAndUpdateBytes X g t gid w c = Some (c', err)" "step_ok c c'"
  by (rule cacheObjectAndUpdateBytes_outcome [OF assms]) blast

lemma objects_ok_drop:
  assumes "objects_ok G" and "map_of (objects G) k = Some e"
  shows "payloadSize e \<le> totalBytes G"
    and "objects_ok (G\<lparr>totalBytes := totalBytes G - payloadSize e, objects := filter (\<lambda>(i, _). i \<noteq> k) (objects G)\<rparr>)"
proof -
  have "(\<Sum>(i, e)\<leftarrow>xs. payloadSize e) = (\<Sum>(i, e)\<leftarrow>filter (\<lambda>(i, _). i \<noteq> k) xs. payloadSize e) + payloadSize e"
    if "distinct (map fst xs)" "map_of xs k = Some e" for xs :: "(u64 \<times> 'a cache_entry) list"
    using that
  proof (induction xs)
    case (Cons x xs)
    obtain i v where x: "x = (i, v)" by (cases x)
    show ?case
    proof (cases "i = k")
      case True
      then have "filter (\<lambda>(i, _). i \<noteq> k) xs = xs" using Cons(2) x by (force intro!: filter_True)
      then show ?thesis using Cons(3) True x by simp
    next
      case False
      then show ?thesis using Cons x by simp
    qed
  qed simp
  then have "(\<Sum>(i, e)\<leftarrow>objects G. payloadSize e) =
      (\<Sum>(i, e)\<leftarrow>filter (\<lambda>(i, _). i \<noteq> k) (objects G). payloadSize e) + payloadSize e"
    using assms by (simp add: objects_ok_def)
  then show "payloadSize e \<le> totalBytes G"
    "objects_ok (G\<lparr>totalBytes := totalBytes G - payloadSize e, objects := filter (\<lambda>(i, _). i \<noteq> k) (objects G)\<rparr>)"
    using assms(1) by (auto simp: objects_ok_def)
qed

lemma getCachedObjectMaybe_step:
  assumes ok: "cache_ok c" and t: "t \<in> tracks c"
  shows "step_ok c (fst (getCachedObjectMaybe X t l now c))"
proof (cases "fst (getCachedObjectMaybe X t l now c) = c")
  case True
  then show ?thesis using ok by simp
next
  case False
  note s = soundD [OF cache_okD(1) [OF ok]]
  obtain g e where g: "map_of (groups (track_heap c t)) (fst l) = Some g"
    and e: "map_of (objects (group_heap c g)) (snd l) = Some e"
    and c': "fst (getCachedObjectMaybe X t l now c) =
      upd_group g (\<lambda>G. G\<lparr>totalBytes := totalBytes G - payloadSize e, objects := filter (\<lambda>(k, _). k \<noteq> snd l) (objects G)\<rparr>)
        (upd_track t (\<lambda>T. T\<lparr>cachedContent := iv_remove X l l (cachedContent T)\<rparr>)
          (c\<lparr>totalCachedBytes := totalCachedBytes c - payloadSize e\<rparr>))" (is "?c = _")
    using False by (auto simp: getCachedObjectMaybe_def split: option.splits if_splits)
  have h: "held c t (fst l) g" using g s(4) t by (simp add: lookup_held)
  have og: "objects_ok (group_heap c x)" for x using s(2) by (simp add: bytes_ok_def)
  note d = objects_ok_drop [OF og e]
  have ss: "same_store c ?c" unfolding c' by (auto simp: same_store_def upd_track_def upd_group_def)
  have "bytes_ok ?c"
  proof -
    have o: "objects_ok (group_heap ?c x)" for x using d(2) og unfolding c' by (simp add: objects_ok_def)
    have b: "(\<Sum>x\<in>held_groups c. totalBytes (group_heap ?c x)) + payloadSize e = (\<Sum>x\<in>held_groups c. totalBytes (group_heap c x))"
      using s(4) heldI [OF h] d(1)
      by (simp add: sum.remove [of _ g] c')
    moreover have "totalCachedBytes ?c = totalCachedBytes c - payloadSize e"
      unfolding c' by (simp add: upd_group_def upd_track_def)
    ultimately show ?thesis using s(2) o by (simp add: bytes_ok_def same_store_views [OF ss])
  qed
  then have "sound {} ?c" using s(1) same_store_ok(1) [OF ss] by (simp add: sound_def)
  then show ?thesis
    using same_store_keeps [OF ss] keeps_fresh cache_okD(2,3) [OF ok] same_store_ok(2) [OF ss]
      same_store_unlisted [OF ss]
    by (auto simp: step_ok_def moves_def cache_ok_def)
qed

text \<open>A new track.\<close>

definition add_track :: "('e, 's) moxygen \<Rightarrow> full_track_name \<Rightarrow> ('e, 's) moqx_cache \<Rightarrow> ('e, 's) moqx_cache" where
  "add_track X ftn c = fst (emplace_track X ftn c)"

lemma emplace_track_eq: "emplace_track X ftn c = (add_track X ftn c, next_taddr c)"
  by (simp add: add_track_def emplace_track_def alloc_track_def)

lemma add_track_fields [simp]:
  "cache (add_track X ftn c) = cache c @ [(ftn, next_taddr c)]" "trackLRU (add_track X ftn c) = trackLRU c"
  "globalGroupLRU (add_track X ftn c) = globalGroupLRU c" "next_taddr (add_track X ftn c) = Suc (next_taddr c)"
  "next_gaddr (add_track X ftn c) = next_gaddr c" "totalCachedBytes (add_track X ftn c) = totalCachedBytes c"
  "group_heap (add_track X ftn c) = group_heap c" "maxCachedTracks (add_track X ftn c) = maxCachedTracks c"
  "track_heap (add_track X ftn c) = (track_heap c)(next_taddr c := new_track X)"
  by (simp_all add: add_track_def emplace_track_def alloc_track_def upd_track_def)

lemma new_track_fields [simp]:
  "groups (new_track X) = []" "groupLRU (new_track X) = []" "liveWritebackCount (new_track X) = 0"
  "fetchesInProgress (new_track X) = []" "\<not> track_in_lru (new_track X)" "\<not> evicted (new_track X)"
  "canEvict (new_track X)" "largestGroupAndObject (new_track X) = None"
  by (simp_all add: new_track_def canEvict_def)

lemma add_track_moves:
  assumes ok: "cache_ok c" and new: "map_of (cache c) ftn = None"
  shows "moves c (add_track X ftn c)" (is "moves c ?c")
proof -
  note s = soundD [OF cache_okD(1) [OF ok]] and l = sound_lists [OF cache_okD(1) [OF ok]]
  have nt: "next_taddr c \<notin> tracks c" using s(3) by (auto simp: names_ok_def)
  have nc: "(f, next_taddr c) \<notin> set (cache c)" for f using nt by (auto simp: tracks_iff)
  have nf: "(ftn, t) \<notin> set (cache c)" for t using new by (force simp: map_of_eq_None_iff)
  have nh: "\<not> held c (next_taddr c) k g" for k g using nt by (simp add: held_def)
  have h: "held ?c = held c" using nt by (auto simp: held_def owns_def tracks_def fun_eq_iff)
  have hg: "held_groups ?c = held_groups c" by (simp add: held_groups_def h)
  have tr: "tracks ?c = insert (next_taddr c) (tracks c)" by (auto simp: tracks_def)
  have "x \<notin> set (groupLRU (track_heap c (next_taddr c)))" for x using l(1) nh by (cases x) simp
  then have "groupLRU (track_heap c (next_taddr c)) = []" by (meson last_in_set)
  then have gl: "groupLRU (track_heap ?c t) = groupLRU (track_heap c t)" for t by simp
  have il: "track_in_lru (track_heap ?c t) = track_in_lru (track_heap c t)" for t
    using s(5) nt by (auto simp: track_lru_ok_def)
  have "names_ok ?c" using s(3) nc nt new
    by (auto simp: names_ok_def tr map_of_eq_None_iff tracks_def less_Suc_eq)
  moreover have "groups_ok ?c"
  proof -
    have "distinct (map fst (groups (track_heap ?c t)))" for t using s(4) by (simp add: groups_ok_def)
    moreover have "owns ?c t k g \<Longrightarrow> owns c t k g" for t k g by (auto simp: owns_def split: if_splits)
    ultimately show ?thesis using s(4) unfolding groups_ok_def add_track_fields(5) by blast
  qed
  moreover have "track_lru_ok ?c"
  proof -
    have "canEvict (track_heap ?c t)" if "track_in_lru (track_heap c t)" for t
      using that s(5) by (simp add: track_lru_ok_def)
    moreover have "\<not> track_in_lru (track_heap c (next_taddr c))" using s(5) nt by (auto simp: track_lru_ok_def)
    ultimately show ?thesis using s(5) nf nc unfolding track_lru_ok_def il tr add_track_fields(1,2) by auto
  qed
  moreover have "group_lru_ok {} ?c"
  proof -
    have "(\<exists>t. (f, t) \<in> set (cache ?c) \<and> held c t k g \<and> P) \<longleftrightarrow> (\<exists>t. (f, t) \<in> set (cache c) \<and> held c t k g \<and> P)" for f k g P
      using nh by auto
    then show ?thesis
      using s(6) unfolding group_lru_ok_def lists_ok_def h hg gl add_track_fields(3,7) by simp
  qed
  moreover have "bytes_ok ?c" using s(2) by (simp add: bytes_ok_def hg)
  moreover have "flags_ok ?c" using cache_okD(2) [OF ok] by (auto simp: flags_ok_def tr less_Suc_eq)
  moreover have k: "keeps c ?c"
    using cache_okD(3) [OF ok] nh by (auto simp: keeps_def h fresh_ok_def)
  moreover have "fresh_ok ?c" using keeps_fresh [OF k cache_okD(3) [OF ok]] .
  ultimately show ?thesis by (simp add: moves_def cache_ok_def sound_def store_ok_def)
qed

lemma track_list_flags [simp]:
  "flags_ok (addTrackToLRU ftn t c) = flags_ok c" "flags_ok (removeTrackFromLRU t c) = flags_ok c"
  by (simp_all add: flags_ok_def)

lemma addTrackToLRU_step:
  assumes "cache_ok c" and "(ftn, t) \<in> set (cache c)" and "canEvict (track_heap c t)"
  shows "step_ok c (addTrackToLRU ftn t c)" and "unlisted (addTrackToLRU ftn t c) = unlisted c - {t}"
proof -
  show u: "unlisted (addTrackToLRU ftn t c) = unlisted c - {t}" by (auto simp: unlisted_def)
  show "step_ok c (addTrackToLRU ftn t c)"
    using addTrackToLRU_sound [OF cache_okD(1) [OF assms(1)] assms(2,3)] track_list_keeps(2) [of c ftn t]
      keeps_fresh [OF track_list_keeps(2) [of c ftn t]] assms(1) u
    by (simp add: step_ok_def moves_def cache_ok_def)
qed

lemma removeTrackFromLRU_moves:
  assumes "cache_ok c"
  shows "moves c (removeTrackFromLRU t c)" and "unlisted (removeTrackFromLRU t c) = unlisted c \<union> (tracks c \<inter> {t})"
proof -
  show "moves c (removeTrackFromLRU t c)"
    using assms removeTrackFromLRU_sound [OF cache_okD(1) [OF assms(1)], of t] track_list_keeps(1) [of c t]
      keeps_fresh [OF track_list_keeps(1) [of c t]]
    by (simp add: moves_def cache_ok_def)
  show "unlisted (removeTrackFromLRU t c) = unlisted c \<union> (tracks c \<inter> {t})" by (auto simp: unlisted_def)
qed

lemma onTrackBecameEvictable_step:
  assumes "cache_ok c"
  shows "step_ok c (onTrackBecameEvictable ftn c)"
  using assms soundD(3) [OF cache_okD(1) [OF assms]]
  by (auto simp: onTrackBecameEvictable_def cached_lookup addTrackToLRU_step split: option.split)

lemma getOrCreateTrack_step:
  assumes ok: "cache_ok c"
  obtains c' t where "getOrCreateTrack X ftn c = (c', t)" "step_ok c c'" "(ftn, t) \<in> set (cache c')"
proof (cases "map_of (cache c) ftn")
  case (Some t)
  then show ?thesis using that [of c t] ok map_of_SomeD [OF Some] by (simp add: getOrCreateTrack_def)
next
  case None
  define d where "d = add_track X ftn c"
  have m: "moves c d" unfolding d_def using ok None by (rule add_track_moves)
  then have okd: "cache_ok d" by (simp add: moves_def)
  have ft: "(ftn, next_taddr c) \<in> set (cache d)" and ce: "canEvict (track_heap d (next_taddr c))" by (simp_all add: d_def)
  note a = addTrackToLRU_step [OF okd ft ce]
  have "unlisted d - {next_taddr c} \<subseteq> unlisted c" by (auto simp: unlisted_def d_def tracks_def)
  then have "step_ok c (addTrackToLRU ftn (next_taddr c) d)"
    using moves_trans [OF ok m] a by (simp add: step_ok_def)
  then show ?thesis
    using that [of "addTrackToLRU ftn (next_taddr c) d" "next_taddr c"] None ft
    by (simp add: getOrCreateTrack_def emplace_track_eq d_def)
qed

end
