(* ===== verification/Cache_World.thy ===== *)
theory Cache_World
  imports Cache_Invariant "HOL-Library.Multiset"
begin

text \<open>
  The object cache together with its live writers. A history is a sequence of calls on the cache
  and on the writers it handed out; the counts the cache keeps agree with the writers that are
  alive, whatever the order of the calls.
\<close>

section \<open>The world\<close>

record ('e, 's) world =
  the_cache :: "('e, 's) moqx_cache"
  subscribers :: "subscribe_writeback list"
  subgroups :: "subgroup_writeback list"

definition new_world :: "('e, 's) moqx_cache \<Rightarrow> ('e, 's) world" where
  "new_world c = \<lparr>the_cache = c, subscribers = [], subgroups = []\<rparr>"

text \<open>A writer that pins a group: its track by name and address, the group by number and address.\<close>

type_synonym pin = "full_track_name \<times> taddr \<times> u64 \<times> gaddr"

definition subgroup_pin :: "subgroup_writeback \<Rightarrow> pin" where
  "subgroup_pin wb = (gw_ftn wb, gw_track wb, gw_group wb, gw_gaddr wb)"

definition pins :: "('e, 's) world \<Rightarrow> pin multiset" where
  "pins w = image_mset subgroup_pin (mset (subgroups w))"

definition lives :: "('e, 's) world \<Rightarrow> (full_track_name \<times> taddr) multiset" where
  "lives w = image_mset (\<lambda>wb. (sw_ftn wb, sw_track wb)) (mset (subscribers w))"

section \<open>Writers and counts\<close>

text \<open>The track of a writer is cached under its name, or was evicted; in the first case it holds the pinned group.\<close>

definition name_ok :: "('e, 's) moqx_cache \<Rightarrow> full_track_name \<Rightarrow> taddr \<Rightarrow> bool" where
  "name_ok c f t \<longleftrightarrow> t < next_taddr c \<and> (t \<in> tracks c \<longrightarrow> (f, t) \<in> set (cache c))"

definition pin_ok :: "('e, 's) moqx_cache \<Rightarrow> pin \<Rightarrow> bool" where
  "pin_ok c p = (case p of (f, t, k, g) \<Rightarrow> name_ok c f t \<and> g < next_gaddr c \<and>
     (if t \<in> tracks c then held c t k g else g \<notin> held_groups c))"

definition counts_ok ::
  "('e, 's) moqx_cache \<Rightarrow> (full_track_name \<times> taddr) multiset \<Rightarrow> pin multiset \<Rightarrow> bool" where
  "counts_ok c L P \<longleftrightarrow>
     (\<forall>g. pinCount (group_heap c g) = size (filter_mset (\<lambda>(_, _, _, x). x = g) P)) \<and>
     (\<forall>t. liveWritebackCount (track_heap c t) = size (filter_mset (\<lambda>(_, x). x = t) L)) \<and>
     (\<forall>p\<in>#P. pin_ok c p) \<and> (\<forall>(f, t)\<in>#L. name_ok c f t)"

lemma counts_pin: "counts_ok c L P \<Longrightarrow> (f, t, k, g) \<in># P \<Longrightarrow> pinCount (group_heap c g) > 0"
proof -
  assume "counts_ok c L P" and p: "(f, t, k, g) \<in># P"
  have "(f, t, k, g) \<in># filter_mset (\<lambda>(_, _, _, x). x = g) P" using p by simp
  then have "filter_mset (\<lambda>(_, _, _, x). x = g) P \<noteq> {#}" by force
  then have "size (filter_mset (\<lambda>(_, _, _, x). x = g) P) > 0" by (simp only: nonempty_has_size)
  then show ?thesis using \<open>counts_ok c L P\<close> unfolding counts_ok_def by metis
qed

lemma name_ok_keeps:
  assumes "cache_ok c" and "keeps c c'" and "name_ok c f t"
  shows "name_ok c' f t"
proof -
  have n: "names_ok c" using soundD(3) [OF cache_okD(1) [OF assms(1)]] .
  have "t < next_taddr c'" using assms(2,3) by (auto simp: name_ok_def keeps_def)
  moreover have "(f, t) \<in> set (cache c')" if t: "t \<in> tracks c'"
  proof -
    obtain f' where f': "(f', t) \<in> set (cache c')" using t by (auto simp: tracks_iff)
    then have "(f', t) \<in> set (cache c)" using assms(2,3) by (auto simp: keeps_def name_ok_def)
    moreover have "(f, t) \<in> set (cache c)" using assms(3) calculation by (auto simp: name_ok_def tracks_iff)
    ultimately show ?thesis using names_unique(1) [OF n] f' by blast
  qed
  ultimately show ?thesis by (simp add: name_ok_def)
qed

lemma pin_ok_moves:
  assumes ok: "cache_ok c" and m: "moves c c'" and p: "pin_ok c (f, t, k, g)" and pos: "pinCount (group_heap c g) > 0"
  shows "pin_ok c' (f, t, k, g)"
proof -
  have kp: "keeps c c'" and ok': "cache_ok c'" using m by (simp_all add: moves_def)
  have n: "name_ok c' f t" using name_ok_keeps [OF ok kp] p by (simp add: pin_ok_def)
  have lt: "g < next_gaddr c" "t < next_taddr c" using p by (simp_all add: pin_ok_def name_ok_def)
  have old: "held c s j g" if "held c' s j g" for s j using that kp lt(1) unfolding keeps_def by blast
  show ?thesis
  proof (cases "t \<in> tracks c'")
    case True
    then have "t \<in> tracks c" using keeps_tracks [OF kp lt(2)] by blast
    then have "held c t k g" using p by (simp add: pin_ok_def)
    then have "held c' t k g" using kp pos True unfolding keeps_def by blast
    then show ?thesis using n lt kp True by (auto simp: pin_ok_def keeps_def)
  next
    case False
    have "g \<notin> held_groups c'"
    proof
      assume "g \<in> held_groups c'"
      then obtain s j where h: "held c' s j g" by (auto simp: held_groups_def)
      note o = old [OF h]
      have "s \<in> tracks c'" using sound_addresses(3) [OF cache_okD(1) [OF ok'] h] .
      moreover have "s = t"
      proof (cases "t \<in> tracks c")
        case True
        then have "held c t k g" using p by (simp add: pin_ok_def)
        then show ?thesis using o held_unique(1) [OF soundD(4) [OF cache_okD(1) [OF ok]]] by blast
      next
        case False
        then have "g \<notin> held_groups c" using p by (simp add: pin_ok_def)
        then show ?thesis using heldI [OF o] by simp
      qed
      ultimately show False using False by simp
    qed
    then show ?thesis using n lt kp False by (auto simp: pin_ok_def keeps_def)
  qed
qed

lemma counts_moves:
  assumes ok: "cache_ok c" and m: "moves c c'" and w: "counts_ok c L P"
  shows "counts_ok c' L P"
proof -
  have kp: "keeps c c'" using m by (simp add: moves_def)
  have "pin_ok c' p" if "p \<in># P" for p
  proof -
    obtain f t k g where p: "p = (f, t, k, g)" by (cases p)
    then show ?thesis using pin_ok_moves [OF ok m] counts_pin [OF w] w that by (auto simp: counts_ok_def)
  qed
  moreover have "name_ok c' f t" if "(f, t) \<in># L" for f t
    using name_ok_keeps [OF ok kp] w that by (auto simp: counts_ok_def)
  ultimately show ?thesis using w kp by (auto simp: counts_ok_def keeps_def)
qed

text \<open>A writer pins a group, or lets go of it.\<close>

lemma repins_pin_ok: "repins h n c c' \<Longrightarrow> pin_ok c' p = pin_ok c p"
proof -
  assume r: "repins h n c c'"
  have "held_groups c' = held_groups c" using repins_views(2) [OF r] by (simp add: held_groups_def)
  moreover have "next_taddr c' = next_taddr c" "next_gaddr c' = next_gaddr c" "cache c' = cache c"
    using r by (simp_all add: repins_def relinks_def same_core_def upd_group_def)
  ultimately show ?thesis
    using repins_views(1,2) [OF r] by (simp add: pin_ok_def name_ok_def)
qed

lemma repins_fields:
  assumes "repins h n c c'"
  shows "cache c' = cache c" "next_taddr c' = next_taddr c" "next_gaddr c' = next_gaddr c"
    "liveWritebackCount (track_heap c' t) = liveWritebackCount (track_heap c t)"
    "fetchesInProgress (track_heap c' t) = fetchesInProgress (track_heap c t)"
    "track_in_lru (track_heap c' t) = track_in_lru (track_heap c t)"
    "evicted (track_heap c' t) = evicted (track_heap c t)"
    "unlisted c' = unlisted c"
  using assms relinks_unlisted [of "upd_group h (\<lambda>G. G\<lparr>pinCount := n\<rparr>) c" c']
  by (simp_all add: repins_def relinks_def same_core_def) (simp_all add: upd_group_def unlisted_def tracks_def)

lemma repins_fresh:
  assumes "repins h n c c'" and "fresh_ok c" and "h < next_gaddr c"
  shows "fresh_ok c'"
  using assms(2,3) by (auto simp: fresh_ok_def repins_pins [OF assms(1)] repins_fields [OF assms(1)])

lemma pin_counts:
  assumes ok: "cache_ok c" and w: "counts_ok c L P" and p: "pin_ok c (f, t, k, g)" and t: "t \<in> tracks c"
  shows "cache_ok (pinGroup g t c)" and "counts_ok (pinGroup g t c) L (add_mset (f, t, k, g) P)"
    and "repins g (Suc (pinCount (group_heap c g))) c (pinGroup g t c)"
proof -
  have h: "held c t k g" using p t by (simp add: pin_ok_def)
  have "\<not> group_in_lru (group_heap c g)" if "pinCount (group_heap c g) > 0"
    using sound_lists(5) [OF cache_okD(1) [OF ok] heldI [OF h]] that by simp
  moreover have "sound (insert g {}) c"
    using cache_okD(1) [OF ok] by (simp add: sound_def store_ok_def group_lru_ok_def)
  ultimately have s: "sound {} (pinGroup g t c)" "repins g (Suc (pinCount (group_heap c g))) c (pinGroup g t c)"
    using pinGroup_sound [of g "{}" c t k] h by simp_all
  note f = repins_fields [OF s(2)]
  have "fresh_ok (pinGroup g t c)"
    using repins_fresh [OF s(2) cache_okD(3) [OF ok]] p by (simp add: pin_ok_def)
  then show "cache_ok (pinGroup g t c)"
    using s(1) repins_views(3) [OF s(2)] cache_okD(2) [OF ok] by (simp add: cache_ok_def)
  show "counts_ok (pinGroup g t c) L (add_mset (f, t, k, g) P)"
    using w p repins_pin_ok [OF s(2)] by (auto simp: counts_ok_def repins_pins [OF s(2)] f name_ok_def repins_views(1) [OF s(2)])
  show "repins g (Suc (pinCount (group_heap c g))) c (pinGroup g t c)" by (rule s)
qed

lemma unpin_counts:
  assumes ok: "cache_ok c" and w: "counts_ok c L (add_mset (f, t, k, g) P)"
  obtains c' where "unpinGroup f k g t c = Some c'" "cache_ok c'" "counts_ok c' L P"
    "repins g (pinCount (group_heap c g) - 1) c c'"
proof -
  have p: "pin_ok c (f, t, k, g)" using w by (simp add: counts_ok_def)
  have pos: "pinCount (group_heap c g) > 0" using counts_pin [OF w, of f t k g] by simp
  have "held c t k g \<and> (f, t) \<in> set (cache c) \<and> \<not> evicted (track_heap c t)" if h: "g \<in> held_groups c"
  proof -
    have t: "t \<in> tracks c" using p h by (auto simp: pin_ok_def split: if_splits)
    then have "\<not> evicted (track_heap c t)" using cache_okD(2) [OF ok] p by (simp add: flags_ok_def pin_ok_def name_ok_def)
    then show ?thesis using p t by (simp add: pin_ok_def name_ok_def)
  qed
  moreover have "evicted (track_heap c t)" if "g \<notin> held_groups c"
  proof -
    have "t \<notin> tracks c" using p that heldI by (auto simp: pin_ok_def split: if_splits)
    then show ?thesis using cache_okD(2) [OF ok] p by (simp add: flags_ok_def pin_ok_def name_ok_def)
  qed
  ultimately obtain c' where c': "unpinGroup f k g t c = Some c'" "sound {} c'" "repins g (pinCount (group_heap c g) - 1) c c'"
    using unpinGroup_sound [OF cache_okD(1) [OF ok] pos, of t k f] by blast
  note fl = repins_fields [OF c'(3)]
  have "fresh_ok c'" using repins_fresh [OF c'(3) cache_okD(3) [OF ok]] p by (simp add: pin_ok_def)
  then have "cache_ok c'" using c'(2) repins_views(3) [OF c'(3)] cache_okD(2) [OF ok] by (simp add: cache_ok_def)
  moreover have "counts_ok c' L P"
    using w repins_pin_ok [OF c'(3)]
    by (auto simp: counts_ok_def repins_pins [OF c'(3)] fl name_ok_def repins_views(1) [OF c'(3)])
  ultimately show thesis using that c' by blast
qed

text \<open>The counts a track keeps of its writers.\<close>

lemma track_use_sound:
  assumes ok: "sound E c"
    and f: "\<And>T. groups (h T) = groups T \<and> groupLRU (h T) = groupLRU T \<and> track_in_lru (h T) = track_in_lru T \<and>
      evicted (h T) = evicted T"
    and u: "track_in_lru (track_heap c t) \<Longrightarrow> canEvict (h (track_heap c t))"
  shows "sound E (upd_track t h c)" and "flags_ok (upd_track t h c) = flags_ok c"
    and "unlisted (upd_track t h c) = unlisted c" and "held (upd_track t h c) = held c"
    and "tracks (upd_track t h c) = tracks c"
    and "name_ok (upd_track t h c) x y = name_ok c x y" and "pin_ok (upd_track t h c) p = pin_ok c p"
proof -
  have v: "cache (upd_track t h c) = cache c" "trackLRU (upd_track t h c) = trackLRU c"
    "globalGroupLRU (upd_track t h c) = globalGroupLRU c" "next_taddr (upd_track t h c) = next_taddr c"
    "next_gaddr (upd_track t h c) = next_gaddr c" "totalCachedBytes (upd_track t h c) = totalCachedBytes c"
    by (simp_all add: upd_track_def)
  have th: "groups (track_heap (upd_track t h c) s) = groups (track_heap c s)"
    "groupLRU (track_heap (upd_track t h c) s) = groupLRU (track_heap c s)"
    "track_in_lru (track_heap (upd_track t h c) s) = track_in_lru (track_heap c s)"
    "evicted (track_heap (upd_track t h c) s) = evicted (track_heap c s)" for s
    using f by simp_all
  show tr: "tracks (upd_track t h c) = tracks c" and hd: "held (upd_track t h c) = held c"
    and "unlisted (upd_track t h c) = unlisted c" "flags_ok (upd_track t h c) = flags_ok c"
    unfolding tracks_def held_def owns_def unlisted_def flags_ok_def v th by simp_all
  show nk: "name_ok (upd_track t h c) x y = name_ok c x y" for x y unfolding name_ok_def v tr ..
  show "pin_ok (upd_track t h c) p = pin_ok c p" unfolding pin_ok_def nk held_groups_def v tr hd ..
  have ce: "canEvict (track_heap (upd_track t h c) s)" if "track_in_lru (track_heap c s)" for s
    using that u soundD(5) [OF ok] by (cases "s = t") (simp_all add: track_lru_ok_def)
  have "track_lru_ok (upd_track t h c)"
    using soundD(5) [OF ok] ce unfolding track_lru_ok_def tr v th by blast
  with ok show "sound E (upd_track t h c)" by (rule track_list_frame [rotated 8]) (simp_all add: v th del: upd_heaps(4))
qed

lemma new_subscribe_counts:
  assumes ok: "cache_ok c" and w: "counts_ok c L P" and ft: "(f, t) \<in> set (cache c)"
  shows "cache_ok (snd (new_subscribe_writeback t f c))" (is "cache_ok ?c")
    and "counts_ok (snd (new_subscribe_writeback t f c)) (add_mset (f, t) L) P"
    and "unlisted (snd (new_subscribe_writeback t f c)) = insert t (unlisted c)"
    and "fetchesInProgress (track_heap (snd (new_subscribe_writeback t f c)) s) = fetchesInProgress (track_heap c s)"
    and "tracks (snd (new_subscribe_writeback t f c)) = tracks c"
    and "cache (snd (new_subscribe_writeback t f c)) = cache c"
    and "next_taddr (snd (new_subscribe_writeback t f c)) = next_taddr c"
proof -
  define d where "d = removeTrackFromLRU t c"
  define h where "h = (\<lambda>T :: ('a, 'b) cache_track. T\<lparr>liveWritebackCount := liveWritebackCount T + 1\<rparr>)"
  have c': "?c = upd_track t h d" by (simp add: new_subscribe_writeback_def d_def h_def)
  note m = removeTrackFromLRU_moves [OF ok, of t, folded d_def]
  have okd: "cache_ok d" using m(1) by (simp add: moves_def)
  have t: "t \<in> tracks c" using ft by (auto simp: tracks_iff)
  have tl: "t < next_taddr c" using soundD(3) [OF cache_okD(1) [OF ok]] t by (simp add: names_ok_def)
  have nl: "\<not> track_in_lru (track_heap d t)" by (simp add: d_def)
  note s = track_use_sound [OF cache_okD(1) [OF okd], of h t]
  have hf: "groups (h T) = groups T \<and> groupLRU (h T) = groupLRU T \<and> track_in_lru (h T) = track_in_lru T \<and>
      evicted (h T) = evicted T" for T by (simp add: h_def)
  note s = s [OF hf]
  have "fresh_ok ?c" using cache_okD(3) [OF okd] tl by (auto simp: fresh_ok_def c' h_def d_def) (simp_all add: upd_track_def)
  then show "cache_ok ?c" using s(1,2) nl cache_okD(2) [OF okd] by (simp add: cache_ok_def c')
  show "unlisted ?c = insert t (unlisted c)" using s(3) nl m(2) t by (simp add: c')
  show "fetchesInProgress (track_heap ?c s) = fetchesInProgress (track_heap c s)" by (simp add: c' h_def d_def)
  show "tracks ?c = tracks c" using s(5) nl by (simp add: c' d_def)
  show ca: "cache ?c = cache c" "next_taddr ?c = next_taddr c" by (simp_all add: c' upd_track_def d_def)
  have wd: "counts_ok d L P" by (rule counts_moves [OF ok m(1) w])
  have nk: "name_ok ?c x y = name_ok d x y" for x y using s(6) nl by (simp add: c')
  have pk: "pin_ok ?c q = pin_ok d q" for q using s(7) nl by (simp add: c')
  have "name_ok ?c f t" using ft tl by (simp add: name_ok_def ca)
  then show "counts_ok ?c (add_mset (f, t) L) P"
    using wd by (auto simp: counts_ok_def nk pk) (auto simp: c' h_def)
qed

lemma subscribe_destroy_counts:
  assumes ok: "cache_ok c" and w: "counts_ok c (add_mset (sw_ftn wb, sw_track wb) L) P"
  obtains c' where "subscribe_destroy wb c = Some c'" "cache_ok c'" "counts_ok c' L P" "unlisted c' \<subseteq> unlisted c"
    "\<forall>s. fetchesInProgress (track_heap c' s) = fetchesInProgress (track_heap c s)"
    "cache c' = cache c" "next_taddr c' = next_taddr c"
    "canEvict (track_heap c' (sw_track wb)) \<longrightarrow> sw_track wb \<notin> unlisted c'"
proof -
  let ?t = "sw_track wb" and ?f = "sw_ftn wb"
  have n: "name_ok c ?f ?t" using w by (simp add: counts_ok_def)
  have pos: "liveWritebackCount (track_heap c ?t) > 0" using w by (simp add: counts_ok_def)
  define h where "h = (\<lambda>T :: ('a, 'b) cache_track. T\<lparr>liveWritebackCount := liveWritebackCount T - 1\<rparr>)"
  define d where "d = upd_track ?t h c"
  have hf: "groups (h T) = groups T \<and> groupLRU (h T) = groupLRU T \<and> track_in_lru (h T) = track_in_lru T \<and>
      evicted (h T) = evicted T" for T by (simp add: h_def)
  have nl: "\<not> track_in_lru (track_heap c ?t)"
    using soundD(5) [OF cache_okD(1) [OF ok]] pos by (auto simp: track_lru_ok_def canEvict_def)
  note s = track_use_sound [OF cache_okD(1) [OF ok] hf, of ?t, folded d_def]
  have fr: "fresh_ok d" using cache_okD(3) [OF ok] by (auto simp: fresh_ok_def d_def h_def) (simp_all add: upd_track_def)
  then have okd: "cache_ok d" using s(1,2) nl cache_okD(2) [OF ok] by (simp add: cache_ok_def)
  have nk: "name_ok d x y = name_ok c x y" for x y using s(6) nl by simp
  have pk: "pin_ok d q = pin_ok c q" for q using s(7) nl by simp
  have wd: "counts_ok d L P" using w by (auto simp: counts_ok_def nk pk) (auto simp: d_def h_def)
  define c' where "c' = onTrackBecameEvictable ?f d"
  have st: "step_ok d c'" unfolding c'_def by (rule onTrackBecameEvictable_step [OF okd])
  have f: "cache d = cache c" "next_taddr d = next_taddr c" by (simp_all add: d_def upd_track_def)
  have g: "cache c' = cache d" "next_taddr c' = next_taddr d"
    "fetchesInProgress (track_heap c' s) = fetchesInProgress (track_heap d s)"
    "canEvict (track_heap c' s) = canEvict (track_heap d s)" for s
    by (simp_all add: c'_def onTrackBecameEvictable_def split: option.split)
  have "canEvict (track_heap c' ?t) \<longrightarrow> ?t \<notin> unlisted c'"
  proof (intro impI notI)
    assume ce: "canEvict (track_heap c' ?t)" and u: "?t \<in> unlisted c'"
    have "(?f, ?t) \<in> set (cache d)" using u n f g by (auto simp: unlisted_def name_ok_def tracks_def)
    then have "map_of (cache d) ?f = Some ?t" using cached_lookup [OF soundD(3) [OF cache_okD(1) [OF okd]]] by simp
    then have "c' = addTrackToLRU ?f ?t d" using ce g by (simp add: c'_def onTrackBecameEvictable_def)
    then show False using u by (simp add: unlisted_def)
  qed
  moreover have "subscribe_destroy wb c = Some c'" using pos by (simp add: subscribe_destroy_def c'_def d_def h_def)
  moreover have "unlisted c' \<subseteq> unlisted c" using st s(3) nl by (simp add: step_ok_def)
  moreover have "fetchesInProgress (track_heap c' s) = fetchesInProgress (track_heap c s)" for s
    by (simp add: g d_def h_def)
  ultimately show thesis
    using that [of c'] step_okD(2) [OF st] counts_moves [OF okd step_okD(1) [OF st] wd] f g by simp
qed

section \<open>Calls\<close>

text \<open>
  What the relay does to the cache and to the filters it handed out. A filter is named by its place
  in the list of those alive; a place past the end names none, and the call does not happen.
\<close>

datatype 'e call =
    Subscribe full_track_name
  | Unsubscribe nat
  | BeginSubgroup nat u64 u64 bool
  | WriteObject bool nat "'e object_header" payload int
  | SubgroupObject nat u64 payload 'e bool int
  | SubgroupBegin nat u64 nat payload 'e int
  | SubgroupPayload nat string bool int
  | SubgroupEndOfGroup nat u64 int
  | SubgroupEndOfTrack nat u64 int
  | CloseSubgroup nat
  | PurgeTrack full_track_name
  | PurgeNamespace track_namespace
  | PurgeAll
  | LookUp full_track_name location int
  | SetTrackState full_track_name "location option" 'e

definition remove_nth :: "nat \<Rightarrow> 'a list \<Rightarrow> 'a list" where
  "remove_nth i xs = take i xs @ drop (Suc i) xs"

text \<open>The publisher's parser never hands over more payload than the object is long.\<close>

definition call_ok :: "'e call \<Rightarrow> bool" where
  "call_ok k = (case k of SubgroupBegin _ _ len initial _ _ \<Rightarrow> payload_size initial \<le> len | _ \<Rightarrow> True)"

definition on_subscriber where
  "on_subscriber i f w = (if i < length (subscribers w) then f (subscribers w ! i) (the_cache w) else Some w)"

definition on_subgroup where
  "on_subgroup i f w = (if i < length (subgroups w) then f (subgroups w ! i) (the_cache w) else Some w)"

fun perform :: "('e, 's) moxygen \<Rightarrow> 'e call \<Rightarrow> ('e, 's) world \<Rightarrow> ('e, 's) world option" where
  "perform X (Subscribe ftn) w =
     do { (wb, c) \<leftarrow> getSubscribeWriteback X ftn (the_cache w);
          Some (w\<lparr>the_cache := c, subscribers := wb # subscribers w\<rparr>) }"
| "perform X (Unsubscribe i) w = on_subscriber i (\<lambda>wb c.
     do { c' \<leftarrow> subscribe_destroy wb c;
          Some (w\<lparr>the_cache := c', subscribers := remove_nth i (subscribers w)\<rparr>) }) w"
| "perform X (BeginSubgroup i grp sub accepted) w = on_subscriber i (\<lambda>wb c.
     do { (sg, c', _) \<leftarrow> subscribe_beginSubgroup X wb grp sub accepted c;
          Some (w\<lparr>the_cache := c', subgroups := (case sg of None \<Rightarrow> [] | Some s \<Rightarrow> [s]) @ subgroups w\<rparr>) }) w"
| "perform X (WriteObject dgram i h pl now) w = on_subscriber i (\<lambda>wb c.
     do { (c', _) \<leftarrow> subscribe_write X dgram wb h pl now c; Some (w\<lparr>the_cache := c'\<rparr>) }) w"
| "perform X (SubgroupObject i oid pl ext fin now) w = on_subgroup i (\<lambda>wb c.
     do { (c', _) \<leftarrow> subgroup_object X wb oid pl ext fin now c; Some (w\<lparr>the_cache := c'\<rparr>) }) w"
| "perform X (SubgroupBegin i oid len initial ext now) w = on_subgroup i (\<lambda>wb c.
     do { (wb', c', _) \<leftarrow> subgroup_beginObject X wb oid len initial ext now c;
          Some (w\<lparr>the_cache := c', subgroups := (subgroups w)[i := wb']\<rparr>) }) w"
| "perform X (SubgroupPayload i bs fin now) w = on_subgroup i (\<lambda>wb c.
     do { (wb', c', _) \<leftarrow> subgroup_objectPayload X wb bs fin now c;
          Some (w\<lparr>the_cache := c', subgroups := (subgroups w)[i := wb']\<rparr>) }) w"
| "perform X (SubgroupEndOfGroup i oid now) w = on_subgroup i (\<lambda>wb c.
     do { (c', _) \<leftarrow> subgroup_endOfGroup X wb oid now c; Some (w\<lparr>the_cache := c'\<rparr>) }) w"
| "perform X (SubgroupEndOfTrack i oid now) w = on_subgroup i (\<lambda>wb c.
     do { (c', _) \<leftarrow> subgroup_endOfTrackAndGroup X wb oid now c; Some (w\<lparr>the_cache := c'\<rparr>) }) w"
| "perform X (CloseSubgroup i) w = on_subgroup i (\<lambda>wb c.
     do { c' \<leftarrow> subgroup_destroy wb c;
          Some (w\<lparr>the_cache := c', subgroups := remove_nth i (subgroups w)\<rparr>) }) w"
| "perform X (PurgeTrack ftn) w =
     do { (c, _) \<leftarrow> evictTrack X ftn (the_cache w); Some (w\<lparr>the_cache := c\<rparr>) }"
| "perform X (PurgeNamespace ns) w =
     do { (c, _) \<leftarrow> purge_namespace X ns (the_cache w); Some (w\<lparr>the_cache := c\<rparr>) }"
| "perform X PurgeAll w =
     do { (c, _) \<leftarrow> purge_all X (the_cache w); Some (w\<lparr>the_cache := c\<rparr>) }"
| "perform X (LookUp ftn l now) w = Some (w\<lparr>the_cache := fst (hasCachedObject X ftn l now (the_cache w))\<rparr>)"
| "perform X (SetTrackState ftn largest ext) w =
     Some (w\<lparr>the_cache := setTrackState X ftn largest ext (the_cache w)\<rparr>)"

fun perform_all :: "('e, 's) moxygen \<Rightarrow> 'e call list \<Rightarrow> ('e, 's) world \<Rightarrow> ('e, 's) world option" where
  "perform_all X [] w = Some w"
| "perform_all X (k # ks) w = do { w' \<leftarrow> perform X k w; perform_all X ks w' }"

text \<open>Every cached track outside the eviction order has a subscription.\<close>

definition world_ok :: "('e, 's) world \<Rightarrow> bool" where
  "world_ok w \<longleftrightarrow> cache_ok (the_cache w) \<and> counts_ok (the_cache w) (lives w) (pins w) \<and>
     (\<forall>t. fetchesInProgress (track_heap (the_cache w) t) = []) \<and>
     (\<forall>t\<in>unlisted (the_cache w). liveWritebackCount (track_heap (the_cache w) t) > 0)"

lemma world_okD:
  assumes "world_ok w"
  shows "cache_ok (the_cache w)" "counts_ok (the_cache w) (lives w) (pins w)"
    "fetchesInProgress (track_heap (the_cache w) t) = []"
    "t \<in> unlisted (the_cache w) \<Longrightarrow> liveWritebackCount (track_heap (the_cache w) t) > 0"
  using assms by (simp_all add: world_ok_def)

lemma quiet_world:
  assumes w: "world_ok w" and st: "step_ok (the_cache w) c'" and gs: "map subgroup_pin gs = map subgroup_pin (subgroups w)"
  shows "world_ok (w\<lparr>the_cache := c', subgroups := gs\<rparr>)"
proof -
  note ok = world_okD [OF w]
  have "image_mset subgroup_pin (mset gs) = pins w" by (metis pins_def gs mset_map)
  then have "counts_ok c' (lives w) (image_mset subgroup_pin (mset gs))"
    using counts_moves [OF ok(1) step_okD(1) [OF st] ok(2)] by simp
  moreover have "unlisted c' \<subseteq> unlisted (the_cache w)" using st by (simp add: step_ok_def)
  ultimately show ?thesis
    using ok(3,4) step_okD(2,3) [OF st] by (auto simp: world_ok_def lives_def pins_def keeps_def)
qed

lemma quiet_cache: "world_ok w \<Longrightarrow> step_ok (the_cache w) c' \<Longrightarrow> world_ok (w\<lparr>the_cache := c'\<rparr>)"
  using quiet_world [of w c' "subgroups w"] by simp

section \<open>Every call returns and keeps the invariant\<close>

lemma subscriber_track:
  assumes w: "world_ok w" and m: "wb \<in> set (subscribers w)" and e: "\<not> evicted (track_heap (the_cache w) (sw_track wb))"
  shows "(sw_ftn wb, sw_track wb) \<in> set (cache (the_cache w))"
proof -
  have "name_ok (the_cache w) (sw_ftn wb) (sw_track wb)"
    using world_okD(2) [OF w] m by (auto simp: counts_ok_def lives_def)
  then show ?thesis using cache_okD(2) [OF world_okD(1) [OF w]] e by (simp add: name_ok_def flags_ok_def)
qed

lemma subgroup_held:
  assumes w: "world_ok w" and m: "wb \<in> set (subgroups w)" and e: "\<not> evicted (track_heap (the_cache w) (gw_track wb))"
  shows "held (the_cache w) (gw_track wb) (gw_group wb) (gw_gaddr wb)"
proof -
  have p: "pin_ok (the_cache w) (subgroup_pin wb)" using world_okD(2) [OF w] m by (auto simp: counts_ok_def pins_def)
  then have "gw_track wb \<in> tracks (the_cache w)"
    using cache_okD(2) [OF world_okD(1) [OF w]] e by (simp add: pin_ok_def subgroup_pin_def name_ok_def flags_ok_def)
  then show ?thesis using p by (simp add: pin_ok_def subgroup_pin_def)
qed

lemma updateLargest_frame: "track_frame (\<lambda>T. fst (updateLargest l eot T))"
  by (simp add: track_frame_def updateLargest_def)

lemma updateLargest_step:
  assumes "cache_ok c" and u: "updateLargest l eot (track_heap c t) = (T, err)"
  shows "step_ok c (upd_track t (\<lambda>_. T) c)" and "held (upd_track t (\<lambda>_. T) c) = held c"
    and "cache (upd_track t (\<lambda>_. T) c) = cache c"
proof -
  let ?f = "\<lambda>S. fst (updateLargest l eot S)"
  have e: "upd_track t (\<lambda>_. T) c = upd_track t ?f c" using u by (simp add: upd_track_def)
  have a: "annotates undefined c (upd_track t ?f c)" by (simp add: updateLargest_frame)
  show "step_ok c (upd_track t (\<lambda>_. T) c)" unfolding e by (rule same_store_step [OF assms(1) a])
  have "same_store c (upd_track t ?f c)" using a by (simp add: annotates_def edits_def)
  then show "held (upd_track t (\<lambda>_. T) c) = held c" unfolding e by (simp add: same_store_views)
  show "cache (upd_track t (\<lambda>_. T) c) = cache c" by (simp add: upd_track_def)
qed

lemma note_and_write_step:
  assumes ok: "cache_ok c" and h: "held c t grp g"
  obtains c' err where "note_and_write X g t grp eot w c = Some (c', err)" "step_ok c c'"
proof -
  obtain T e where u: "updateLargest (grp, w_object w) eot (track_heap c t) = (T, e)" by fastforce
  define c1 where "c1 = upd_track t (\<lambda>_. T) c"
  note s = updateLargest_step [OF ok u, folded c1_def]
  have h1: "held c1 t grp g" using h s(2) by simp
  obtain c2 e2 where c2: "cacheObjectAndUpdateBytes X g t grp w c1 = Some (c2, e2)" "step_ok c1 c2"
    by (rule cacheObjectAndUpdateBytes_step [OF step_okD(2) [OF s(1)] h1])
  show thesis
    using that [of c1 e] that [of c2 e2] s(1) step_ok_trans [OF ok s(1) c2(2)] c2(1) u
    by (cases e) (simp_all add: note_and_write_def c1_def)
qed

lemma subscribe_write_step:
  assumes w: "world_ok w" and m: "wb \<in> set (subscribers w)"
  obtains c' out where "subscribe_write X d wb h pl now (the_cache w) = Some (c', out)" "step_ok (the_cache w) c'"
proof (cases "shouldSkipCaching (track_heap (the_cache w) (sw_track wb))")
  case True
  then show ?thesis using that world_okD(1) [OF w] by (simp add: subscribe_write_def)
next
  case False
  let ?c = "the_cache w" and ?t = "sw_track wb"
  note ok = world_okD(1) [OF w]
  have ft: "(sw_ftn wb, ?t) \<in> set (cache ?c)"
    using subscriber_track [OF w m] False by (simp add: shouldSkipCaching_def)
  obtain T e where u: "updateLargest (h_group h, h_id h) (h_status h = END_OF_TRACK) (track_heap ?c ?t) = (T, e)" by fastforce
  define c1 where "c1 = upd_track ?t (\<lambda>_. T) ?c"
  note s = updateLargest_step [OF ok u, folded c1_def]
  note ok1 = step_okD(2) [OF s(1)]
  obtain c2 g where c2: "getOrCreateGroupWithEviction X (sw_ftn wb) ?t (h_group h) c1 = Some (c2, g)" "step_ok c1 c2" "held c2 ?t (h_group h) g"
    by (rule getOrCreateGroupWithEviction_step [OF ok1]) (use ft s(3) in auto)
  define r where "r = \<lparr>w_subgroup = h_subgroup h, w_object = h_id h, w_status = h_status h,
    w_extensions = h_extensions h, w_payload = pl, w_complete = True, w_datagram = d, w_now = now, w_offset = 0\<rparr>"
  obtain c3 e3 where c3: "cacheObjectAndUpdateBytes X g ?t (h_group h) r c2 = Some (c3, e3)" "step_ok c2 c3"
    by (rule cacheObjectAndUpdateBytes_step [OF step_okD(2) [OF c2(2)] c2(3)])
  have "step_ok ?c c3" using step_ok_trans [OF ok s(1)] step_ok_trans [OF ok1 c2(2) c3(2)] by blast
  then show ?thesis
    using that s(1) False u c2(1) c3(1) by (cases e) (simp_all add: subscribe_write_def c1_def r_def)
qed

lemma step_bind:
  "\<exists>a b. m = Some (a, b) \<and> step_ok c a \<Longrightarrow>
   \<exists>a out. Option.bind m (\<lambda>(a, b). Some (a, h a b)) = Some (a, out) \<and> step_ok c a"
  by auto

lemma subgroup_write_step:
  assumes w: "world_ok w" and m: "wb \<in> set (subgroups w)"
    and n: "\<not> shouldSkipCaching (track_heap (the_cache w) (gw_track wb))"
  shows "\<exists>c' err. note_and_write X (gw_gaddr wb) (gw_track wb) (gw_group wb) eot r (the_cache w) = Some (c', err) \<and>
    step_ok (the_cache w) c'"
  using note_and_write_step [OF world_okD(1) [OF w] subgroup_held [OF w m]] n by (metis shouldSkipCaching_def)

lemma subgroup_steps:
  assumes w: "world_ok w" and m: "wb \<in> set (subgroups w)"
  shows "\<exists>c' out. subgroup_object X wb oid pl ext fin now (the_cache w) = Some (c', out) \<and> step_ok (the_cache w) c'"
    and "\<exists>c' out. subgroup_endOfGroup X wb oid now (the_cache w) = Some (c', out) \<and> step_ok (the_cache w) c'"
    and "\<exists>c' out. subgroup_endOfTrackAndGroup X wb oid now (the_cache w) = Some (c', out) \<and> step_ok (the_cache w) c'"
proof -
  let ?s = "shouldSkipCaching (track_heap (the_cache w) (gw_track wb))"
  note n = step_bind [OF subgroup_write_step [OF w m]] and ok = world_okD(1) [OF w]
  show "\<exists>c' out. subgroup_object X wb oid pl ext fin now (the_cache w) = Some (c', out) \<and> step_ok (the_cache w) c'"
    by (cases ?s) (simp add: subgroup_object_def ok, simp only: subgroup_object_def if_False, erule n)
  show "\<exists>c' out. subgroup_endOfGroup X wb oid now (the_cache w) = Some (c', out) \<and> step_ok (the_cache w) c'"
    by (cases ?s) (simp add: subgroup_endOfGroup_def ok, simp only: subgroup_endOfGroup_def if_False, erule n)
  show "\<exists>c' out. subgroup_endOfTrackAndGroup X wb oid now (the_cache w) = Some (c', out) \<and> step_ok (the_cache w) c'"
    by (cases ?s) (simp add: subgroup_endOfTrackAndGroup_def ok, simp only: subgroup_endOfTrackAndGroup_def if_False, erule n)
qed

lemma subgroup_beginObject_step:
  assumes w: "world_ok w" and m: "wb \<in> set (subgroups w)" and l: "payload_size initial \<le> len"
  shows "\<exists>wb' c' out. subgroup_beginObject X wb oid len initial ext now (the_cache w) = Some (wb', c', out) \<and>
    step_ok (the_cache w) c' \<and> subgroup_pin wb' = subgroup_pin wb"
proof (cases "shouldSkipCaching (track_heap (the_cache w) (gw_track wb))")
  case True
  then show ?thesis using world_okD(1) [OF w] by (simp add: subgroup_beginObject_def Let_def subgroup_pin_def)
next
  case False
  let ?c = "the_cache w" and ?t = "gw_track wb" and ?k = "gw_group wb"
  note ok = world_okD(1) [OF w]
  have h: "held ?c ?t ?k (gw_gaddr wb)" using subgroup_held [OF w m] False by (simp add: shouldSkipCaching_def)
  obtain T e where u: "updateLargest (?k, oid) False (track_heap ?c ?t) = (T, e)" by fastforce
  define c1 where "c1 = upd_track ?t (\<lambda>_. T) ?c"
  note s = updateLargest_step [OF ok u, folded c1_def]
  define r where "r = \<lparr>w_subgroup = gw_subgroup wb, w_object = oid, w_status = NORMAL, w_extensions = ext,
    w_payload = initial, w_complete = (payload_size initial = len), w_datagram = False, w_now = now, w_offset = 0\<rparr>"
  obtain c2 e2 where c2: "cacheObjectAndUpdateBytes X (gw_gaddr wb) ?t ?k r c1 = Some (c2, e2)" "step_ok c1 c2"
    by (rule cacheObjectAndUpdateBytes_step [OF step_okD(2) [OF s(1)]]) (use h s(2) in auto)
  show ?thesis
    using False u l s(1) step_ok_trans [OF ok s(1) c2(2)] c2(1)
    by (cases e) (simp_all add: subgroup_beginObject_def Let_def c1_def r_def subgroup_pin_def)
qed

lemma subgroup_objectPayload_step:
  assumes w: "world_ok w" and m: "wb \<in> set (subgroups w)"
  shows "\<exists>wb' c' out. subgroup_objectPayload X wb bs fin now (the_cache w) = Some (wb', c', out) \<and>
    step_ok (the_cache w) c' \<and> subgroup_pin wb' = subgroup_pin wb"
proof (cases "\<not> gw_caching wb \<or> evicted (track_heap (the_cache w) (gw_track wb)) \<or>
    gw_currentOffset wb + length bs > gw_currentLength wb")
  case True
  then show ?thesis using world_okD(1) [OF w] by (auto simp: subgroup_objectPayload_def)
next
  case False
  define r where "r = \<lparr>w_subgroup = gw_subgroup wb, w_object = gw_currentObject wb, w_status = NORMAL,
    w_extensions = noExtensions X, w_payload = Some bs,
    w_complete = (gw_currentOffset wb + length bs = gw_currentLength wb), w_datagram = False,
    w_now = now, w_offset = gw_currentOffset wb\<rparr>"
  have "held (the_cache w) (gw_track wb) (gw_group wb) (gw_gaddr wb)" using subgroup_held [OF w m] False by blast
  from cacheObjectAndUpdateBytes_step [OF world_okD(1) [OF w] this]
  obtain c2 e2 where c2: "cacheObjectAndUpdateBytes X (gw_gaddr wb) (gw_track wb) (gw_group wb) r (the_cache w) = Some (c2, e2)"
    "step_ok (the_cache w) c2" by metis
  then show ?thesis using False by (simp add: subgroup_objectPayload_def r_def subgroup_pin_def)
qed

lemma remove_nth_mset:
  assumes "i < length xs"
  shows "mset xs = add_mset (xs ! i) (mset (remove_nth i xs))"
proof -
  have "xs = take i xs @ xs ! i # drop (Suc i) xs" using assms by (rule id_take_nth_drop)
  then have "mset xs = mset (take i xs @ xs ! i # drop (Suc i) xs)" by simp
  then show ?thesis by (simp add: remove_nth_def)
qed

lemma map_update_same: "f y = f (xs ! i) \<Longrightarrow> map f (xs[i := y]) = map f xs"
  by (metis list_update_id map_update)

lemma frees_step: "cache_ok c \<Longrightarrow> sound {} c' \<Longrightarrow> flags_ok c' \<Longrightarrow> frees c c' \<Longrightarrow> step_ok c c'"
  using frees_keeps [of c c'] keeps_fresh [of c c'] frees_unlisted [of c c']
  by (simp add: step_ok_def moves_def cache_ok_def)

lemma purge_steps:
  assumes ok: "cache_ok c"
  shows "\<exists>c' n. evictTrack X ftn c = Some (c', n) \<and> step_ok c c'"
    and "\<exists>c' n. purge_namespace X ns c = Some (c', n) \<and> step_ok c c'"
    and "\<exists>c' n. purge_all X c = Some (c', n) \<and> step_ok c c'"
proof -
  have e: "\<exists>c' n. evict_tracks X fs c = Some (c', n) \<and> step_ok c c'" for fs
    using evict_tracks_sound [OF cache_okD(1,2) [OF ok], of X fs] frees_step [OF ok] by blast
  show "\<exists>c' n. purge_namespace X ns c = Some (c', n) \<and> step_ok c c'"
    unfolding purge_namespace_def by (rule e)
  obtain c' n where "evict_tracks X (map fst (cache c)) c = Some (c', n)" "step_ok c c'" using e by blast
  then show "\<exists>c' n. purge_all X c = Some (c', n) \<and> step_ok c c'" by (simp add: purge_all_def)
  obtain d m where "evict_tracks X [ftn] c = Some (d, m)" "step_ok c d" using e by blast
  then show "\<exists>c' n. evictTrack X ftn c = Some (c', n) \<and> step_ok c c'" by (auto split: bind_splits)
qed

lemma hasCachedObject_step:
  assumes ok: "cache_ok c"
  shows "step_ok c (fst (hasCachedObject X ftn l now c))"
proof (cases "map_of (cache c) ftn")
  case None
  then show ?thesis using ok by (simp add: hasCachedObject_def)
next
  case (Some t)
  then have "t \<in> tracks c" using map_of_SomeD [OF Some] by (auto simp: tracks_iff)
  from getCachedObjectMaybe_step [OF ok this, of X l now] show ?thesis
    using Some by (simp add: hasCachedObject_def case_prod_beta)
qed

lemma annotate_track_step:
  assumes ok: "cache_ok c" and f: "track_frame f"
  shows "step_ok c (upd_track t f c)"
proof (rule same_store_step [OF ok])
  show "annotates undefined c (upd_track t f c)" using f by simp
qed

lemma setTrackState_step:
  assumes ok: "cache_ok c"
  shows "step_ok c (setTrackState X ftn largest ext c)"
proof -
  define c1 where "c1 = (case getEffectiveCacheDuration X ext c of
    Some d \<Rightarrow> setMaxCacheDuration X ftn d c | None \<Rightarrow> clearMaxCacheDuration ftn c)"
  have tf: "track_frame (\<lambda>T. T\<lparr>maxCacheDuration := d\<rparr>)" "track_frame (\<lambda>T. T\<lparr>track_extensions := x\<rparr>)" for d x
    by (simp_all add: track_frame_def)
  have s1: "step_ok c c1"
  proof (cases "getEffectiveCacheDuration X ext c")
    case None
    then show ?thesis
      using annotate_track_step [OF ok tf(1)] ok by (auto simp: c1_def clearMaxCacheDuration_def split: option.split)
  next
    case (Some d)
    obtain b t where b: "getOrCreateTrack X ftn c = (b, t)" "step_ok c b" by (rule getOrCreateTrack_step [OF ok])
    then show ?thesis
      using Some step_ok_trans [OF ok b(2) annotate_track_step [OF step_okD(2) [OF b(2)] tf(1)]]
      by (simp add: c1_def setMaxCacheDuration_def)
  qed
  obtain c2 t where c2: "getOrCreateTrack X ftn c1 = (c2, t)" "step_ok c1 c2"
    by (rule getOrCreateTrack_step [OF step_okD(2) [OF s1]])
  define c3 where "c3 = upd_track t (\<lambda>T. T\<lparr>track_extensions := ext\<rparr>) c2"
  have s3: "step_ok c c3" unfolding c3_def
    using step_ok_trans [OF ok step_ok_trans [OF ok s1 c2(2)]] annotate_track_step [OF step_okD(2) [OF c2(2)] tf(2)] by blast
  have "step_ok c (upd_track t (\<lambda>T. fst (updateLargest l False T)) c3)" for l
    using step_ok_trans [OF ok s3 annotate_track_step [OF step_okD(2) [OF s3] updateLargest_frame]] .
  then show ?thesis
    using s3 by (simp add: setTrackState_def c1_def [symmetric] c2(1) c3_def [symmetric] split: option.split)
qed

text \<open>The calls that add or drop a filter.\<close>

lemma counts_live:
  assumes "counts_ok c (add_mset (f, t) L) P" and "counts_ok d L Q"
  shows "liveWritebackCount (track_heap c s) = liveWritebackCount (track_heap d s) + (if s = t then 1 else 0)"
  using assms by (auto simp: counts_ok_def)

lemma subscribed_world:
  assumes w: "world_ok w" and ok: "cache_ok d" and m: "moves (the_cache w) d" and ft: "(f, t) \<in> set (cache d)"
    and u: "unlisted d \<subseteq> insert t (unlisted (the_cache w))"
  shows "world_ok (w\<lparr>the_cache := snd (new_subscribe_writeback t f d),
    subscribers := fst (new_subscribe_writeback t f d) # subscribers w\<rparr>)"
proof -
  let ?c = "snd (new_subscribe_writeback t f d)"
  note wk = world_okD [OF w]
  have cd: "counts_ok d (lives w) (pins w)" by (rule counts_moves [OF wk(1) m wk(2)])
  note n = new_subscribe_counts [OF ok cd ft]
  have live: "liveWritebackCount (track_heap ?c s) = liveWritebackCount (track_heap d s) + (if s = t then 1 else 0)" for s
    by (rule counts_live [OF n(2) cd])
  have kp: "keeps (the_cache w) d" using m by (simp add: moves_def)
  have "liveWritebackCount (track_heap ?c s) > 0" if "s \<in> unlisted ?c" for s
    using that n(3) u wk(4) [of s] kp live [of s] by (auto simp: keeps_def)
  moreover have "fetchesInProgress (track_heap ?c s) = []" for s using n(4) wk(3) kp by (simp add: keeps_def)
  ultimately show ?thesis using n(1,2) by (simp add: world_ok_def lives_def pins_def new_subscribe_writeback_def)
qed

lemma getSubscribeWriteback_world:
  assumes w: "world_ok w"
  shows "\<exists>wb c. getSubscribeWriteback X ftn (the_cache w) = Some (wb, c) \<and>
    world_ok (w\<lparr>the_cache := c, subscribers := wb # subscribers w\<rparr>)"
proof (cases "map_of (cache (the_cache w)) ftn")
  case (Some t)
  have "moves (the_cache w) (the_cache w)" using world_okD(1) [OF w] by (simp add: moves_def)
  from subscribed_world [OF w world_okD(1) [OF w] this map_of_SomeD [OF Some]] Some show ?thesis
    by (auto simp: getSubscribeWriteback_def prod_eq_iff)
next
  case None
  let ?c = "the_cache w"
  note ok = world_okD(1) [OF w]
  obtain c1 b where e: "evictOldestTrackIfNeeded X ?c = Some (c1, b)" "freed ?c c1"
    by (rule evictOldestTrackIfNeeded_sound [OF cache_okD(1,2) [OF ok]])
  define c2 where "c2 = (if length (cache ?c) \<ge> maxCachedTracks ?c then c1 else ?c)"
  have c2: "(if length (cache ?c) \<ge> maxCachedTracks ?c then map_option fst (evictOldestTrackIfNeeded X ?c) else Some ?c) = Some c2"
    by (simp add: c2_def e(1))
  have st: "step_ok ?c c2" using freed_step [OF ok e(2)] ok by (simp add: c2_def)
  note ok2 = step_okD(2) [OF st]
  have "set (cache c2) \<subseteq> set (cache ?c)" using e(2) by (simp add: c2_def freed_def frees_def)
  then have new: "map_of (cache c2) ftn = None" using None by (auto simp: map_of_eq_None_iff)
  define d where "d = add_track X ftn c2"
  note m = add_track_moves [OF ok2 new, of X, folded d_def]
  have "unlisted d \<subseteq> insert (next_taddr c2) (unlisted c2)" by (auto simp: unlisted_def d_def tracks_def)
  then have u: "unlisted d \<subseteq> insert (next_taddr c2) (unlisted ?c)" using st by (auto simp: step_ok_def)
  have "world_ok (w\<lparr>the_cache := snd (new_subscribe_writeback (next_taddr c2) ftn d),
      subscribers := fst (new_subscribe_writeback (next_taddr c2) ftn d) # subscribers w\<rparr>)"
    by (rule subscribed_world [OF w _ moves_trans [OF ok step_okD(1) [OF st] m] _ u])
      (use m in \<open>simp_all add: moves_def d_def\<close>)
  then show ?thesis
    using None c2 by (auto simp: getSubscribeWriteback_def emplace_track_eq d_def prod_eq_iff)
qed

lemma subscribe_destroy_world:
  assumes w: "world_ok w" and i: "i < length (subscribers w)"
  shows "\<exists>c. subscribe_destroy (subscribers w ! i) (the_cache w) = Some c \<and>
    world_ok (w\<lparr>the_cache := c, subscribers := remove_nth i (subscribers w)\<rparr>)"
proof -
  let ?wb = "subscribers w ! i"
  note wk = world_okD [OF w]
  define L where "L = image_mset (\<lambda>wb. (sw_ftn wb, sw_track wb)) (mset (remove_nth i (subscribers w)))"
  have "lives w = add_mset (sw_ftn ?wb, sw_track ?wb) L"
    using remove_nth_mset [OF i] by (simp add: lives_def L_def)
  then have k: "counts_ok (the_cache w) (add_mset (sw_ftn ?wb, sw_track ?wb) L) (pins w)" using wk(2) by simp
  obtain c where c: "subscribe_destroy ?wb (the_cache w) = Some c" "cache_ok c" "counts_ok c L (pins w)"
    "unlisted c \<subseteq> unlisted (the_cache w)"
    "\<forall>s. fetchesInProgress (track_heap c s) = fetchesInProgress (track_heap (the_cache w) s)"
    "canEvict (track_heap c (sw_track ?wb)) \<longrightarrow> sw_track ?wb \<notin> unlisted c"
    by (rule subscribe_destroy_counts [OF wk(1) k])
  have live: "liveWritebackCount (track_heap (the_cache w) s) = liveWritebackCount (track_heap c s) + (if s = sw_track ?wb then 1 else 0)" for s
    by (rule counts_live [OF k c(3)])
  have "liveWritebackCount (track_heap c s) > 0" if s: "s \<in> unlisted c" for s
  proof (cases "s = sw_track ?wb")
    case True
    then show ?thesis using c(5,6) wk(3) s by (auto simp: canEvict_def)
  next
    case False
    moreover have "s \<in> unlisted (the_cache w)" using c(4) s by blast
    ultimately show ?thesis using live [of s] wk(4) [of s] by simp
  qed
  then show ?thesis using c wk(3) by (simp add: world_ok_def lives_def pins_def L_def)
qed

lemma subgroup_destroy_world:
  assumes w: "world_ok w" and i: "i < length (subgroups w)"
  shows "\<exists>c. subgroup_destroy (subgroups w ! i) (the_cache w) = Some c \<and>
    world_ok (w\<lparr>the_cache := c, subgroups := remove_nth i (subgroups w)\<rparr>)"
proof -
  let ?wb = "subgroups w ! i"
  note wk = world_okD [OF w]
  define P where "P = image_mset subgroup_pin (mset (remove_nth i (subgroups w)))"
  have "pins w = add_mset (gw_ftn ?wb, gw_track ?wb, gw_group ?wb, gw_gaddr ?wb) P"
    using remove_nth_mset [OF i] by (simp add: pins_def P_def subgroup_pin_def)
  then have k: "counts_ok (the_cache w) (lives w) (add_mset (gw_ftn ?wb, gw_track ?wb, gw_group ?wb, gw_gaddr ?wb) P)"
    using wk(2) by simp
  obtain c where c: "unpinGroup (gw_ftn ?wb) (gw_group ?wb) (gw_gaddr ?wb) (gw_track ?wb) (the_cache w) = Some c"
    "cache_ok c" "counts_ok c (lives w) P" "repins (gw_gaddr ?wb) (pinCount (group_heap (the_cache w) (gw_gaddr ?wb)) - 1) (the_cache w) c"
    by (rule unpin_counts [OF wk(1) k])
  show ?thesis
    using c(1-3) wk(3,4) repins_fields [OF c(4)]
    by (simp add: subgroup_destroy_def world_ok_def lives_def pins_def P_def)
qed

lemma beginSubgroup_world:
  assumes w: "world_ok w" and m: "wb \<in> set (subscribers w)"
  shows "\<exists>sg c out. subscribe_beginSubgroup X wb grp sub accepted (the_cache w) = Some (sg, c, out) \<and>
    world_ok (w\<lparr>the_cache := c, subgroups := (case sg of None \<Rightarrow> [] | Some s \<Rightarrow> [s]) @ subgroups w\<rparr>)"
proof (cases "isGroupNonExistent X (gaps (track_heap (the_cache w) (sw_track wb))) grp \<or>
    \<not> (accepted \<and> \<not> shouldSkipCaching (track_heap (the_cache w) (sw_track wb)))")
  case True
  have "world_ok (w\<lparr>the_cache := the_cache w, subgroups := subgroups w\<rparr>)" using w by simp
  then show ?thesis using True by (auto simp: subscribe_beginSubgroup_def)
next
  case False
  let ?c = "the_cache w" and ?t = "sw_track wb" and ?f = "sw_ftn wb"
  note wk = world_okD [OF w]
  have ft: "(?f, ?t) \<in> set (cache ?c)" using subscriber_track [OF w m] False by (simp add: shouldSkipCaching_def)
  obtain c1 g where c1: "getOrCreateGroupWithEviction X ?f ?t grp ?c = Some (c1, g)" "step_ok ?c c1" "held c1 ?t grp g" "cache c1 = cache ?c"
    by (rule getOrCreateGroupWithEviction_step [OF wk(1) ft])
  have w1: "world_ok (w\<lparr>the_cache := c1\<rparr>)" by (rule quiet_cache [OF w c1(2)])
  note ok1 = step_okD(2) [OF c1(2)]
  have a: "?t < next_taddr c1" "g < next_gaddr c1" "?t \<in> tracks c1" by (rule sound_addresses [OF cache_okD(1) [OF ok1] c1(3)])+
  have "pin_ok c1 (?f, ?t, grp, g)" using a c1(3,4) ft by (simp add: pin_ok_def name_ok_def)
  note p = pin_counts [OF ok1 world_okD(2) [OF w1, simplified] this a(3)]
  have "world_ok (w\<lparr>the_cache := pinGroup g ?t c1, subgroups := fst (new_subgroup_writeback grp sub ?t g ?f c1) # subgroups w\<rparr>)"
    using p(1,2) world_okD(3,4) [OF w1] repins_fields [OF p(3)]
    by (simp add: world_ok_def lives_def pins_def new_subgroup_writeback_def subgroup_pin_def)
  then show ?thesis using False c1(1) by (auto simp: subscribe_beginSubgroup_def new_subgroup_writeback_def)
qed

lemma perform_world:
  assumes w: "world_ok w" and k: "call_ok k"
  shows "\<exists>w'. perform X k w = Some w' \<and> world_ok w'"
proof (cases k)
  case (Subscribe ftn)
  then show ?thesis using getSubscribeWriteback_world [OF w, of X ftn] by auto
next
  case (Unsubscribe i)
  then show ?thesis using subscribe_destroy_world [OF w, of i] w by (auto simp: on_subscriber_def)
next
  case (BeginSubgroup i grp sub accepted)
  then show ?thesis
    using beginSubgroup_world [OF w nth_mem, of i X grp sub accepted] w by (auto simp: on_subscriber_def)
next
  case (WriteObject d i h pl now)
  show ?thesis
  proof (cases "i < length (subscribers w)")
    case True
    obtain c out where "subscribe_write X d (subscribers w ! i) h pl now (the_cache w) = Some (c, out)" "step_ok (the_cache w) c"
      by (rule subscribe_write_step [OF w nth_mem [OF True]])
    then show ?thesis using WriteObject True quiet_cache [OF w] by (simp add: on_subscriber_def)
  qed (use WriteObject w in \<open>simp add: on_subscriber_def\<close>)
next
  case (SubgroupObject i oid pl ext fin now)
  then show ?thesis
    using subgroup_steps(1) [OF w nth_mem, of i X oid pl ext fin now] quiet_cache [OF w] w by (auto simp: on_subgroup_def)
next
  case (SubgroupBegin i oid len initial ext now)
  then have l: "payload_size initial \<le> len" using k by (simp add: call_ok_def)
  show ?thesis
    using SubgroupBegin subgroup_beginObject_step [OF w nth_mem l, of i X oid ext now] w
    by (auto simp: on_subgroup_def intro!: quiet_world [OF w] map_update_same)
next
  case (SubgroupPayload i bs fin now)
  then show ?thesis
    using subgroup_objectPayload_step [OF w nth_mem, of i X bs fin now] w
    by (auto simp: on_subgroup_def intro!: quiet_world [OF w] map_update_same)
next
  case (SubgroupEndOfGroup i oid now)
  then show ?thesis
    using subgroup_steps(2) [OF w nth_mem, of i X oid now] quiet_cache [OF w] w by (auto simp: on_subgroup_def)
next
  case (SubgroupEndOfTrack i oid now)
  then show ?thesis
    using subgroup_steps(3) [OF w nth_mem, of i X oid now] quiet_cache [OF w] w by (auto simp: on_subgroup_def)
next
  case (CloseSubgroup i)
  then show ?thesis using subgroup_destroy_world [OF w, of i] w by (auto simp: on_subgroup_def)
next
  case (PurgeTrack ftn)
  then show ?thesis using purge_steps(1) [OF world_okD(1) [OF w], of X ftn] quiet_cache [OF w] by auto
next
  case (PurgeNamespace ns)
  then show ?thesis using purge_steps(2) [OF world_okD(1) [OF w], of X ns] quiet_cache [OF w] by auto
next
  case PurgeAll
  then show ?thesis using purge_steps(3) [OF world_okD(1) [OF w], of X] quiet_cache [OF w] by auto
next
  case (LookUp ftn l now)
  then show ?thesis using quiet_cache [OF w hasCachedObject_step [OF world_okD(1) [OF w]]] by simp
next
  case (SetTrackState ftn largest ext)
  then show ?thesis using quiet_cache [OF w setTrackState_step [OF world_okD(1) [OF w]]] by simp
qed

lemma new_world_ok: "world_ok (new_world (new_cache X a b d e))"
  by (simp add: world_ok_def new_world_def new_cache_def cache_ok_def sound_def store_ok_def names_ok_def groups_ok_def
      track_lru_ok_def group_lru_ok_def lists_ok_def bytes_ok_def objects_ok_def flags_ok_def fresh_ok_def counts_ok_def
      tracks_def held_groups_def held_def owns_def lives_def pins_def unlisted_def new_track_def new_group_def)

lemma perform_all_world:
  assumes "world_ok w" and "\<forall>k\<in>set ks. call_ok k"
  shows "\<exists>w'. perform_all X ks w = Some w' \<and> world_ok w'"
  using assms
proof (induction ks arbitrary: w)
  case (Cons k ks)
  obtain w1 where "perform X k w = Some w1" "world_ok w1" using perform_world [OF Cons.prems(1), of k X] Cons.prems(2) by auto
  then show ?case using Cons.IH [of w1] Cons.prems(2) by simp
qed simp

section \<open>What holds after every history\<close>

lemma world_bytes:
  assumes "world_ok w"
  shows "totalCachedBytes (the_cache w) =
    (\<Sum>g\<in>held_groups (the_cache w). \<Sum>(k, e)\<leftarrow>objects (group_heap (the_cache w) g). payload_size (entry_payload e))"
proof -
  let ?c = "the_cache w"
  have b: "bytes_ok ?c" using soundD(2) [OF cache_okD(1) [OF world_okD(1) [OF assms]]] .
  have "totalBytes (group_heap ?c g) = (\<Sum>(k, e)\<leftarrow>objects (group_heap ?c g). payload_size (entry_payload e))" for g
  proof -
    have o: "objects_ok (group_heap ?c g)" using b by (simp add: bytes_ok_def)
    then have "map (\<lambda>(k, e). payloadSize e) (objects (group_heap ?c g)) =
        map (\<lambda>(k, e). payload_size (entry_payload e)) (objects (group_heap ?c g))"
      by (auto simp: objects_ok_def)
    then show ?thesis using o unfolding objects_ok_def by metis
  qed
  then show ?thesis using b by (simp add: bytes_ok_def)
qed

lemma size_filter_image: "size (filter_mset P (image_mset f (mset xs))) = length (filter (\<lambda>x. P (f x)) xs)"
  by (induction xs) auto

lemma world_counts:
  assumes "world_ok w"
  shows "pinCount (group_heap (the_cache w) g) = length (filter (\<lambda>s. gw_gaddr s = g) (subgroups w))"
    and "liveWritebackCount (track_heap (the_cache w) t) = length (filter (\<lambda>s. sw_track s = t) (subscribers w))"
  using world_okD(2) [OF assms]
  by (simp_all add: counts_ok_def pins_def lives_def size_filter_image subgroup_pin_def case_prod_beta)

lemma world_orders:
  assumes "world_ok w" and ft: "(f, t) \<in> set (cache (the_cache w))"
  shows "(t, f) \<in> set (trackLRU (the_cache w)) \<longleftrightarrow> t \<notin> sw_track ` set (subscribers w)"
    and "owns (the_cache w) t k g \<Longrightarrow> (g, f, k) \<in> set (globalGroupLRU (the_cache w)) \<longleftrightarrow> g \<notin> gw_gaddr ` set (subgroups w)"
proof -
  let ?c = "the_cache w"
  note ok = world_okD [OF assms(1)]
  note s = cache_okD(1) [OF ok(1)]
  have z: "length (filter P xs) = 0 \<longleftrightarrow> (\<forall>x\<in>set xs. \<not> P x)" for P and xs :: "'x list" by (simp add: filter_empty_conv)
  have t: "t \<in> tracks ?c" using ft by (auto simp: tracks_iff)
  have "t \<in> unlisted ?c \<longrightarrow> liveWritebackCount (track_heap ?c t) > 0" using world_okD(4) [OF assms(1)] by blast
  then have "track_in_lru (track_heap ?c t) \<longleftrightarrow> liveWritebackCount (track_heap ?c t) = 0"
    using soundD(5) [OF s] t by (auto simp: unlisted_def track_lru_ok_def canEvict_def)
  then show "(t, f) \<in> set (trackLRU ?c) \<longleftrightarrow> t \<notin> sw_track ` set (subscribers w)"
    using soundD(5) [OF s] ft world_counts(2) [OF assms(1), of t] by (auto simp: track_lru_ok_def filter_empty_conv)
  assume "owns ?c t k g"
  then have h: "held ?c t k g" using t by (simp add: held_def)
  have "(g, f, k) \<in> set (globalGroupLRU ?c) \<longleftrightarrow> group_in_lru (group_heap ?c g)"
    using sound_lists(2) [OF s] h ft by auto
  also have "\<dots> \<longleftrightarrow> pinCount (group_heap ?c g) = 0" using sound_lists(5) [OF s heldI [OF h]] by simp
  also have "\<dots> \<longleftrightarrow> g \<notin> gw_gaddr ` set (subgroups w)"
    unfolding world_counts(1) [OF assms(1)] by (auto simp: filter_empty_conv)
  finally show "(g, f, k) \<in> set (globalGroupLRU ?c) \<longleftrightarrow> g \<notin> gw_gaddr ` set (subgroups w)" .
qed

text \<open>C5. No history of calls on the cache, its subscription filters and its subgroup filters aborts,
whatever the order of the calls and the limits of the cache, as long as no object starts with more
payload than its length. After it the byte count of the cache is the sum of the payloads it holds,
every group is pinned as often as subgroup filters write to it, and every track counts the
subscriptions that feed it.\<close>

theorem subscription_histories_count:
  assumes "\<forall>k\<in>set ks. call_ok k"
  shows "\<exists>w. perform_all X ks (new_world (new_cache X maxTracks maxGroups maxBytes minEviction)) = Some w \<and>
    totalCachedBytes (the_cache w) =
      (\<Sum>g\<in>held_groups (the_cache w).
         \<Sum>(k, e)\<leftarrow>objects (group_heap (the_cache w) g). payload_size (entry_payload e)) \<and>
    (\<forall>g. pinCount (group_heap (the_cache w) g) = length (filter (\<lambda>s. gw_gaddr s = g) (subgroups w))) \<and>
    (\<forall>t. liveWritebackCount (track_heap (the_cache w) t) = length (filter (\<lambda>s. sw_track s = t) (subscribers w)))"
proof -
  obtain w where w: "perform_all X ks (new_world (new_cache X maxTracks maxGroups maxBytes minEviction)) = Some w"
    and ok: "world_ok w"
    using perform_all_world [OF new_world_ok assms] by blast
  show ?thesis using w world_bytes [OF ok] world_counts [OF ok] by blast
qed

theorem subscription_histories_count_witness:
  "(\<exists>w. perform_all (small_moxygen 3)
        [Subscribe \<lparr>trackNamespace = [''a''], trackName = ''t''\<rparr>, BeginSubgroup 0 1 0 True,
         SubgroupBegin 0 2 3 (Some ''ab'') (None, None, None) 5, SubgroupPayload 0 ''c'' False 6]
        (new_world (new_cache (small_moxygen 3) 10 10 0 0)) = Some w \<and>
      totalCachedBytes (the_cache w) =
        (\<Sum>g\<in>held_groups (the_cache w).
           \<Sum>(k, e)\<leftarrow>objects (group_heap (the_cache w) g). payload_size (entry_payload e)) \<and>
      (\<forall>g. pinCount (group_heap (the_cache w) g) = length (filter (\<lambda>s. gw_gaddr s = g) (subgroups w))) \<and>
      (\<forall>t. liveWritebackCount (track_heap (the_cache w) t) = length (filter (\<lambda>s. sw_track s = t) (subscribers w)))) \<and>
   map_option (\<lambda>w. totalCachedBytes (the_cache w)) (perform_all (small_moxygen 3)
        [Subscribe \<lparr>trackNamespace = [''a''], trackName = ''t''\<rparr>, BeginSubgroup 0 1 0 True,
         SubgroupBegin 0 2 3 (Some ''ab'') (None, None, None) 5, SubgroupPayload 0 ''c'' False 6]
        (new_world (new_cache (small_moxygen 3) 10 10 0 0))) = Some 3"
  by (rule conjI, rule subscription_histories_count, simp add: call_ok_def payload_size_def) code_simp



end
