(* ===== verification/Cache_Reads.thy ===== *)
theory Cache_Reads
  imports Cache_World
begin

text \<open>
  Reading the cache: the bound on the gaps a track remembers, the cursor's search past gaps, and
  writes that are refused.
\<close>

section \<open>Gaps\<close>

lemma popFront_law:
  assumes "interval_laws X" and "popFront X s = Some ((a, b), s')"
  shows "iv_size X s = Suc (iv_size X s')"
    and "valid_loc X l \<Longrightarrow> iv_contains X s' l = (iv_contains X s l \<and> \<not> (a \<le> l \<and> l \<le> b))"
proof -
  have "case popFront X s of None \<Rightarrow> True | Some ((a, b), s') \<Rightarrow> iv_size X s = Suc (iv_size X s') \<and>
      (\<forall>l. valid_loc X l \<longrightarrow> iv_contains X s' l = (iv_contains X s l \<and> \<not> (a \<le> l \<and> l \<le> b)))"
    using assms(1) unfolding interval_laws_def by blast
  then have "iv_size X s = Suc (iv_size X s') \<and>
      (\<forall>l. valid_loc X l \<longrightarrow> iv_contains X s' l = (iv_contains X s l \<and> \<not> (a \<le> l \<and> l \<le> b)))"
    unfolding assms(2) by simp
  then show "iv_size X s = Suc (iv_size X s')"
    and "valid_loc X l \<Longrightarrow> iv_contains X s' l = (iv_contains X s l \<and> \<not> (a \<le> l \<and> l \<le> b))" by blast+
qed

lemma popFront_some: "interval_laws X \<Longrightarrow> iv_size X s > 0 \<Longrightarrow> \<exists>i s'. popFront X s = Some (i, s')"
  by (cases "popFront X s") (auto simp: interval_laws_def)

lemma gap_loop_bound:
  assumes "interval_laws X" and "iv_size X (gaps T) \<le> n"
  shows "iv_size X (gaps (gap_loop X n T)) \<le> kMaxGapIntervalsPerTrack"
  using assms(2)
proof (induction n arbitrary: T)
  case 0
  then show ?case by simp
next
  case (Suc n)
  show ?case
  proof (cases "iv_size X (gaps T) > kMaxGapIntervalsPerTrack")
    case True
    then obtain a b s' where p: "popFront X (gaps T) = Some ((a, b), s')"
      using popFront_some [OF assms(1), of "gaps T"] by auto
    have "iv_size X s' \<le> n" using popFront_law(1) [OF assms(1) p] Suc.prems by simp
    then show ?thesis using True p Suc.IH [of "T\<lparr>gaps := s', cachedContent := iv_remove X a b (cachedContent T)\<rparr>"] by simp
  qed simp
qed

lemma enforceGapLimit_bound:
  "interval_laws X \<Longrightarrow> iv_size X (gaps (enforceGapLimit X T)) \<le> kMaxGapIntervalsPerTrack"
  by (simp add: enforceGapLimit_def gap_loop_bound)

text \<open>Dropping gaps only forgets: what is left was a gap before, and nothing leaves while the bound is kept.\<close>

lemma gap_loop_subset:
  assumes X: "interval_laws X" and l: "valid_loc X l" and c: "iv_contains X (gaps (gap_loop X n T)) l"
  shows "iv_contains X (gaps T) l"
  using c
proof (induction n arbitrary: T)
  case (Suc n)
  show ?case
  proof (cases "iv_size X (gaps T) > kMaxGapIntervalsPerTrack")
    case True
    then obtain a b s' where p: "popFront X (gaps T) = Some ((a, b), s')"
      using popFront_some [OF X, of "gaps T"] by auto
    have "iv_contains X s' l"
      using Suc.prems Suc.IH [of "T\<lparr>gaps := s', cachedContent := iv_remove X a b (cachedContent T)\<rparr>"] True p by simp
    then show ?thesis using popFront_law(2) [OF X p l] by blast
  qed (use Suc.prems in simp)
qed simp

lemma gap_loop_idle: "iv_size X (gaps T) \<le> kMaxGapIntervalsPerTrack \<Longrightarrow> gap_loop X n T = T"
  by (cases n) auto

section \<open>The search past gaps\<close>

definition locs_after :: "('e, 's) moxygen \<Rightarrow> location \<Rightarrow> location set" where
  "locs_after X l = {x. valid_loc X x \<and> l < x}"

lemma finite_locs_after [simp]: "finite (locs_after X l)"
proof -
  have "locs_after X l \<subseteq> {..max_group X} \<times> {..max_object X}" by (auto simp: locs_after_def valid_loc_def)
  then show ?thesis by (rule finite_subset) simp
qed

lemma locs_after_less: "l < m \<Longrightarrow> valid_loc X m \<Longrightarrow> card (locs_after X m) < card (locs_after X l)"
  by (rule psubset_card_mono [OF finite_locs_after]) (auto simp: locs_after_def)

lemma loc_next_succ:
  assumes "location_laws X" and "valid_loc X l" and "loc_next X l = Some m"
  shows "l < m" "valid_loc X m" "valid_loc X x \<Longrightarrow> x < m \<Longrightarrow> x \<le> l"
proof -
  obtain g ob where l: "l = (g, ob)" by (rule prod.exhaust)
  have v: "g \<le> max_group X" "ob \<le> max_object X" using assms(2) by (simp_all add: l valid_loc_def)
  have m: "m = (if ob < max_object X then (g, ob + 1) else (g + 1, 0))" and w: "ob < max_object X \<or> g < max_group X"
    using location_steps(6) [OF assms(1) v] assms(3) by (auto simp: l split: if_splits)
  show "l < m" using m by (auto simp: l)
  show "valid_loc X m" using m v w by (auto simp: valid_loc_def)
  show "x \<le> l" if "valid_loc X x" "x < m"
  proof (cases x)
    case (Pair a b)
    then show ?thesis using that m v by (auto simp: l valid_loc_def split: if_splits)
  qed
qed

lemma findInterval_gap:
  assumes "interval_laws X" and "valid_loc X l" and "iv_contains X s l"
  obtains a b where "findInterval X s l = Some (a, b)" "valid_loc X b" "a \<le> l" "l \<le> b"
    "\<And>x. valid_loc X x \<Longrightarrow> a \<le> x \<Longrightarrow> x \<le> b \<Longrightarrow> iv_contains X s x"
proof -
  have "\<forall>s l. valid_loc X l \<longrightarrow> (case findInterval X s l of None \<Rightarrow> \<not> iv_contains X s l
     | Some (a, b) \<Rightarrow> valid_loc X a \<and> valid_loc X b \<and> a \<le> l \<and> l \<le> b \<and>
         (\<forall>x. valid_loc X x \<and> a \<le> x \<and> x \<le> b \<longrightarrow> iv_contains X s x))"
    using assms(1) unfolding interval_laws_def by blast
  then have c: "case findInterval X s l of None \<Rightarrow> \<not> iv_contains X s l
     | Some (a, b) \<Rightarrow> valid_loc X a \<and> valid_loc X b \<and> a \<le> l \<and> l \<le> b \<and>
         (\<forall>x. valid_loc X x \<and> a \<le> x \<and> x \<le> b \<longrightarrow> iv_contains X s x)"
    using assms(2) by blast
  show thesis
  proof (cases "findInterval X s l")
    case None
    then show ?thesis using c assms(3) by simp
  next
    case (Some i)
    then show ?thesis using c that by (cases i) auto
  qed
qed

lemma skipGaps_ascending:
  assumes X: "location_laws X" "interval_laws X" and asc: "it_order it \<noteq> NewestFirst"
    and v: "valid_loc X (it_current it)" "valid_loc X (it_end it)" "it_current it \<le> it_end it"
  shows "\<exists>l. skipGaps X c it = Some (it\<lparr>it_current := l\<rparr>) \<and> it_current it \<le> l \<and> l \<le> it_end it \<and>
    (\<forall>x. valid_loc X x \<and> it_current it \<le> x \<and> x < l \<and> it_valid it \<longrightarrow> iv_contains X (gaps (track_heap c (it_track it))) x) \<and>
    (l = it_end it \<or> \<not> it_valid it \<or> \<not> iv_contains X (gaps (track_heap c (it_track it))) l)"
  using asc v
proof (induction "card (locs_after X (it_current it))" arbitrary: it rule: less_induct)
  case less
  let ?g = "gaps (track_heap c (it_track it))" and ?l = "it_current it"
  show ?case
  proof (cases "it_valid it \<and> iv_contains X ?g ?l")
    case False
    then have "skipGaps X c it = Some it" unfolding skipGaps.simps [of X c it] by (rule if_not_P)
    then show ?thesis using False less.prems(4) by (intro exI [of _ ?l]) auto
  next
    case True
    obtain a b where ab: "findInterval X ?g ?l = Some (a, b)" "valid_loc X b" "a \<le> ?l" "?l \<le> b"
      "\<And>x. valid_loc X x \<Longrightarrow> a \<le> x \<Longrightarrow> x \<le> b \<Longrightarrow> iv_contains X ?g x"
      using findInterval_gap [OF X(2) less.prems(2), of ?g] True by blast
    show ?thesis
    proof (cases "\<exists>m. loc_next X b = Some m \<and> m < it_end it")
      case False
      have s: "skipGaps X c it = Some (it\<lparr>it_current := it_end it\<rparr>)"
        using True ab(1) less.prems(1) False by (subst skipGaps.simps) (auto split: option.split)
      have "x \<le> b" if x: "valid_loc X x" "x < it_end it" for x
      proof (cases "loc_next X b")
        case None
        then have "b = kLocationMax X" using X(1) ab(2)
          by (cases b) (auto simp: location_laws_def valid_loc_def prod_eq_iff split: if_splits)
        then show ?thesis using x(1) by (cases x) (auto simp: valid_loc_def less_eq_prod_def)
      next
        case (Some m)
        then have "x < m" using False x(2) by auto
        then show ?thesis using loc_next_succ(3) [OF X(1) ab(2) Some x(1)] by blast
      qed
      then have "iv_contains X ?g x" if "valid_loc X x" "?l \<le> x" "x < it_end it" for x
        using ab(3,5) that by (meson order_trans)
      then show ?thesis using s less.prems(4) by (intro exI [of _ "it_end it"]) auto
    next
      case True2: True
      then obtain m where m: "loc_next X b = Some m" "m < it_end it" by blast
      note n = loc_next_succ [OF X(1) ab(2) m(1)]
      have lm: "?l < m" using ab(4) n(1) by (rule order_le_less_trans)
      let ?it = "it\<lparr>it_current := m\<rparr>"
      have s: "skipGaps X c it = skipGaps X c ?it"
        using True ab(1) less.prems(1) m by (subst skipGaps.simps) simp
      have cd: "card (locs_after X (it_current ?it)) < card (locs_after X ?l)" using locs_after_less [OF lm n(2)] by simp
      have p: "it_order ?it \<noteq> NewestFirst" "valid_loc X (it_current ?it)" "valid_loc X (it_end ?it)" "it_current ?it \<le> it_end ?it"
        using less.prems m(2) n(2) by simp_all
      obtain l where l: "skipGaps X c ?it = Some (?it\<lparr>it_current := l\<rparr>)" "m \<le> l" "l \<le> it_end it"
        "\<forall>x. valid_loc X x \<and> m \<le> x \<and> x < l \<and> it_valid it \<longrightarrow> iv_contains X ?g x"
        "l = it_end it \<or> \<not> it_valid it \<or> \<not> iv_contains X ?g l"
        using less.hyps [OF cd p] that by (elim exE conjE) simp
      have "iv_contains X ?g x" if x: "valid_loc X x" "?l \<le> x" "x < l" for x
      proof (cases "m \<le> x")
        case True
        then show ?thesis using l(4) x True2 \<open>it_valid it \<and> iv_contains X ?g ?l\<close> by blast
      next
        case False
        then have "x \<le> b" using n(3) x(1) by (simp add: not_le)
        then show ?thesis using ab(3,5) x by (meson order_trans)
      qed
      then show ?thesis using s l lm by (intro exI [of _ l]) auto
    qed
  qed
qed

section \<open>Writes\<close>

lemma annotates_views:
  assumes "annotates g c c'"
  shows "objects (group_heap c' x) = objects (group_heap c x)" "totalBytes (group_heap c' x) = totalBytes (group_heap c x)"
    "totalCachedBytes c' = totalCachedBytes c" "cache c' = cache c" "trackLRU c' = trackLRU c" "globalGroupLRU c' = globalGroupLRU c"
proof -
  have e: "edits g c c'" using assms by (simp add: annotates_def)
  show "objects (group_heap c' x) = objects (group_heap c x)" "totalBytes (group_heap c' x) = totalBytes (group_heap c x)"
    using assms e by (cases "x = g", simp_all add: annotates_def edits_def)+
  show "totalCachedBytes c' = totalCachedBytes c" "cache c' = cache c" "trackLRU c' = trackLRU c" "globalGroupLRU c' = globalGroupLRU c"
    using e by (simp_all add: edits_def same_store_def)
qed

lemma world_write:
  assumes "world_ok w" and "(f, t) \<in> set (cache (the_cache w))" and "(gid, g) \<in> set (groups (track_heap (the_cache w) t))"
  obtains c' err where "cacheObjectAndUpdateBytes X g t gid q (the_cache w) = Some (c', err)"
    "err \<noteq> None \<longrightarrow> annotates g (the_cache w) c'"
    "err = None \<longrightarrow> maxCachedBytes (the_cache w) = 0 \<or> totalCachedBytes c' \<le> maxCachedBytes (the_cache w) \<or>
       (\<forall>n\<in>set (globalGroupLRU c'). at_join_point c' n)"
proof -
  have h: "held (the_cache w) t gid g" using assms(2,3) by (auto simp: held_def owns_def tracks_iff)
  show thesis
    by (rule cacheObjectAndUpdateBytes_outcome [OF world_okD(1) [OF assms(1)] h]) (rule that)
qed

text \<open>C13. After every history of the cache a write to a group of a cached track returns. When it is
refused, no object, no byte count and no order of eviction differs from before, in any group. When it
succeeds, the cache holds no more bytes than its limit, or every group it could still evict is the
point where new subscribers join a track that is being fed.\<close>

theorem write_outcome:
  assumes "\<forall>k\<in>set ks. call_ok k"
    and "perform_all X ks (new_world (new_cache X maxTracks maxGroups maxBytes minEviction)) = Some w"
    and "(f, t) \<in> set (cache (the_cache w))" and "(gid, g) \<in> set (groups (track_heap (the_cache w) t))"
  shows "\<exists>c' err. cacheObjectAndUpdateBytes X g t gid q (the_cache w) = Some (c', err) \<and>
    (case err of
       Some e \<Rightarrow> totalCachedBytes c' = totalCachedBytes (the_cache w) \<and> cache c' = cache (the_cache w) \<and>
         trackLRU c' = trackLRU (the_cache w) \<and> globalGroupLRU c' = globalGroupLRU (the_cache w) \<and>
         (\<forall>x. objects (group_heap c' x) = objects (group_heap (the_cache w) x))
     | None \<Rightarrow> maxCachedBytes (the_cache w) = 0 \<or> totalCachedBytes c' \<le> maxCachedBytes (the_cache w) \<or>
         (\<forall>(h, n, k)\<in>set (globalGroupLRU c'). \<exists>u. (n, u) \<in> set (cache c') \<and> isJoinPoint (track_heap c' u) k))"
proof -
  have "\<exists>v. perform_all X ks (new_world (new_cache X maxTracks maxGroups maxBytes minEviction)) = Some v \<and> world_ok v"
    by (rule perform_all_world [OF new_world_ok assms(1)])
  then have ok: "world_ok w" using assms(2) by simp
  obtain c' err where c': "cacheObjectAndUpdateBytes X g t gid q (the_cache w) = Some (c', err)"
    "err \<noteq> None \<longrightarrow> annotates g (the_cache w) c'"
    "err = None \<longrightarrow> maxCachedBytes (the_cache w) = 0 \<or> totalCachedBytes c' \<le> maxCachedBytes (the_cache w) \<or>
       (\<forall>n\<in>set (globalGroupLRU c'). at_join_point c' n)"
    by (rule world_write [OF ok assms(3,4)])
  show ?thesis
  proof (cases err)
    case None
    then show ?thesis using c'(1,3) by (auto simp: at_join_point_def split: prod.split)
  next
    case (Some e)
    then have "annotates g (the_cache w) c'" using c'(2) by simp
    from annotates_views [OF this] show ?thesis using c'(1) Some by auto
  qed
qed

definition demo_calls :: "(u64 option \<times> u64 option \<times> u64 option) call list" where
  "demo_calls =
     [Subscribe \<lparr>trackNamespace = [''a''], trackName = ''t''\<rparr>, BeginSubgroup 0 1 0 True,
      SubgroupObject 0 0 (Some ''ab'') (None, None, None) False 5,
      SubgroupObject 0 3 (Some ''cd'') (None, Some 2, None) False 6]"

definition demo_cache :: "(u64 option \<times> u64 option \<times> u64 option, location list) moqx_cache" where
  "demo_cache = the_cache (the (perform_all (small_moxygen 3) demo_calls (new_world (new_cache (small_moxygen 3) 10 10 0 0))))"

definition demo_write :: "object_status \<Rightarrow> (u64 option \<times> u64 option \<times> u64 option) write_request" where
  "demo_write st = \<lparr>w_subgroup = 0, w_object = 0, w_status = st, w_extensions = (None, None, None),
     w_payload = Some ''ab'', w_complete = True, w_datagram = False, w_now = 7, w_offset = 0\<rparr>"

theorem write_outcome_witness:
  "\<exists>c' err. cacheObjectAndUpdateBytes (small_moxygen 3) 0 0 1 (demo_write END_OF_GROUP) demo_cache = Some (c', err) \<and>
    (case err of
       Some e \<Rightarrow> totalCachedBytes c' = totalCachedBytes demo_cache \<and> cache c' = cache demo_cache \<and>
         trackLRU c' = trackLRU demo_cache \<and> globalGroupLRU c' = globalGroupLRU demo_cache \<and>
         (\<forall>x. objects (group_heap c' x) = objects (group_heap demo_cache x))
     | None \<Rightarrow> maxCachedBytes demo_cache = 0 \<or> totalCachedBytes c' \<le> maxCachedBytes demo_cache \<or>
         (\<forall>(h, n, k)\<in>set (globalGroupLRU c'). \<exists>u. (n, u) \<in> set (cache c') \<and> isJoinPoint (track_heap c' u) k))"
proof -
  let ?w = "the (perform_all (small_moxygen 3) demo_calls (new_world (new_cache (small_moxygen 3) 10 10 0 0)))"
  have c: "\<forall>k\<in>set demo_calls. call_ok k" by (simp add: demo_calls_def call_ok_def)
  have "perform_all (small_moxygen 3) demo_calls (new_world (new_cache (small_moxygen 3) 10 10 0 0)) \<noteq> None"
    by code_simp
  then have p: "perform_all (small_moxygen 3) demo_calls (new_world (new_cache (small_moxygen 3) 10 10 0 0)) = Some ?w" by simp
  have m: "(\<lparr>trackNamespace = [''a''], trackName = ''t''\<rparr>, 0) \<in> set (cache (the_cache ?w))" by code_simp
  have g: "(1, 0) \<in> set (groups (track_heap (the_cache ?w) 0))" by code_simp
  show ?thesis using write_outcome [OF c p m g] unfolding demo_cache_def .
qed

text \<open>C14. Skipping gaps in ascending order always ends. The cursor stops at the first position that is not
a known gap, or at the end of its range, and every position it passes is a gap.\<close>

theorem gap_skip_returns:
  assumes "location_laws X" and "interval_laws X" and "it_order it \<noteq> NewestFirst"
    and "valid_loc X (it_current it)" and "valid_loc X (it_end it)" and "it_current it \<le> it_end it"
  shows "\<exists>l. skipGaps X c it = Some (it\<lparr>it_current := l\<rparr>) \<and> it_current it \<le> l \<and> l \<le> it_end it \<and>
    (\<forall>x. valid_loc X x \<and> it_current it \<le> x \<and> x < l \<and> it_valid it \<longrightarrow> iv_contains X (gaps (track_heap c (it_track it))) x) \<and>
    (l = it_end it \<or> \<not> it_valid it \<or> \<not> iv_contains X (gaps (track_heap c (it_track it))) l)"
  by (rule skipGaps_ascending [OF assms])

definition demo_iterator :: "location \<Rightarrow> location \<Rightarrow> location \<Rightarrow> group_order \<Rightarrow> fetch_iterator" where
  "demo_iterator lo hi cur order =
     \<lparr>minLocation = lo, maxLocation = hi, it_order = order, it_track = 0, it_current = cur, it_end = hi, it_valid = True,
      cachedGroupId = 3, cachedGroupPtr = None, cachedEndGroupId = 3, cachedEndGroupPtr = None\<rparr>"

theorem gap_skip_returns_witness:
  "(\<exists>l. skipGaps (small_moxygen 3) demo_cache (demo_iterator (1, 0) (2, 0) (1, 1) OldestFirst) =
        Some (demo_iterator (1, 0) (2, 0) l OldestFirst) \<and> (1, 1) \<le> l \<and> l \<le> (2, 0)) \<and>
   map_option it_current (skipGaps (small_moxygen 3) demo_cache (demo_iterator (1, 0) (2, 0) (1, 1) OldestFirst)) = Some (1, 3)"
proof (rule conjI)
  show "\<exists>l. skipGaps (small_moxygen 3) demo_cache (demo_iterator (1, 0) (2, 0) (1, 1) OldestFirst) =
        Some (demo_iterator (1, 0) (2, 0) l OldestFirst) \<and> (1, 1) \<le> l \<and> l \<le> (2, 0)"
    using gap_skip_returns [OF small_location_laws small_interval_laws,
        of 3 "demo_iterator (1, 0) (2, 0) (1, 1) OldestFirst" demo_cache]
    by (auto simp: u64_max_def valid_loc_def small_moxygen_def demo_iterator_def less_eq_prod_def)
qed code_simp

section \<open>Objects the descending cursor loses, and ranges it leaves\<close>

text \<open>In descending order the objects of a group are visited upwards. A gap inside the current group
sends the cursor to the group below, so the objects after the gap are not visited although they are
cached.\<close>

lemma descending_gap_loses_objects:
  "map_option it_current (Option.bind (new_iterator (small_moxygen 3) (0, 0) (2, 0) NewestFirst 0 demo_cache)
     (it_next (small_moxygen 3) demo_cache)) = Some (0, 0) \<and>
   iv_contains (small_moxygen 3) (cachedContent (track_heap demo_cache 0)) (1, 3) \<and>
   \<not> iv_contains (small_moxygen 3) (gaps (track_heap demo_cache 0)) (1, 3)"
  by code_simp

text \<open>The search for the next cached position in descending order does not look at the end of the range:
with object 3 of group 1 cached, a fetch that ends before object 2 of that group is led to object 3.\<close>

lemma descending_leaves_range:
  "map_option (\<lambda>w. map_option it_current (Option.bind
        (new_iterator (small_moxygen 3) (0, 0) (1, 2) NewestFirst 0 (the_cache w)) (skipUncached (small_moxygen 3) (the_cache w))))
     (perform_all (small_moxygen 3)
        [Subscribe \<lparr>trackNamespace = [''a''], trackName = ''t''\<rparr>, BeginSubgroup 0 1 0 True,
         SubgroupObject 0 3 (Some ''cd'') (None, None, None) False 6]
        (new_world (new_cache (small_moxygen 3) 10 10 0 0))) = Some (Some (1, 3))"
  by code_simp

text \<open>The end of a group is recorded before the write is checked. A second copy of object 0 that claims
to end the group is refused, and yet the cached object 3 has become part of a gap.\<close>

lemma refused_end_marks_gap:
  "(case cacheObjectAndUpdateBytes (small_moxygen 3) 0 0 1 (demo_write END_OF_GROUP) demo_cache of
      Some (c', err) \<Rightarrow> err \<noteq> None \<and> iv_contains (small_moxygen 3) (gaps (track_heap c' 0)) (1, 3) \<and>
        map_of (objects (group_heap c' 0)) 3 \<noteq> None
    | None \<Rightarrow> False) \<and>
   \<not> iv_contains (small_moxygen 3) (gaps (track_heap demo_cache 0)) (1, 3)"
  by code_simp

end
