(* ===== verification/Config_Types.thy ===== *)
theory Config_Types
  imports Complex_Main Service_Matcher Auth_Verifier
begin

text \<open>
  The configuration as it is read, \<^verbatim>\<open>src/config/loader/ParsedConfig.h\<close>, and as the relay uses it,
  \<^verbatim>\<open>src/config/Config.h\<close>. A field the file may leave out is an option. Match rules and the settings
  of authorization are those of \<open>Service_Matcher\<close> and \<open>Auth_Verifier\<close>.
\<close>

section \<open>Numbers\<close>

text \<open>Floating-point numbers with IEEE order: no comparison with a number that is not one holds.\<close>

datatype flt = NaN | MInf | PInf | Num rat

fun flt_less :: "flt \<Rightarrow> flt \<Rightarrow> bool" where
  "flt_less NaN _ = False"
| "flt_less _ NaN = False"
| "flt_less PInf _ = False"
| "flt_less _ MInf = False"
| "flt_less MInf _ = True"
| "flt_less _ PInf = True"
| "flt_less (Num a) (Num b) = (a < b)"

definition flt_le :: "flt \<Rightarrow> flt \<Rightarrow> bool" where
  "flt_le a b \<longleftrightarrow> flt_less a b \<or> (a \<noteq> NaN \<and> a = b)"

fun std_to_string :: "nat \<Rightarrow> string" where
  "std_to_string n =
     (if n < 10 then [char_of (48 + n)] else std_to_string (n div 10) @ [char_of (48 + n mod 10)])"

declare std_to_string.simps [simp del]

section \<open>As read\<close>

record socket_config =
  sock_address :: string
  sock_port :: nat

record tls_files =
  cert_file :: "string option"
  key_file :: "string option"
  pkcs12_file :: "string option"
  pkcs12_password :: "string option"
  pkcs12_password_file :: "string option"
  pkcs12_password_env :: "string option"

record parsed_listener_tls = tls_files +
  insecure :: bool

record parsed_admin_tls = tls_files +
  parsed_alpn :: "string list option"

record parsed_quic =
  max_data :: "nat option"
  max_stream_data :: "nat option"
  max_uni_streams :: "nat option"
  max_bidi_streams :: "nat option"
  idle_timeout_ms :: "nat option"
  max_ack_delay_us :: "nat option"
  min_ack_delay_us :: "nat option"
  default_stream_priority :: "nat option"
  default_datagram_priority :: "nat option"
  cc_algo :: "string option"

record parsed_bbr =
  conservative_recovery :: "bool option"
  large_probe_rtt_cwnd :: "bool option"
  enable_ack_aggregation_in_startup :: "bool option"
  probe_rtt_disabled_if_app_limited :: "bool option"
  drain_to_target :: "bool option"

record parsed_bbr2 =
  ignore_inflight_long_term :: "bool option"
  ignore_short_term :: "bool option"
  exit_startup_on_loss :: "bool option"
  enable_recovery_in_startup :: "bool option"
  enable_recovery_in_probe_states :: "bool option"
  enable_reno_coexistence :: "bool option"
  pace_init_cwnd :: "bool option"
  override_cruise_pacing_gain :: "flt option"
  override_cruise_cwnd_gain :: "flt option"
  override_startup_pacing_gain :: "flt option"
  override_bw_short_beta :: "flt option"

record parsed_cubic =
  additive_increase_after_hystart :: "bool option"
  only_grow_cwnd_when_limited :: "bool option"
  leave_headroom_for_cwnd_limited :: "bool option"

record parsed_mvfst =
  max_cwnd_in_mss :: "nat option"
  pacing_enabled :: "bool option"
  enable_gso :: "bool option"
  max_conn_packets_sent_per_loop :: "nat option"
  use_recvmmsg :: "bool option"
  max_server_recv_packets_per_loop :: "nat option"
  num_gro_buffers :: "nat option"
  ignore_path_mtu :: "bool option"
  parsed_bbr :: "parsed_bbr option"
  parsed_bbr2 :: "parsed_bbr2 option"
  parsed_cubic :: "parsed_cubic option"
  parsed_copa :: "flt option option"
  parsed_l4s :: "flt option option"
  udp_socket_buffer_bytes :: "nat option"
  h3_txn_timeout_ms :: "nat option"

datatype quic_stack = Mvfst | Picoquic | ProxygenQmux

record parsed_listener =
  listener_name :: string
  udp_socket :: socket_config
  listener_tls :: parsed_listener_tls
  endpoint :: string
  moqt_versions :: "nat list option"
  quic_stack :: "quic_stack option"
  listener_quic :: "parsed_quic option"
  listener_mvfst :: "parsed_mvfst option"

record parsed_cache =
  cache_enabled :: "bool option"
  max_tracks :: "nat option"
  max_groups_per_track :: "nat option"
  max_cached_mb :: "nat option"
  min_eviction_kb :: "nat option"
  max_cache_duration_s :: "nat option"
  default_max_cache_duration_s :: "nat option"

record parsed_admin =
  admin_port :: nat
  admin_address :: string
  plaintext :: bool
  admin_tls :: "parsed_admin_tls option"
  track_metrics_enabled :: "bool option"
  track_metrics_endpoint_default_limit :: "nat option"
  track_metrics_endpoint_max_limit :: "nat option"

record parsed_upstream =
  url :: string
  upstream_insecure :: bool
  ca_cert :: "string option"
  connect_timeout_ms :: "nat option"
  upstream_idle_timeout_ms :: "nat option"
  relay_cost :: "nat option"

record parsed_cluster =
  cluster_enabled :: "bool option"
  hop_id :: "nat option"

datatype namespace_match =
  ExactNamespace "string list" | PrefixNamespace "string list" | SuffixNamespace "string list"
  | ContainsNamespace "string list"

datatype track_match = ExactTrack string | PrefixTrack string | SuffixTrack string | ContainsTrack string

record parsed_scope =
  scope_actions :: "string list"
  namespace_match :: "namespace_match option"
  track_match :: "track_match option"

record parsed_auth =
  auth_enabled :: bool
  token_type :: "nat option"
  hmac_keys :: "hmac_key list option"
  require_setup_token :: "bool option"
  allow_request_token_override :: "bool option"
  strict_claims :: "bool option"
  anonymous_claim :: "parsed_scope list option"
  max_tokens_per_message :: "nat option"

datatype parsed_authority = PExactAuthority string | PWildcardAuthority string | PAnyAuthority bool
datatype parsed_path = PExactPath string | PPrefixPath string

record match_rule_config =
  rule_authority :: parsed_authority
  rule_path :: parsed_path

record parsed_service =
  match_rules_of :: "match_rule_config list"
  service_cache :: "parsed_cache option"
  upstream :: "parsed_upstream option"
  upstreams :: "parsed_upstream list option"
  service_auth :: "parsed_auth option"
  max_subscription_buffer_kb :: "nat option"

record listener_defaults_config =
  default_quic :: "parsed_quic option"
  default_mvfst :: "parsed_mvfst option"

text \<open>\<^verbatim>\<open>AuthDefaults\<close> has one field, \<^verbatim>\<open>max_tokens_per_message\<close>.\<close>

record service_defaults_config =
  default_cache :: "parsed_cache option"
  default_auth :: "nat option option"
  default_subscription_buffer_kb :: "nat option"

record parsed_log =
  log_dir :: string
  sample_rate :: "flt option"

record parsed_logging =
  parsed_mlog :: "parsed_log option"
  parsed_qlog :: "parsed_log option"

record parsed_config =
  listeners :: "parsed_listener list"
  listForm :: bool
  service_defaults :: "service_defaults_config option"
  parsed_services :: "(string \<times> parsed_service) list"
  parsed_admin_config :: "parsed_admin option"
  relay_id :: "string option"
  listener_defaults :: "listener_defaults_config option"
  parsed_threads :: "nat option"
  use_relay_thread :: "bool option"
  use_local_forwarders :: "bool option"
  mvfst_bpf_steering :: "bool option"
  parsed_logging_config :: "parsed_logging option"
  parsed_cluster_config :: "parsed_cluster option"

section \<open>As used\<close>

record tls_material =
  certChainPem :: string
  keyPem :: string

record tls_config =
  certFile :: string
  keyFile :: string
  alpn :: "string list"
  material :: "tls_material option"

datatype tls_mode = Insecure | Tls tls_config

text \<open>Durations are in milliseconds.\<close>

record cache_config =
  cfg_maxCachedTracks :: nat
  cfg_maxCachedGroupsPerTrack :: nat
  maxCachedMb :: nat
  minEvictionKb :: nat
  maxCacheDurationCap :: int
  defaultCacheDuration :: "int option"

record quic_config =
  maxData :: nat
  maxStreamData :: nat
  maxUniStreams :: nat
  maxBidiStreams :: nat
  idleTimeoutMs :: nat
  maxAckDelayUs :: nat
  minAckDelayUs :: nat
  defaultStreamPriority :: nat
  defaultDatagramPriority :: nat
  ccAlgo :: string

record bbr_config =
  conservativeRecovery :: bool
  largeProbeRttCwnd :: bool
  enableAckAggregationInStartup :: bool
  probeRttDisabledIfAppLimited :: bool
  drainToTarget :: bool

record bbr2_config =
  ignoreInflightLongTerm :: bool
  ignoreShortTerm :: bool
  exitStartupOnLoss :: bool
  enableRecoveryInStartup :: bool
  enableRecoveryInProbeStates :: bool
  enableRenoCoexistence :: bool
  paceInitCwnd :: bool
  overrideCruisePacingGain :: flt
  overrideCruiseCwndGain :: flt
  overrideStartupPacingGain :: flt
  overrideBwShortBeta :: flt

record cubic_config =
  additiveIncreaseAfterHystart :: bool
  onlyGrowCwndWhenLimited :: bool
  leaveHeadroomForCwndLimited :: bool

record mvfst_config =
  maxCwndInMss :: nat
  pacingEnabled :: bool
  enableGSO :: bool
  maxConnPacketsSentPerLoop :: nat
  useRecvmmsg :: bool
  maxServerRecvPacketsPerLoop :: nat
  numGROBuffers :: nat
  canIgnorePathMTU :: bool
  udpSocketBufferBytes :: nat
  h3TxnTimeoutMs :: nat
  bbr :: bbr_config
  bbr2 :: bbr2_config
  cubic :: cubic_config
  copa_deltaParam :: flt
  l4s_ceTarget :: flt

definition kMaxH3TxnTimeoutMs :: nat where
  "kMaxH3TxnTimeoutMs = 365 * 24 * 60 * 60 * 1000"

text \<open>The member initializers of \<^verbatim>\<open>QuicConfig\<close> and \<^verbatim>\<open>MvfstConfig\<close>.\<close>

definition QuicConfig :: quic_config where
  "QuicConfig = \<lparr>maxData = 67108864, maxStreamData = 16777216, maxUniStreams = 8192, maxBidiStreams = 16,
     idleTimeoutMs = 30000, maxAckDelayUs = 25000, minAckDelayUs = 1000, defaultStreamPriority = 2,
     defaultDatagramPriority = 1, ccAlgo = ''bbr''\<rparr>"

definition MvfstConfig :: mvfst_config where
  "MvfstConfig = \<lparr>maxCwndInMss = 860000, pacingEnabled = True, enableGSO = True, maxConnPacketsSentPerLoop = 48,
     useRecvmmsg = True, maxServerRecvPacketsPerLoop = 64, numGROBuffers = 1, canIgnorePathMTU = False,
     udpSocketBufferBytes = 0, h3TxnTimeoutMs = 0,
     bbr = \<lparr>conservativeRecovery = False, largeProbeRttCwnd = False, enableAckAggregationInStartup = False,
            probeRttDisabledIfAppLimited = False, drainToTarget = False\<rparr>,
     bbr2 = \<lparr>ignoreInflightLongTerm = False, ignoreShortTerm = False, exitStartupOnLoss = True,
             enableRecoveryInStartup = True, enableRecoveryInProbeStates = True, enableRenoCoexistence = False,
             paceInitCwnd = False, overrideCruisePacingGain = Num (- 1), overrideCruiseCwndGain = Num (- 1),
             overrideStartupPacingGain = Num (- 1), overrideBwShortBeta = Num 0\<rparr>,
     cubic = \<lparr>additiveIncreaseAfterHystart = False, onlyGrowCwndWhenLimited = False,
              leaveHeadroomForCwndLimited = False\<rparr>,
     copa_deltaParam = Num (5 / 100), l4s_ceTarget = Num 0\<rparr>"

record listener_config =
  name :: string
  socket_address :: "string \<times> nat"
  tlsMode :: tls_mode
  listener_endpoint :: string
  moqtVersions :: string
  quicStack :: quic_stack
  quic :: quic_config
  mvfst :: mvfst_config

record upstream_config =
  upstream_url :: string
  up_insecure :: bool
  caCertFile :: "string option"
  connectTimeout :: nat
  idleTimeout :: nat
  relayCost :: nat

record service_config =
  match :: "match_entry list"
  cache_cfg :: cache_config
  svc_upstream :: "upstream_config option"
  auth :: auth_config
  svc_upstreams :: "upstream_config list"
  maxSubscriptionBufferKb :: nat

record admin_config =
  adm_address :: "string \<times> nat"
  adm_tls :: "tls_config option"
  trackMetricsEnabled :: bool
  trackMetricsLimit :: nat
  trackMetricsMaxLimit :: nat

record log_config =
  dir :: string
  sampleRate :: flt

record logging_config =
  mlog :: "log_config option"
  qlog :: "log_config option"

record relay_config =
  cfg_listeners :: "listener_config list"
  services :: "(string \<times> service_config) list"
  admin :: "admin_config option"
  relayID :: string
  threads :: nat
  useRelayThread :: bool
  useLocalForwarders :: bool
  mvfstBpfSteering :: bool
  logging :: "logging_config option"
  cluster :: "nat option"

end
