(* ===== verification/Config_Resolver.thy ===== *)
theory Config_Resolver
  imports Config_Types "HOL-Library.Monad_Syntax"
begin

text \<open>
  Validation and resolution of the configuration, \<^verbatim>\<open>src/config/ConfigResolver.cpp\<close>. The code appends
  messages to two vectors; here every validator returns the errors and warnings it appends, in
  order. A message is a constructor with the values it prints. Sets the code fills while it loops
  are passed along. What the resolver asks of the system (addresses, files, the environment, the
  PKCS#12 reader, random numbers) is the record \<open>host\<close>.
\<close>

section \<open>The host\<close>

datatype file_status = NotFound | Directory | OtherFile | AccessError string

record host =
  bind_error :: "string \<Rightarrow> nat \<Rightarrow> string option"
  readFile :: "string \<Rightarrow> string option"
  getenv :: "string \<Rightarrow> string option"
  loadPkcs12File :: "string \<Rightarrow> string \<Rightarrow> string + tls_material"
  path_status :: "string \<Rightarrow> file_status"
  trimWhitespace :: "string \<Rightarrow> string"
  new_relay_id :: string
  new_hop_id :: nat

section \<open>Messages\<close>

datatype subject = AtListener string | AtAdmin | AtAdminTls

type_synonym label = "string \<times> nat"

datatype subject_problem =
    PortZero
  | AddressEmpty
  | AddressInvalid string string
  | PasswordSources
  | Pkcs12Exclusive
  | CertAndKeyRequired
  | Pkcs12Failed string
  | DataBelowStreamData nat nat
  | AckDelays nat nat
  | CcAlgoInvalid string

datatype listener_problem =
    PicoInsecure
  | PicoPkcs12
  | VersionUnsupported nat
  | PacingRequired string

datatype mvfst_problem =
    CwndZero
  | PacketsPerLoopZero
  | GroBuffersZero
  | H3TimeoutTooLong
  | CopaDelta flt
  | CeTarget flt

datatype match_problem =
    AuthorityEmpty
  | WildcardPrefix string
  | WildcardStars string
  | AnyMustBeTrue
  | PathEmpty
  | PathNoSlash string

datatype service_problem =
    DuplicateMatch string
  | CacheEnabledRequired
  | MaxTracksRequired
  | MaxGroupsRequired
  | MaxGroupsZero
  | CacheDurationZero
  | CachedMbZero
  | BufferRequired
  | UpstreamsExclusive

datatype auth_problem =
    KeysRequired
  | KeyIdEmpty nat
  | KeyIdDuplicate nat
  | SecretEmpty nat
  | TokenTypeRange
  | MaxTokensRequired
  | MaxTokensZero
  | ActionsEmpty nat
  | ActionUnknown nat string
  | ActionIsSetup nat string

datatype problem =
    OnSubject subject subject_problem
  | OnListener string listener_problem
  | OnMvfst subject mvfst_problem
  | OnMatch label match_problem
  | OnService string service_problem
  | OnAuth string auth_problem
  | DuplicateAddress string
  | AdminTlsAndPlaintext
  | AdminTlsOrPlaintext
  | UpstreamUrlEmpty
  | UpstreamInsecureCa
  | NoServices
  | ThreadsZero
  | RelayThreadRequired
  | LocalForwardersRelayThread
  | MlogSampleRate flt

datatype warning =
    FilesIgnored subject
  | InlinePassword subject
  | FewUniStreams subject nat
  | FewBidiStreams subject nat
  | ShortIdleTimeout subject nat
  | ManyGroBuffers subject nat
  | ListFormDeprecated
  | PicoPrefixPath "string list" label string
  | PicoNoExactPath "string list"
  | AnonymousClaimUnused string

type_synonym report = "problem list \<times> warning list"

definition combine :: "report list \<Rightarrow> report" where
  "combine rs = (concat (map fst rs), concat (map snd rs))"

definition problem_if :: "bool \<Rightarrow> problem \<Rightarrow> report" where
  "problem_if b p = (if b then [p] else [], [])"

definition warn_if :: "bool \<Rightarrow> warning \<Rightarrow> report" where
  "warn_if b w = ([], if b then [w] else [])"

text \<open>\<^verbatim>\<open>field.has_value() && !field->empty()\<close>.\<close>

definition is_set :: "string option \<Rightarrow> bool" where
  "is_set s \<longleftrightarrow> s \<noteq> None \<and> s \<noteq> Some []"

definition value_or :: "'a option \<Rightarrow> 'a \<Rightarrow> 'a" where
  "value_or v d = (case v of None \<Rightarrow> d | Some x \<Rightarrow> x)"

section \<open>Transport security\<close>

definition parseQuicStack :: "quic_stack option \<Rightarrow> quic_stack" where
  "parseQuicStack s = value_or s Mvfst"

definition validatePkcs12PasswordExclusivity :: "'z tls_files_scheme \<Rightarrow> subject \<Rightarrow> report" where
  "validatePkcs12PasswordExclusivity tls subj =
     (let sources = (if pkcs12_password tls \<noteq> None then 1 else 0) + (if is_set (pkcs12_password_file tls) then 1 else 0)
                  + (if is_set (pkcs12_password_env tls) then 1 else (0 :: nat))
      in problem_if (sources > 1) (OnSubject subj PasswordSources))"

definition validateListenerTlsConfig :: "parsed_listener_tls \<Rightarrow> subject \<Rightarrow> report" where
  "validateListenerTlsConfig tls subj =
     (let hasCert = is_set (cert_file tls); hasKey = is_set (key_file tls); hasPkcs12 = is_set (pkcs12_file tls) in
      if insecure tls then warn_if (hasCert \<or> hasKey \<or> hasPkcs12) (FilesIgnored subj)
      else if hasPkcs12 then
        combine [problem_if (hasCert \<or> hasKey) (OnSubject subj Pkcs12Exclusive), validatePkcs12PasswordExclusivity tls subj]
      else problem_if (\<not> hasCert \<or> \<not> hasKey) (OnSubject subj CertAndKeyRequired))"

definition validateAdminTlsConfig :: "parsed_admin_tls \<Rightarrow> report" where
  "validateAdminTlsConfig tls =
     (let hasCert = is_set (cert_file tls); hasKey = is_set (key_file tls) in
      if is_set (pkcs12_file tls) then
        combine [problem_if (hasCert \<or> hasKey) (OnSubject AtAdminTls Pkcs12Exclusive),
                 validatePkcs12PasswordExclusivity tls AtAdminTls]
      else problem_if (\<not> hasCert \<or> \<not> hasKey) (OnSubject AtAdminTls CertAndKeyRequired))"

definition resolveTlsConfig :: "parsed_listener_tls \<Rightarrow> tls_material option \<Rightarrow> tls_config" where
  "resolveTlsConfig tls m =
     \<lparr>certFile = (if m \<noteq> None then [] else value_or (cert_file tls) []),
      keyFile = (if m \<noteq> None then [] else value_or (key_file tls) []),
      alpn = [], material = m\<rparr>"

definition resolveAdminTlsConfig :: "parsed_admin_tls \<Rightarrow> string list \<Rightarrow> tls_material option \<Rightarrow> tls_config" where
  "resolveAdminTlsConfig tls defaultAlpn m =
     \<lparr>certFile = (if m \<noteq> None then [] else value_or (cert_file tls) []),
      keyFile = (if m \<noteq> None then [] else value_or (key_file tls) []),
      alpn = value_or (parsed_alpn tls) defaultAlpn, material = m\<rparr>"

definition drop_last_if :: "char \<Rightarrow> string \<Rightarrow> string" where
  "drop_last_if ch s = (if s \<noteq> [] \<and> last s = ch then butlast s else s)"

text \<open>\<open>Inl\<close> is the error of \<^verbatim>\<open>folly::Expected\<close>.\<close>

definition resolvePkcs12Password ::
  "host \<Rightarrow> string option \<Rightarrow> string option \<Rightarrow> string option \<Rightarrow> string + string" where
  "resolvePkcs12Password H inlinePw pwFile pwEnv =
     (if is_set pwFile then
        (case readFile H (the pwFile) of
           None \<Rightarrow> Inl (''failed to read pkcs12_password_file '' @ the pwFile)
         | Some pw \<Rightarrow> Inr (drop_last_if (CHR 0x0D) (drop_last_if (CHR 0x0A) pw)))
      else if is_set pwEnv then
        (case getenv H (the pwEnv) of
           None \<Rightarrow> Inl (''environment variable is not set: '' @ the pwEnv)
         | Some v \<Rightarrow> Inr v)
      else Inr (value_or inlinePw []))"

definition resolvePkcs12Material ::
  "host \<Rightarrow> 'z tls_files_scheme \<Rightarrow> subject \<Rightarrow> tls_material option \<times> report" where
  "resolvePkcs12Material H tls subj =
     (if \<not> is_set (pkcs12_file tls) then (None, [], [])
      else if is_set (cert_file tls) \<or> is_set (key_file tls) then (None, [], [])
      else
        let w = (if pkcs12_password tls \<noteq> None then [InlinePassword subj] else []) in
        case resolvePkcs12Password H (pkcs12_password tls) (pkcs12_password_file tls) (pkcs12_password_env tls) of
          Inl e \<Rightarrow> (None, [OnSubject subj (Pkcs12Failed e)], w)
        | Inr pw \<Rightarrow>
            (case loadPkcs12File H (the (pkcs12_file tls)) pw of
               Inl e \<Rightarrow> (None, [OnSubject subj (Pkcs12Failed e)], w)
             | Inr m \<Rightarrow> (Some m, [], w)))"

section \<open>Listeners\<close>

definition kSupportedMoqtVersions :: "nat list" where
  "kSupportedMoqtVersions = [16, 18]"

fun join :: "string \<Rightarrow> string list \<Rightarrow> string" where
  "join sep [] = []"
| "join sep [x] = x"
| "join sep (x # y # ys) = x @ sep @ join sep (y # ys)"

definition moqtVersionsToString :: "parsed_listener \<Rightarrow> string" where
  "moqtVersionsToString l =
     (if moqt_versions l = None \<or> moqt_versions l = Some [] then ''16''
      else join '','' (map std_to_string (the (moqt_versions l))))"

definition validateBindAddress :: "host \<Rightarrow> string \<Rightarrow> nat \<Rightarrow> subject \<Rightarrow> report" where
  "validateBindAddress H address port subj =
     (if address = [] then ([OnSubject subj AddressEmpty], [])
      else case bind_error H address port of
             None \<Rightarrow> ([], [])
           | Some e \<Rightarrow> ([OnSubject subj (AddressInvalid address e)], []))"

definition validateListener :: "host \<Rightarrow> parsed_listener \<Rightarrow> report" where
  "validateListener H l =
     (let sock = udp_socket l; subj = AtListener (listener_name l);
          picoquic = (parseQuicStack (quic_stack l) = Picoquic)
      in combine
        [problem_if (sock_port sock = 0) (OnSubject subj PortZero),
         validateBindAddress H (sock_address sock) (sock_port sock) subj,
         validateListenerTlsConfig (listener_tls l) subj,
         problem_if (picoquic \<and> insecure (listener_tls l)) (OnListener (listener_name l) PicoInsecure),
         problem_if (picoquic \<and> is_set (pkcs12_file (listener_tls l))) (OnListener (listener_name l) PicoPkcs12),
         (case moqt_versions l of
            None \<Rightarrow> ([], [])
          | Some vs \<Rightarrow> (map (\<lambda>v. OnListener (listener_name l) (VersionUnsupported v)) (filter (\<lambda>v. v \<notin> set kSupportedMoqtVersions) vs), []))])"

definition applyQuicOverride :: "parsed_quic \<Rightarrow> quic_config \<Rightarrow> quic_config" where
  "applyQuicOverride p base =
     \<lparr>maxData = value_or (max_data p) (maxData base),
      maxStreamData = value_or (max_stream_data p) (maxStreamData base),
      maxUniStreams = value_or (max_uni_streams p) (maxUniStreams base),
      maxBidiStreams = value_or (max_bidi_streams p) (maxBidiStreams base),
      idleTimeoutMs = value_or (idle_timeout_ms p) (idleTimeoutMs base),
      maxAckDelayUs = value_or (max_ack_delay_us p) (maxAckDelayUs base),
      minAckDelayUs = value_or (min_ack_delay_us p) (minAckDelayUs base),
      defaultStreamPriority = value_or (default_stream_priority p) (defaultStreamPriority base),
      defaultDatagramPriority = value_or (default_datagram_priority p) (defaultDatagramPriority base),
      ccAlgo = value_or (cc_algo p) (ccAlgo base)\<rparr>"

definition apply_if :: "('p \<Rightarrow> 'c \<Rightarrow> 'c) \<Rightarrow> 'p option \<Rightarrow> 'c \<Rightarrow> 'c" where
  "apply_if f p base = (case p of None \<Rightarrow> base | Some x \<Rightarrow> f x base)"

definition mergeQuicConfig :: "parsed_quic option \<Rightarrow> parsed_quic option \<Rightarrow> quic_config" where
  "mergeQuicConfig defaults perListener =
     apply_if applyQuicOverride perListener (apply_if applyQuicOverride defaults QuicConfig)"

definition applyBbr :: "parsed_bbr \<Rightarrow> bbr_config \<Rightarrow> bbr_config" where
  "applyBbr b base =
     \<lparr>conservativeRecovery = value_or (conservative_recovery b) (conservativeRecovery base),
      largeProbeRttCwnd = value_or (large_probe_rtt_cwnd b) (largeProbeRttCwnd base),
      enableAckAggregationInStartup =
        value_or (enable_ack_aggregation_in_startup b) (enableAckAggregationInStartup base),
      probeRttDisabledIfAppLimited =
        value_or (probe_rtt_disabled_if_app_limited b) (probeRttDisabledIfAppLimited base),
      drainToTarget = value_or (drain_to_target b) (drainToTarget base)\<rparr>"

definition applyBbr2 :: "parsed_bbr2 \<Rightarrow> bbr2_config \<Rightarrow> bbr2_config" where
  "applyBbr2 b base =
     \<lparr>ignoreInflightLongTerm = value_or (ignore_inflight_long_term b) (ignoreInflightLongTerm base),
      ignoreShortTerm = value_or (ignore_short_term b) (ignoreShortTerm base),
      exitStartupOnLoss = value_or (exit_startup_on_loss b) (exitStartupOnLoss base),
      enableRecoveryInStartup = value_or (enable_recovery_in_startup b) (enableRecoveryInStartup base),
      enableRecoveryInProbeStates =
        value_or (enable_recovery_in_probe_states b) (enableRecoveryInProbeStates base),
      enableRenoCoexistence = value_or (enable_reno_coexistence b) (enableRenoCoexistence base),
      paceInitCwnd = value_or (pace_init_cwnd b) (paceInitCwnd base),
      overrideCruisePacingGain = value_or (override_cruise_pacing_gain b) (overrideCruisePacingGain base),
      overrideCruiseCwndGain = value_or (override_cruise_cwnd_gain b) (overrideCruiseCwndGain base),
      overrideStartupPacingGain = value_or (override_startup_pacing_gain b) (overrideStartupPacingGain base),
      overrideBwShortBeta = value_or (override_bw_short_beta b) (overrideBwShortBeta base)\<rparr>"

definition applyCubic :: "parsed_cubic \<Rightarrow> cubic_config \<Rightarrow> cubic_config" where
  "applyCubic b base =
     \<lparr>additiveIncreaseAfterHystart =
        value_or (additive_increase_after_hystart b) (additiveIncreaseAfterHystart base),
      onlyGrowCwndWhenLimited = value_or (only_grow_cwnd_when_limited b) (onlyGrowCwndWhenLimited base),
      leaveHeadroomForCwndLimited =
        value_or (leave_headroom_for_cwnd_limited b) (leaveHeadroomForCwndLimited base)\<rparr>"

definition applyMvfstOverride :: "parsed_mvfst \<Rightarrow> mvfst_config \<Rightarrow> mvfst_config" where
  "applyMvfstOverride p base =
     \<lparr>maxCwndInMss = value_or (max_cwnd_in_mss p) (maxCwndInMss base),
      pacingEnabled = value_or (pacing_enabled p) (pacingEnabled base),
      enableGSO = value_or (enable_gso p) (enableGSO base),
      maxConnPacketsSentPerLoop = value_or (max_conn_packets_sent_per_loop p) (maxConnPacketsSentPerLoop base),
      useRecvmmsg = value_or (use_recvmmsg p) (useRecvmmsg base),
      maxServerRecvPacketsPerLoop =
        value_or (max_server_recv_packets_per_loop p) (maxServerRecvPacketsPerLoop base),
      numGROBuffers = value_or (num_gro_buffers p) (numGROBuffers base),
      canIgnorePathMTU = value_or (ignore_path_mtu p) (canIgnorePathMTU base),
      udpSocketBufferBytes = value_or (udp_socket_buffer_bytes p) (udpSocketBufferBytes base),
      h3TxnTimeoutMs = value_or (h3_txn_timeout_ms p) (h3TxnTimeoutMs base),
      bbr = apply_if applyBbr (parsed_bbr p) (bbr base),
      bbr2 = apply_if applyBbr2 (parsed_bbr2 p) (bbr2 base),
      cubic = apply_if applyCubic (parsed_cubic p) (cubic base),
      copa_deltaParam = apply_if value_or (parsed_copa p) (copa_deltaParam base),
      l4s_ceTarget = apply_if value_or (parsed_l4s p) (l4s_ceTarget base)\<rparr>"

definition mergeMvfstConfig :: "parsed_mvfst option \<Rightarrow> parsed_mvfst option \<Rightarrow> mvfst_config" where
  "mergeMvfstConfig defaults perListener =
     apply_if applyMvfstOverride perListener (apply_if applyMvfstOverride defaults MvfstConfig)"

definition kPicoCcAlgos :: "string list" where
  "kPicoCcAlgos = [''bbr'', ''bbr1'', ''c4'', ''cubic'', ''dcubic'', ''fast'', ''newreno'', ''prague'', ''reno'']"

definition kMvfstCcAlgos :: "string list" where
  "kMvfstCcAlgos = [''bbr'', ''bbr2'', ''bbr2modular'', ''copa'', ''cubic'', ''newreno'', ''none'']"

definition validateQuicConfig :: "quic_config \<Rightarrow> quic_stack \<Rightarrow> subject \<Rightarrow> report" where
  "validateQuicConfig q stack subj = combine
     [problem_if (maxData q < maxStreamData q) (OnSubject subj (DataBelowStreamData (maxData q) (maxStreamData q))),
      warn_if (maxUniStreams q < 100) (FewUniStreams subj (maxUniStreams q)),
      warn_if (maxBidiStreams q < 16) (FewBidiStreams subj (maxBidiStreams q)),
      warn_if (idleTimeoutMs q < 5000) (ShortIdleTimeout subj (idleTimeoutMs q)),
      problem_if (maxAckDelayUs q < minAckDelayUs q) (OnSubject subj (AckDelays (maxAckDelayUs q) (minAckDelayUs q))),
      (if stack = ProxygenQmux then ([], [])
       else problem_if (ccAlgo q \<notin> set (if stack = Picoquic then kPicoCcAlgos else kMvfstCcAlgos))
              (OnSubject subj (CcAlgoInvalid (ccAlgo q))))]"

definition validateMvfstConfig :: "mvfst_config \<Rightarrow> subject \<Rightarrow> report" where
  "validateMvfstConfig m subj = combine
     [problem_if (maxCwndInMss m = 0) (OnMvfst subj CwndZero),
      problem_if (maxConnPacketsSentPerLoop m = 0) (OnMvfst subj PacketsPerLoopZero),
      problem_if (numGROBuffers m = 0) (OnMvfst subj GroBuffersZero),
      warn_if (numGROBuffers m > 64) (ManyGroBuffers subj (numGROBuffers m)),
      problem_if (h3TxnTimeoutMs m > kMaxH3TxnTimeoutMs) (OnMvfst subj H3TimeoutTooLong),
      problem_if (flt_le (copa_deltaParam m) (Num 0) \<or> flt_le (Num 1) (copa_deltaParam m))
        (OnMvfst subj (CopaDelta (copa_deltaParam m))),
      problem_if (flt_less (l4s_ceTarget m) (Num 0) \<or> flt_le (Num 1) (l4s_ceTarget m))
        (OnMvfst subj (CeTarget (l4s_ceTarget m)))]"

definition resolveListener ::
  "parsed_listener \<Rightarrow> quic_config \<Rightarrow> mvfst_config \<Rightarrow> tls_material option \<Rightarrow> listener_config" where
  "resolveListener l q m mat =
     \<lparr>name = listener_name l,
      socket_address = (sock_address (udp_socket l), sock_port (udp_socket l)),
      tlsMode = (if insecure (listener_tls l) then Insecure else Tls (resolveTlsConfig (listener_tls l) mat)),
      listener_endpoint = endpoint l,
      moqtVersions = moqtVersionsToString l,
      quicStack = parseQuicStack (quic_stack l),
      quic = q, mvfst = m\<rparr>"

text \<open>
  The loop over the listeners in \<^verbatim>\<open>resolveConfig\<close>: \<open>seen\<close> is \<^verbatim>\<open>listenerAddrs\<close>, and the vectors of merged
  settings are built along.
\<close>

definition listener_addr :: "parsed_listener \<Rightarrow> string" where
  "listener_addr l = sock_address (udp_socket l) @ '':'' @ std_to_string (sock_port (udp_socket l))"

definition check_listener ::
  "host \<Rightarrow> parsed_quic option \<Rightarrow> parsed_mvfst option \<Rightarrow> string list \<Rightarrow> parsed_listener \<Rightarrow>
   report \<times> (tls_material option \<times> quic_config \<times> mvfst_config)" where
  "check_listener H quicDefaults mvfstDefaults seen l =
     (let subj = AtListener (listener_name l);
          (mat, matReport) = (if \<not> insecure (listener_tls l) then resolvePkcs12Material H (listener_tls l) subj
                              else (None, [], []));
          q = mergeQuicConfig quicDefaults (listener_quic l);
          m = mergeMvfstConfig mvfstDefaults (listener_mvfst l);
          stack = parseQuicStack (quic_stack l)
      in (combine
            [validateListener H l, matReport,
             problem_if (listener_addr l \<in> set seen) (DuplicateAddress (listener_addr l)),
             validateQuicConfig q stack subj,
             (if stack = Mvfst then combine
                [validateMvfstConfig m subj,
                 problem_if (\<not> pacingEnabled m \<and> ccAlgo q \<in> {''bbr'', ''bbr2'', ''bbr2modular''})
                   (OnListener (listener_name l) (PacingRequired (ccAlgo q)))]
              else ([], []))],
          mat, q, m))"

fun check_listeners ::
  "host \<Rightarrow> parsed_quic option \<Rightarrow> parsed_mvfst option \<Rightarrow> string list \<Rightarrow> parsed_listener list \<Rightarrow>
   report \<times> (tls_material option \<times> quic_config \<times> mvfst_config) list" where
  "check_listeners H qd md seen [] = (([], []), [])"
| "check_listeners H qd md seen (l # ls) =
     (let (r, x) = check_listener H qd md seen l;
          (rs, xs) = check_listeners H qd md (listener_addr l # seen) ls
      in (combine [r, rs], x # xs))"

section \<open>Admin\<close>

definition validateAdmin :: "host \<Rightarrow> parsed_config \<Rightarrow> report" where
  "validateAdmin H cfg =
     (case parsed_admin_config cfg of
        None \<Rightarrow> ([], [])
      | Some a \<Rightarrow> combine
          [problem_if (admin_port a = 0) (OnSubject AtAdmin PortZero),
           validateBindAddress H (admin_address a) (admin_port a) AtAdmin,
           (if admin_tls a \<noteq> None \<and> plaintext a then ([AdminTlsAndPlaintext], [])
            else problem_if (admin_tls a = None \<and> \<not> plaintext a) AdminTlsOrPlaintext),
           (case admin_tls a of None \<Rightarrow> ([], []) | Some t \<Rightarrow> validateAdminTlsConfig t)])"

section \<open>Match rules\<close>

definition validateAuthority :: "parsed_authority \<Rightarrow> label \<Rightarrow> (string \<times> string) option \<times> report" where
  "validateAuthority a lb =
     (case a of
        PExactAuthority e \<Rightarrow>
          if e = [] then (None, [OnMatch lb AuthorityEmpty], []) else (Some (''exact'', e), [], [])
      | PWildcardAuthority pat \<Rightarrow>
          if length pat < 3 \<or> pat ! 0 \<noteq> CHR ''*'' \<or> pat ! 1 \<noteq> CHR ''.'' then (None, [OnMatch lb (WildcardPrefix pat)], [])
          else if CHR ''*'' \<in> set (drop 2 pat) then (None, [OnMatch lb (WildcardStars pat)], [])
          else (Some (''wildcard'', pat), [], [])
      | PAnyAuthority b \<Rightarrow>
          if \<not> b then (None, [OnMatch lb AnyMustBeTrue], []) else (Some (''any'', []), [], []))"

definition path_value :: "parsed_path \<Rightarrow> string" where
  "path_value p = (case p of PExactPath s \<Rightarrow> s | PPrefixPath s \<Rightarrow> s)"

definition validatePath :: "parsed_path \<Rightarrow> label \<Rightarrow> bool \<times> report" where
  "validatePath p lb =
     (let v = path_value p in
      if v = [] then (False, [OnMatch lb PathEmpty], [])
      else if hd v \<noteq> CHR ''/'' then (False, [OnMatch lb (PathNoSlash v)], [])
      else (True, [], []))"

definition makeCompositeKey :: "string \<Rightarrow> string \<Rightarrow> parsed_path \<Rightarrow> string" where
  "makeCompositeKey authorityType authorityValue p =
     authorityType @ '':'' @ authorityValue @ ''|'' @
     (case p of PExactPath s \<Rightarrow> ''exact:'' @ s | PPrefixPath s \<Rightarrow> ''prefix:'' @ s)"

text \<open>The loop over the match entries of a service; \<open>keys\<close> is \<^verbatim>\<open>compositeKeys\<close>.\<close>

fun check_match ::
  "string \<Rightarrow> nat \<Rightarrow> match_rule_config list \<Rightarrow> string list \<Rightarrow> report \<times> string list" where
  "check_match svc j [] keys = (([], []), keys)"
| "check_match svc j (entry # es) keys =
     (case validateAuthority (rule_authority entry) (svc, j) of
        (None, r) \<Rightarrow> let (rs, keys') = check_match svc (Suc j) es keys in (combine [r, rs], keys')
      | (Some (ty, v), r) \<Rightarrow>
          let (valid, r2) = validatePath (rule_path entry) (svc, j) in
          if \<not> valid then let (rs, keys') = check_match svc (Suc j) es keys in (combine [r, r2, rs], keys')
          else
            let key = makeCompositeKey ty v (rule_path entry);
                dup = (key \<in> set keys);
                (rs, keys') = check_match svc (Suc j) es (if dup then keys else key # keys)
            in (combine [r, r2, problem_if dup (OnService svc (DuplicateMatch key)), rs], keys'))"

definition resolveMatchEntry :: "match_rule_config \<Rightarrow> match_entry" where
  "resolveMatchEntry e =
     \<lparr>authority = (case rule_authority e of PExactAuthority a \<Rightarrow> ExactAuthority a
                   | PWildcardAuthority p \<Rightarrow> WildcardAuthority p | PAnyAuthority _ \<Rightarrow> AnyAuthority),
      path = (case rule_path e of PExactPath s \<Rightarrow> ExactPath s | PPrefixPath s \<Rightarrow> PrefixPath s)\<rparr>"

section \<open>Cache and upstream\<close>

definition or_else :: "'a option \<Rightarrow> 'a option \<Rightarrow> 'a option" where
  "or_else a b = (if a \<noteq> None then a else b)"

definition mergeCacheConfigs :: "parsed_cache \<Rightarrow> parsed_cache \<Rightarrow> parsed_cache" where
  "mergeCacheConfigs base overlay =
     \<lparr>cache_enabled = or_else (cache_enabled overlay) (cache_enabled base),
      max_tracks = or_else (max_tracks overlay) (max_tracks base),
      max_groups_per_track = or_else (max_groups_per_track overlay) (max_groups_per_track base),
      max_cached_mb = or_else (max_cached_mb overlay) (max_cached_mb base),
      min_eviction_kb = or_else (min_eviction_kb overlay) (min_eviction_kb base),
      max_cache_duration_s = or_else (max_cache_duration_s overlay) (max_cache_duration_s base),
      default_max_cache_duration_s =
        or_else (default_max_cache_duration_s overlay) (default_max_cache_duration_s base)\<rparr>"

definition no_cache_fields :: parsed_cache where
  "no_cache_fields = \<lparr>cache_enabled = None, max_tracks = None, max_groups_per_track = None, max_cached_mb = None,
     min_eviction_kb = None, max_cache_duration_s = None, default_max_cache_duration_s = None\<rparr>"

text \<open>\<open>None\<close> is the dereference of an optional that holds nothing.\<close>

definition resolveCacheConfig :: "parsed_cache \<Rightarrow> cache_config option" where
  "resolveCacheConfig c =
     (let maxDuration = int (value_or (max_cache_duration_s c) 86400) * 1000;
          defaultDuration = (case default_max_cache_duration_s c of
                               Some d \<Rightarrow> Some (int d * 1000) | None \<Rightarrow> Some maxDuration)
      in do {
        en \<leftarrow> cache_enabled c;
        mt \<leftarrow> (if en then max_tracks c else Some 0);
        mg \<leftarrow> max_groups_per_track c;
        Some \<lparr>cfg_maxCachedTracks = mt, cfg_maxCachedGroupsPerTrack = mg,
              maxCachedMb = value_or (max_cached_mb c) 16, minEvictionKb = value_or (min_eviction_kb c) 64,
              maxCacheDurationCap = maxDuration, defaultCacheDuration = defaultDuration\<rparr> })"

definition validateUpstream :: "parsed_upstream \<Rightarrow> report" where
  "validateUpstream u = combine
     [problem_if (url u = []) UpstreamUrlEmpty,
      problem_if (upstream_insecure u \<and> ca_cert u \<noteq> None) UpstreamInsecureCa]"

definition resolveUpstream :: "parsed_upstream \<Rightarrow> upstream_config" where
  "resolveUpstream u =
     \<lparr>upstream_url = url u, up_insecure = upstream_insecure u, caCertFile = ca_cert u,
      connectTimeout = value_or (connect_timeout_ms u) 5000,
      idleTimeout = value_or (upstream_idle_timeout_ms u) 5000,
      relayCost = value_or (relay_cost u) 1\<rparr>"

section \<open>Authorization\<close>

definition kQuicVarintExclusiveUpperBound :: nat where
  "kQuicVarintExclusiveUpperBound = 2 ^ 62"

text \<open>The loop over the keys; \<open>ids\<close> is \<^verbatim>\<open>keyIDs\<close>.\<close>

fun check_keys :: "string \<Rightarrow> nat \<Rightarrow> hmac_key list \<Rightarrow> string list \<Rightarrow> problem list" where
  "check_keys svc i [] ids = []"
| "check_keys svc i (k # ks) ids =
     (if key_id k = [] then [OnAuth svc (KeyIdEmpty i)]
      else if key_id k \<in> set ids then [OnAuth svc (KeyIdDuplicate i)] else []) @
     (if secret k = [] then [OnAuth svc (SecretEmpty i)] else []) @
     check_keys svc (Suc i) ks (if key_id k = [] then ids else key_id k # ids)"

definition check_action :: "host \<Rightarrow> string \<Rightarrow> nat \<Rightarrow> string \<Rightarrow> problem list" where
  "check_action H svc i nm =
     (case canonicalAction (trimWhitespace H) nm of
        None \<Rightarrow> [OnAuth svc (ActionUnknown i nm)]
      | Some a \<Rightarrow> if a = ClientSetup \<or> a = ServerSetup then [OnAuth svc (ActionIsSetup i nm)] else [])"

fun check_scopes :: "host \<Rightarrow> string \<Rightarrow> nat \<Rightarrow> parsed_scope list \<Rightarrow> problem list" where
  "check_scopes H svc i [] = []"
| "check_scopes H svc i (sc # scs) =
     (if scope_actions sc = [] then [OnAuth svc (ActionsEmpty i)]
      else concat (map (check_action H svc i) (scope_actions sc))) @
     check_scopes H svc (Suc i) scs"

definition validateAuth :: "host \<Rightarrow> string \<Rightarrow> parsed_auth \<Rightarrow> report" where
  "validateAuth H svc a = combine
     [(if auth_enabled a then
         ((case hmac_keys a of
             None \<Rightarrow> [OnAuth svc KeysRequired]
           | Some ks \<Rightarrow> if ks = [] then [OnAuth svc KeysRequired] else check_keys svc 0 ks []) @
          (if value_or (token_type a) 0 \<ge> kQuicVarintExclusiveUpperBound then [OnAuth svc TokenTypeRange] else []) @
          (case max_tokens_per_message a of
             None \<Rightarrow> [OnAuth svc MaxTokensRequired] | Some n \<Rightarrow> if n = 0 then [OnAuth svc MaxTokensZero] else []), [])
       else ([], [])),
      (case anonymous_claim a of
         None \<Rightarrow> ([], [])
       | Some scs \<Rightarrow> (check_scopes H svc 0 scs,
                     if \<not> auth_enabled a \<and> scs \<noteq> [] then [AnonymousClaimUnused svc] else []))]"

text \<open>\<open>None\<close> is the dereference of an action name that is not one.\<close>

definition resolveAnonymousScope :: "host \<Rightarrow> parsed_scope \<Rightarrow> anonymous_scope option" where
  "resolveAnonymousScope H sc =
     do {
       as \<leftarrow> those (map (canonicalAction (trimWhitespace H)) (scope_actions sc));
       let (segs, nsMode) = (case namespace_match sc of
           None \<Rightarrow> (None, Exact)
         | Some (ExactNamespace s) \<Rightarrow> (Some s, Exact)
         | Some (PrefixNamespace s) \<Rightarrow> (Some s, Prefix)
         | Some (SuffixNamespace s) \<Rightarrow> (Some s, Suffix)
         | Some (ContainsNamespace s) \<Rightarrow> (Some s, Contains));
       let (tn, tMode) = (case track_match sc of
           None \<Rightarrow> (None, Exact)
         | Some (ExactTrack s) \<Rightarrow> (Some s, Exact)
         | Some (PrefixTrack s) \<Rightarrow> (Some s, Prefix)
         | Some (SuffixTrack s) \<Rightarrow> (Some s, Suffix)
         | Some (ContainsTrack s) \<Rightarrow> (Some s, Contains));
       Some \<lparr>anon_actions = as, namespaceSegments = segs, namespaceMatchMode = nsMode,
             anon_trackName = tn, trackMatchMode = tMode\<rparr>
     }"

definition AuthConfig :: auth_config where
  "AuthConfig = \<lparr>enabled = False, tokenType = 0, hmacKeys = [], requireSetupToken = True,
     allowRequestTokenOverride = True, strictClaims = False, anonymousClaim = [], maxTokensPerMessage = 0\<rparr>"

definition resolveAuth :: "host \<Rightarrow> parsed_auth option \<Rightarrow> auth_config option" where
  "resolveAuth H parsed =
     (case parsed of
        None \<Rightarrow> Some AuthConfig
      | Some a \<Rightarrow>
          do {
            claim \<leftarrow> those (map (resolveAnonymousScope H) (value_or (anonymous_claim a) []));
            Some \<lparr>enabled = auth_enabled a, tokenType = value_or (token_type a) 0,
                  hmacKeys = value_or (hmac_keys a) [],
                  requireSetupToken = value_or (require_setup_token a) True,
                  allowRequestTokenOverride = value_or (allow_request_token_override a) True,
                  strictClaims = value_or (strict_claims a) False, anonymousClaim = claim,
                  maxTokensPerMessage = value_or (max_tokens_per_message a) 0\<rparr>
          })"

section \<open>Services\<close>

definition merge_auth :: "parsed_config \<Rightarrow> parsed_auth \<Rightarrow> parsed_auth" where
  "merge_auth cfg a =
     (if max_tokens_per_message a = None then
        (case Option.bind (service_defaults cfg) default_auth of
           None \<Rightarrow> a | Some d \<Rightarrow> a\<lparr>max_tokens_per_message := d\<rparr>)
      else a)"

definition validateServiceAuth ::
  "host \<Rightarrow> string \<Rightarrow> parsed_service \<Rightarrow> parsed_config \<Rightarrow> (string \<times> parsed_auth) list \<Rightarrow>
   report \<times> (string \<times> parsed_auth) list" where
  "validateServiceAuth H nm svc cfg mergedAuths =
     (case service_auth svc of
        None \<Rightarrow> (([], []), mergedAuths)
      | Some a \<Rightarrow> (validateAuth H nm (merge_auth cfg a), try_emplace nm (merge_auth cfg a) mergedAuths))"

definition mergedSubscriptionBufferKb :: "parsed_service \<Rightarrow> parsed_config \<Rightarrow> nat option" where
  "mergedSubscriptionBufferKb svc cfg =
     (if max_subscription_buffer_kb svc \<noteq> None then max_subscription_buffer_kb svc
      else Option.bind (service_defaults cfg) default_subscription_buffer_kb)"

definition merged_cache :: "parsed_service \<Rightarrow> parsed_config \<Rightarrow> parsed_cache" where
  "merged_cache svc cfg =
     (case (service_cache svc, Option.bind (service_defaults cfg) default_cache) of
        (Some c, Some d) \<Rightarrow> mergeCacheConfigs d c
      | (Some c, None) \<Rightarrow> c
      | (None, Some d) \<Rightarrow> d
      | (None, None) \<Rightarrow> no_cache_fields)"

definition validate_cache :: "string \<Rightarrow> parsed_cache \<Rightarrow> report" where
  "validate_cache nm c = combine
     [problem_if (cache_enabled c = None) (OnService nm CacheEnabledRequired),
      problem_if (max_tracks c = None) (OnService nm MaxTracksRequired),
      problem_if (max_groups_per_track c = None) (OnService nm MaxGroupsRequired),
      problem_if (cache_enabled c = Some True \<and> max_groups_per_track c = Some 0) (OnService nm MaxGroupsZero),
      problem_if (max_cache_duration_s c = Some 0) (OnService nm CacheDurationZero),
      problem_if (max_cached_mb c = Some 0) (OnService nm CachedMbZero)]"

record service_maps =
  compositeKeys :: "string list"
  mergedCaches :: "(string \<times> parsed_cache) list"
  mergedAuths :: "(string \<times> parsed_auth) list"

definition validateService ::
  "host \<Rightarrow> string \<Rightarrow> parsed_service \<Rightarrow> parsed_config \<Rightarrow> service_maps \<Rightarrow> report \<times> service_maps" where
  "validateService H nm svc cfg ms =
     (let (r1, keys) = check_match nm 0 (match_rules_of svc) (compositeKeys ms);
          merged = merged_cache svc cfg;
          caches = try_emplace nm merged (mergedCaches ms);
          (r2, auths) = validateServiceAuth H nm svc cfg (mergedAuths ms)
      in (combine
            [r1, validate_cache nm merged,
             problem_if (mergedSubscriptionBufferKb svc cfg = None) (OnService nm BufferRequired),
             (case upstream svc of None \<Rightarrow> ([], []) | Some u \<Rightarrow> validateUpstream u),
             (case upstreams svc of
                None \<Rightarrow> ([], [])
              | Some us \<Rightarrow> combine (problem_if (upstream svc \<noteq> None) (OnService nm UpstreamsExclusive) # map validateUpstream us)),
             r2],
          \<lparr>compositeKeys = keys, mergedCaches = caches, mergedAuths = auths\<rparr>))"

fun validate_services ::
  "host \<Rightarrow> parsed_config \<Rightarrow> (string \<times> parsed_service) list \<Rightarrow> service_maps \<Rightarrow> report \<times> service_maps" where
  "validate_services H cfg [] ms = (([], []), ms)"
| "validate_services H cfg ((nm, svc) # ss) ms =
     (let (r, ms1) = validateService H nm svc cfg ms;
          (rs, ms2) = validate_services H cfg ss ms1
      in (combine [r, rs], ms2))"

definition resolveService ::
  "host \<Rightarrow> parsed_service \<Rightarrow> parsed_cache \<Rightarrow> parsed_auth option \<Rightarrow> nat \<Rightarrow> service_config option" where
  "resolveService H svc cache authOpt buffer =
     do {
       cc \<leftarrow> resolveCacheConfig cache;
       ac \<leftarrow> resolveAuth H authOpt;
       Some \<lparr>match = map resolveMatchEntry (match_rules_of svc), cache_cfg = cc,
             svc_upstream = map_option resolveUpstream (upstream svc), auth = ac,
             svc_upstreams = map resolveUpstream (value_or (upstreams svc) []),
             maxSubscriptionBufferKb = buffer\<rparr>
     }"

text \<open>Warnings about prefix paths, which picoquic listeners cannot route.\<close>

definition validatePicoServicePaths :: "(string \<times> parsed_service) list \<Rightarrow> string list \<Rightarrow> report" where
  "validatePicoServicePaths ss pico =
     (let rules = concat (map (\<lambda>(nm, svc). map (\<lambda>(j, r). (nm, j, rule_path r)) (enumerate 0 (match_rules_of svc))) ss);
          prefixes = concat (map (\<lambda>(nm, j, p). case p of PPrefixPath s \<Rightarrow> [PicoPrefixPath pico (nm, j) s] | PExactPath _ \<Rightarrow> []) rules);
          exactPathCount = length (filter (\<lambda>(nm, j, p). case p of PExactPath _ \<Rightarrow> True | PPrefixPath _ \<Rightarrow> False) rules)
      in ([], prefixes @ (if exactPathCount = 0 then [PicoNoExactPath pico] else [])))"

section \<open>The whole configuration\<close>

datatype failure =
    NoListeners
  | Invalid "problem list"
  | MaxLimitZero nat
  | LimitExceedsMax nat nat
  | MlogDirAccess string string
  | MlogDirNotDirectory string
  | QlogSampleRate flt

definition resolve_admin :: "parsed_config \<Rightarrow> tls_material option \<Rightarrow> failure + admin_config option" where
  "resolve_admin cfg mat =
     (case parsed_admin_config cfg of
        None \<Rightarrow> Inr None
      | Some a \<Rightarrow>
          let limit = value_or (track_metrics_endpoint_default_limit a) 10;
              maxLimit = value_or (track_metrics_endpoint_max_limit a) 1000
          in if track_metrics_endpoint_max_limit a = Some 0 then Inl (MaxLimitZero 0)
             else if limit > maxLimit then Inl (LimitExceedsMax limit maxLimit)
             else Inr (Some
               \<lparr>adm_address = (admin_address a, admin_port a),
                adm_tls = map_option (\<lambda>t. resolveAdminTlsConfig t [''h2'', ''http/1.1''] mat) (admin_tls a),
                trackMetricsEnabled = value_or (track_metrics_enabled a) False,
                trackMetricsLimit = limit, trackMetricsMaxLimit = maxLimit\<rparr>))"

definition resolve_log :: "parsed_log \<Rightarrow> log_config" where
  "resolve_log p = \<lparr>dir = log_dir p, sampleRate = value_or (sample_rate p) (Num 0)\<rparr>"

definition mlog_failure :: "host \<Rightarrow> log_config \<Rightarrow> failure option" where
  "mlog_failure H m =
     (if dir m = [] then None
      else case path_status H (dir m) of
             AccessError e \<Rightarrow> Some (MlogDirAccess (dir m) e)
           | OtherFile \<Rightarrow> Some (MlogDirNotDirectory (dir m))
           | _ \<Rightarrow> None)"

definition qlog_failure :: "log_config \<Rightarrow> failure option" where
  "qlog_failure q =
     (if flt_less (sampleRate q) (Num 0) \<or> flt_less (Num 1) (sampleRate q)
      then Some (QlogSampleRate (sampleRate q)) else None)"

definition resolve_logging :: "host \<Rightarrow> parsed_config \<Rightarrow> failure + logging_config option" where
  "resolve_logging H cfg =
     (case parsed_logging_config cfg of
        None \<Rightarrow> Inr None
      | Some l \<Rightarrow>
          let m = map_option resolve_log (parsed_mlog l); q = map_option resolve_log (parsed_qlog l) in
          case Option.bind m (mlog_failure H) of
            Some f \<Rightarrow> Inl f
          | None \<Rightarrow>
              (case Option.bind q qlog_failure of
                 Some f \<Rightarrow> Inl f
               | None \<Rightarrow> Inr (Some \<lparr>mlog = m, qlog = q\<rparr>)))"

definition resolve_services ::
  "host \<Rightarrow> parsed_config \<Rightarrow> service_maps \<Rightarrow> (string \<times> service_config) list option" where
  "resolve_services H cfg ms =
     those (map (\<lambda>(nm, svc). do {
         cache \<leftarrow> map_of (mergedCaches ms) nm;
         buffer \<leftarrow> mergedSubscriptionBufferKb svc cfg;
         s \<leftarrow> resolveService H svc cache (map_of (mergedAuths ms) nm) buffer;
         Some (nm, s) }) (parsed_services cfg))"

definition resolve_cluster :: "host \<Rightarrow> parsed_config \<Rightarrow> nat option" where
  "resolve_cluster H cfg =
     (case parsed_cluster_config cfg of
        None \<Rightarrow> Some (new_hop_id H)
      | Some c \<Rightarrow> if value_or (cluster_enabled c) True then Some (value_or (hop_id c) (new_hop_id H)) else None)"

text \<open>Everything the function checks before it resolves: the report, and what the loops built.\<close>

definition validate_config ::
  "host \<Rightarrow> parsed_config \<Rightarrow>
   report \<times> (tls_material option \<times> quic_config \<times> mvfst_config) list \<times> tls_material option \<times> service_maps" where
  "validate_config H cfg =
     (let qd = Option.bind (listener_defaults cfg) default_quic;
          md = Option.bind (listener_defaults cfg) default_mvfst;
          (r1, xs) = check_listeners H qd md [] (listeners cfg);
          pico = map listener_name (filter (\<lambda>l. parseQuicStack (quic_stack l) = Picoquic) (listeners cfg));
          (adminMaterial, r4) = (case Option.bind (parsed_admin_config cfg) admin_tls of
             None \<Rightarrow> (None, [], []) | Some t \<Rightarrow> resolvePkcs12Material H t AtAdminTls);
          (r6, ms) = validate_services H cfg (parsed_services cfg)
             \<lparr>compositeKeys = [], mergedCaches = [], mergedAuths = []\<rparr>;
          thr = value_or (parsed_threads cfg) 1;
          relayThread = value_or (use_relay_thread cfg) True;
          localForwarders = value_or (use_local_forwarders cfg) False
      in (combine
            [warn_if (listForm cfg) ListFormDeprecated, r1,
             (if pico \<noteq> [] then validatePicoServicePaths (parsed_services cfg) pico else ([], [])),
             validateAdmin H cfg, r4,
             problem_if (parsed_services cfg = []) NoServices, r6,
             problem_if (thr = 0) ThreadsZero,
             problem_if (thr > 1 \<and> \<not> relayThread) RelayThreadRequired,
             problem_if (localForwarders \<and> \<not> relayThread) LocalForwardersRelayThread,
             (case Option.bind (Option.bind (parsed_logging_config cfg) parsed_mlog) sample_rate of
                None \<Rightarrow> ([], [])
              | Some rate \<Rightarrow> problem_if (flt_less rate (Num 0) \<or> flt_less (Num 1) rate) (MlogSampleRate rate))],
          xs, adminMaterial, ms))"

definition resolveConfig :: "host \<Rightarrow> parsed_config \<Rightarrow> (failure + relay_config \<times> warning list) option" where
  "resolveConfig H cfg =
     (if listeners cfg = [] then Some (Inl NoListeners)
      else
        let ((errors, warnings), xs, adminMaterial, ms) = validate_config H cfg in
        if errors \<noteq> [] then Some (Inl (Invalid errors))
        else do {
          svcs \<leftarrow> resolve_services H cfg ms;
          Some (case resolve_admin cfg adminMaterial of
              Inl f \<Rightarrow> Inl f
            | Inr adm \<Rightarrow>
                (case resolve_logging H cfg of
                   Inl f \<Rightarrow> Inl f
                 | Inr lg \<Rightarrow> Inr
                     (\<lparr>cfg_listeners = map2 (\<lambda>l (mat, q, m). resolveListener l q m mat) (listeners cfg) xs,
                       services = svcs, admin = adm,
                       relayID = value_or (relay_id cfg) (new_relay_id H),
                       threads = value_or (parsed_threads cfg) 1,
                       useRelayThread = value_or (use_relay_thread cfg) True,
                       useLocalForwarders = value_or (use_local_forwarders cfg) False,
                       mvfstBpfSteering = value_or (mvfst_bpf_steering cfg) True,
                       logging = lg, cluster = resolve_cluster H cfg\<rparr>, warnings))) })"

end
