(* ===== verification/Config_Correct.thy ===== *)
theory Config_Correct
  imports Config_Resolver "HOL-Library.Multiset" "HOL-Library.Code_Target_Nat"
begin

text \<open>
  What an accepted configuration guarantees: resolution never reads a field that is absent, the
  result is well-formed, and routing does not depend on the order in which the hash map of
  services is walked.
\<close>

section \<open>Reports\<close>

lemma fst_combine [simp]: "fst (combine rs) = concat (map fst rs)"
  by (simp add: combine_def)

lemma fst_problem_if [simp]: "fst (problem_if b p) = [] \<longleftrightarrow> \<not> b"
  by (simp add: problem_if_def)

lemma fst_warn_if [simp]: "fst (warn_if b w) = []"
  by (simp add: warn_if_def)

lemma those_Some: "those xs = Some ys \<longleftrightarrow> map Some ys = xs"
proof (induction xs arbitrary: ys)
  case (Cons x xs)
  then show ?case by (cases x; cases ys) auto
qed auto

lemma those_map: "(\<And>x. x \<in> set xs \<Longrightarrow> f x = Some (g x)) \<Longrightarrow> those (map f xs) = Some (map g xs)"
  by (simp add: those_Some)

section \<open>Listeners\<close>

lemma check_listener_seen:
  "snd (check_listener H qd md seen l) = snd (check_listener H qd md [] l)"
  "fst (fst (check_listener H qd md seen l)) = [] \<longleftrightarrow>
     fst (fst (check_listener H qd md [] l)) = [] \<and> listener_addr l \<notin> set seen"
  by (auto simp: check_listener_def Let_def split: prod.split)

lemma check_listeners_ok:
  "fst (fst (check_listeners H qd md seen ls)) = [] \<longleftrightarrow>
     (\<forall>l\<in>set ls. fst (fst (check_listener H qd md [] l)) = []) \<and>
     distinct (map listener_addr ls) \<and> set (map listener_addr ls) \<inter> set seen = {}"
proof (induction ls arbitrary: seen)
  case (Cons l ls)
  have "fst (fst (check_listeners H qd md seen (l # ls))) = [] \<longleftrightarrow>
      fst (fst (check_listener H qd md seen l)) = [] \<and> fst (fst (check_listeners H qd md (listener_addr l # seen) ls)) = []"
    by (simp add: Let_def split: prod.split)
  then show ?case using check_listener_seen(2) [of H qd md seen l] Cons.IH [of "listener_addr l # seen"] by auto
qed simp

lemma check_listeners_settings:
  "snd (check_listeners H qd md seen ls) = map (\<lambda>l. snd (check_listener H qd md [] l)) ls"
proof (induction ls arbitrary: seen)
  case (Cons l ls)
  then show ?case using check_listener_seen(1) [of H qd md seen l] by (simp add: Let_def case_prod_beta)
qed simp

text \<open>The text under which addresses are compared determines address and port.\<close>

lemma std_to_string_digits: "ch \<in> set (std_to_string n) \<Longrightarrow> ch \<noteq> CHR '':''"
proof (induction n rule: std_to_string.induct)
  case (1 n)
  have d: "char_of (48 + k :: nat) \<noteq> CHR '':''" if "k < 10" for k
  proof
    assume "char_of (48 + k) = CHR '':''"
    then have "of_char (char_of (48 + k) :: char) = (58 :: nat)" by simp
    then show False using that by simp
  qed
  show ?case
  proof (cases "n < 10")
    case True
    then show ?thesis using 1(2) d by (subst (asm) std_to_string.simps) auto
  next
    case False
    then show ?thesis using 1 d [of "n mod 10"] by (subst (asm) (2) std_to_string.simps) auto
  qed
qed

lemma std_to_string_inj: "std_to_string m = std_to_string n \<Longrightarrow> m = n"
proof (induction m arbitrary: n rule: std_to_string.induct)
  case (1 m)
  have ne: "std_to_string k \<noteq> []" "[] \<noteq> std_to_string k" for k by (subst std_to_string.simps, simp)+
  have d: "j = k" if "char_of (48 + j :: nat) = (char_of (48 + k) :: char)" "j < 10" "k < 10" for j k
  proof -
    have "of_char (char_of (48 + j) :: char) = (of_char (char_of (48 + k) :: char) :: nat)" using that(1) by simp
    then show ?thesis using that(2,3) by simp
  qed
  have e: "std_to_string k = (if k < 10 then [] else std_to_string (k div 10)) @ [char_of (48 + k mod 10)]" for k
    by (subst std_to_string.simps) simp
  have "(if m < 10 then [] else std_to_string (m div 10)) @ [char_of (48 + m mod 10)] =
      (if n < 10 then [] else std_to_string (n div 10)) @ [char_of (48 + n mod 10)]"
    using 1(2) unfolding e [of m] e [of n] .
  then have h: "(if m < 10 then [] else std_to_string (m div 10)) = (if n < 10 then [] else std_to_string (n div 10))"
    and l: "m mod 10 = n mod 10"
    using d [of "m mod 10" "n mod 10"] by simp_all
  show ?case
  proof (cases "m < 10")
    case True
    then have "n < 10" using h ne by (auto split: if_splits)
    then show ?thesis using True l by simp
  next
    case False
    then have n: "\<not> n < 10" using h ne by (auto split: if_splits)
    then have "m div 10 = n div 10" using h False 1(1) by simp
    then show ?thesis using l by (metis div_mult_mod_eq)
  qed
qed

lemma append_sep_unique:
  assumes "xs @ c # ys = xs' @ c # ys'" and "c \<notin> set ys" and "c \<notin> set ys'"
  shows "xs = xs' \<and> ys = ys'"
  using assms by (auto simp: append_eq_append_conv2 append_eq_Cons_conv Cons_eq_append_conv)

lemma listener_addr_inj:
  assumes "listener_addr l = listener_addr l'"
  shows "udp_socket l = udp_socket l'"
proof -
  have "sock_address (udp_socket l) = sock_address (udp_socket l') \<and>
      std_to_string (sock_port (udp_socket l)) = std_to_string (sock_port (udp_socket l'))"
    by (rule append_sep_unique [of _ "CHR '':''"])
      (use assms std_to_string_digits in \<open>auto simp: listener_addr_def\<close>)
  then show ?thesis using std_to_string_inj by simp
qed

section \<open>Match rules\<close>

definition authority_key :: "parsed_authority \<Rightarrow> string \<times> string" where
  "authority_key a = (case a of PExactAuthority e \<Rightarrow> (''exact'', e) | PWildcardAuthority p \<Rightarrow> (''wildcard'', p)
     | PAnyAuthority _ \<Rightarrow> (''any'', []))"

definition entry_key :: "match_rule_config \<Rightarrow> string" where
  "entry_key e = (case authority_key (rule_authority e) of (ty, v) \<Rightarrow> makeCompositeKey ty v (rule_path e))"

text \<open>What is accepted of a match rule.\<close>

definition authority_ok :: "parsed_authority \<Rightarrow> bool" where
  "authority_ok a = (case a of
      PExactAuthority e \<Rightarrow> e \<noteq> []
    | PWildcardAuthority p \<Rightarrow> (\<exists>rest. p = ''*.'' @ rest \<and> rest \<noteq> [] \<and> CHR ''*'' \<notin> set rest)
    | PAnyAuthority b \<Rightarrow> b)"

definition entry_ok :: "match_rule_config \<Rightarrow> bool" where
  "entry_ok e \<longleftrightarrow> authority_ok (rule_authority e) \<and> (\<exists>rest. path_value (rule_path e) = CHR ''/'' # rest)"

lemma wildcard_shape:
  "\<not> (length p < 3 \<or> p ! 0 \<noteq> CHR ''*'' \<or> p ! 1 \<noteq> CHR ''.'') \<longleftrightarrow> (\<exists>rest. p = ''*.'' @ rest \<and> rest \<noteq> [])"
proof (cases p)
  case (Cons a q)
  then show ?thesis by (cases q) (auto simp: Suc_le_eq neq_Nil_conv less_Suc_eq_0_disj not_less)
qed simp

lemma validateAuthority_ok:
  "validateAuthority a lb = (if authority_ok a then (Some (authority_key a), [], []) else (None, fst (snd (validateAuthority a lb)), []))"
  "\<not> authority_ok a \<Longrightarrow> fst (snd (validateAuthority a lb)) \<noteq> []"
proof -
  have w: "authority_ok (PWildcardAuthority p) \<longleftrightarrow>
      \<not> (length p < 3 \<or> p ! 0 \<noteq> CHR ''*'' \<or> p ! 1 \<noteq> CHR ''.'') \<and> CHR ''*'' \<notin> set (drop 2 p)" for p
    unfolding wildcard_shape by (auto simp: authority_ok_def)
  show "validateAuthority a lb = (if authority_ok a then (Some (authority_key a), [], []) else (None, fst (snd (validateAuthority a lb)), []))"
    by (cases a) (auto simp: validateAuthority_def authority_key_def w, auto simp: authority_ok_def)
  show "\<not> authority_ok a \<Longrightarrow> fst (snd (validateAuthority a lb)) \<noteq> []"
    by (cases a) (auto simp: validateAuthority_def w, auto simp: authority_ok_def)
qed

lemma validatePath_ok:
  "fst (validatePath p lb) \<longleftrightarrow> (\<exists>rest. path_value p = CHR ''/'' # rest)"
  "fst (snd (validatePath p lb)) = [] \<longleftrightarrow> fst (validatePath p lb)"
  by (cases "path_value p"; simp add: validatePath_def)+

lemma check_match_ok:
  assumes "check_match svc j es keys = (r, keys')"
  shows "fst r = [] \<longleftrightarrow> (\<forall>e\<in>set es. entry_ok e) \<and> distinct (map entry_key es) \<and> set (map entry_key es) \<inter> set keys = {}"
    and "fst r = [] \<Longrightarrow> set keys' = set keys \<union> set (map entry_key es)"
proof -
  have "(fst r = [] \<longleftrightarrow> (\<forall>e\<in>set es. entry_ok e) \<and> distinct (map entry_key es) \<and> set (map entry_key es) \<inter> set keys = {}) \<and>
    (fst r = [] \<longrightarrow> set keys' = set keys \<union> set (map entry_key es))"
    using assms
  proof (induction es arbitrary: j keys r keys')
    case (Cons e es)
    show ?case
    proof (cases "authority_ok (rule_authority e)")
      case False
      then have "fst r \<noteq> []"
        using Cons.prems validateAuthority_ok(1) [of "rule_authority e" "(svc, j)"] False
          validateAuthority_ok(2) [OF False, of "(svc, j)"]
        by (cases "validateAuthority (rule_authority e) (svc, j)") (auto simp: case_prod_beta)
      then show ?thesis using False by (auto simp: entry_ok_def)
    next
      case True
      note a = validateAuthority_ok(1) [of "rule_authority e" "(svc, j)", simplified True if_True]
      obtain valid r2 where p: "validatePath (rule_path e) (svc, j) = (valid, r2)" by (cases "validatePath (rule_path e) (svc, j)")
      show ?thesis
      proof (cases valid)
        case False
        then have "fst r2 \<noteq> []" using validatePath_ok(2) [of "rule_path e" "(svc, j)"] p by simp
        then have "fst r \<noteq> []"
          using Cons.prems False by (auto simp: a p Let_def split: prod.splits)
        moreover have "\<not> entry_ok e" using validatePath_ok(1) [of "rule_path e" "(svc, j)"] p False by (simp add: entry_ok_def)
        ultimately show ?thesis by auto
      next
        case v: True
        have ok: "entry_ok e" and r2: "fst r2 = []"
          using validatePath_ok [of "rule_path e" "(svc, j)"] p v True by (simp_all add: entry_ok_def)
        obtain ty w where ak: "authority_key (rule_authority e) = (ty, w)" by (rule prod.exhaust)
        then have key: "makeCompositeKey ty w (rule_path e) = entry_key e" by (simp add: entry_key_def)
        obtain rs k2 where n: "check_match svc (Suc j) es (if makeCompositeKey ty w (rule_path e) \<in> set keys then keys
              else makeCompositeKey ty w (rule_path e) # keys) = (rs, k2)"
          by (rule prod.exhaust)
        have "fst r = [] \<longleftrightarrow> entry_key e \<notin> set keys \<and> fst rs = []" and "keys' = k2"
          using Cons.prems n r2 v key by (auto simp: a p ak Let_def)
        then show ?thesis using Cons.IH [OF n [unfolded key]] ok by auto
      qed
    qed
  qed simp
  then show "fst r = [] \<longleftrightarrow> (\<forall>e\<in>set es. entry_ok e) \<and> distinct (map entry_key es) \<and> set (map entry_key es) \<inter> set keys = {}"
    and "fst r = [] \<Longrightarrow> set keys' = set keys \<union> set (map entry_key es)" by blast+
qed

section \<open>Authorization\<close>

lemma check_keys_ok:
  "check_keys svc i ks ids = [] \<longleftrightarrow>
     (\<forall>k\<in>set ks. key_id k \<noteq> [] \<and> secret k \<noteq> []) \<and> distinct (map key_id ks) \<and> set (map key_id ks) \<inter> set ids = {}"
  by (induction ks arbitrary: i ids) auto

definition action_ok :: "host \<Rightarrow> string \<Rightarrow> bool" where
  "action_ok H nm = (case canonicalAction (trimWhitespace H) nm of
     None \<Rightarrow> False | Some a \<Rightarrow> a \<noteq> ClientSetup \<and> a \<noteq> ServerSetup)"

lemma check_action_ok: "check_action H svc i nm = [] \<longleftrightarrow> action_ok H nm"
  by (auto simp: check_action_def action_ok_def split: option.split)

lemma check_scopes_ok:
  "check_scopes H svc i scs = [] \<longleftrightarrow> (\<forall>sc\<in>set scs. scope_actions sc \<noteq> [] \<and> (\<forall>nm\<in>set (scope_actions sc). action_ok H nm))"
  by (induction scs arbitrary: i) (auto simp: check_action_ok)

definition canonical :: "host \<Rightarrow> string \<Rightarrow> action" where
  "canonical H nm = the (canonicalAction (trimWhitespace H) nm)"

lemma resolveAnonymousScope_ok:
  assumes "\<forall>nm\<in>set (scope_actions sc). action_ok H nm"
  obtains s where "resolveAnonymousScope H sc = Some s" "anon_actions s = map (canonical H) (scope_actions sc)"
proof -
  have "those (map (canonicalAction (trimWhitespace H)) (scope_actions sc)) = Some (map (canonical H) (scope_actions sc))"
    by (rule those_map) (use assms in \<open>auto simp: action_ok_def canonical_def split: option.splits\<close>)
  then show thesis using that by (simp add: resolveAnonymousScope_def case_prod_beta Let_def)
qed

text \<open>The settings a service may be run with.\<close>

definition auth_wf :: "auth_config \<Rightarrow> bool" where
  "auth_wf a \<longleftrightarrow>
     (enabled a \<longrightarrow> hmacKeys a \<noteq> [] \<and> distinct (map key_id (hmacKeys a)) \<and>
        (\<forall>k\<in>set (hmacKeys a). key_id k \<noteq> [] \<and> secret k \<noteq> []) \<and>
        tokenType a < kQuicVarintExclusiveUpperBound \<and> maxTokensPerMessage a \<ge> 1) \<and>
     (\<forall>s\<in>set (anonymousClaim a). anon_actions s \<noteq> [] \<and> ClientSetup \<notin> set (anon_actions s) \<and> ServerSetup \<notin> set (anon_actions s))"

lemma resolveAuth_ok:
  assumes ok: "fst (validateAuth H svc a) = []"
  obtains ac where "resolveAuth H (Some a) = Some ac" "auth_wf ac" "hmacKeys ac = value_or (hmac_keys a) []"
proof -
  let ?scs = "value_or (anonymous_claim a) []"
  have sc: "\<forall>sc\<in>set ?scs. scope_actions sc \<noteq> [] \<and> (\<forall>nm\<in>set (scope_actions sc). action_ok H nm)"
    using ok by (cases "anonymous_claim a") (auto simp: validateAuth_def value_or_def check_scopes_ok)
  define f where "f sc = the (resolveAnonymousScope H sc)" for sc
  have f: "resolveAnonymousScope H sc = Some (f sc)" "anon_actions (f sc) = map (canonical H) (scope_actions sc)"
    if m: "sc \<in> set ?scs" for sc
  proof -
    obtain s where "resolveAnonymousScope H sc = Some s" "anon_actions s = map (canonical H) (scope_actions sc)"
      using resolveAnonymousScope_ok sc m by blast
    then show "resolveAnonymousScope H sc = Some (f sc)" "anon_actions (f sc) = map (canonical H) (scope_actions sc)"
      by (simp_all add: f_def)
  qed
  then have t: "those (map (resolveAnonymousScope H) ?scs) = Some (map f ?scs)" by (intro those_map) simp
  have anon: "anon_actions s \<noteq> [] \<and> ClientSetup \<notin> set (anon_actions s) \<and> ServerSetup \<notin> set (anon_actions s)"
    if m: "s \<in> set (map f ?scs)" for s
  proof -
    obtain sc where s: "sc \<in> set ?scs" "s = f sc" using m by auto
    have "canonical H nm \<noteq> ClientSetup \<and> canonical H nm \<noteq> ServerSetup" if "nm \<in> set (scope_actions sc)" for nm
      using sc s(1) that by (auto simp: canonical_def action_ok_def split: option.splits)
    then have "ClientSetup \<notin> canonical H ` set (scope_actions sc)" "ServerSetup \<notin> canonical H ` set (scope_actions sc)"
      by (metis imageE)+
    moreover have "scope_actions sc \<noteq> []" using sc s(1) by blast
    ultimately show ?thesis using f(2) [OF s(1)] s(2) by simp
  qed
  have "auth_enabled a \<longrightarrow> value_or (hmac_keys a) [] \<noteq> [] \<and> distinct (map key_id (value_or (hmac_keys a) [])) \<and>
      (\<forall>k\<in>set (value_or (hmac_keys a) []). key_id k \<noteq> [] \<and> secret k \<noteq> []) \<and>
      value_or (token_type a) 0 < kQuicVarintExclusiveUpperBound \<and> value_or (max_tokens_per_message a) 0 \<ge> 1"
    using ok by (auto simp: validateAuth_def value_or_def check_keys_ok split: option.splits if_splits)
  then show thesis using that t anon by (auto simp: resolveAuth_def auth_wf_def)
qed

section \<open>Services\<close>

definition service_ok :: "host \<Rightarrow> parsed_config \<Rightarrow> string \<Rightarrow> parsed_service \<Rightarrow> bool" where
  "service_ok H cfg nm svc \<longleftrightarrow>
     (\<forall>e\<in>set (match_rules_of svc). entry_ok e) \<and> fst (validate_cache nm (merged_cache svc cfg)) = [] \<and>
     mergedSubscriptionBufferKb svc cfg \<noteq> None \<and>
     (\<forall>u. upstream svc = Some u \<longrightarrow> fst (validateUpstream u) = []) \<and>
     (\<forall>us. upstreams svc = Some us \<longrightarrow> upstream svc = None \<and> (\<forall>u\<in>set us. fst (validateUpstream u) = [])) \<and>
     (\<forall>a. service_auth svc = Some a \<longrightarrow> fst (validateAuth H nm (merge_auth cfg a)) = [])"

lemma validateService_ok:
  assumes "validateService H nm svc cfg ms = (r, ms')"
  shows "fst r = [] \<longleftrightarrow> service_ok H cfg nm svc \<and> distinct (map entry_key (match_rules_of svc)) \<and>
       set (map entry_key (match_rules_of svc)) \<inter> set (compositeKeys ms) = {}"
    and "fst r = [] \<Longrightarrow> set (compositeKeys ms') = set (compositeKeys ms) \<union> set (map entry_key (match_rules_of svc))"
    and "mergedCaches ms' = try_emplace nm (merged_cache svc cfg) (mergedCaches ms)"
    and "mergedAuths ms' = (case service_auth svc of None \<Rightarrow> mergedAuths ms | Some a \<Rightarrow> try_emplace nm (merge_auth cfg a) (mergedAuths ms))"
proof -
  obtain r1 keys where k: "check_match nm 0 (match_rules_of svc) (compositeKeys ms) = (r1, keys)" by (rule prod.exhaust)
  note c = check_match_ok [OF k]
  have f: "fst r = [] \<longleftrightarrow> fst r1 = [] \<and> fst (validate_cache nm (merged_cache svc cfg)) = [] \<and>
     mergedSubscriptionBufferKb svc cfg \<noteq> None \<and>
     (\<forall>u. upstream svc = Some u \<longrightarrow> fst (validateUpstream u) = []) \<and>
     (\<forall>us. upstreams svc = Some us \<longrightarrow> upstream svc = None \<and> (\<forall>u\<in>set us. fst (validateUpstream u) = [])) \<and>
     (\<forall>a. service_auth svc = Some a \<longrightarrow> fst (validateAuth H nm (merge_auth cfg a)) = [])"
    and m: "compositeKeys ms' = keys" "mergedCaches ms' = try_emplace nm (merged_cache svc cfg) (mergedCaches ms)"
      "mergedAuths ms' = (case service_auth svc of None \<Rightarrow> mergedAuths ms | Some a \<Rightarrow> try_emplace nm (merge_auth cfg a) (mergedAuths ms))"
    using assms by (auto simp: validateService_def k validateServiceAuth_def Let_def split: option.splits)
  show "fst r = [] \<longleftrightarrow> service_ok H cfg nm svc \<and> distinct (map entry_key (match_rules_of svc)) \<and>
       set (map entry_key (match_rules_of svc)) \<inter> set (compositeKeys ms) = {}"
    unfolding f c(1) service_ok_def by blast
  show "fst r = [] \<Longrightarrow> set (compositeKeys ms') = set (compositeKeys ms) \<union> set (map entry_key (match_rules_of svc))"
    using f c(2) m(1) by simp
  show "mergedCaches ms' = try_emplace nm (merged_cache svc cfg) (mergedCaches ms)"
    "mergedAuths ms' = (case service_auth svc of None \<Rightarrow> mergedAuths ms | Some a \<Rightarrow> try_emplace nm (merge_auth cfg a) (mergedAuths ms))"
    by (rule m)+
qed

abbreviation all_rules :: "(string \<times> parsed_service) list \<Rightarrow> match_rule_config list" where
  "all_rules ss \<equiv> concat (map (\<lambda>(nm, svc). match_rules_of svc) ss)"

lemma disjoint_parts:
  assumes P and Q and "K \<inter> C = {}"
  shows "X \<and> Y \<and> R \<inter> (C \<union> K) = {} \<longleftrightarrow> (P \<and> X) \<and> (Q \<and> Y \<and> K \<inter> R = {}) \<and> (K \<union> R) \<inter> C = {}"
  using assms by blast

lemma validate_services_ok:
  assumes "validate_services H cfg ss ms = (r, ms')"
  shows "fst r = [] \<longleftrightarrow> (\<forall>(nm, svc)\<in>set ss. service_ok H cfg nm svc) \<and> distinct (map entry_key (all_rules ss)) \<and>
       set (map entry_key (all_rules ss)) \<inter> set (compositeKeys ms) = {}"
  using assms
proof (induction ss arbitrary: ms r)
  case Nil
  then show ?case by auto
next
  case (Cons x ss)
  obtain nm svc where x: "x = (nm, svc)" by (rule prod.exhaust)
  obtain r1 m1 where v: "validateService H nm svc cfg ms = (r1, m1)" by (rule prod.exhaust)
  obtain r2 m2 where n: "validate_services H cfg ss m1 = (r2, m2)" by (rule prod.exhaust)
  have r: "r = combine [r1, r2]" and m2: "m2 = ms'" using Cons.prems by (simp_all add: x v n)
  note IH = Cons.IH [OF n [unfolded m2]]
  show ?case
  proof (cases "fst r1 = []")
    case False
    then show ?thesis using validateService_ok(1) [OF v] r by (auto simp: x)
  next
    case True
    note k = validateService_ok(2) [OF v True]
    let ?K = "set (map entry_key (match_rules_of svc))" and ?R = "set (map entry_key (all_rules ss))"
    have 1: "fst r = [] \<longleftrightarrow> (\<forall>(nm, svc)\<in>set ss. service_ok H cfg nm svc) \<and> distinct (map entry_key (all_rules ss)) \<and>
        ?R \<inter> (set (compositeKeys ms) \<union> ?K) = {}"
      using IH r True unfolding k by simp
    have 2: "service_ok H cfg nm svc" "distinct (map entry_key (match_rules_of svc))" "?K \<inter> set (compositeKeys ms) = {}"
      using validateService_ok(1) [OF v] True by blast+
    have 3: "map entry_key (all_rules (x # ss)) = map entry_key (match_rules_of svc) @ map entry_key (all_rules ss)"
      by (simp add: x)
    have 4: "(\<forall>(nm, svc)\<in>set (x # ss). service_ok H cfg nm svc) \<longleftrightarrow>
        service_ok H cfg nm svc \<and> (\<forall>(nm, svc)\<in>set ss. service_ok H cfg nm svc)"
      by (simp add: x)
    show ?thesis unfolding 1 3 4 distinct_append set_append by (rule disjoint_parts [OF 2])
  qed
qed

lemma validate_services_maps:
  assumes "validate_services H cfg ss ms = (r, ms')" and "distinct (map fst ss)"
    and "\<forall>nm\<in>set (map fst ss). map_of (mergedCaches ms) nm = None \<and> map_of (mergedAuths ms) nm = None"
  shows "\<forall>(nm, svc)\<in>set ss. map_of (mergedCaches ms') nm = Some (merged_cache svc cfg) \<and>
      map_of (mergedAuths ms') nm = map_option (merge_auth cfg) (service_auth svc)"
    and "\<forall>nm. nm \<notin> set (map fst ss) \<longrightarrow> map_of (mergedCaches ms') nm = map_of (mergedCaches ms) nm \<and>
      map_of (mergedAuths ms') nm = map_of (mergedAuths ms) nm"
proof -
  have "(\<forall>(nm, svc)\<in>set ss. map_of (mergedCaches ms') nm = Some (merged_cache svc cfg) \<and>
      map_of (mergedAuths ms') nm = map_option (merge_auth cfg) (service_auth svc)) \<and>
    (\<forall>nm. nm \<notin> set (map fst ss) \<longrightarrow> map_of (mergedCaches ms') nm = map_of (mergedCaches ms) nm \<and>
      map_of (mergedAuths ms') nm = map_of (mergedAuths ms) nm)"
    using assms
  proof (induction ss arbitrary: ms r)
    case (Cons x ss)
    obtain nm svc where x: "x = (nm, svc)" by (rule prod.exhaust)
    obtain r1 m1 where v: "validateService H nm svc cfg ms = (r1, m1)" by (rule prod.exhaust)
    obtain r2 m2 where n: "validate_services H cfg ss m1 = (r2, m2)" by (rule prod.exhaust)
    have m2: "m2 = ms'" using Cons.prems(1) by (simp add: x v n)
    have c: "map_of (mergedCaches m1) k = (if k = nm then Some (merged_cache svc cfg) else map_of (mergedCaches ms) k)"
      and a: "map_of (mergedAuths m1) k = (if k = nm then map_option (merge_auth cfg) (service_auth svc) else map_of (mergedAuths ms) k)" for k
      using validateService_ok(3,4) [OF v] Cons.prems(3)
      by (auto simp: x map_of_try_emplace split: option.splits)
    have "\<forall>k\<in>set (map fst ss). map_of (mergedCaches m1) k = None \<and> map_of (mergedAuths m1) k = None"
      using Cons.prems(2,3) by (auto simp: x c a)
    note IH = Cons.IH [OF n [unfolded m2] _ this]
    have d: "distinct (map fst ss)" "nm \<notin> set (map fst ss)" using Cons.prems(2) by (simp_all add: x)
    show ?case using IH [OF d(1)] d(2) by (auto simp: x c a)
  qed simp
  then show "\<forall>(nm, svc)\<in>set ss. map_of (mergedCaches ms') nm = Some (merged_cache svc cfg) \<and>
      map_of (mergedAuths ms') nm = map_option (merge_auth cfg) (service_auth svc)"
    and "\<forall>nm. nm \<notin> set (map fst ss) \<longrightarrow> map_of (mergedCaches ms') nm = map_of (mergedCaches ms) nm \<and>
      map_of (mergedAuths ms') nm = map_of (mergedAuths ms) nm" by blast+
qed

definition cache_wf :: "cache_config \<Rightarrow> bool" where
  "cache_wf c \<longleftrightarrow> (cfg_maxCachedTracks c > 0 \<longrightarrow> cfg_maxCachedGroupsPerTrack c \<ge> 1) \<and> maxCachedMb c \<ge> 1 \<and>
     maxCacheDurationCap c > 0 \<and> defaultCacheDuration c \<noteq> None"

definition upstream_wf :: "upstream_config \<Rightarrow> bool" where
  "upstream_wf u \<longleftrightarrow> upstream_url u \<noteq> [] \<and> \<not> (up_insecure u \<and> caCertFile u \<noteq> None)"

definition service_wf :: "service_config \<Rightarrow> bool" where
  "service_wf s \<longleftrightarrow> cache_wf (cache_cfg s) \<and> auth_wf (auth s) \<and>
     (\<forall>u\<in>set_option (svc_upstream s) \<union> set (svc_upstreams s). upstream_wf u) \<and>
     (svc_upstream s \<noteq> None \<longrightarrow> svc_upstreams s = [])"

lemma resolveCacheConfig_ok:
  assumes "fst (validate_cache nm c) = []"
  obtains cc where "resolveCacheConfig c = Some cc" "cache_wf cc"
proof -
  obtain en mt mg where f: "cache_enabled c = Some en" "max_tracks c = Some mt" "max_groups_per_track c = Some mg"
    using assms by (auto simp: validate_cache_def)
  have g: "\<not> (en \<and> mg = 0)" "max_cache_duration_s c \<noteq> Some 0" "max_cached_mb c \<noteq> Some 0"
    using assms f by (auto simp: validate_cache_def)
  define cc where "cc = the (resolveCacheConfig c)"
  have "resolveCacheConfig c = Some cc" using f by (simp add: resolveCacheConfig_def cc_def Let_def)
  moreover have "cache_wf cc"
    using f g by (auto simp: cc_def resolveCacheConfig_def cache_wf_def value_or_def Let_def split: option.splits)
  ultimately show thesis by (rule that)
qed

lemma resolveService_ok:
  assumes ok: "service_ok H cfg nm svc" and b: "mergedSubscriptionBufferKb svc cfg = Some buf"
  obtains s where "resolveService H svc (merged_cache svc cfg) (map_option (merge_auth cfg) (service_auth svc)) buf = Some s"
    "service_wf s" "match s = map resolveMatchEntry (match_rules_of svc)"
proof -
  obtain cc where c: "resolveCacheConfig (merged_cache svc cfg) = Some cc" "cache_wf cc"
    using resolveCacheConfig_ok ok by (auto simp: service_ok_def)
  obtain ac where a: "resolveAuth H (map_option (merge_auth cfg) (service_auth svc)) = Some ac" "auth_wf ac"
  proof (cases "service_auth svc")
    case None
    then show ?thesis using that by (simp add: resolveAuth_def auth_wf_def AuthConfig_def)
  next
    case (Some x)
    then have "fst (validateAuth H nm (merge_auth cfg x)) = []" using ok by (simp add: service_ok_def)
    then show ?thesis using resolveAuth_ok that Some by (metis option.simps(9))
  qed
  have u: "upstream_wf (resolveUpstream x)" if "fst (validateUpstream x) = []" for x
    using that by (auto simp: validateUpstream_def upstream_wf_def resolveUpstream_def)
  define s where "s = the (resolveService H svc (merged_cache svc cfg) (map_option (merge_auth cfg) (service_auth svc)) buf)"
  have s: "resolveService H svc (merged_cache svc cfg) (map_option (merge_auth cfg) (service_auth svc)) buf = Some s"
    "match s = map resolveMatchEntry (match_rules_of svc)" "cache_cfg s = cc" "auth s = ac"
    "svc_upstream s = map_option resolveUpstream (upstream svc)"
    "svc_upstreams s = map resolveUpstream (value_or (upstreams svc) [])"
    by (simp_all add: s_def resolveService_def c a)
  have "\<forall>x\<in>set (value_or (upstreams svc) []). fst (validateUpstream x) = []" "upstream svc \<noteq> None \<longrightarrow> value_or (upstreams svc) [] = []"
    using ok by (cases "upstreams svc"; auto simp: service_ok_def value_or_def)+
  moreover have "\<forall>x\<in>set_option (upstream svc). fst (validateUpstream x) = []" using ok by (auto simp: service_ok_def)
  ultimately have "service_wf s" using c(2) a(2) u by (auto simp: service_wf_def s(3-6))
  then show thesis using that s(1,2) by blast
qed

section \<open>Well-formed configurations\<close>

definition quic_wf :: "quic_stack \<Rightarrow> quic_config \<Rightarrow> bool" where
  "quic_wf stack q \<longleftrightarrow> maxStreamData q \<le> maxData q \<and> minAckDelayUs q \<le> maxAckDelayUs q \<and>
     (stack = Picoquic \<longrightarrow> ccAlgo q \<in> set kPicoCcAlgos) \<and> (stack = Mvfst \<longrightarrow> ccAlgo q \<in> set kMvfstCcAlgos)"

definition mvfst_wf :: "quic_config \<Rightarrow> mvfst_config \<Rightarrow> bool" where
  "mvfst_wf q m \<longleftrightarrow> maxCwndInMss m > 0 \<and> maxConnPacketsSentPerLoop m > 0 \<and> numGROBuffers m > 0 \<and>
     h3TxnTimeoutMs m \<le> kMaxH3TxnTimeoutMs \<and>
     (pacingEnabled m \<or> ccAlgo q \<notin> {''bbr'', ''bbr2'', ''bbr2modular''})"

text \<open>Certificates come from a bundle or from two files, and picoquic gets them from files.\<close>

definition tls_wf :: "quic_stack \<Rightarrow> tls_mode \<Rightarrow> bool" where
  "tls_wf stack m = (case m of
      Insecure \<Rightarrow> stack \<noteq> Picoquic
    | Tls t \<Rightarrow> (if material t \<noteq> None then certFile t = [] \<and> keyFile t = [] \<and> stack \<noteq> Picoquic
                else certFile t \<noteq> [] \<and> keyFile t \<noteq> []))"

definition listener_wf :: "host \<Rightarrow> listener_config \<Rightarrow> bool" where
  "listener_wf H l \<longleftrightarrow> snd (socket_address l) \<noteq> 0 \<and> fst (socket_address l) \<noteq> [] \<and>
     bind_error H (fst (socket_address l)) (snd (socket_address l)) = None \<and>
     tls_wf (quicStack l) (tlsMode l) \<and> quic_wf (quicStack l) (quic l) \<and>
     (quicStack l = Mvfst \<longrightarrow> mvfst_wf (quic l) (mvfst l))"

definition config_wf :: "host \<Rightarrow> relay_config \<Rightarrow> bool" where
  "config_wf H c \<longleftrightarrow>
     cfg_listeners c \<noteq> [] \<and> (\<forall>l\<in>set (cfg_listeners c). listener_wf H l) \<and>
     distinct (map socket_address (cfg_listeners c)) \<and>
     services c \<noteq> [] \<and> (\<forall>(nm, s)\<in>set (services c). service_wf s) \<and> distinct (map fst (services c)) \<and>
     (\<forall>a\<in>set_option (admin c). snd (adm_address a) \<noteq> 0 \<and> trackMetricsMaxLimit a > 0 \<and>
        trackMetricsLimit a \<le> trackMetricsMaxLimit a) \<and>
     threads c \<ge> 1 \<and> (threads c > 1 \<or> useLocalForwarders c \<longrightarrow> useRelayThread c)"

lemma pkcs12_material:
  assumes "fst (snd (resolvePkcs12Material H tls subj)) = []" and "is_set (pkcs12_file tls)"
    and "\<not> is_set (cert_file tls)" and "\<not> is_set (key_file tls)"
  shows "fst (resolvePkcs12Material H tls subj) \<noteq> None"
  using assms by (cases "pkcs12_password tls") (auto simp: resolvePkcs12Material_def Let_def split: sum.splits)

lemma no_pkcs12_material: "\<not> is_set (pkcs12_file tls) \<Longrightarrow> fst (resolvePkcs12Material H tls subj) = None"
  by (simp add: resolvePkcs12Material_def)

lemma is_set_value: "is_set v \<Longrightarrow> value_or v [] \<noteq> []"
  by (cases v) (auto simp: is_set_def value_or_def)

lemma check_listener_tls:
  assumes v: "fst (validateListener H l) = []"
    and m: "\<not> insecure (listener_tls l) \<Longrightarrow> fst (snd (resolvePkcs12Material H (listener_tls l) subj)) = []"
    and mat: "mat = (if insecure (listener_tls l) then None else fst (resolvePkcs12Material H (listener_tls l) subj))"
  shows "tls_wf (parseQuicStack (quic_stack l))
    (if insecure (listener_tls l) then Insecure else Tls (resolveTlsConfig (listener_tls l) mat))"
proof -
  let ?t = "listener_tls l"
  have p: "parseQuicStack (quic_stack l) = Picoquic \<longrightarrow> \<not> insecure ?t \<and> \<not> is_set (pkcs12_file ?t)"
    and t: "fst (validateListenerTlsConfig ?t (AtListener (listener_name l))) = []"
    using v by (simp_all add: validateListener_def Let_def)
  show ?thesis
  proof (cases "insecure ?t")
    case True
    then show ?thesis using p by (auto simp: tls_wf_def)
  next
    case False
    show ?thesis
    proof (cases "is_set (pkcs12_file ?t)")
      case True
      then have "\<not> is_set (cert_file ?t)" "\<not> is_set (key_file ?t)"
        using t False by (auto simp: validateListenerTlsConfig_def Let_def)
      then have "mat \<noteq> None" using pkcs12_material [OF m True] False mat by simp
      then show ?thesis using p False True by (auto simp: tls_wf_def resolveTlsConfig_def)
    next
      case n: False
      then have "is_set (cert_file ?t)" "is_set (key_file ?t)"
        using t False by (auto simp: validateListenerTlsConfig_def Let_def)
      moreover have "mat = None" using no_pkcs12_material [OF n] mat by simp
      ultimately show ?thesis using False by (simp add: tls_wf_def resolveTlsConfig_def is_set_value)
    qed
  qed
qed

lemma check_listener_wf:
  assumes ok: "fst (fst (check_listener H qd md [] l)) = []" and x: "snd (check_listener H qd md [] l) = (mat, q, m)"
  shows "listener_wf H (resolveListener l q m mat)"
proof -
  let ?t = "listener_tls l" and ?s = "AtListener (listener_name l)" and ?k = "parseQuicStack (quic_stack l)"
  have v: "fst (validateListener H l) = []" and r: "\<not> insecure ?t \<Longrightarrow> fst (snd (resolvePkcs12Material H ?t ?s)) = []"
    and qv: "fst (validateQuicConfig q ?k ?s) = []"
    and mv: "?k = Mvfst \<Longrightarrow> fst (validateMvfstConfig m ?s) = [] \<and> (pacingEnabled m \<or> ccAlgo q \<notin> {''bbr'', ''bbr2'', ''bbr2modular''})"
    and mat: "mat = (if insecure ?t then None else fst (resolvePkcs12Material H ?t ?s))"
    using ok x by (auto simp: check_listener_def Let_def split: prod.splits if_splits)
  have "tls_wf ?k (if insecure ?t then Insecure else Tls (resolveTlsConfig ?t mat))"
    by (rule check_listener_tls [OF v r mat])
  moreover have "quic_wf ?k q" using qv by (auto simp: quic_wf_def validateQuicConfig_def not_less split: if_splits)
  moreover have "?k = Mvfst \<longrightarrow> mvfst_wf q m" using mv by (auto simp: mvfst_wf_def validateMvfstConfig_def)
  moreover have "sock_port (udp_socket l) \<noteq> 0" "sock_address (udp_socket l) \<noteq> []"
    "bind_error H (sock_address (udp_socket l)) (sock_port (udp_socket l)) = None"
    using v by (auto simp: validateListener_def Let_def validateBindAddress_def split: if_splits option.splits)
  ultimately show ?thesis by (simp add: listener_wf_def resolveListener_def)
qed

abbreviation quic_defaults :: "parsed_config \<Rightarrow> parsed_quic option" where
  "quic_defaults cfg \<equiv> Option.bind (listener_defaults cfg) default_quic"

abbreviation mvfst_defaults :: "parsed_config \<Rightarrow> parsed_mvfst option" where
  "mvfst_defaults cfg \<equiv> Option.bind (listener_defaults cfg) default_mvfst"

lemma validate_config_ok:
  assumes v: "validate_config H cfg = (r, xs, mat, ms)" and ok: "fst r = []"
  shows "\<forall>l\<in>set (listeners cfg). fst (fst (check_listener H (quic_defaults cfg) (mvfst_defaults cfg) [] l)) = []"
    and "distinct (map listener_addr (listeners cfg))"
    and "xs = map (\<lambda>l. snd (check_listener H (quic_defaults cfg) (mvfst_defaults cfg) [] l)) (listeners cfg)"
    and "fst (validateAdmin H cfg) = []" and "parsed_services cfg \<noteq> []"
    and "\<forall>(nm, svc)\<in>set (parsed_services cfg). service_ok H cfg nm svc"
    and "distinct (map entry_key (all_rules (parsed_services cfg)))"
    and "value_or (parsed_threads cfg) 1 \<ge> 1"
    and "value_or (parsed_threads cfg) 1 > 1 \<or> value_or (use_local_forwarders cfg) False \<Longrightarrow> value_or (use_relay_thread cfg) True"
    and "distinct (map fst (parsed_services cfg)) \<Longrightarrow> \<forall>(nm, svc)\<in>set (parsed_services cfg).
      map_of (mergedCaches ms) nm = Some (merged_cache svc cfg) \<and>
      map_of (mergedAuths ms) nm = map_option (merge_auth cfg) (service_auth svc)"
proof -
  let ?m0 = "\<lparr>compositeKeys = [], mergedCaches = [], mergedAuths = []\<rparr>"
  obtain r1 ys where l: "check_listeners H (quic_defaults cfg) (mvfst_defaults cfg) [] (listeners cfg) = (r1, ys)" by (rule prod.exhaust)
  obtain r6 m6 where s: "validate_services H cfg (parsed_services cfg) ?m0 = (r6, m6)" by (rule prod.exhaust)
  have f: "fst r1 = []" "fst r6 = []" "ys = xs" "m6 = ms"
    and g: "fst (validateAdmin H cfg) = []" "parsed_services cfg \<noteq> []" "value_or (parsed_threads cfg) 1 \<noteq> 0"
      "\<not> (value_or (parsed_threads cfg) 1 > 1 \<and> \<not> value_or (use_relay_thread cfg) True)"
      "\<not> (value_or (use_local_forwarders cfg) False \<and> \<not> value_or (use_relay_thread cfg) True)"
    using v ok by (auto simp: validate_config_def l s Let_def split: prod.splits)
  note cl = check_listeners_ok [of H "quic_defaults cfg" "mvfst_defaults cfg" "[]" "listeners cfg", unfolded l]
  show "\<forall>l\<in>set (listeners cfg). fst (fst (check_listener H (quic_defaults cfg) (mvfst_defaults cfg) [] l)) = []"
    "distinct (map listener_addr (listeners cfg))"
    using cl f(1) by simp_all
  show "xs = map (\<lambda>l. snd (check_listener H (quic_defaults cfg) (mvfst_defaults cfg) [] l)) (listeners cfg)"
    using check_listeners_settings [of H "quic_defaults cfg" "mvfst_defaults cfg" "[]" "listeners cfg"] l f(3) by simp
  show "fst (validateAdmin H cfg) = []" "parsed_services cfg \<noteq> []" "value_or (parsed_threads cfg) 1 \<ge> 1" using g by simp_all
  show "value_or (parsed_threads cfg) 1 > 1 \<or> value_or (use_local_forwarders cfg) False \<Longrightarrow> value_or (use_relay_thread cfg) True"
    using g by blast
  show "\<forall>(nm, svc)\<in>set (parsed_services cfg). service_ok H cfg nm svc"
    "distinct (map entry_key (all_rules (parsed_services cfg)))"
    using validate_services_ok [OF s] f(2) by blast+
  show "distinct (map fst (parsed_services cfg)) \<Longrightarrow> \<forall>(nm, svc)\<in>set (parsed_services cfg).
      map_of (mergedCaches ms) nm = Some (merged_cache svc cfg) \<and>
      map_of (mergedAuths ms) nm = map_option (merge_auth cfg) (service_auth svc)"
    using validate_services_maps(1) [OF s] f(4) by simp
qed

text \<open>A resolved service, once its validator is silent.\<close>

definition resolved_service :: "host \<Rightarrow> parsed_config \<Rightarrow> parsed_service \<Rightarrow> service_config" where
  "resolved_service H cfg svc = the (resolveService H svc (merged_cache svc cfg)
     (map_option (merge_auth cfg) (service_auth svc)) (the (mergedSubscriptionBufferKb svc cfg)))"

lemma resolved_service_ok:
  assumes "service_ok H cfg nm svc"
  shows "mergedSubscriptionBufferKb svc cfg = Some (the (mergedSubscriptionBufferKb svc cfg))"
    and "resolveService H svc (merged_cache svc cfg) (map_option (merge_auth cfg) (service_auth svc))
      (the (mergedSubscriptionBufferKb svc cfg)) = Some (resolved_service H cfg svc)"
    and "service_wf (resolved_service H cfg svc)"
    and "match (resolved_service H cfg svc) = map resolveMatchEntry (match_rules_of svc)"
proof -
  show b: "mergedSubscriptionBufferKb svc cfg = Some (the (mergedSubscriptionBufferKb svc cfg))"
    using assms by (auto simp: service_ok_def)
  obtain s where s: "resolveService H svc (merged_cache svc cfg) (map_option (merge_auth cfg) (service_auth svc))
      (the (mergedSubscriptionBufferKb svc cfg)) = Some s" "service_wf s" "match s = map resolveMatchEntry (match_rules_of svc)"
    by (rule resolveService_ok [OF assms b])
  then show "resolveService H svc (merged_cache svc cfg) (map_option (merge_auth cfg) (service_auth svc))
      (the (mergedSubscriptionBufferKb svc cfg)) = Some (resolved_service H cfg svc)"
    and "service_wf (resolved_service H cfg svc)"
    and "match (resolved_service H cfg svc) = map resolveMatchEntry (match_rules_of svc)"
    by (simp_all add: resolved_service_def)
qed

lemma resolve_services_ok:
  assumes v: "validate_config H cfg = (r, xs, mat, ms)" and ok: "fst r = []"
    and d: "distinct (map fst (parsed_services cfg))"
  shows "resolve_services H cfg ms = Some (map (\<lambda>(nm, svc). (nm, resolved_service H cfg svc)) (parsed_services cfg))"
proof -
  note o = validate_config_ok [OF v ok]
  show ?thesis
    unfolding resolve_services_def
  proof (rule those_map, clarify)
    fix nm svc assume m: "(nm, svc) \<in> set (parsed_services cfg)"
    have k: "service_ok H cfg nm svc" using o(6) m by blast
    have c: "map_of (mergedCaches ms) nm = Some (merged_cache svc cfg)"
      and a: "map_of (mergedAuths ms) nm = map_option (merge_auth cfg) (service_auth svc)" using o(10) [OF d] m by blast+
    show "(do { cache \<leftarrow> map_of (mergedCaches ms) nm; buffer \<leftarrow> mergedSubscriptionBufferKb svc cfg;
        s \<leftarrow> resolveService H svc cache (map_of (mergedAuths ms) nm) buffer; Some (nm, s) }) =
        Some (nm, resolved_service H cfg svc)"
      by (subst resolved_service_ok(1) [OF k]) (simp add: c a resolved_service_ok(2) [OF k])
  qed
qed

lemma admin_port_ok: "fst (validateAdmin H cfg) = [] \<Longrightarrow> parsed_admin_config cfg = Some a \<Longrightarrow> admin_port a \<noteq> 0"
  by (simp add: validateAdmin_def)

lemma resolve_admin_ok:
  assumes "resolve_admin cfg mat = Inr adm" and "fst (validateAdmin H cfg) = []"
  shows "\<forall>a\<in>set_option adm. snd (adm_address a) \<noteq> 0 \<and> trackMetricsMaxLimit a > 0 \<and> trackMetricsLimit a \<le> trackMetricsMaxLimit a"
proof (cases "parsed_admin_config cfg")
  case None
  then show ?thesis using assms(1) by (simp add: resolve_admin_def)
next
  case (Some a)
  then show ?thesis
    using assms(1) admin_port_ok [OF assms(2) Some]
    by (cases "track_metrics_endpoint_max_limit a") (auto simp: resolve_admin_def Let_def value_or_def split: if_splits)
qed

text \<open>All there is to know about an accepted configuration.\<close>

lemma accepted:
  assumes r: "resolveConfig H cfg = Some (Inr (rc, ws))" and d: "distinct (map fst (parsed_services cfg))"
  shows "cfg_listeners rc = map (\<lambda>l. case snd (check_listener H (quic_defaults cfg) (mvfst_defaults cfg) [] l) of
      (mat, q, m) \<Rightarrow> resolveListener l q m mat) (listeners cfg)"
    and "services rc = map (\<lambda>(nm, svc). (nm, resolved_service H cfg svc)) (parsed_services cfg)"
    and "\<exists>mat. resolve_admin cfg mat = Inr (admin rc)"
    and "threads rc = value_or (parsed_threads cfg) 1"
    and "useRelayThread rc = value_or (use_relay_thread cfg) True"
    and "useLocalForwarders rc = value_or (use_local_forwarders cfg) False"
    and "listeners cfg \<noteq> []" and "\<exists>x xs mat ms. validate_config H cfg = (x, xs, mat, ms) \<and> fst x = []"
proof -
  obtain x xs mat ms where v: "validate_config H cfg = (x, xs, mat, ms)" by (metis prod.exhaust)
  have ne: "listeners cfg \<noteq> []" and ok: "fst x = []" using r by (auto simp: resolveConfig_def v Let_def split: if_splits prod.splits)
  note o = validate_config_ok [OF v ok] and s = resolve_services_ok [OF v ok d]
  have x: "x = ([], snd x)" using ok by (metis prod.collapse)
  obtain adm lg where a: "resolve_admin cfg mat = Inr adm" "resolve_logging H cfg = Inr lg"
    using r x by (auto simp: resolveConfig_def v s Let_def split: if_splits sum.splits prod.splits)
  have rc: "rc = \<lparr>cfg_listeners = map2 (\<lambda>l (mat, q, m). resolveListener l q m mat) (listeners cfg) xs,
      services = map (\<lambda>(nm, svc). (nm, resolved_service H cfg svc)) (parsed_services cfg), admin = adm,
      relayID = value_or (relay_id cfg) (new_relay_id H), threads = value_or (parsed_threads cfg) 1,
      useRelayThread = value_or (use_relay_thread cfg) True,
      useLocalForwarders = value_or (use_local_forwarders cfg) False,
      mvfstBpfSteering = value_or (mvfst_bpf_steering cfg) True, logging = lg, cluster = resolve_cluster H cfg\<rparr>"
    using r x ne a by (simp add: resolveConfig_def v s Let_def split: prod.splits)
  show "cfg_listeners rc = map (\<lambda>l. case snd (check_listener H (quic_defaults cfg) (mvfst_defaults cfg) [] l) of
      (mat, q, m) \<Rightarrow> resolveListener l q m mat) (listeners cfg)"
    by (simp add: rc o(3) zip_map2 comp_def zip_same_conv_map)
  show "services rc = map (\<lambda>(nm, svc). (nm, resolved_service H cfg svc)) (parsed_services cfg)"
    "\<exists>mat. resolve_admin cfg mat = Inr (admin rc)" "threads rc = value_or (parsed_threads cfg) 1"
    "useRelayThread rc = value_or (use_relay_thread cfg) True"
    "useLocalForwarders rc = value_or (use_local_forwarders cfg) False"
    using a by (auto simp: rc)
  show "listeners cfg \<noteq> []" "\<exists>x xs mat ms. validate_config H cfg = (x, xs, mat, ms) \<and> fst x = []"
    using ne v ok by auto
qed

lemma accepted_wf:
  assumes r: "resolveConfig H cfg = Some (Inr (rc, ws))" and d: "distinct (map fst (parsed_services cfg))"
  shows "config_wf H rc"
proof -
  note a = accepted [OF r d]
  obtain x xs mat ms where v: "validate_config H cfg = (x, xs, mat, ms)" and ok: "fst x = []" using a(8) by blast
  note o = validate_config_ok [OF v ok]
  let ?f = "\<lambda>l. case snd (check_listener H (quic_defaults cfg) (mvfst_defaults cfg) [] l) of (mat, q, m) \<Rightarrow> resolveListener l q m mat"
  have l: "listener_wf H (?f l)" if m: "l \<in> set (listeners cfg)" for l
    using check_listener_wf [OF o(1) [rule_format, OF m]] by (simp split: prod.split)
  have "socket_address (?f l) = (sock_address (udp_socket l), sock_port (udp_socket l))" for l
    by (simp add: resolveListener_def split: prod.split)
  then have e: "map socket_address (cfg_listeners rc) = map (\<lambda>l. (sock_address (udp_socket l), sock_port (udp_socket l))) (listeners cfg)"
    by (simp add: a(1))
  have da: "distinct (map socket_address (cfg_listeners rc))"
    using o(2) unfolding e by (auto simp: distinct_map inj_on_def listener_addr_def)
  have "map fst (services rc) = map fst (parsed_services cfg)" by (simp add: a(2) comp_def case_prod_beta)
  then have ds: "distinct (map fst (services rc))" using d by simp
  have sw: "\<forall>(nm, s)\<in>set (services rc). service_wf s"
    using resolved_service_ok(3) o(6) by (auto simp: a(2))
  have lw: "\<forall>x\<in>set (cfg_listeners rc). listener_wf H x" using l by (auto simp: a(1))
  have ne: "cfg_listeners rc \<noteq> []" "services rc \<noteq> []" using a(7) o(5) by (simp_all add: a(1,2))
  have adm: "\<forall>a\<in>set_option (admin rc). snd (adm_address a) \<noteq> 0 \<and> trackMetricsMaxLimit a > 0 \<and>
      trackMetricsLimit a \<le> trackMetricsMaxLimit a"
    using a(3) resolve_admin_ok [OF _ o(4)] by blast
  show ?thesis
    unfolding config_wf_def using da ds sw lw ne adm o(8,9) unfolding a(4-6) by blast
qed

section \<open>Routing\<close>

lemma find_by_set:
  assumes "\<And>x y. \<lbrakk>x \<in> set xs; y \<in> set xs; P x; P y\<rbrakk> \<Longrightarrow> x = y" and "set ys = set xs"
  shows "find P ys = find P xs"
proof (cases "find P xs")
  case None
  then show ?thesis using assms(2) by (metis find_None_iff)
next
  case (Some x)
  then have x: "x \<in> set xs" "P x" by (auto simp: find_Some_iff)
  then obtain y where y: "find P ys = Some y" using assms(2) by (metis find_None_iff not_Some_eq)
  then have "y \<in> set xs" "P y" using assms(2) by (auto simp: find_Some_iff)
  then have "y = x" using assms(1) x by metis
  then show ?thesis using y Some by simp
qed

lemma ref_tier_set:
  assumes d: "distinct (map fst rules)" and s: "set rules' = set rules"
  shows "ref_tier rules' p = ref_tier rules p"
proof -
  have u: "r = r'" if "r \<in> set rules" "r' \<in> set rules" "fst r = fst r'" for r r'
    using d that by (auto simp: distinct_map inj_on_def)
  have e: "find (\<lambda>r. fst r = ExactPath p) rules' = find (\<lambda>r. fst r = ExactPath p) rules"
    by (rule find_by_set [OF _ s]) (use u in auto)
  let ?best = "\<lambda>r. Service_Matcher.covers (fst r) p \<and> (\<forall>r'\<in>set rules. Service_Matcher.covers (fst r') p \<longrightarrow> pattern_length (fst r') \<le> pattern_length (fst r))"
  have b: "find ?best rules' = find ?best rules" if n: "find (\<lambda>r. fst r = ExactPath p) rules = None"
  proof (rule find_by_set [OF _ s])
    fix r r' assume m: "r \<in> set rules" "r' \<in> set rules" and P: "?best r" "?best r'"
    have ne: "fst x \<noteq> ExactPath p" if "x \<in> set rules" for x using n that unfolding find_None_iff by blast
    have px: "\<exists>q. fst x = PrefixPath q \<and> prefix q p" if "x \<in> set rules" "Service_Matcher.covers (fst x) p" for x
      using ne [OF that(1)] that(2) by (cases "fst x") auto
    obtain q where q: "fst r = PrefixPath q" "prefix q p" using px [OF m(1)] P(1) by blast
    obtain q' where q': "fst r' = PrefixPath q'" "prefix q' p" using px [OF m(2)] P(2) by blast
    have "pattern_length (fst r) = pattern_length (fst r')" using P m by (meson le_antisym)
    then have "length q = length q'" using q q' by simp
    then have "q = q'" using q(2) q'(2) by (metis append_eq_conv_conj prefix_def)
    then show "r = r'" using u m q q' by simp
  qed
  show ?thesis unfolding ref_tier_def s e using b by (simp split: option.split)
qed

text \<open>No two entries have the same patterns, and wildcards start with a star.\<close>

definition routes_ok :: "services \<Rightarrow> bool" where
  "routes_ok ss \<longleftrightarrow> distinct (map snd (flat_entries ss)) \<and>
     (\<forall>e\<in>set (map snd (flat_entries ss)). \<forall>p. authority e = WildcardAuthority p \<longrightarrow> (\<exists>q. p = CHR ''*'' # q))"

lemma tier_rules_distinct:
  assumes ok: "routes_ok ss"
    and sel: "\<And>e e'. \<lbrakk>e \<in> set (map snd (flat_entries ss)); e' \<in> set (map snd (flat_entries ss)); sel (authority e); sel (authority e')\<rbrakk> \<Longrightarrow> authority e = authority e'"
  shows "distinct (map fst (tier_rules sel (flat_entries ss)))"
proof -
  let ?xs = "filter (\<lambda>(_, e). sel (authority e)) (flat_entries ss)"
  have "distinct (map snd ?xs)" using ok by (simp add: routes_ok_def distinct_map_filter)
  moreover have "inj_on path (set (map snd ?xs))"
  proof (rule inj_onI)
    fix e e' assume m: "e \<in> set (map snd ?xs)" "e' \<in> set (map snd ?xs)" and p: "path e = path e'"
    have "authority e = authority e'" by (rule sel) (use m in auto)
    then show "e = e'" using p by simp
  qed
  ultimately have "distinct (map path (map snd ?xs))" unfolding distinct_map [of path] by blast
  moreover have "map fst (tier_rules sel (flat_entries ss)) = map path (map snd ?xs)"
    by (simp add: tier_rules_def comp_def case_prod_beta)
  ultimately show ?thesis by simp
qed

lemma ref_match_order:
  assumes ok: "routes_ok ss" and p: "mset ss' = mset ss"
  shows "ref_match ss' au pth = ref_match ss au pth"
proof -
  have "set ss' = set ss" using p by (rule mset_eq_setD)
  then have f: "set (flat_entries ss') = set (flat_entries ss)" by (auto simp: flat_entries_def)
  then have s: "set (tier_rules sel (flat_entries ss')) = set (tier_rules sel (flat_entries ss))" for sel
    by (auto simp: tier_rules_def)
  have t: "ref_tier (tier_rules sel (flat_entries ss')) x = ref_tier (tier_rules sel (flat_entries ss)) x"
    if "\<And>e e'. \<lbrakk>e \<in> set (map snd (flat_entries ss)); e' \<in> set (map snd (flat_entries ss)); sel (authority e); sel (authority e')\<rbrakk> \<Longrightarrow> authority e = authority e'" for sel x
    by (rule ref_tier_set [OF tier_rules_distinct [OF ok that] s])
  have w: "authority e = authority e'"
    if m: "e \<in> set (map snd (flat_entries ss))" "e' \<in> set (map snd (flat_entries ss))"
      and wc: "wildcard_covers au (authority e)" "wildcard_covers au (authority e')" for e e'
  proof -
    obtain a b where a: "authority e = WildcardAuthority a" "authority e' = WildcardAuthority b" "drop 1 a = drop 1 b"
      using wc by (cases "authority e"; cases "authority e'") auto
    have st: "\<forall>e\<in>set (map snd (flat_entries ss)). \<forall>p. authority e = WildcardAuthority p \<longrightarrow> (\<exists>q. p = CHR ''*'' # q)"
      using ok by (simp add: routes_ok_def)
    obtain a' where "a = CHR ''*'' # a'" using bspec [OF st m(1)] a(1) by auto
    moreover obtain b' where "b = CHR ''*'' # b'" using bspec [OF st m(2)] a(2) by auto
    ultimately show ?thesis using a by simp
  qed
  have "ref_tier (tier_rules (\<lambda>a. a = ExactAuthority au) (flat_entries ss')) x = ref_tier (tier_rules (\<lambda>a. a = ExactAuthority au) (flat_entries ss)) x"
    "ref_tier (tier_rules (wildcard_covers au) (flat_entries ss')) x = ref_tier (tier_rules (wildcard_covers au) (flat_entries ss)) x"
    "ref_tier (tier_rules (\<lambda>a. a = AnyAuthority) (flat_entries ss')) x = ref_tier (tier_rules (\<lambda>a. a = AnyAuthority) (flat_entries ss)) x" for x
    by (rule t, simp, rule t, rule w, assumption+, rule t, simp)
  then show ?thesis unfolding ref_match_def Let_def by (simp only:)
qed

abbreviation routes :: "relay_config \<Rightarrow> services" where
  "routes rc \<equiv> map (\<lambda>(nm, s). (nm, match s)) (services rc)"

lemma resolved_key:
  assumes "resolveMatchEntry e = resolveMatchEntry e'"
  shows "entry_key e = entry_key e'"
proof -
  have "authority_key (rule_authority e) = authority_key (rule_authority e')"
    using assms by (cases "rule_authority e"; cases "rule_authority e'") (auto simp: resolveMatchEntry_def authority_key_def)
  moreover have "rule_path e = rule_path e'"
    using assms by (cases "rule_path e"; cases "rule_path e'") (auto simp: resolveMatchEntry_def)
  ultimately show ?thesis by (simp add: entry_key_def)
qed

lemma accepted_routes:
  assumes r: "resolveConfig H cfg = Some (Inr (rc, ws))" and d: "distinct (map fst (parsed_services cfg))"
  shows "routes_ok (routes rc)" and "\<not> empty_wildcard (routes rc)"
proof -
  note a = accepted [OF r d]
  obtain x xs mat ms where v: "validate_config H cfg = (x, xs, mat, ms)" and ok: "fst x = []" using a(8) by blast
  note o = validate_config_ok [OF v ok]
  have rt: "routes rc = map (\<lambda>(nm, svc). (nm, map resolveMatchEntry (match_rules_of svc))) (parsed_services cfg)"
  proof -
    have "routes rc = map (\<lambda>(nm, svc). (nm, match (resolved_service H cfg svc))) (parsed_services cfg)"
      by (simp add: a(2) comp_def case_prod_beta)
    also have "\<dots> = map (\<lambda>(nm, svc). (nm, map resolveMatchEntry (match_rules_of svc))) (parsed_services cfg)"
    proof (rule map_cong [OF refl])
      fix y assume m: "y \<in> set (parsed_services cfg)"
      obtain nm svc where y: "y = (nm, svc)" by (rule prod.exhaust)
      have "service_ok H cfg nm svc" using o(6) m y by blast
      then show "(case y of (nm, svc) \<Rightarrow> (nm, match (resolved_service H cfg svc))) =
          (case y of (nm, svc) \<Rightarrow> (nm, map resolveMatchEntry (match_rules_of svc)))"
        using resolved_service_ok(4) by (simp add: y)
    qed
    finally show ?thesis .
  qed
  have fl: "map snd (flat_entries (routes rc)) = map resolveMatchEntry (all_rules (parsed_services cfg))"
    unfolding rt flat_entries_def by (simp add: map_concat comp_def case_prod_beta)
  have "inj_on resolveMatchEntry (set (all_rules (parsed_services cfg)))"
  proof (rule inj_onI)
    fix e e' assume m: "e \<in> set (all_rules (parsed_services cfg))" "e' \<in> set (all_rules (parsed_services cfg))"
      and eq: "resolveMatchEntry e = resolveMatchEntry e'"
    have "inj_on entry_key (set (all_rules (parsed_services cfg)))" using o(7) unfolding distinct_map by blast
    then show "e = e'" using resolved_key [OF eq] m by (rule inj_onD)
  qed
  then have "distinct (map snd (flat_entries (routes rc)))" unfolding fl using o(7) unfolding distinct_map by blast
  moreover have w: "\<exists>q. p = CHR ''*'' # q"
    if m: "e \<in> set (map snd (flat_entries (routes rc)))" and p: "authority e = WildcardAuthority p" for e p
  proof -
    obtain u where u: "u \<in> set (all_rules (parsed_services cfg))" "e = resolveMatchEntry u" using m unfolding fl by auto
    then have "entry_ok u" using o(6) by (auto simp: service_ok_def)
    moreover have "rule_authority u = PWildcardAuthority p"
      using p u(2) by (cases "rule_authority u") (auto simp: resolveMatchEntry_def)
    ultimately show ?thesis by (auto simp: entry_ok_def authority_ok_def)
  qed
  ultimately show "routes_ok (routes rc)" by (auto simp: routes_ok_def)
  show "\<not> empty_wildcard (routes rc)"
  proof
    assume "empty_wildcard (routes rc)"
    then obtain s e where "s \<in> set (routes rc)" "e \<in> set (snd s)" "authority e = WildcardAuthority []"
      unfolding empty_wildcard_def by blast
    then have "e \<in> set (map snd (flat_entries (routes rc)))" by (force simp: flat_entries_def)
    then show False using w \<open>authority e = WildcardAuthority []\<close> by blast
  qed
qed

lemma no_scope_grants:
  "\<forall>sc\<in>set cs. a \<notin> set (anon_actions sc) \<Longrightarrow> \<not> scopes_loop a x y (map anonymous_scope_of cs)"
  by (induction cs) (auto simp: anonymous_scope_of_def)

section \<open>A configuration\<close>

definition demo_host :: host where
  "demo_host = \<lparr>bind_error = (\<lambda>_ _. None), readFile = (\<lambda>_. None), getenv = (\<lambda>_. None),
     loadPkcs12File = (\<lambda>_ _. Inl ''none''), path_status = (\<lambda>_. NotFound), trimWhitespace = (\<lambda>s. s),
     new_relay_id = ''relay'', new_hop_id = 7\<rparr>"

definition demo_listener :: parsed_listener where
  "demo_listener = \<lparr>listener_name = ''main'', udp_socket = \<lparr>sock_address = ''::'', sock_port = 4433\<rparr>,
     listener_tls = \<lparr>cert_file = Some ''c.pem'', key_file = Some ''k.pem'', pkcs12_file = None, pkcs12_password = None,
       pkcs12_password_file = None, pkcs12_password_env = None, insecure = False\<rparr>,
     endpoint = ''/moq'', moqt_versions = Some [16], quic_stack = None, listener_quic = None, listener_mvfst = None\<rparr>"

definition demo_auth :: "string \<Rightarrow> parsed_auth" where
  "demo_auth sec = \<lparr>auth_enabled = True, token_type = None, hmac_keys = Some [\<lparr>key_id = ''k1'', secret = sec\<rparr>],
     require_setup_token = None, allow_request_token_override = None, strict_claims = None,
     anonymous_claim = Some [\<lparr>scope_actions = [''subscribe''], namespace_match = None, track_match = None\<rparr>],
     max_tokens_per_message = Some 4\<rparr>"

definition demo_service :: "match_rule_config list \<Rightarrow> string \<Rightarrow> parsed_service" where
  "demo_service rules sec = \<lparr>match_rules_of = rules,
     service_cache = Some \<lparr>cache_enabled = Some True, max_tracks = Some 10, max_groups_per_track = Some 3,
       max_cached_mb = None, min_eviction_kb = None, max_cache_duration_s = Some 60,
       default_max_cache_duration_s = Some 3600\<rparr>,
     upstream = None, upstreams = None, service_auth = Some (demo_auth sec), max_subscription_buffer_kb = Some 0\<rparr>"

definition demo_config :: "(string \<times> parsed_service) list \<Rightarrow> flt \<Rightarrow> parsed_config" where
  "demo_config ss rate = \<lparr>listeners = [demo_listener], listForm = False, service_defaults = None, parsed_services = ss,
     parsed_admin_config = None, relay_id = None, listener_defaults = None, parsed_threads = None,
     use_relay_thread = None, use_local_forwarders = None, mvfst_bpf_steering = None,
     parsed_logging_config = Some \<lparr>parsed_mlog = Some \<lparr>log_dir = [], sample_rate = Some rate\<rparr>, parsed_qlog = None\<rparr>,
     parsed_cluster_config = None\<rparr>"

definition any_rule :: match_rule_config where
  "any_rule = \<lparr>rule_authority = PAnyAuthority True, rule_path = PPrefixPath ''/''\<rparr>"

definition exact_rule :: "string \<Rightarrow> string \<Rightarrow> match_rule_config" where
  "exact_rule a p = \<lparr>rule_authority = PExactAuthority a, rule_path = PExactPath p\<rparr>"

definition demo :: parsed_config where
  "demo = demo_config [(''live'', demo_service [any_rule] ''x''), (''vod'', demo_service [exact_rule ''h'' ''/v''] ''y'')] (Num 0)"

definition accepted_by :: "(failure + relay_config \<times> warning list) option \<Rightarrow> bool" where
  "accepted_by r = (case r of Some (Inr _) \<Rightarrow> True | _ \<Rightarrow> False)"

lemma demo_accepted: "\<exists>rc ws. resolveConfig demo_host demo = Some (Inr (rc, ws))"
proof -
  have "accepted_by (resolveConfig demo_host demo)" by code_simp
  then show ?thesis by (auto simp: accepted_by_def split: option.splits sum.splits)
qed

lemma demo_names: "distinct (map fst (parsed_services demo))"
  by (simp add: demo_def demo_config_def)

section \<open>Properties\<close>



text \<open>C19. An accepted configuration is well-formed: listeners with distinct addresses that can be bound,
credentials that the chosen stack can use, transport settings in range, services whose cache,
upstream and authorization settings are complete and consistent, and thread settings that agree.\<close>

theorem accepted_config_well_formed:
  assumes "resolveConfig H cfg = Some (Inr (rc, ws))" and "distinct (map fst (parsed_services cfg))"
  shows "config_wf H rc"
  using assms by (rule accepted_wf)

theorem accepted_config_well_formed_witness:
  "\<exists>rc ws. resolveConfig demo_host demo = Some (Inr (rc, ws)) \<and> config_wf demo_host rc"
  using demo_accepted accepted_config_well_formed [OF _ demo_names] by blast

text \<open>C20. Routing with an accepted configuration does not depend on the order in which the hash map of
services is walked: for every order the matcher is built, and gives every connection the same service.\<close>

theorem routing_order_irrelevant:
  assumes "resolveConfig H cfg = Some (Inr (rc, ws))" and "distinct (map fst (parsed_services cfg))"
    and "mset ss = mset (routes rc)"
  shows "\<exists>m m'. ServiceMatcher ss = Some m \<and> ServiceMatcher (routes rc) = Some m' \<and>
    (\<forall>au p. match_service m au p = match_service m' au p)"
proof -
  note a = accepted_routes [OF assms(1,2)]
  have "set ss = set (routes rc)" using assms(3) by (rule mset_eq_setD)
  then have "\<not> empty_wildcard ss" using a(2) by (simp add: empty_wildcard_def)
  then obtain m m' where m: "ServiceMatcher ss = Some m" "ServiceMatcher (routes rc) = Some m'"
    using a(2) ServiceMatcher_None by (metis not_Some_eq)
  have "match_service m au p = match_service m' au p" for au p
    using match_service_ref_match [OF m(1)] match_service_ref_match [OF m(2)] ref_match_order [OF a(1) assms(3)] by simp
  then show ?thesis using m by blast
qed

theorem routing_order_irrelevant_witness:
  "\<exists>rc ws m m'. resolveConfig demo_host demo = Some (Inr (rc, ws)) \<and> ServiceMatcher (rev (routes rc)) = Some m \<and>
    ServiceMatcher (routes rc) = Some m' \<and> (\<forall>au p. match_service m au p = match_service m' au p)"
proof -
  obtain rc ws where r: "resolveConfig demo_host demo = Some (Inr (rc, ws))" using demo_accepted by blast
  have "mset (rev (routes rc)) = mset (routes rc)" by simp
  from routing_order_irrelevant [OF r demo_names this] show ?thesis using r by blast
qed

text \<open>C22. The anonymous claim of an accepted service never authorizes the setup of a session, in either
role, whatever namespace and track it is asked for.\<close>

theorem anonymous_claim_never_setup:
  assumes "resolveConfig H cfg = Some (Inr (rc, ws))" and "distinct (map fst (parsed_services cfg))"
    and "(nm, s) \<in> set (services rc)" and "a = ClientSetup \<or> a = ServerSetup"
  shows "\<not> allowsImpl (buildAnonymousGrants (anonymousClaim (auth s))) a ns track now"
proof -
  have "auth_wf (auth s)" using accepted_wf [OF assms(1,2)] assms(3) by (auto simp: config_wf_def service_wf_def)
  then have "\<forall>sc\<in>set (anonymousClaim (auth s)). a \<notin> set (anon_actions sc)" using assms(4) by (auto simp: auth_wf_def)
  then show ?thesis by (simp add: allowsImpl_def buildAnonymousGrants_def no_scope_grants)
qed

theorem anonymous_claim_never_setup_witness:
  "\<exists>rc ws nm s. resolveConfig demo_host demo = Some (Inr (rc, ws)) \<and> (nm, s) \<in> set (services rc) \<and>
    \<not> allowsImpl (buildAnonymousGrants (anonymousClaim (auth s))) ClientSetup [''a''] None 0"
proof -
  obtain rc ws where r: "resolveConfig demo_host demo = Some (Inr (rc, ws))" using demo_accepted by blast
  then obtain nm s where "(nm, s) \<in> set (services rc)"
    using accepted_wf [OF r demo_names] by (cases "services rc") (auto simp: config_wf_def)
  then show ?thesis using r anonymous_claim_never_setup [OF r demo_names] by blast
qed

text \<open>A service is accepted with a signing secret of any length but zero, one byte included: the
minimum of 16 bytes the resolver declares is never compared with a secret.\<close>

theorem short_secret_accepted:
  "fst (validateAuth demo_host svc (demo_auth sec)) = [] \<longleftrightarrow> sec \<noteq> []"
proof -
  have "canonicalAction (trimWhitespace demo_host) ''subscribe'' = Some Subscribe" by code_simp
  then show ?thesis
    by (simp add: validateAuth_def demo_auth_def value_or_def kQuicVarintExclusiveUpperBound_def check_action_def
        Subscribe_def ClientSetup_def ServerSetup_def)
qed

text \<open>A sampling rate that is not a number passes the check for the range from 0 to 1.\<close>

lemma nan_sample_rate_accepted:
  "accepted_by (resolveConfig demo_host (demo_config [(''live'', demo_service [any_rule] ''x'')] NaN))"
  by code_simp

text \<open>Two match rules with different authorities and paths are refused as duplicates, because their
texts run together in the key.\<close>

lemma composite_key_collision:
  "makeCompositeKey ''exact'' ''h'' (PExactPath ''/x|exact:/y'') = makeCompositeKey ''exact'' ''h|exact:/x'' (PExactPath ''/y'')"
  "\<not> accepted_by (resolveConfig demo_host (demo_config
     [(''live'', demo_service [exact_rule ''h'' ''/x|exact:/y'', exact_rule ''h|exact:/x'' ''/y''] ''x'')] (Num 0)))"
  by code_simp+

end
