(* ===== verification/Relay_Setup.thy ===== *)
theory Relay_Setup
  imports Cache_Reads Config_Correct
begin

text \<open>
  The cache a relay builds from the settings of its service (\<^verbatim>\<open>src/MoqxRelay.h\<close>), and what an
  accepted configuration guarantees about it.
\<close>

definition relay_cache :: "('e, 's) moxygen \<Rightarrow> cache_config \<Rightarrow> ('e, 's) moqx_cache option" where
  "relay_cache X cc =
     (if cfg_maxCachedTracks cc > 0
      then Some ((new_cache X (cfg_maxCachedTracks cc) (cfg_maxCachedGroupsPerTrack cc)
                    (maxCachedMb cc * 1024 * 1024) (minEvictionKb cc * 1024))
                 \<lparr>defaultMaxCacheDuration := defaultCacheDuration cc,
                  maxAllowedCacheDuration := Some (maxCacheDurationCap cc)\<rparr>)
      else None)"

lemma relay_world_ok: "relay_cache X cc = Some c \<Longrightarrow> world_ok (new_world c)"
  by (auto simp: relay_cache_def world_ok_def new_world_def new_cache_def cache_ok_def sound_def store_ok_def names_ok_def
      groups_ok_def track_lru_ok_def group_lru_ok_def lists_ok_def bytes_ok_def objects_ok_def flags_ok_def fresh_ok_def
      counts_ok_def tracks_def held_groups_def held_def owns_def lives_def pins_def unlisted_def new_track_def new_group_def
      split: if_splits)

lemma relay_cache_durations:
  assumes "relay_cache X cc = Some c" and "defaultCacheDuration cc \<noteq> None"
  shows "\<exists>d. getEffectiveCacheDuration X ext c = Some d \<and>
    (if maxCacheDurationMs X ext = None then Some d = defaultCacheDuration cc else d \<le> maxCacheDurationCap cc)"
  using assms by (auto simp: relay_cache_def getEffectiveCacheDuration_def Let_def split: if_splits option.split)


lemma demo_caches:
  "\<exists>rc ws nm s. resolveConfig demo_host demo = Some (Inr (rc, ws)) \<and> (nm, s) \<in> set (services rc) \<and>
     cfg_maxCachedTracks (cache_cfg s) > 0"
proof -
  have "case resolveConfig demo_host demo of
      Some (Inr (rc, ws)) \<Rightarrow> list_ex (\<lambda>(nm, s). cfg_maxCachedTracks (cache_cfg s) > 0) (services rc) | _ \<Rightarrow> False"
    by code_simp
  then show ?thesis by (auto simp: list_ex_iff split: option.splits sum.splits)
qed


text \<open>The default duration is not held against the cap: a service whose default is 200 seconds and whose
cap is 100 seconds is accepted, and a track without a duration of its own is kept for 200 seconds.\<close>

definition long_default :: parsed_cache where
  "long_default = \<lparr>cache_enabled = Some True, max_tracks = Some 10, max_groups_per_track = Some 3, max_cached_mb = None,
     min_eviction_kb = None, max_cache_duration_s = Some 100, default_max_cache_duration_s = Some 200\<rparr>"

lemma default_duration_exceeds_cap:
  "fst (validate_cache ''live'' long_default) = [] \<and>
   map_option (\<lambda>c. (maxAllowedCacheDuration c, getEffectiveCacheDuration (small_moxygen 3) (None, None, None) c))
     (Option.bind (resolveCacheConfig long_default) (relay_cache (small_moxygen 3))) = Some (Some 100000, Some 200000)"
  by code_simp

end
