(* ===== verification/Pending_Rendezvous.thy ===== *)
theory Pending_Rendezvous
  imports Moqx_Prelude "HOL-Library.Sublist" "HOL-Library.Multiset"
begin

text \<open>
  Subscriptions that wait for a publisher (\<^verbatim>\<open>src/PendingRendezvousTree.cpp\<close>): the tree of waiters
  by namespace, its pruning, and the coroutine of \<^verbatim>\<open>src/MoqxRelay.cpp\<close> that parks and resumes.
\<close>

section \<open>The tree\<close>

text \<open>A waiter is a baton shared by pointer; batons are numbered.\<close>

type_synonym baton = nat

datatype rnode = RNode (children: "(string \<times> rnode) list") (waitersByTrack: "(string \<times> baton list) list")

definition rnode_empty :: "rnode \<Rightarrow> bool" where
  "rnode_empty n \<longleftrightarrow> children n = [] \<and> waitersByTrack n = []"

text \<open>The node that \<^verbatim>\<open>findOrCreateNode\<close> returns by reference is changed in place by \<open>f\<close>.\<close>

fun findOrCreateNode :: "track_namespace \<Rightarrow> (rnode \<Rightarrow> rnode) \<Rightarrow> rnode \<Rightarrow> rnode" where
  "findOrCreateNode [] f n = f n"
| "findOrCreateNode (part # ns) f n =
     RNode (upsert part (RNode [] []) (findOrCreateNode ns f) (children n)) (waitersByTrack n)"

definition addWaiter :: "full_track_name \<Rightarrow> baton \<Rightarrow> rnode \<Rightarrow> rnode" where
  "addWaiter ftn w root =
     findOrCreateNode (trackNamespace ftn)
       (\<lambda>n. RNode (children n) (upsert (trackName ftn) [] (\<lambda>ws. ws @ [w]) (waitersByTrack n))) root"

text \<open>The node at a namespace is changed, then empty nodes on the path to it are removed, the deepest
first. The second component is what the change hands out.\<close>

fun applyAtNamespaceNode :: "track_namespace \<Rightarrow> (rnode \<Rightarrow> rnode \<times> baton list) \<Rightarrow> rnode \<Rightarrow> rnode \<times> baton list" where
  "applyAtNamespaceNode [] f n = f n"
| "applyAtNamespaceNode (part # ns) f n =
     (case map_of (children n) part of
        None \<Rightarrow> (n, [])
      | Some child \<Rightarrow>
          let (child', out) = applyAtNamespaceNode ns f child in
          (RNode (if rnode_empty child' then erase_key part (children n) else set_key part child' (children n))
             (waitersByTrack n), out))"

definition eraseWaiter :: "full_track_name \<Rightarrow> baton \<Rightarrow> rnode \<Rightarrow> rnode" where
  "eraseWaiter ftn w root = fst (applyAtNamespaceNode (trackNamespace ftn)
     (\<lambda>n. case map_of (waitersByTrack n) (trackName ftn) of
            None \<Rightarrow> (n, [])
          | Some ws \<Rightarrow>
              let ws' = filter (\<lambda>x. x \<noteq> w) ws in
              (RNode (children n)
                 (if ws' = [] then erase_key (trackName ftn) (waitersByTrack n)
                  else set_key (trackName ftn) ws' (waitersByTrack n)), [])) root)"

fun collectSubtree :: "rnode \<Rightarrow> baton list" where
  "collectSubtree (RNode cs ws) = concat (map snd ws) @ concat (map (\<lambda>(_, child). collectSubtree child) cs)"

definition wakeForTrack :: "full_track_name \<Rightarrow> rnode \<Rightarrow> rnode \<times> baton list" where
  "wakeForTrack ftn root = applyAtNamespaceNode (trackNamespace ftn)
     (\<lambda>n. case map_of (waitersByTrack n) (trackName ftn) of
            None \<Rightarrow> (n, [])
          | Some ws \<Rightarrow> (RNode (children n) (erase_key (trackName ftn) (waitersByTrack n)), ws)) root"

definition wakeUnderNamespace :: "track_namespace \<Rightarrow> rnode \<Rightarrow> rnode \<times> baton list" where
  "wakeUnderNamespace ns root = applyAtNamespaceNode ns (\<lambda>n. (RNode [] [], collectSubtree n)) root"

section \<open>The timeout\<close>

definition kMaxRendezvousTimeout :: nat where
  "kMaxRendezvousTimeout = 30000"

text \<open>The draft of a version and the parameters of a request belong to the transport library.\<close>

definition takeRendezvousTimeout ::
  "(u64 \<Rightarrow> nat) \<Rightarrow> ('p \<Rightarrow> u64 option) \<Rightarrow> ('p \<Rightarrow> 'p) \<Rightarrow> 'p \<Rightarrow> u64 option \<Rightarrow> nat option \<times> 'p" where
  "takeRendezvousTimeout getDraftMajorVersion getFirstIntParam eraseAllParamsOfType params version =
     (if (case version of None \<Rightarrow> True | Some v \<Rightarrow> getDraftMajorVersion v < 18) then (None, params)
      else
        (case getFirstIntParam params of
           None \<Rightarrow> None
         | Some ms \<Rightarrow> if ms = 0 then None else Some (min ms kMaxRendezvousTimeout),
         eraseAllParamsOfType params))"

section \<open>The waiters of a tree\<close>

type_synonym waiter = "track_namespace \<times> string \<times> baton"

definition below :: "string \<Rightarrow> waiter \<Rightarrow> waiter" where
  "below p e = (case e of (ns, t, w) \<Rightarrow> (p # ns, t, w))"

definition baton_of :: "waiter \<Rightarrow> baton" where
  "baton_of e = snd (snd e)"

lemma baton_of_below [simp]: "baton_of (below p e) = baton_of e"
  by (simp add: baton_of_def below_def split: prod.split)

definition own_waiters :: "(string \<times> baton list) \<Rightarrow> waiter list" where
  "own_waiters x = map (\<lambda>w. ([], fst x, w)) (snd x)"

fun waiters :: "rnode \<Rightarrow> waiter list" where
  "waiters (RNode cs ws) =
     concat (map own_waiters ws) @ concat (map (\<lambda>(p, n). map (below p) (waiters n)) cs)"

fun pruned :: "rnode \<Rightarrow> bool" where
  "pruned (RNode cs ws) \<longleftrightarrow> distinct (map fst cs) \<and> distinct (map fst ws) \<and> (\<forall>x\<in>set ws. snd x \<noteq> []) \<and>
     (\<forall>(p, n)\<in>set cs. pruned n \<and> \<not> rnode_empty n)"

lemma pruned_empty: "pruned n \<Longrightarrow> rnode_empty n \<longleftrightarrow> waiters n = []"
proof (induction n rule: waiters.induct)
  case (1 cs ws)
  have "waiters c \<noteq> []" if "(p, c) \<in> set cs" for p c using 1(1) [OF that refl] 1(2) that by auto
  then show ?case using 1(2) by (cases cs; cases ws) (auto simp: rnode_empty_def own_waiters_def)
qed

definition at_ns :: "track_namespace \<Rightarrow> (waiter \<Rightarrow> bool) \<Rightarrow> waiter \<Rightarrow> bool" where
  "at_ns ns Q e = (case e of (x, t, w) \<Rightarrow> prefix ns x \<and> Q (drop (length ns) x, t, w))"

lemma at_ns_Nil [simp]: "at_ns [] Q = Q"
  by (auto simp: at_ns_def fun_eq_iff)

lemma at_ns_below [simp]: "at_ns (p # ns) Q (below p e) = at_ns ns Q e"
  by (auto simp: at_ns_def below_def split: prod.split)

text \<open>What lies beside a child.\<close>

definition beside :: "string \<Rightarrow> rnode \<Rightarrow> waiter multiset" where
  "beside p n = mset (concat (map own_waiters (waitersByTrack n))) +
     mset (concat (map (\<lambda>(q, c). map (below q) (waiters c)) (erase_key p (children n))))"

lemma beside_not_at: "e \<in># beside p n \<Longrightarrow> \<not> at_ns (p # ns) Q e"
  by (auto simp: beside_def at_ns_def own_waiters_def below_def set_erase_key)

lemma waiters_split:
  assumes "pruned n"
  shows "mset (waiters n) = (case map_of (children n) p of None \<Rightarrow> {#} | Some c \<Rightarrow> image_mset (below p) (mset (waiters c))) + beside p n"
  using assms by (cases n) (auto simp: beside_def alist_split(1) erase_key_absent split: option.split)

lemma filter_image: "filter_mset Q (image_mset f M) = image_mset f (filter_mset (\<lambda>e. Q (f e)) M)"
  by (induction M) auto

lemma baton_below: "image_mset baton_of (image_mset (below p) M) = image_mset baton_of M"
  by (induction M) auto

lemma filter_beside: "filter_mset (at_ns (p # ns) Q) (beside p n) = {#}" "filter_mset (\<lambda>e. \<not> at_ns (p # ns) Q e) (beside p n) = beside p n"
  using beside_not_at [of _ p n ns Q] by (auto simp: filter_mset_eq_conv)

lemma pruned_child:
  "pruned n \<Longrightarrow> map_of (children n) p = Some c \<Longrightarrow> pruned c"
  by (cases n) (auto dest!: map_of_SomeD)

lemma pruned_replace:
  assumes "pruned n" and "pruned c" and "map_of (children n) p \<noteq> None"
  shows "pruned (RNode (if rnode_empty c then erase_key p (children n) else set_key p c (children n)) (waitersByTrack n))"
  using assms by (cases n) (auto simp: distinct_erase_key set_erase_key set_key_def comp_def case_prod_beta)

lemma waiters_replace:
  assumes "pruned n" and "pruned c" and "map_of (children n) p \<noteq> None"
  shows "mset (waiters (RNode (if rnode_empty c then erase_key p (children n) else set_key p c (children n)) (waitersByTrack n))) =
    image_mset (below p) (mset (waiters c)) + beside p n"
  using assms pruned_empty [OF assms(2)] by (cases n) (auto simp: beside_def alist_split(2))

lemma apply_waiters:
  assumes f: "\<And>m. pruned m \<Longrightarrow> pruned (fst (f m)) \<and> mset (waiters (fst (f m))) = filter_mset (\<lambda>e. \<not> P e) (mset (waiters m)) \<and>
      mset (snd (f m)) = image_mset baton_of (filter_mset Q (mset (waiters m)))"
    and "pruned n"
  shows "pruned (fst (applyAtNamespaceNode ns f n)) \<and>
    mset (waiters (fst (applyAtNamespaceNode ns f n))) = filter_mset (\<lambda>e. \<not> at_ns ns P e) (mset (waiters n)) \<and>
    mset (snd (applyAtNamespaceNode ns f n)) = image_mset baton_of (filter_mset (at_ns ns Q) (mset (waiters n)))"
  using assms(2)
proof (induction ns arbitrary: n)
  case Nil
  then show ?case using f by simp
next
  case (Cons p ns)
  note split = waiters_split [OF Cons.prems, of p]
  show ?case
  proof (cases "map_of (children n) p")
    case None
    then show ?thesis using Cons.prems split by (simp add: filter_beside)
  next
    case (Some c)
    obtain c' out where c': "applyAtNamespaceNode ns f c = (c', out)" by (rule prod.exhaust)
    have IH: "pruned c'" "mset (waiters c') = filter_mset (\<lambda>e. \<not> at_ns ns P e) (mset (waiters c))"
      "mset out = image_mset baton_of (filter_mset (at_ns ns Q) (mset (waiters c)))"
      using Cons.IH [OF pruned_child [OF Cons.prems Some]] by (simp_all add: c')
    note r = pruned_replace [OF Cons.prems IH(1)] waiters_replace [OF Cons.prems IH(1)]
    show ?thesis
      using r [of p] Some by (simp add: c' split IH(2,3) filter_beside filter_image baton_below del: waiters.simps pruned.simps)
  qed
qed

lemma collect_waiters: "collectSubtree n = map baton_of (waiters n)"
proof (induction n rule: waiters.induct)
  case (1 cs ws)
  have o: "concat (map snd ws) = map baton_of (concat (map own_waiters ws))"
    by (induction ws) (simp_all add: own_waiters_def comp_def baton_of_def)
  have "\<forall>(p, c)\<in>set cs. collectSubtree c = map baton_of (waiters c)" using 1 by auto
  then have "concat (map (\<lambda>(_, c). collectSubtree c) cs) =
      map baton_of (concat (map (\<lambda>(p, n). map (below p) (waiters n)) cs))"
    by (induction cs) auto
  then show ?case using o by simp
qed

lemma own_split:
  assumes "pruned n"
  shows "mset (waiters n) = (case map_of (waitersByTrack n) t of None \<Rightarrow> {#} | Some ws \<Rightarrow> image_mset (\<lambda>w. ([], t, w)) (mset ws)) +
    mset (waiters (RNode (children n) (erase_key t (waitersByTrack n))))"
  using assms by (cases n) (auto simp: alist_split(1) erase_key_absent own_waiters_def split: option.split)

lemma other_waiters: "e \<in> set (waiters (RNode cs (erase_key t ws))) \<Longrightarrow> \<not> (fst e = [] \<and> fst (snd e) = t)"
  by (auto simp: set_erase_key own_waiters_def below_def)

lemma pruned_erase_track: "pruned n \<Longrightarrow> pruned (RNode (children n) (erase_key t (waitersByTrack n)))"
  by (cases n) (auto simp: distinct_erase_key set_erase_key)

lemma pruned_set_track: "pruned n \<Longrightarrow> ws \<noteq> [] \<Longrightarrow> pruned (RNode (children n) (set_key t ws (waitersByTrack n)))"
  by (cases n) (auto simp: set_key_def comp_def case_prod_beta)

definition is_own :: "string \<Rightarrow> (baton \<Rightarrow> bool) \<Rightarrow> waiter \<Rightarrow> bool" where
  "is_own t R e \<longleftrightarrow> fst e = [] \<and> fst (snd e) = t \<and> R (snd (snd e))"

lemma filter_other:
  "filter_mset (is_own t R) (mset (waiters (RNode cs (erase_key t ws)))) = {#}"
  "filter_mset (\<lambda>e. \<not> is_own t R e) (mset (waiters (RNode cs (erase_key t ws)))) = mset (waiters (RNode cs (erase_key t ws)))"
  using other_waiters [of _ cs t ws] by (auto simp: filter_mset_eq_conv is_own_def simp del: waiters.simps)

lemma filter_track:
  "filter_mset (is_own t R) (image_mset (\<lambda>w. ([], t, w)) M) = image_mset (\<lambda>w. ([], t, w)) (filter_mset R M)"
  "filter_mset (\<lambda>e. \<not> is_own t R e) (image_mset (\<lambda>w. ([], t, w)) M) = image_mset (\<lambda>w. ([], t, w)) (filter_mset (\<lambda>w. \<not> R w) M)"
  by (induction M) (auto simp: is_own_def)

lemma waiters_set_track:
  assumes "pruned n" and "map_of (waitersByTrack n) t \<noteq> None"
  shows "mset (waiters (RNode (children n) (set_key t ws (waitersByTrack n)))) =
    image_mset (\<lambda>w. ([], t, w)) (mset ws) + mset (waiters (RNode (children n) (erase_key t (waitersByTrack n))))"
  using assms by (cases n) (auto simp: alist_split(2) own_waiters_def)

section \<open>What each operation does\<close>

definition is_at :: "full_track_name \<Rightarrow> (baton \<Rightarrow> bool) \<Rightarrow> waiter \<Rightarrow> bool" where
  "is_at ftn R e \<longleftrightarrow> fst e = trackNamespace ftn \<and> fst (snd e) = trackName ftn \<and> R (snd (snd e))"

lemma at_ns_track: "at_ns (trackNamespace ftn) (is_own (trackName ftn) R) = is_at ftn R"
  by (auto simp: at_ns_def is_at_def is_own_def fun_eq_iff prefix_def split: prod.split)

lemma eraseWaiter_waiters:
  assumes "pruned n"
  shows "pruned (eraseWaiter ftn w n)"
    and "mset (waiters (eraseWaiter ftn w n)) = filter_mset (\<lambda>e. \<not> is_at ftn (\<lambda>x. x = w) e) (mset (waiters n))"
proof -
  let ?P = "is_own (trackName ftn) (\<lambda>x. x = w)"
  let ?f = "\<lambda>n. case map_of (waitersByTrack n) (trackName ftn) of
            None \<Rightarrow> (n, [])
          | Some ws \<Rightarrow>
              let ws' = filter (\<lambda>x. x \<noteq> w) ws in
              (RNode (children n)
                 (if ws' = [] then erase_key (trackName ftn) (waitersByTrack n)
                  else set_key (trackName ftn) ws' (waitersByTrack n)), [])"
  have "pruned (fst (?f m)) \<and> mset (waiters (fst (?f m))) = filter_mset (\<lambda>e. \<not> ?P e) (mset (waiters m)) \<and>
      mset (snd (?f m)) = image_mset baton_of (filter_mset (\<lambda>_. False) (mset (waiters m)))" if m: "pruned m" for m
  proof (cases "map_of (waitersByTrack m) (trackName ftn)")
    case None
    then have "mset (waiters m) = mset (waiters (RNode (children m) (erase_key (trackName ftn) (waitersByTrack m))))"
      using own_split [OF m, of "trackName ftn"] by simp
    then show ?thesis using None m by (simp add: filter_other del: waiters.simps)
  next
    case (Some ws)
    have "mset (waiters m) = image_mset (\<lambda>x. ([], trackName ftn, x)) (mset ws) +
        mset (waiters (RNode (children m) (erase_key (trackName ftn) (waitersByTrack m))))"
      using own_split [OF m, of "trackName ftn"] Some by simp
    then have "filter_mset (\<lambda>e. \<not> ?P e) (mset (waiters m)) = image_mset (\<lambda>x. ([], trackName ftn, x)) (mset (filter (\<lambda>x. x \<noteq> w) ws)) +
        mset (waiters (RNode (children m) (erase_key (trackName ftn) (waitersByTrack m))))"
      by (simp add: filter_track filter_other del: waiters.simps)
    then show ?thesis
      using Some m pruned_erase_track [OF m, of "trackName ftn"] pruned_set_track [OF m, of "filter (\<lambda>x. x \<noteq> w) ws" "trackName ftn"]
        waiters_set_track [OF m, of "trackName ftn" "filter (\<lambda>x. x \<noteq> w) ws"]
      by (simp add: Let_def filter_empty_conv del: waiters.simps pruned.simps)
  qed
  from apply_waiters [of ?f ?P "\<lambda>_. False", OF this assms, of "trackNamespace ftn"]
  show "pruned (eraseWaiter ftn w n)" "mset (waiters (eraseWaiter ftn w n)) = filter_mset (\<lambda>e. \<not> is_at ftn (\<lambda>x. x = w) e) (mset (waiters n))"
    unfolding eraseWaiter_def using at_ns_track [of ftn "\<lambda>x. x = w"] by simp_all
qed

lemma wakeForTrack_waiters:
  assumes "pruned n"
  shows "pruned (fst (wakeForTrack ftn n))"
    and "mset (waiters (fst (wakeForTrack ftn n))) = filter_mset (\<lambda>e. \<not> is_at ftn (\<lambda>_. True) e) (mset (waiters n))"
    and "mset (snd (wakeForTrack ftn n)) = image_mset baton_of (filter_mset (is_at ftn (\<lambda>_. True)) (mset (waiters n)))"
proof -
  let ?P = "is_own (trackName ftn) (\<lambda>_. True)"
  let ?f = "\<lambda>n. case map_of (waitersByTrack n) (trackName ftn) of
            None \<Rightarrow> (n, [])
          | Some ws \<Rightarrow> (RNode (children n) (erase_key (trackName ftn) (waitersByTrack n)), ws)"
  have "pruned (fst (?f m)) \<and> mset (waiters (fst (?f m))) = filter_mset (\<lambda>e. \<not> ?P e) (mset (waiters m)) \<and>
      mset (snd (?f m)) = image_mset baton_of (filter_mset ?P (mset (waiters m)))" if m: "pruned m" for m
    using own_split [OF m, of "trackName ftn"] m pruned_erase_track [OF m, of "trackName ftn"]
    by (cases "map_of (waitersByTrack m) (trackName ftn)")
      (simp_all add: filter_track filter_other multiset.map_comp comp_def baton_of_def del: waiters.simps pruned.simps)
  from apply_waiters [of ?f ?P ?P, OF this assms, of "trackNamespace ftn"]
  show "pruned (fst (wakeForTrack ftn n))"
    "mset (waiters (fst (wakeForTrack ftn n))) = filter_mset (\<lambda>e. \<not> is_at ftn (\<lambda>_. True) e) (mset (waiters n))"
    "mset (snd (wakeForTrack ftn n)) = image_mset baton_of (filter_mset (is_at ftn (\<lambda>_. True)) (mset (waiters n)))"
    unfolding wakeForTrack_def using at_ns_track [of ftn "\<lambda>_. True"] by simp_all
qed

definition is_under :: "track_namespace \<Rightarrow> waiter \<Rightarrow> bool" where
  "is_under ns e \<longleftrightarrow> prefix ns (fst e)"

lemma wakeUnderNamespace_waiters:
  assumes "pruned n"
  shows "pruned (fst (wakeUnderNamespace ns n))"
    and "mset (waiters (fst (wakeUnderNamespace ns n))) = filter_mset (\<lambda>e. \<not> is_under ns e) (mset (waiters n))"
    and "mset (snd (wakeUnderNamespace ns n)) = image_mset baton_of (filter_mset (is_under ns) (mset (waiters n)))"
proof -
  have a: "at_ns ns (\<lambda>_. True) = is_under ns" by (auto simp: at_ns_def is_under_def fun_eq_iff)
  have "pruned (fst (RNode [] [], collectSubtree m)) \<and>
      mset (waiters (fst (RNode [] [], collectSubtree m))) = filter_mset (\<lambda>e. \<not> True) (mset (waiters m)) \<and>
      mset (snd (RNode [] [], collectSubtree m)) = image_mset baton_of (filter_mset (\<lambda>_. True) (mset (waiters m)))" for m
    by (simp add: collect_waiters)
  from apply_waiters [of "\<lambda>m. (RNode [] [], collectSubtree m)" "\<lambda>_. True" "\<lambda>_. True", OF this assms, of ns]
  show "pruned (fst (wakeUnderNamespace ns n))"
    "mset (waiters (fst (wakeUnderNamespace ns n))) = filter_mset (\<lambda>e. \<not> is_under ns e) (mset (waiters n))"
    "mset (snd (wakeUnderNamespace ns n)) = image_mset baton_of (filter_mset (is_under ns) (mset (waiters n)))"
    unfolding wakeUnderNamespace_def a by simp_all
qed

lemma pruned_nonempty: "pruned n \<Longrightarrow> mset (waiters n) = add_mset e M \<Longrightarrow> \<not> rnode_empty n"
  using pruned_empty [of n] by auto

lemma create_waiters:
  assumes f: "\<And>m. pruned m \<Longrightarrow> pruned (f m) \<and> \<not> rnode_empty (f m) \<and> mset (waiters (f m)) = add_mset ([], t, w) (mset (waiters m))"
    and "pruned n"
  shows "pruned (findOrCreateNode ns f n) \<and> \<not> rnode_empty (findOrCreateNode ns f n) \<and>
    mset (waiters (findOrCreateNode ns f n)) = add_mset (ns, t, w) (mset (waiters n))"
  using assms(2)
proof (induction ns arbitrary: n)
  case Nil
  then show ?case using f by simp
next
  case (Cons p ns)
  let ?c = "case map_of (children n) p of None \<Rightarrow> RNode [] [] | Some c \<Rightarrow> c"
  have "pruned ?c" using pruned_child [OF Cons.prems] by (auto split: option.split)
  note IH = Cons.IH [OF this]
  have d: "distinct (map fst (children n))" using Cons.prems by (cases n) simp
  have "mset (waiters (findOrCreateNode (p # ns) f n)) = image_mset (below p) (mset (waiters (findOrCreateNode ns f ?c))) + beside p n"
    by (simp add: mset_upsert [OF d] beside_def)
  also have "\<dots> = add_mset (p # ns, t, w) (mset (waiters n))"
    using IH waiters_split [OF Cons.prems, of p] by (auto simp: below_def split: option.splits)
  finally have m: "mset (waiters (findOrCreateNode (p # ns) f n)) = add_mset (p # ns, t, w) (mset (waiters n))" .
  have "pruned (findOrCreateNode (p # ns) f n)"
    using IH Cons.prems distinct_upsert [OF d] by (cases n) (auto dest!: upsert_elems)
  then show ?case using m pruned_nonempty by blast
qed

lemma addWaiter_waiters:
  assumes "pruned n"
  shows "pruned (addWaiter ftn w n)" and "mset (waiters (addWaiter ftn w n)) = add_mset (trackNamespace ftn, trackName ftn, w) (mset (waiters n))"
proof -
  let ?f = "\<lambda>n. RNode (children n) (upsert (trackName ftn) [] (\<lambda>ws. ws @ [w]) (waitersByTrack n))"
  have "pruned (?f m) \<and> \<not> rnode_empty (?f m) \<and> mset (waiters (?f m)) = add_mset ([], trackName ftn, w) (mset (waiters m))"
    if m: "pruned m" for m
  proof -
    have d: "distinct (map fst (waitersByTrack m))" using m by (cases m) simp
    have w: "mset (waiters (?f m)) = add_mset ([], trackName ftn, w) (mset (waiters m))"
      using own_split [OF m, of "trackName ftn"] by (auto simp: mset_upsert [OF d] own_waiters_def split: option.splits)
    have "pruned (?f m)"
      using m distinct_upsert [OF d] by (cases m) (auto dest!: upsert_elems)
    then show ?thesis using w pruned_nonempty by blast
  qed
  from create_waiters [of ?f, OF this assms, of "trackNamespace ftn"]
  show "pruned (addWaiter ftn w n)" "mset (waiters (addWaiter ftn w n)) = add_mset (trackNamespace ftn, trackName ftn, w) (mset (waiters n))"
    unfolding addWaiter_def by simp_all
qed

section \<open>Parked subscriptions\<close>

text \<open>The coroutine \<^verbatim>\<open>rendezvousWithPublisherOrTimeout\<close> parks a fresh baton unless a publisher is known
(the argument \<open>resolvable\<close>), and when it resumes, for
whatever reason, its guard takes the baton out of the tree. A publisher of a track or a namespace
signals the batons it collected. \<open>parked\<close> has the coroutines that wait, \<open>signalled\<close> those among them
that were woken and have not yet resumed.\<close>

record rendezvous =
  tree :: rnode
  parked :: "(baton \<times> full_track_name) list"
  signalled :: "baton list"
  next_baton :: baton

definition no_rendezvous :: rendezvous where
  "no_rendezvous = \<lparr>tree = RNode [] [], parked = [], signalled = [], next_baton = 0\<rparr>"

datatype wait_result = Woken | FutureTimeout | OperationCancelled | WaitFailed string

datatype rendezvous_end = Resolved | SubscribeTimeout | SubscribeInternalError string | Stopped

definition after_wait :: "wait_result \<Rightarrow> rendezvous_end" where
  "after_wait r = (case r of Woken \<Rightarrow> Resolved | FutureTimeout \<Rightarrow> SubscribeTimeout | OperationCancelled \<Rightarrow> Stopped
     | WaitFailed what \<Rightarrow> SubscribeInternalError (''rendezvous wait failed: '' @ what))"

definition park :: "bool \<Rightarrow> full_track_name \<Rightarrow> rendezvous \<Rightarrow> rendezvous" where
  "park resolvable ftn r =
     (if resolvable then r
      else r\<lparr>tree := addWaiter ftn (next_baton r) (tree r), parked := (next_baton r, ftn) # parked r,
             next_baton := Suc (next_baton r)\<rparr>)"

definition signal_all :: "rnode \<times> baton list \<Rightarrow> rendezvous \<Rightarrow> rendezvous" where
  "signal_all x r = r\<lparr>tree := fst x, signalled := snd x @ signalled r\<rparr>"

definition resume :: "baton \<Rightarrow> full_track_name \<Rightarrow> rendezvous \<Rightarrow> rendezvous" where
  "resume w ftn r = r\<lparr>tree := eraseWaiter ftn w (tree r), parked := filter (\<lambda>(x, _). x \<noteq> w) (parked r),
     signalled := filter (\<lambda>x. x \<noteq> w) (signalled r)\<rparr>"

inductive rstep :: "rendezvous \<Rightarrow> rendezvous \<Rightarrow> bool" where
  park_step: "rstep r (park resolvable ftn r)"
| publish_step: "rstep r (signal_all (wakeForTrack ftn (tree r)) r)"
| publishNamespace_step: "rstep r (signal_all (wakeUnderNamespace ns (tree r)) r)"
| resume_step: "(w, ftn) \<in> set (parked r) \<Longrightarrow> rstep r (resume w ftn r)"

definition waiter_of :: "baton \<times> full_track_name \<Rightarrow> waiter" where
  "waiter_of x = (trackNamespace (snd x), trackName (snd x), fst x)"

definition pending :: "rendezvous \<Rightarrow> (baton \<times> full_track_name) multiset" where
  "pending r = filter_mset (\<lambda>x. fst x \<notin> set (signalled r)) (mset (parked r))"

definition rendezvous_ok :: "rendezvous \<Rightarrow> bool" where
  "rendezvous_ok r \<longleftrightarrow> pruned (tree r) \<and> mset (waiters (tree r)) = image_mset waiter_of (pending r) \<and>
     distinct (map fst (parked r)) \<and> (\<forall>x\<in>set (parked r). fst x < next_baton r) \<and> set (signalled r) \<subseteq> fst ` set (parked r)"

lemma rendezvous_okD:
  assumes "rendezvous_ok r"
  shows "pruned (tree r)" "mset (waiters (tree r)) = image_mset waiter_of (pending r)" "distinct (map fst (parked r))"
    "x \<in> set (parked r) \<Longrightarrow> fst x < next_baton r" "set (signalled r) \<subseteq> fst ` set (parked r)"
  using assms by (auto simp: rendezvous_ok_def)

lemma pending_iff: "x \<in># pending r \<longleftrightarrow> x \<in> set (parked r) \<and> fst x \<notin> set (signalled r)"
  by (auto simp: pending_def)

lemma one_baton: "distinct (map fst xs) \<Longrightarrow> x \<in> set xs \<Longrightarrow> y \<in> set xs \<Longrightarrow> fst x = fst y \<Longrightarrow> x = y"
  by (auto simp: distinct_map inj_on_def)

lemma park_ok: "rendezvous_ok r \<Longrightarrow> rendezvous_ok (park resolvable ftn r)"
proof (cases resolvable)
  case False
  assume ok: "rendezvous_ok r"
  note d = rendezvous_okD [OF ok]
  have "next_baton r \<notin> set (signalled r)" "next_baton r \<notin> fst ` set (parked r)" using d(4,5) by fastforce+
  then have "pending (park resolvable ftn r) = add_mset (next_baton r, ftn) (pending r)"
    using False by (simp add: pending_def park_def)
  then show ?thesis
    using False d(2,3,5) d(4) addWaiter_waiters [OF d(1), of ftn "next_baton r"] \<open>next_baton r \<notin> fst ` set (parked r)\<close>
    by (auto simp: rendezvous_ok_def park_def waiter_of_def less_Suc_eq)
qed (simp add: park_def)

lemma signalled_batons:
  assumes ok: "rendezvous_ok r" and out: "mset out = image_mset baton_of (filter_mset P (mset (waiters (tree r))))"
  shows "set out = fst ` {x \<in> set_mset (pending r). P (waiter_of x)}"
    and "x \<in># pending r \<Longrightarrow> fst x \<in> set out \<longleftrightarrow> P (waiter_of x)"
proof -
  have "set out = baton_of ` {e \<in> set (waiters (tree r)). P e}" using arg_cong [OF out, of set_mset] by auto
  also have "set (waiters (tree r)) = waiter_of ` set_mset (pending r)" using arg_cong [OF rendezvous_okD(2) [OF ok], of set_mset] by simp
  also have "baton_of ` {e \<in> waiter_of ` set_mset (pending r). P e} = baton_of ` waiter_of ` {x \<in> set_mset (pending r). P (waiter_of x)}"
    by (rule arg_cong [of _ _ "image baton_of"]) blast
  also have "\<dots> = fst ` {x \<in> set_mset (pending r). P (waiter_of x)}" by (simp add: image_image waiter_of_def baton_of_def)
  finally show s: "set out = fst ` {x \<in> set_mset (pending r). P (waiter_of x)}" .
  assume x: "x \<in># pending r"
  have u: "y = x" if y: "y \<in># pending r" "fst y = fst x" for y
  proof -
    have "y \<in> set (parked r)" "x \<in> set (parked r)" using x y(1) unfolding pending_iff by blast+
    then show ?thesis using one_baton [OF rendezvous_okD(3) [OF ok] _ _ y(2)] by blast
  qed
  show "fst x \<in> set out \<longleftrightarrow> P (waiter_of x)"
  proof
    assume "fst x \<in> set out"
    then obtain y where y: "y \<in># pending r" "P (waiter_of y)" "fst y = fst x" unfolding s by force
    show "P (waiter_of x)" using y(2) unfolding u [OF y(1,3)] .
  next
    assume "P (waiter_of x)"
    then have "x \<in> {x \<in> set_mset (pending r). P (waiter_of x)}" using x by simp
    then show "fst x \<in> set out" unfolding s by (rule imageI)
  qed
qed

lemma signal_ok:
  assumes ok: "rendezvous_ok r" and p: "pruned t" and w: "mset (waiters t) = filter_mset (\<lambda>e. \<not> P e) (mset (waiters (tree r)))"
    and out: "mset out = image_mset baton_of (filter_mset P (mset (waiters (tree r))))"
  shows "rendezvous_ok (signal_all (t, out) r)"
proof -
  note d = rendezvous_okD [OF ok]
  note s = signalled_batons [OF ok out]
  have "pending (signal_all (t, out) r) = filter_mset (\<lambda>x. fst x \<notin> set out) (pending r)"
    by (simp add: pending_def signal_all_def filter_filter_mset conj_commute)
  also have "\<dots> = filter_mset (\<lambda>x. \<not> P (waiter_of x)) (pending r)" by (rule filter_mset_cong) (simp_all add: s(2))
  finally have "mset (waiters t) = image_mset waiter_of (pending (signal_all (t, out) r))" using w by (simp add: d(2) filter_image)
  moreover have "set out \<subseteq> fst ` set (parked r)" unfolding s(1) by (auto simp: pending_iff)
  ultimately show ?thesis using p d(3,4,5) by (simp add: rendezvous_ok_def signal_all_def)
qed

lemma resume_ok:
  assumes ok: "rendezvous_ok r" and m: "(w, ftn) \<in> set (parked r)"
  shows "rendezvous_ok (resume w ftn r)"
proof -
  note d = rendezvous_okD [OF ok]
  have "is_at ftn (\<lambda>b. b = w) (waiter_of x) \<longleftrightarrow> fst x = w" if "x \<in># pending r" for x
    using one_baton [OF d(3), of x "(w, ftn)"] that m by (cases x) (auto simp: is_at_def waiter_of_def pending_iff)
  then have "filter_mset (\<lambda>x. \<not> is_at ftn (\<lambda>b. b = w) (waiter_of x)) (pending r) = filter_mset (\<lambda>x. fst x \<noteq> w) (pending r)"
    by (intro filter_mset_cong) simp_all
  also have "\<dots> = pending (resume w ftn r)"
    unfolding pending_def resume_def by (simp add: filter_filter_mset case_prod_beta) (rule filter_mset_cong, auto)
  finally have "mset (waiters (tree (resume w ftn r))) = image_mset waiter_of (pending (resume w ftn r))"
    using eraseWaiter_waiters(2) [OF d(1), of ftn w] by (simp add: resume_def d(2) filter_image)
  moreover have "pruned (tree (resume w ftn r))" using eraseWaiter_waiters(1) [OF d(1)] by (simp add: resume_def)
  moreover have "distinct (map fst (parked (resume w ftn r)))" using d(3) by (auto simp: resume_def distinct_map intro: inj_on_subset)
  moreover have "\<forall>x\<in>set (parked (resume w ftn r)). fst x < next_baton (resume w ftn r)" using d(4) by (auto simp: resume_def)
  moreover have "set (signalled (resume w ftn r)) \<subseteq> fst ` set (parked (resume w ftn r))" using d(5) by (force simp: resume_def)
  ultimately show ?thesis unfolding rendezvous_ok_def by blast
qed

lemma rstep_ok: "rstep r r' \<Longrightarrow> rendezvous_ok r \<Longrightarrow> rendezvous_ok r'"
proof (induction rule: rstep.induct)
  case (publish_step r ftn)
  note d = wakeForTrack_waiters [OF rendezvous_okD(1) [OF publish_step], of ftn]
  show ?case using signal_ok [OF publish_step d] by simp
next
  case (publishNamespace_step r ns)
  note d = wakeUnderNamespace_waiters [OF rendezvous_okD(1) [OF publishNamespace_step], of ns]
  show ?case using signal_ok [OF publishNamespace_step d] by simp
qed (simp_all add: park_ok resume_ok)

lemma rendezvous_reachable: "rstep\<^sup>*\<^sup>* no_rendezvous r \<Longrightarrow> rendezvous_ok r"
proof (induction rule: rtranclp_induct)
  case base
  show ?case by (simp add: rendezvous_ok_def no_rendezvous_def pending_def)
qed (rule rstep_ok)

section \<open>Erasing a waiter that is gone\<close>

lemma set_key_same: "distinct (map fst al) \<Longrightarrow> map_of al k = Some v \<Longrightarrow> set_key k v al = al"
proof (induction al)
  case (Cons a al)
  then show ?case using set_key_absent [of k al v] by (cases a) (auto simp: set_key_def split: if_splits)
qed simp

lemma apply_same:
  assumes f: "\<And>m. pruned m \<Longrightarrow> ([], t, w) \<notin> set (waiters m) \<Longrightarrow> f m = (m, [])"
    and "pruned n" and "(ns, t, w) \<notin> set (waiters n)"
  shows "applyAtNamespaceNode ns f n = (n, [])"
  using assms(2,3)
proof (induction ns arbitrary: n)
  case (Cons p ns)
  show ?case
  proof (cases "map_of (children n) p")
    case (Some c)
    have e: "(p, c) \<in> set (children n)" using Some by (rule map_of_SomeD)
    have "(p # ns, t, w) \<in> set (waiters n)" if "(ns, t, w) \<in> set (waiters c)"
      using e imageI [OF that, of "below p"] by (cases n) (force simp: below_def)
    then have "applyAtNamespaceNode ns f c = (c, [])" using Cons.IH [OF pruned_child [OF Cons.prems(1) Some]] Cons.prems(2) by blast
    moreover have "\<not> rnode_empty c" "set_key p c (children n) = children n"
      using Cons.prems(1) e set_key_same [OF _ Some] by (cases n, auto)+
    ultimately show ?thesis using Some by simp
  qed simp
qed (simp add: f)

lemma eraseWaiter_absent:
  assumes "pruned n" and "(trackNamespace ftn, trackName ftn, w) \<notin> set (waiters n)"
  shows "eraseWaiter ftn w n = n"
proof -
  let ?f = "\<lambda>n. case map_of (waitersByTrack n) (trackName ftn) of
            None \<Rightarrow> (n, [])
          | Some ws \<Rightarrow>
              let ws' = filter (\<lambda>x. x \<noteq> w) ws in
              (RNode (children n)
                 (if ws' = [] then erase_key (trackName ftn) (waitersByTrack n)
                  else set_key (trackName ftn) ws' (waitersByTrack n)), [] :: baton list)"
  have f: "?f m = (m, [])" if m: "pruned m" "([], trackName ftn, w) \<notin> set (waiters m)" for m
  proof (cases "map_of (waitersByTrack m) (trackName ftn)")
    case (Some ws)
    have e: "(trackName ftn, ws) \<in> set (waitersByTrack m)" using Some by (rule map_of_SomeD)
    then have "w \<notin> set ws" using m(2) by (cases m) (force simp: own_waiters_def)
    then have "filter (\<lambda>x. x \<noteq> w) ws = ws" by (auto intro: filter_True)
    moreover have "ws \<noteq> []" "set_key (trackName ftn) ws (waitersByTrack m) = waitersByTrack m"
      using m(1) e set_key_same [OF _ Some] by (cases m, auto)+
    ultimately show ?thesis using Some by simp
  qed simp
  have "applyAtNamespaceNode (trackNamespace ftn) ?f n = (n, [])"
    by (rule apply_same [of "trackName ftn" w]) (use f assms in blast)+
  then show ?thesis unfolding eraseWaiter_def by simp
qed

section \<open>Properties\<close>

text \<open>C7. Whatever the order in which subscriptions park, publishers arrive and waits end, the tree holds
exactly the parked subscriptions that were not yet woken, each once, and no node without a waiter below
it: the tree is empty exactly when nobody waits to be woken.\<close>

theorem rendezvous_no_leak:
  assumes "rstep\<^sup>*\<^sup>* no_rendezvous r"
  shows "mset (waiters (tree r)) = image_mset waiter_of (pending r) \<and>
    (rnode_empty (tree r) \<longleftrightarrow> (\<forall>x\<in>set (parked r). fst x \<in> set (signalled r)))"
proof -
  note d = rendezvous_okD [OF rendezvous_reachable [OF assms]]
  have "rnode_empty (tree r) \<longleftrightarrow> mset (waiters (tree r)) = {#}" using pruned_empty [OF d(1)] by simp
  also have "\<dots> \<longleftrightarrow> pending r = {#}" unfolding d(2) by simp
  also have "\<dots> \<longleftrightarrow> (\<forall>x\<in>set (parked r). fst x \<in> set (signalled r))" by (auto simp: pending_def filter_mset_eq_conv filter_empty_conv)
  finally show ?thesis using d(2) by blast
qed

definition live_track :: full_track_name where
  "live_track = \<lparr>trackNamespace = [''a'', ''b''], trackName = ''t''\<rparr>"

lemma live_track_parks: "rstep\<^sup>*\<^sup>* no_rendezvous (park False live_track no_rendezvous)"
  by (rule r_into_rtranclp) (rule park_step)

theorem rendezvous_no_leak_witness:
  "mset (waiters (tree (park False live_track no_rendezvous))) = image_mset waiter_of (pending (park False live_track no_rendezvous)) \<and>
   waiters (tree (park False live_track no_rendezvous)) = [([''a'', ''b''], ''t'', 0)]"
  using rendezvous_no_leak [OF live_track_parks] by (simp add: park_def no_rendezvous_def live_track_def addWaiter_def own_waiters_def below_def)

text \<open>C8. A publisher of a track wakes exactly the subscriptions that wait for that track, and a publisher
of a namespace exactly those that wait for a track under it. A subscription that was woken finds the
tree without it: taking its waiter out again changes nothing, also when it resumes while the other
batons are still being signalled.\<close>

theorem publish_wakes_exactly:
  assumes "rstep\<^sup>*\<^sup>* no_rendezvous r"
  shows "set (snd (wakeForTrack ftn (tree r))) = {w. (w, ftn) \<in> set (parked r) \<and> w \<notin> set (signalled r)} \<and>
    set (snd (wakeUnderNamespace ns (tree r))) =
      {w. \<exists>f. (w, f) \<in> set (parked r) \<and> prefix ns (trackNamespace f) \<and> w \<notin> set (signalled r)} \<and>
    (\<forall>(w, f)\<in>set (parked r). w \<in> set (signalled r) \<longrightarrow> eraseWaiter f w (tree r) = tree r)"
proof -
  note ok = rendezvous_reachable [OF assms]
  note d = rendezvous_okD [OF ok]
  have f: "f = ftn" if "trackNamespace f = trackNamespace ftn" "trackName f = trackName ftn" for f using that by (cases f; cases ftn) simp
  have "set (snd (wakeForTrack ftn (tree r))) = {w. (w, ftn) \<in> set (parked r) \<and> w \<notin> set (signalled r)}"
    unfolding signalled_batons(1) [OF ok wakeForTrack_waiters(3) [OF d(1)]]
    by (auto simp: pending_iff is_at_def waiter_of_def image_iff dest!: f)
  moreover have "set (snd (wakeUnderNamespace ns (tree r))) =
      {w. \<exists>f. (w, f) \<in> set (parked r) \<and> prefix ns (trackNamespace f) \<and> w \<notin> set (signalled r)}"
    unfolding signalled_batons(1) [OF ok wakeUnderNamespace_waiters(3) [OF d(1)]]
    by (auto simp: pending_iff is_under_def waiter_of_def image_iff)
  moreover have "eraseWaiter f w (tree r) = tree r" if "(w, f) \<in> set (parked r)" "w \<in> set (signalled r)" for w f
  proof (rule eraseWaiter_absent [OF d(1)])
    have "set (waiters (tree r)) = waiter_of ` set_mset (pending r)" using arg_cong [OF d(2), of set_mset] by simp
    then show "(trackNamespace f, trackName f, w) \<notin> set (waiters (tree r))" using that(2) by (auto simp: waiter_of_def pending_iff)
  qed
  ultimately show ?thesis by blast
qed

theorem publish_wakes_exactly_witness:
  "snd (wakeForTrack live_track (tree (park False live_track no_rendezvous))) = [0] \<and>
   set (snd (wakeUnderNamespace [''a''] (tree (park False live_track no_rendezvous)))) = {0}"
proof -
  let ?r = "park False live_track no_rendezvous"
  have "snd (wakeForTrack live_track (tree ?r)) = [0]" by code_simp
  moreover have "set (snd (wakeUnderNamespace [''a''] (tree ?r))) = {0}"
    using publish_wakes_exactly [OF live_track_parks, of live_track "[''a'']"] by (auto simp: park_def no_rendezvous_def live_track_def)
  ultimately show ?thesis by blast
qed

lemma rendezvous_timeout_bounded:
  assumes "takeRendezvousTimeout major get erase params version = (Some ms, params')"
  shows "0 < ms \<and> ms \<le> kMaxRendezvousTimeout \<and> params' = erase params \<and> (\<exists>v. version = Some v \<and> 18 \<le> major v)"
  using assms by (auto simp: takeRendezvousTimeout_def kMaxRendezvousTimeout_def split: option.splits if_splits)

end
