(* ===== verification/Waiting_Rooms.thy ===== *)
theory Waiting_Rooms
  imports Moqx_Prelude
begin

text \<open>
  Callers that wait for a promise. Both registries of the relay hand out futures of a promise in an
  entry; this theory relates the callers that wait, the promises that hold them, and those that were
  settled.
\<close>

section \<open>Rooms\<close>

text \<open>\<open>room_ok M ws os n\<close>: the callers \<open>ws\<close> are those the promises hold (\<open>M\<close>), nobody waits twice or waits and is
settled, and every number is below the next one.\<close>

definition room_ok :: "(nat \<times> 'k) multiset \<Rightarrow> (nat \<times> 'k) list \<Rightarrow> (nat \<times> 'o) list \<Rightarrow> nat \<Rightarrow> bool" where
  "room_ok M ws os n \<longleftrightarrow> mset ws = M \<and> distinct (map fst ws @ map fst os) \<and> (\<forall>s\<in>fst ` set ws \<union> fst ` set os. s < n)"

definition leave :: "(nat \<times> 'o) list \<Rightarrow> (nat \<times> 'k) list \<Rightarrow> (nat \<times> 'k) list" where
  "leave xs ws = filter (\<lambda>x. fst x \<notin> fst ` set xs) ws"

lemma room_empty: "room_ok {#} [] [] n"
  by (simp add: room_ok_def)

lemma room_join: "room_ok M ws os n \<Longrightarrow> room_ok (add_mset (n, k) M) ((n, k) # ws) os (Suc n)"
  by (auto simp: room_ok_def less_Suc_eq)

lemma room_pass: "room_ok M ws os n \<Longrightarrow> room_ok M ws ((n, x) # os) (Suc n)"
  by (auto simp: room_ok_def less_Suc_eq)

lemma room_skip: "room_ok M ws os n \<Longrightarrow> room_ok M ws os (Suc n)"
  by (auto simp: room_ok_def less_Suc_eq)

lemma room_settle:
  assumes ok: "room_ok (X + M) ws os n" and X: "image_mset fst X = mset (map fst xs)"
  shows "room_ok M (leave xs ws) (xs @ os) n"
proof -
  have w: "mset ws = X + M" and d: "distinct (map fst ws)" "distinct (map fst os)" "fst ` set ws \<inter> fst ` set os = {}"
    using ok by (auto simp: room_ok_def)
  have fx: "fst ` set_mset X = fst ` set xs" using arg_cong [OF X, of set_mset] by simp
  obtain ys where ys: "mset ys = M" using ex_mset by blast
  have "mset (map fst ws) = mset (map fst xs @ map fst ys)" using arg_cong [OF w, of "image_mset fst"] X ys by simp
  then have "distinct (map fst xs @ map fst ys)" using d(1) mset_eq_imp_distinct_iff by blast
  moreover have "set_mset M = set ys" using ys by (metis set_mset_mset)
  ultimately have dis: "distinct (map fst xs)" "fst ` set xs \<inter> fst ` set_mset M = {}" by auto
  have "filter_mset (\<lambda>x. fst x \<notin> fst ` set xs) X = {#}" using fx by (auto simp: filter_mset_eq_conv)
  moreover have "filter_mset (\<lambda>x. fst x \<notin> fst ` set xs) M = M" using dis(2) by (auto simp: filter_mset_eq_conv)
  ultimately have m: "mset (leave xs ws) = M" using w by (simp add: mset_filter leave_def)
  have s: "fst ` set xs \<subseteq> fst ` set ws" using fx w by (metis image_mono mset_subset_eq_add_left set_mset_mono set_mset_mset)
  have l: "fst ` set (leave xs ws) \<subseteq> fst ` set ws - fst ` set xs" by (auto simp: leave_def)
  have "distinct (map fst (leave xs ws))" unfolding leave_def using d(1) by (rule distinct_map_filter)
  moreover have "fst ` set (leave xs ws) \<inter> (fst ` set xs \<union> fst ` set os) = {}" using l d(3) by blast
  moreover have "fst ` set xs \<inter> fst ` set os = {}" using s d(3) by blast
  moreover have "x < n" if "x \<in> fst ` set (leave xs ws) \<union> (fst ` set xs \<union> fst ` set os)" for x
  proof -
    have "x \<in> fst ` set ws \<union> fst ` set os" using that l s by blast
    then show ?thesis using ok unfolding room_ok_def by blast
  qed
  ultimately show ?thesis using m dis(1) d(2) by (auto simp: room_ok_def image_Un)
qed

section \<open>Promises in an association list\<close>

text \<open>\<open>held_by h al\<close> are the callers at the entries of a map, given those at one entry.\<close>

definition held_by :: "('k \<times> 'v \<Rightarrow> (nat \<times> 'k) list) \<Rightarrow> ('k \<times> 'v) list \<Rightarrow> (nat \<times> 'k) multiset" where
  "held_by h al = mset (concat (map h al))"

lemma held_by_append [simp]: "held_by h (al @ [x]) = held_by h al + mset (h x)"
  by (simp add: held_by_def)

lemma held_by_split:
  assumes "distinct (map fst al)" and "map_of al k = Some v"
  shows "held_by h al = mset (h (k, v)) + held_by h (erase_key k al)"
    and "held_by h (set_key k v' al) = mset (h (k, v')) + held_by h (erase_key k al)"
  using alist_split [OF assms, of h] by (simp_all add: held_by_def)

lemma map_of_erase_key: "map_of (erase_key k al) x = (if x = k then None else map_of al x)"
  by (induction al) (auto simp: erase_key_def)

lemma map_of_set_key: "map_of (set_key k v al) x = (if x = k \<and> map_of al x \<noteq> None then Some v else map_of al x)"
  by (induction al) (auto simp: set_key_def)

section \<open>Guards\<close>

definition take_nth :: "nat \<Rightarrow> 'a list \<Rightarrow> 'a list" where
  "take_nth i xs = take i xs @ drop (Suc i) xs"

lemma take_nth_set:
  assumes "i < length ps" and "distinct (map f ps)"
  shows "set (take_nth i ps) = set ps - {ps ! i}" and "distinct (map f (take_nth i ps))"
    and "f (ps ! i) \<notin> f ` set (take_nth i ps)"
proof -
  have ps: "ps = take i ps @ ps ! i # drop (Suc i) ps" using assms(1) by (rule id_take_nth_drop)
  have d: "distinct (map f (take i ps @ ps ! i # drop (Suc i) ps))" using assms(2) ps by metis
  have "set ps = insert (ps ! i) (set (take_nth i ps))" using arg_cong [OF ps, of set] by (auto simp: take_nth_def)
  moreover show "distinct (map f (take_nth i ps))" "f (ps ! i) \<notin> f ` set (take_nth i ps)" using d by (auto simp: take_nth_def)
  ultimately show "set (take_nth i ps) = set ps - {ps ! i}" by auto
qed

lemma take_nth_mset: "i < length ps \<Longrightarrow> mset ps = add_mset (ps ! i) (mset (take_nth i ps))"
  by (subst id_take_nth_drop, assumption) (simp add: take_nth_def)

end
