(* ===== verification/Subscription_Registry.thy ===== *)
theory Subscription_Registry
  imports Recent_Groups Waiting_Rooms "HOL-Library.Monad_Syntax" "HOL-Library.Code_Target_Nat"
begin

text \<open>
  The registry of live tracks (\<^verbatim>\<open>src/SubscriptionRegistry.cpp\<close>): one entry per track, created by the
  first subscriber or by a publisher, the guard that closes the window of an upstream subscription,
  and the subscribers that wait for it.

  Forwarders, sessions, publishers, handles, filters and executors are objects of the transport library
  or of the relay, shared by pointer; they are numbers here. What is asked of them (whether a forwarder
  has subscribers, the executor and the identity of a session) are arguments. A result \<open>None\<close> is an
  aborting check, a null pointer that is followed, or a promise set twice.
\<close>

section \<open>State\<close>

type_synonym fwd = nat
type_synonym exec = nat
type_synonym session = nat
type_synonym epoch = u64
type_synonym subscriber = nat

datatype forwarder_ref =
    EmptyRef
  | Owned full_track_name fwd
  | Remote full_track_name fwd exec

definition getIfOwned :: "forwarder_ref \<Rightarrow> fwd option" where
  "getIfOwned ref = (case ref of Owned _ f \<Rightarrow> Some f | _ \<Rightarrow> None)"

text \<open>\<^verbatim>\<open>folly::coro::SharedPromise\<close>: the subscribers whose futures wait for it, or fulfilled.\<close>

datatype promise = Waiting "subscriber list" | Fulfilled

definition isFulfilled :: "promise \<Rightarrow> bool" where
  "isFulfilled p \<longleftrightarrow> p = Fulfilled"

definition waiting_on :: "promise \<Rightarrow> subscriber list" where
  "waiting_on p = (case p of Waiting ws \<Rightarrow> ws | Fulfilled \<Rightarrow> [])"

record relay_subscription =
  rs_forwarder :: forwarder_ref
  rs_epoch :: epoch
  rs_upstream :: "session option"
  rs_publisher :: "nat option"
  rs_requestID :: u64
  rs_handle :: "nat option"
  rs_promise :: promise
  rs_isPublish :: bool
  rs_topNFilter :: "nat option"
  rs_chainHead :: "nat option"
  rs_lastObjectTime :: int
  rs_ingest :: "nat option"

definition RelaySubscription :: "forwarder_ref \<Rightarrow> session option \<Rightarrow> epoch \<Rightarrow> int \<Rightarrow> relay_subscription" where
  "RelaySubscription f u e now =
     \<lparr>rs_forwarder = f, rs_epoch = e, rs_upstream = u, rs_publisher = None, rs_requestID = 0, rs_handle = None,
      rs_promise = Waiting [], rs_isPublish = False, rs_topNFilter = None, rs_chainHead = None,
      rs_lastObjectTime = now, rs_ingest = None\<rparr>"

text \<open>What the relay's chain builder returns.\<close>

record filter_chain_result =
  fc_consumer :: nat
  fc_topNFilter :: "nat option"
  fc_chainHead :: "nat option"
  fc_ingest :: "nat option"

text \<open>\<open>activityTarget\<close> has, for a filter, the entry whose time of the last object it writes to: the
filter holds a raw pointer into the entry, named by the track and the epoch of the entry.\<close>

record subscription_registry =
  subscriptions :: "(full_track_name \<times> relay_subscription) list"
  epochCounter :: u64
  activityTarget :: "(nat \<times> (full_track_name \<times> epoch)) list"

definition new_registry :: subscription_registry where
  "new_registry = \<lparr>subscriptions = [], epochCounter = 0, activityTarget = []\<rparr>"

text \<open>What becomes of a subscriber that waited: the future yields, or it throws.\<close>

datatype settled = Ready | UpstreamFailed | BrokenPromise

section \<open>Operations\<close>

definition replace_entry ::
  "full_track_name \<Rightarrow> relay_subscription \<Rightarrow> subscription_registry \<Rightarrow> subscription_registry" where
  "replace_entry ftn e r = r\<lparr>subscriptions := set_key ftn e (subscriptions r)\<rparr>"

text \<open>Erasing an entry runs its destructor, which takes the pointer out of the filter; a promise that
was not fulfilled breaks.\<close>

definition erase_entry ::
  "full_track_name \<Rightarrow> subscription_registry \<Rightarrow> subscription_registry \<times> (subscriber \<times> settled) list" where
  "erase_entry ftn r =
     (case map_of (subscriptions r) ftn of
        None \<Rightarrow> (r, [])
      | Some e \<Rightarrow>
          (r\<lparr>subscriptions := erase_key ftn (subscriptions r),
             activityTarget := (case rs_topNFilter e of None \<Rightarrow> activityTarget r
                                | Some f \<Rightarrow> erase_key f (activityTarget r))\<rparr>,
           map (\<lambda>w. (w, BrokenPromise)) (waiting_on (rs_promise e))))"

definition nextEpoch :: "subscription_registry \<Rightarrow> subscription_registry \<times> epoch" where
  "nextEpoch r = (let n = u64_add (epochCounter r) 1 in (r\<lparr>epochCounter := n\<rparr>, n))"

text \<open>The guard \<^verbatim>\<open>UpstreamSubscribePending\<close>.\<close>

record upstream_subscribe_pending =
  p_ftn :: full_track_name
  p_epoch :: epoch

datatype subscribe_result =
    FirstSubscriber nat upstream_subscribe_pending
  | Subsequent
  | NoPublisher

text \<open>\<open>ref\<close> is what \<^verbatim>\<open>refMaker\<close> returns. A later subscriber \<open>w\<close> gets a future of the promise; a fulfilled
promise makes a future that is ready.\<close>

definition getOrCreateFromSubscribe ::
  "full_track_name \<Rightarrow> forwarder_ref option \<Rightarrow> filter_chain_result \<Rightarrow> int \<Rightarrow> subscriber \<Rightarrow>
   subscription_registry \<Rightarrow> subscription_registry \<times> subscribe_result" where
  "getOrCreateFromSubscribe ftn ref chain now w r =
     (case map_of (subscriptions r) ftn of
        None \<Rightarrow>
          (case ref of
             None \<Rightarrow> (r, NoPublisher)
           | Some f \<Rightarrow>
               let (r1, epoch) = nextEpoch r;
                   e = (RelaySubscription f None epoch now)
                         \<lparr>rs_topNFilter := fc_topNFilter chain, rs_chainHead := fc_chainHead chain,
                          rs_ingest := fc_ingest chain\<rparr>
               in (r1\<lparr>subscriptions := subscriptions r1 @ [(ftn, e)]\<rparr>,
                   FirstSubscriber (fc_consumer chain) \<lparr>p_ftn = ftn, p_epoch = epoch\<rparr>))
      | Some e \<Rightarrow>
          (case rs_promise e of
             Fulfilled \<Rightarrow> (r, Subsequent)
           | Waiting ws \<Rightarrow> (replace_entry ftn (e\<lparr>rs_promise := Waiting (ws @ [w])\<rparr>) r, Subsequent)))"

text \<open>What a later subscriber does once its future is settled.\<close>

definition awaitSubsequent :: "full_track_name \<Rightarrow> settled \<Rightarrow> subscription_registry \<Rightarrow> string + forwarder_ref" where
  "awaitSubsequent ftn outcome r =
     (case outcome of
        UpstreamFailed \<Rightarrow> Inl ''upstream subscribe failed''
      | BrokenPromise \<Rightarrow> Inl ''broken promise''
      | Ready \<Rightarrow>
          (case map_of (subscriptions r) ftn of
             None \<Rightarrow> Inl ''subscription gone'' | Some e \<Rightarrow> Inr (rs_forwarder e)))"

definition completeSubscription ::
  "full_track_name \<Rightarrow> epoch \<Rightarrow> nat option \<Rightarrow> u64 \<Rightarrow> session option \<Rightarrow> nat option \<Rightarrow>
   subscription_registry \<Rightarrow> (subscription_registry \<times> bool \<times> (subscriber \<times> settled) list) option" where
  "completeSubscription ftn epoch handle requestID upstreamSession publisher r =
     (case map_of (subscriptions r) ftn of
        None \<Rightarrow> Some (r, False, [])
      | Some e \<Rightarrow>
          if rs_epoch e \<noteq> epoch then Some (r, False, [])
          else
            (case rs_promise e of
               Fulfilled \<Rightarrow> None
             | Waiting ws \<Rightarrow>
                 Some (replace_entry ftn
                         (e\<lparr>rs_handle := handle, rs_requestID := requestID, rs_upstream := upstreamSession,
                            rs_publisher := publisher, rs_promise := Fulfilled\<rparr>) r,
                       True, map (\<lambda>w. (w, Ready)) ws)))"

definition failAndRemove ::
  "full_track_name \<Rightarrow> epoch \<Rightarrow> subscription_registry \<Rightarrow>
   (subscription_registry \<times> (subscriber \<times> settled) list) option" where
  "failAndRemove ftn epoch r =
     (case map_of (subscriptions r) ftn of
        None \<Rightarrow> Some (r, [])
      | Some e \<Rightarrow>
          if rs_epoch e \<noteq> epoch then Some (r, [])
          else
            (case rs_promise e of
               Fulfilled \<Rightarrow> None
             | Waiting ws \<Rightarrow>
                 Some (fst (erase_entry ftn (replace_entry ftn (e\<lparr>rs_promise := Fulfilled\<rparr>) r)),
                       map (\<lambda>w. (w, UpstreamFailed)) ws)))"

record evicted =
  ev_forwarder :: forwarder_ref
  ev_handle :: "nat option"
  ev_publisherExec :: "exec option"

text \<open>The chain of a publisher must have a filter: it is given the address of the entry's clock.\<close>

definition createFromPublish ::
  "(session \<Rightarrow> exec) \<Rightarrow> full_track_name \<Rightarrow> forwarder_ref \<Rightarrow> session option \<Rightarrow> nat option \<Rightarrow> u64 \<Rightarrow> nat option \<Rightarrow>
   filter_chain_result \<Rightarrow> int \<Rightarrow> subscription_registry \<Rightarrow>
   (subscription_registry \<times> nat \<times> evicted option \<times> (subscriber \<times> settled) list) option" where
  "createFromPublish getExecutor ftn forwarder sess publisher requestID handle chain now r =
     (let evicted = map_option (\<lambda>e. \<lparr>ev_forwarder = rs_forwarder e, ev_handle = rs_handle e,
                                     ev_publisherExec = map_option getExecutor (rs_upstream e)\<rparr>)
                      (map_of (subscriptions r) ftn);
          (r1, broken) = erase_entry ftn r;
          (r2, epoch) = nextEpoch r1;
          e = (RelaySubscription forwarder sess epoch now)
                \<lparr>rs_promise := Fulfilled, rs_requestID := requestID, rs_handle := handle, rs_publisher := publisher,
                 rs_isPublish := True, rs_topNFilter := fc_topNFilter chain, rs_chainHead := fc_chainHead chain,
                 rs_ingest := fc_ingest chain\<rparr>
      in case fc_topNFilter chain of
           None \<Rightarrow> None
         | Some f \<Rightarrow>
             Some (r2\<lparr>subscriptions := subscriptions r2 @ [(ftn, e)],
                      activityTarget := (f, ftn, epoch) # erase_key f (activityTarget r2)\<rparr>,
                   fc_consumer chain, evicted, broken))"

section \<open>Lookup\<close>

definition exists_entry :: "full_track_name \<Rightarrow> subscription_registry \<Rightarrow> bool" where
  "exists_entry ftn r \<longleftrightarrow> map_of (subscriptions r) ftn \<noteq> None"

definition getForwarderRef :: "full_track_name \<Rightarrow> subscription_registry \<Rightarrow> forwarder_ref" where
  "getForwarderRef ftn r = (case map_of (subscriptions r) ftn of None \<Rightarrow> EmptyRef | Some e \<Rightarrow> rs_forwarder e)"

record topn_view =
  tv_forwarder :: forwarder_ref
  tv_topNFilter :: "nat option"
  tv_chainHead :: "nat option"
  tv_lastObjectTime :: int

definition getTopNView :: "full_track_name \<Rightarrow> subscription_registry \<Rightarrow> topn_view option" where
  "getTopNView ftn r = map_option (\<lambda>e.
     \<lparr>tv_forwarder = rs_forwarder e, tv_topNFilter = rs_topNFilter e, tv_chainHead = rs_chainHead e,
      tv_lastObjectTime = rs_lastObjectTime e\<rparr>) (map_of (subscriptions r) ftn)"

record upstream_view =
  uv_forwarder :: forwarder_ref
  uv_publisher :: "nat option"
  uv_handle :: "nat option"
  uv_requestID :: u64
  uv_publisherExec :: "exec option"
  uv_isPublish :: bool
  uv_isReady :: bool

definition getUpstreamView :: "(session \<Rightarrow> exec) \<Rightarrow> full_track_name \<Rightarrow> subscription_registry \<Rightarrow> upstream_view option" where
  "getUpstreamView getExecutor ftn r = map_option (\<lambda>e.
     \<lparr>uv_forwarder = rs_forwarder e, uv_publisher = rs_publisher e, uv_handle = rs_handle e,
      uv_requestID = rs_requestID e, uv_publisherExec = map_option getExecutor (rs_upstream e),
      uv_isPublish = rs_isPublish e, uv_isReady = isFulfilled (rs_promise e)\<rparr>) (map_of (subscriptions r) ftn)"

definition upstreamSessionId :: "(session \<Rightarrow> u64) \<Rightarrow> full_track_name \<Rightarrow> subscription_registry \<Rightarrow> u64 option" where
  "upstreamSessionId sessionId ftn r =
     (case map_of (subscriptions r) ftn of None \<Rightarrow> None | Some e \<Rightarrow> map_option sessionId (rs_upstream e))"

record fetch_view =
  fv_forwarder :: forwarder_ref
  fv_publisher :: "nat option"
  fv_requestID :: u64
  fv_isReady :: bool

definition getFetchView :: "full_track_name \<Rightarrow> subscription_registry \<Rightarrow> fetch_view option" where
  "getFetchView ftn r = map_option (\<lambda>e.
     \<lparr>fv_forwarder = rs_forwarder e, fv_publisher = rs_publisher e, fv_requestID = rs_requestID e,
      fv_isReady = isFulfilled (rs_promise e)\<rparr>) (map_of (subscriptions r) ftn)"

section \<open>Lifecycle\<close>

text \<open>\<open>isEmpty\<close> tells whether a forwarder has no subscriber.\<close>

definition onPublisherTerminated ::
  "(fwd \<Rightarrow> bool) \<Rightarrow> full_track_name \<Rightarrow> subscription_registry \<Rightarrow>
   (subscription_registry \<times> forwarder_ref \<times> (subscriber \<times> settled) list) option" where
  "onPublisherTerminated isEmpty ftn r =
     (case map_of (subscriptions r) ftn of
        None \<Rightarrow> Some (r, EmptyRef, [])
      | Some e \<Rightarrow>
          let r1 = replace_entry ftn (e\<lparr>rs_handle := None, rs_upstream := None, rs_publisher := None\<rparr>) r in
          (case getIfOwned (rs_forwarder e) of
             None \<Rightarrow> None
           | Some f \<Rightarrow>
               if isEmpty f then (let (r2, broken) = erase_entry ftn r1 in Some (r2, EmptyRef, broken))
               else Some (r1, rs_forwarder e, [])))"

definition remove_entry ::
  "full_track_name \<Rightarrow> subscription_registry \<Rightarrow> subscription_registry \<times> (subscriber \<times> settled) list" where
  "remove_entry ftn r = erase_entry ftn r"

record entry_view =
  en_ftn :: full_track_name
  en_forwarder :: forwarder_ref
  en_upstream :: "session option"
  en_isPublish :: bool
  en_lastObjectTime :: int
  en_ingest :: ingest_counters

definition ingestOr :: "(nat \<Rightarrow> ingest_counters) \<Rightarrow> nat option \<Rightarrow> ingest_counters" where
  "ingestOr counters p = (case p of None \<Rightarrow> empty_counters | Some i \<Rightarrow> counters i)"

definition view_of :: "(nat \<Rightarrow> ingest_counters) \<Rightarrow> full_track_name \<times> relay_subscription \<Rightarrow> entry_view" where
  "view_of counters x =
     \<lparr>en_ftn = fst x, en_forwarder = rs_forwarder (snd x), en_upstream = rs_upstream (snd x),
      en_isPublish = rs_isPublish (snd x), en_lastObjectTime = rs_lastObjectTime (snd x),
      en_ingest = ingestOr counters (rs_ingest (snd x))\<rparr>"

text \<open>The loop walks the map and erases in place; \<open>xs\<close> are the entries still to visit.\<close>

fun removeIf_loop ::
  "(nat \<Rightarrow> ingest_counters) \<Rightarrow> (entry_view \<Rightarrow> bool) \<Rightarrow> (full_track_name \<times> relay_subscription) list \<Rightarrow>
   subscription_registry \<Rightarrow> subscription_registry \<times> (subscriber \<times> settled) list" where
  "removeIf_loop counters P [] r = (r, [])"
| "removeIf_loop counters P (x # xs) r =
     (if P (view_of counters x) then
        (let (r1, b1) = erase_entry (fst x) r; (r2, b2) = removeIf_loop counters P xs r1 in (r2, b1 @ b2))
      else removeIf_loop counters P xs r)"

definition removeIf ::
  "(nat \<Rightarrow> ingest_counters) \<Rightarrow> (entry_view \<Rightarrow> bool) \<Rightarrow> subscription_registry \<Rightarrow>
   subscription_registry \<times> (subscriber \<times> settled) list" where
  "removeIf counters P r = removeIf_loop counters P (subscriptions r) r"

definition forEach :: "(nat \<Rightarrow> ingest_counters) \<Rightarrow> subscription_registry \<Rightarrow> entry_view list" where
  "forEach counters r = map (view_of counters) (subscriptions r)"

definition forEachName :: "subscription_registry \<Rightarrow> full_track_name list" where
  "forEachName r = map fst (subscriptions r)"

section \<open>The registry with its guards and waiting subscribers\<close>

text \<open>\<open>pendings\<close> are the guards that are still active, \<open>waiting\<close> the later subscribers whose future is not
settled, \<open>outcomes\<close> those that were settled.\<close>

record reg_world =
  reg :: subscription_registry
  pendings :: "upstream_subscribe_pending list"
  waiting :: "(subscriber \<times> full_track_name) list"
  outcomes :: "(subscriber \<times> settled) list"
  next_subscriber :: subscriber

definition new_reg_world :: reg_world where
  "new_reg_world = \<lparr>reg = new_registry, pendings = [], waiting = [], outcomes = [], next_subscriber = 0\<rparr>"

definition settle :: "(subscriber \<times> settled) list \<Rightarrow> reg_world \<Rightarrow> reg_world" where
  "settle xs w = w\<lparr>waiting := leave xs (waiting w), outcomes := xs @ outcomes w\<rparr>"

text \<open>Calls of the relay. Guards are named by their position; a guard completes or is destroyed once.\<close>

datatype reg_call =
    RSubscribe full_track_name "forwarder_ref option" filter_chain_result int
  | RComplete nat "nat option" u64 "session option" "nat option"
  | RFail nat
  | RPublish full_track_name forwarder_ref "session option" "nat option" u64 "nat option" filter_chain_result int
  | RTerminate full_track_name "fwd \<Rightarrow> bool"
  | RRemove full_track_name
  | RRemoveIf "nat \<Rightarrow> ingest_counters" "entry_view \<Rightarrow> bool"

fun reg_perform :: "reg_call \<Rightarrow> reg_world \<Rightarrow> reg_world option" where
  "reg_perform (RSubscribe ftn ref chain now) w =
     (let s = next_subscriber w; w0 = w\<lparr>next_subscriber := Suc s\<rparr>;
          (r, res) = getOrCreateFromSubscribe ftn ref chain now s (reg w);
          w1 = w0\<lparr>reg := r\<rparr>
      in Some (case res of
           FirstSubscriber _ p \<Rightarrow> w1\<lparr>pendings := p # pendings w1\<rparr>
         | NoPublisher \<Rightarrow> w1
         | Subsequent \<Rightarrow>
             if \<exists>e\<in>set_option (map_of (subscriptions (reg w)) ftn). isFulfilled (rs_promise e)
             then w1\<lparr>outcomes := (s, Ready) # outcomes w1\<rparr>
             else w1\<lparr>waiting := (s, ftn) # waiting w1\<rparr>))"
| "reg_perform (RComplete i handle requestID sess publisher) w =
     (if i < length (pendings w) then do {
        let p = pendings w ! i;
        (r, _, xs) \<leftarrow> completeSubscription (p_ftn p) (p_epoch p) handle requestID sess publisher (reg w);
        Some (settle xs (w\<lparr>reg := r, pendings := take_nth i (pendings w)\<rparr>))
      } else Some w)"
| "reg_perform (RFail i) w =
     (if i < length (pendings w) then do {
        let p = pendings w ! i;
        (r, xs) \<leftarrow> failAndRemove (p_ftn p) (p_epoch p) (reg w);
        Some (settle xs (w\<lparr>reg := r, pendings := take_nth i (pendings w)\<rparr>))
      } else Some w)"
| "reg_perform (RPublish ftn fwd sess publisher requestID handle chain now) w = do {
     (r, _, _, xs) \<leftarrow> createFromPublish (\<lambda>_. 0) ftn fwd sess publisher requestID handle chain now (reg w);
     Some (settle xs (w\<lparr>reg := r\<rparr>)) }"
| "reg_perform (RTerminate ftn isEmpty) w = do {
     (r, _, xs) \<leftarrow> onPublisherTerminated isEmpty ftn (reg w);
     Some (settle xs (w\<lparr>reg := r\<rparr>)) }"
| "reg_perform (RRemove ftn) w =
     (let (r, xs) = remove_entry ftn (reg w) in Some (settle xs (w\<lparr>reg := r\<rparr>)))"
| "reg_perform (RRemoveIf counters P) w =
     (let (r, xs) = removeIf counters P (reg w) in Some (settle xs (w\<lparr>reg := r\<rparr>)))"

fun reg_perform_all :: "reg_call list \<Rightarrow> reg_world \<Rightarrow> reg_world option" where
  "reg_perform_all [] w = Some w"
| "reg_perform_all (k # ks) w = Option.bind (reg_perform k w) (reg_perform_all ks)"

text \<open>A relay runs either with forwarders of its own or, with local forwarders (\<open>lf\<close>), with forwarders that
live on other executors; then it never terminates a publisher through the registry. The chain of a
publisher has a filter.\<close>

definition ref_ok :: "bool \<Rightarrow> forwarder_ref \<Rightarrow> bool" where
  "ref_ok lf ref = (case ref of EmptyRef \<Rightarrow> False | Owned _ _ \<Rightarrow> \<not> lf | Remote _ _ _ \<Rightarrow> lf)"

definition reg_call_ok :: "bool \<Rightarrow> reg_call \<Rightarrow> bool" where
  "reg_call_ok lf k = (case k of
       RSubscribe _ ref _ _ \<Rightarrow> (\<forall>f\<in>set_option ref. ref_ok lf f)
     | RPublish _ ref _ _ _ _ chain _ \<Rightarrow> ref_ok lf ref \<and> fc_topNFilter chain \<noteq> None
     | RTerminate _ _ \<Rightarrow> \<not> lf
     | _ \<Rightarrow> True)"

section \<open>Invariant\<close>

definition waits :: "full_track_name \<times> relay_subscription \<Rightarrow> (subscriber \<times> full_track_name) list" where
  "waits x = map (\<lambda>s. (s, fst x)) (waiting_on (rs_promise (snd x)))"

definition entries_ok :: "bool \<Rightarrow> subscription_registry \<Rightarrow> bool" where
  "entries_ok lf r \<longleftrightarrow> distinct (map fst (subscriptions r)) \<and>
     (\<forall>(f, e)\<in>set (subscriptions r). rs_epoch e \<le> epochCounter r \<and> ref_ok lf (rs_forwarder e))"

definition targets_ok :: "subscription_registry \<Rightarrow> bool" where
  "targets_ok r \<longleftrightarrow> (\<forall>(n, f, k)\<in>set (activityTarget r).
     \<exists>e. map_of (subscriptions r) f = Some e \<and> rs_epoch e = k \<and> rs_topNFilter e = Some n)"

definition guards_ok :: "subscription_registry \<Rightarrow> upstream_subscribe_pending list \<Rightarrow> bool" where
  "guards_ok r ps \<longleftrightarrow> distinct (map p_epoch ps) \<and> (\<forall>p\<in>set ps. p_epoch p \<le> epochCounter r) \<and>
     (\<forall>(f, e)\<in>set (subscriptions r).
        if isFulfilled (rs_promise e) then rs_epoch e \<notin> p_epoch ` set ps
        else \<lparr>p_ftn = f, p_epoch = rs_epoch e\<rparr> \<in> set ps)"

definition waiting_ok :: "reg_world \<Rightarrow> bool" where
  "waiting_ok w \<longleftrightarrow> room_ok (held_by waits (subscriptions (reg w))) (waiting w) (outcomes w) (next_subscriber w)"

definition reg_ok :: "bool \<Rightarrow> nat \<Rightarrow> reg_world \<Rightarrow> bool" where
  "reg_ok lf n w \<longleftrightarrow> entries_ok lf (reg w) \<and> targets_ok (reg w) \<and> guards_ok (reg w) (pendings w) \<and> waiting_ok w \<and>
     epochCounter (reg w) \<le> n"

definition store_ok :: "bool \<Rightarrow> upstream_subscribe_pending list \<Rightarrow> subscription_registry \<Rightarrow> bool" where
  "store_ok lf ps r \<longleftrightarrow> entries_ok lf r \<and> targets_ok r \<and> guards_ok r ps"

lemma reg_ok_def': "reg_ok lf n w \<longleftrightarrow> store_ok lf (pendings w) (reg w) \<and> waiting_ok w \<and> epochCounter (reg w) \<le> n"
  by (auto simp: reg_ok_def store_ok_def)

lemma store_okD:
  assumes "store_ok lf ps r"
  shows "distinct (map fst (subscriptions r))"
    "map_of (subscriptions r) f = Some e \<Longrightarrow> rs_epoch e \<le> epochCounter r"
    "map_of (subscriptions r) f = Some e \<Longrightarrow> ref_ok lf (rs_forwarder e)"
    "map_of (subscriptions r) f = Some e \<Longrightarrow> isFulfilled (rs_promise e) \<Longrightarrow> rs_epoch e \<notin> p_epoch ` set ps"
    "map_of (subscriptions r) f = Some e \<Longrightarrow> \<not> isFulfilled (rs_promise e) \<Longrightarrow> \<lparr>p_ftn = f, p_epoch = rs_epoch e\<rparr> \<in> set ps"
    "distinct (map p_epoch ps)"
    "p \<in> set ps \<Longrightarrow> p_epoch p \<le> epochCounter r"
  using assms by (auto simp: store_ok_def entries_ok_def guards_ok_def dest!: map_of_SomeD)

lemma store_okI:
  assumes "distinct (map fst (subscriptions r))" "distinct (map p_epoch ps)" "\<And>p. p \<in> set ps \<Longrightarrow> p_epoch p \<le> epochCounter r"
    and e: "\<And>f e. map_of (subscriptions r) f = Some e \<Longrightarrow> rs_epoch e \<le> epochCounter r \<and> ref_ok lf (rs_forwarder e) \<and>
      (if isFulfilled (rs_promise e) then rs_epoch e \<notin> p_epoch ` set ps else \<lparr>p_ftn = f, p_epoch = rs_epoch e\<rparr> \<in> set ps)"
    and "targets_ok r"
  shows "store_ok lf ps r"
  using assms(1,2,3,5) e by (fastforce simp: store_ok_def entries_ok_def guards_ok_def map_of_eq_Some_iff [OF assms(1)])

text \<open>\<open>releases r r' xs\<close>: from \<open>r\<close> to \<open>r'\<close> exactly the subscribers in \<open>xs\<close> stop waiting.\<close>

definition releases :: "subscription_registry \<Rightarrow> subscription_registry \<Rightarrow> (subscriber \<times> settled) list \<Rightarrow> bool" where
  "releases r r' xs \<longleftrightarrow> (\<exists>X. held_by waits (subscriptions r) = X + held_by waits (subscriptions r') \<and> image_mset fst X = mset (map fst xs))"

lemma releases_refl: "releases r r []"
  by (simp add: releases_def)

lemma releases_trans: "releases r r1 xs \<Longrightarrow> releases r1 r2 ys \<Longrightarrow> releases r r2 (xs @ ys)"
  unfolding releases_def by (metis (no_types, lifting) image_mset_union map_append mset_append union_assoc)

lemma erase_entry_ok:
  assumes ok: "store_ok lf ps r" and e: "erase_entry ftn r = (r', xs)"
  shows "store_ok lf ps r'" "releases r r' xs" "epochCounter r' = epochCounter r" "map_of (subscriptions r') ftn = None"
proof -
  note d = store_okD [OF ok]
  have "store_ok lf ps r' \<and> releases r r' xs \<and> epochCounter r' = epochCounter r \<and> map_of (subscriptions r') ftn = None"
  proof (cases "map_of (subscriptions r) ftn")
    case None
    then show ?thesis using e ok by (simp add: erase_entry_def releases_refl)
  next
    case (Some x)
    have s: "subscriptions r' = erase_key ftn (subscriptions r)" "epochCounter r' = epochCounter r"
      and t: "activityTarget r' = (case rs_topNFilter x of None \<Rightarrow> activityTarget r | Some f \<Rightarrow> erase_key f (activityTarget r))"
      and xs: "xs = map (\<lambda>w. (w, BrokenPromise)) (waiting_on (rs_promise x))"
      using e Some by (auto simp: erase_entry_def)
    have "targets_ok r'"
    proof -
      have "\<exists>e. map_of (subscriptions r') f = Some e \<and> rs_epoch e = k \<and> rs_topNFilter e = Some n"
        if m: "(n, f, k) \<in> set (activityTarget r')" for n f k
      proof -
        have "(n, f, k) \<in> set (activityTarget r)" "rs_topNFilter x \<noteq> Some n"
          using m t by (auto simp: set_erase_key split: option.splits)
        moreover obtain e where "map_of (subscriptions r) f = Some e" "rs_epoch e = k" "rs_topNFilter e = Some n"
          using ok \<open>(n, f, k) \<in> set (activityTarget r)\<close> by (auto simp: store_ok_def targets_ok_def)
        ultimately show ?thesis using Some by (auto simp: s map_of_erase_key)
      qed
      then show ?thesis unfolding targets_ok_def by blast
    qed
    then have "store_ok lf ps r'"
      using d by (intro store_okI) (auto simp: s map_of_erase_key distinct_erase_key split: if_splits)
    moreover have "releases r r' xs"
      unfolding releases_def s(1) held_by_split(1) [OF d(1) Some]
      by (rule exI [of _ "mset (waits (ftn, x))"]) (simp add: waits_def xs comp_def multiset.map_comp)
    ultimately show ?thesis using s by (simp add: map_of_erase_key)
  qed
  then show "store_ok lf ps r'" "releases r r' xs" "epochCounter r' = epochCounter r" "map_of (subscriptions r') ftn = None" by blast+
qed

lemma removeIf_loop_ok:
  assumes "store_ok lf ps r" and "removeIf_loop counters P xs r = (r', ys)"
  shows "store_ok lf ps r' \<and> releases r r' ys \<and> epochCounter r' = epochCounter r"
  using assms
proof (induction xs arbitrary: r r' ys)
  case (Cons x xs)
  show ?case
  proof (cases "P (view_of counters x)")
    case True
    obtain r1 b1 where a: "erase_entry (fst x) r = (r1, b1)" by (rule prod.exhaust)
    obtain r2 b2 where b: "removeIf_loop counters P xs r1 = (r2, b2)" by (rule prod.exhaust)
    note e = erase_entry_ok [OF Cons.prems(1) a]
    have r: "r' = r2" "ys = b1 @ b2" using Cons.prems(2) True by (simp_all add: a b)
    have "store_ok lf ps r2" "releases r1 r2 b2" "epochCounter r2 = epochCounter r1" using Cons.IH [OF e(1) b] by blast+
    then show ?thesis using releases_trans [OF e(2)] e(3) unfolding r by metis
  next
    case False
    then have "removeIf_loop counters P xs r = (r', ys)" using Cons.prems(2) by simp
    then show ?thesis by (rule Cons.IH [OF Cons.prems(1)])
  qed
qed (simp add: releases_refl)

text \<open>A guard that goes away while no entry answers to it.\<close>

lemma guard_dropped:
  assumes ok: "store_ok lf ps r" and i: "i < length ps"
    and "\<And>e. map_of (subscriptions r) (p_ftn (ps ! i)) = Some e \<Longrightarrow> rs_epoch e \<noteq> p_epoch (ps ! i) \<or> isFulfilled (rs_promise e)"
  shows "store_ok lf (take_nth i ps) r"
proof (rule store_okI)
  note d = store_okD [OF ok] and t = take_nth_set [OF i store_okD(6) [OF ok]]
  show "distinct (map fst (subscriptions r))" "distinct (map p_epoch (take_nth i ps))" using d(1) t(2) by blast+
  show "p_epoch p \<le> epochCounter r" if "p \<in> set (take_nth i ps)" for p using d(7) that t(1) by blast
  show "targets_ok r" using ok by (simp add: store_ok_def)
  show "rs_epoch e \<le> epochCounter r \<and> ref_ok lf (rs_forwarder e) \<and>
      (if isFulfilled (rs_promise e) then rs_epoch e \<notin> p_epoch ` set (take_nth i ps)
       else \<lparr>p_ftn = f, p_epoch = rs_epoch e\<rparr> \<in> set (take_nth i ps))"
    if m: "map_of (subscriptions r) f = Some e" for f e
  proof -
    have "\<lparr>p_ftn = f, p_epoch = rs_epoch e\<rparr> \<noteq> ps ! i" if "\<not> isFulfilled (rs_promise e)"
    proof
      assume q: "\<lparr>p_ftn = f, p_epoch = rs_epoch e\<rparr> = ps ! i"
      have "p_ftn (ps ! i) = f" "p_epoch (ps ! i) = rs_epoch e" by (simp_all add: q [symmetric])
      then show False using assms(3) [of e] m that by simp
    qed
    then have "\<not> isFulfilled (rs_promise e) \<Longrightarrow> \<lparr>p_ftn = f, p_epoch = rs_epoch e\<rparr> \<in> set (take_nth i ps)"
      using d(5) [OF m] unfolding t(1) by blast
    moreover have "isFulfilled (rs_promise e) \<Longrightarrow> rs_epoch e \<notin> p_epoch ` set (take_nth i ps)"
      using d(4) [OF m] unfolding t(1) by blast
    ultimately show ?thesis using d(2,3) [OF m] by simp
  qed
qed

lemma replace_entry_ok:
  assumes ok: "store_ok lf ps r" and m: "map_of (subscriptions r) ftn = Some e"
    and same: "rs_epoch e' = rs_epoch e" "rs_forwarder e' = rs_forwarder e" "rs_topNFilter e' = rs_topNFilter e"
    and g: "if isFulfilled (rs_promise e') then rs_epoch e \<notin> p_epoch ` set ps' else \<lparr>p_ftn = ftn, p_epoch = rs_epoch e\<rparr> \<in> set ps'"
    and ps: "distinct (map p_epoch ps')" "set ps' \<subseteq> set ps" "set ps - set ps' \<subseteq> {\<lparr>p_ftn = ftn, p_epoch = rs_epoch e\<rparr>}"
  shows "store_ok lf ps' (replace_entry ftn e' r)"
proof (rule store_okI)
  note d = store_okD [OF ok]
  show "distinct (map fst (subscriptions (replace_entry ftn e' r)))" using d(1) by (simp add: replace_entry_def)
  show "distinct (map p_epoch ps')" by (rule ps(1))
  show "p_epoch p \<le> epochCounter (replace_entry ftn e' r)" if "p \<in> set ps'" for p using d(7) that ps(2) by (auto simp: replace_entry_def)
  show "targets_ok (replace_entry ftn e' r)"
    using ok same m by (fastforce simp: store_ok_def targets_ok_def replace_entry_def map_of_set_key)
  show "rs_epoch x \<le> epochCounter (replace_entry ftn e' r) \<and> ref_ok lf (rs_forwarder x) \<and>
      (if isFulfilled (rs_promise x) then rs_epoch x \<notin> p_epoch ` set ps' else \<lparr>p_ftn = f, p_epoch = rs_epoch x\<rparr> \<in> set ps')"
    if x: "map_of (subscriptions (replace_entry ftn e' r)) f = Some x" for f x
  proof (cases "f = ftn")
    case True
    then have "x = e'" using x m by (simp add: replace_entry_def map_of_set_key)
    then show ?thesis using True g same d(2,3) [OF m] by (simp add: replace_entry_def)
  next
    case False
    then have x': "map_of (subscriptions r) f = Some x" using x by (simp add: replace_entry_def map_of_set_key)
    have "\<lparr>p_ftn = f, p_epoch = rs_epoch x\<rparr> \<in> set ps'" if "\<lparr>p_ftn = f, p_epoch = rs_epoch x\<rparr> \<in> set ps"
      using that ps(3) False by auto
    then show ?thesis using d(2,3,4,5) [OF x'] ps(2) by (auto simp: replace_entry_def)
  qed
qed

lemma replace_waits:
  assumes "store_ok lf ps r" and "map_of (subscriptions r) ftn = Some e"
  shows "held_by waits (subscriptions r) = mset (waits (ftn, e)) + held_by waits (erase_key ftn (subscriptions r))"
    "held_by waits (subscriptions (replace_entry ftn e' r)) = mset (waits (ftn, e')) + held_by waits (erase_key ftn (subscriptions r))"
  unfolding replace_entry_def using held_by_split [OF store_okD(1) [OF assms(1)] assms(2), of waits] by simp_all

lemma completeSubscription_ok:
  assumes ok: "store_ok lf ps r" and i: "i < length ps"
  shows "\<exists>r' b xs. completeSubscription (p_ftn (ps ! i)) (p_epoch (ps ! i)) h q u pb r = Some (r', b, xs) \<and>
    store_ok lf (take_nth i ps) r' \<and> releases r r' xs \<and> epochCounter r' = epochCounter r"
proof (cases "\<exists>e. map_of (subscriptions r) (p_ftn (ps ! i)) = Some e \<and> rs_epoch e = p_epoch (ps ! i)")
  case False
  then have "completeSubscription (p_ftn (ps ! i)) (p_epoch (ps ! i)) h q u pb r = Some (r, False, [])"
    by (auto simp: completeSubscription_def split: option.split)
  moreover have "store_ok lf (take_nth i ps) r" using False by (intro guard_dropped [OF ok i]) blast
  ultimately show ?thesis using releases_refl by blast
next
  case True
  let ?p = "ps ! i"
  obtain e where e: "map_of (subscriptions r) (p_ftn ?p) = Some e" "rs_epoch e = p_epoch ?p" using True by blast
  note d = store_okD [OF ok] and t = take_nth_set [OF i store_okD(6) [OF ok]]
  have "\<not> isFulfilled (rs_promise e)" using d(4) [OF e(1)] e(2) i by auto
  then obtain ws where ws: "rs_promise e = Waiting ws" by (cases "rs_promise e") (auto simp: isFulfilled_def)
  let ?e = "e\<lparr>rs_handle := h, rs_requestID := q, rs_upstream := u, rs_publisher := pb, rs_promise := Fulfilled\<rparr>"
  have c: "completeSubscription (p_ftn ?p) (p_epoch ?p) h q u pb r =
      Some (replace_entry (p_ftn ?p) ?e r, True, map (\<lambda>w. (w, Ready)) ws)"
    using e ws by (simp add: completeSubscription_def)
  have "?p = \<lparr>p_ftn = p_ftn ?p, p_epoch = rs_epoch e\<rparr>" using e(2) by simp
  then have "store_ok lf (take_nth i ps) (replace_entry (p_ftn ?p) ?e r)"
    using t e(2) by (intro replace_entry_ok [OF ok e(1)]) (auto simp: isFulfilled_def)
  moreover have "releases r (replace_entry (p_ftn ?p) ?e r) (map (\<lambda>w. (w, Ready)) ws)"
    unfolding releases_def replace_waits [OF ok e(1)]
    by (rule exI [of _ "mset (waits (p_ftn ?p, e))"]) (simp add: waits_def ws waiting_on_def multiset.map_comp comp_def)
  moreover have "epochCounter (replace_entry (p_ftn ?p) ?e r) = epochCounter r" by (simp add: replace_entry_def)
  ultimately show ?thesis using c by blast
qed

lemma failAndRemove_ok:
  assumes ok: "store_ok lf ps r" and i: "i < length ps"
  shows "\<exists>r' xs. failAndRemove (p_ftn (ps ! i)) (p_epoch (ps ! i)) r = Some (r', xs) \<and>
    store_ok lf (take_nth i ps) r' \<and> releases r r' xs \<and> epochCounter r' = epochCounter r"
proof (cases "\<exists>e. map_of (subscriptions r) (p_ftn (ps ! i)) = Some e \<and> rs_epoch e = p_epoch (ps ! i)")
  case False
  then have "failAndRemove (p_ftn (ps ! i)) (p_epoch (ps ! i)) r = Some (r, [])"
    by (auto simp: failAndRemove_def split: option.split)
  moreover have "store_ok lf (take_nth i ps) r" using False by (intro guard_dropped [OF ok i]) blast
  ultimately show ?thesis using releases_refl by blast
next
  case True
  let ?p = "ps ! i"
  obtain e where e: "map_of (subscriptions r) (p_ftn ?p) = Some e" "rs_epoch e = p_epoch ?p" using True by blast
  note d = store_okD [OF ok] and t = take_nth_set [OF i store_okD(6) [OF ok]]
  have "\<not> isFulfilled (rs_promise e)" using d(4) [OF e(1)] e(2) i by auto
  then obtain ws where ws: "rs_promise e = Waiting ws" by (cases "rs_promise e") (auto simp: isFulfilled_def)
  let ?e = "e\<lparr>rs_promise := Fulfilled\<rparr>"
  let ?r = "replace_entry (p_ftn ?p) ?e r"
  obtain r' xs where r': "erase_entry (p_ftn ?p) ?r = (r', xs)" by (rule prod.exhaust)
  have "?p = \<lparr>p_ftn = p_ftn ?p, p_epoch = rs_epoch e\<rparr>" using e(2) by simp
  then have s: "store_ok lf (take_nth i ps) ?r"
    using t e(2) by (intro replace_entry_ok [OF ok e(1)]) (auto simp: isFulfilled_def)
  have "releases r ?r (map (\<lambda>w. (w, UpstreamFailed)) ws)"
    unfolding releases_def replace_waits [OF ok e(1)]
    by (rule exI [of _ "mset (waits (p_ftn ?p, e))"]) (simp add: waits_def ws waiting_on_def multiset.map_comp comp_def)
  moreover have "xs = []"
    using r' e(1) by (auto simp: erase_entry_def replace_entry_def map_of_set_key waiting_on_def)
  ultimately have "releases r r' (map (\<lambda>w. (w, UpstreamFailed)) ws)"
    using releases_trans [OF _ erase_entry_ok(2) [OF s r']] by fastforce
  moreover have "failAndRemove (p_ftn ?p) (p_epoch ?p) r = Some (r', map (\<lambda>w. (w, UpstreamFailed)) ws)"
    using e ws r' by (simp add: failAndRemove_def)
  moreover have "epochCounter ?r = epochCounter r" by (simp add: replace_entry_def)
  ultimately show ?thesis using erase_entry_ok(1,3) [OF s r'] by metis
qed

lemma add_entry_ok:
  assumes ok: "store_ok lf ps r" and fresh: "map_of (subscriptions r) ftn = None"
    and e: "rs_epoch e = Suc (epochCounter r)" "ref_ok lf (rs_forwarder e)"
    and ps: "set ps \<subseteq> set ps'" "set ps' \<subseteq> insert \<lparr>p_ftn = ftn, p_epoch = rs_epoch e\<rparr> (set ps)" "distinct (map p_epoch ps')"
      "isFulfilled (rs_promise e) \<longleftrightarrow> \<lparr>p_ftn = ftn, p_epoch = rs_epoch e\<rparr> \<notin> set ps'"
    and r': "subscriptions r' = subscriptions r @ [(ftn, e)]" "epochCounter r' = Suc (epochCounter r)"
    and t: "set (activityTarget r') \<subseteq> set (activityTarget r) \<union> {(n, ftn, rs_epoch e) | n. rs_topNFilter e = Some n}"
  shows "store_ok lf ps' r'"
proof (rule store_okI)
  note d = store_okD [OF ok]
  have k: "ftn \<notin> fst ` set (subscriptions r)" using fresh by (simp add: map_of_eq_None_iff)
  have new: "\<lparr>p_ftn = ftn, p_epoch = rs_epoch e\<rparr> \<notin> set ps" using d(7) e(1) by fastforce
  have le: "p_epoch p \<le> epochCounter r" if "p \<in> set ps'" "p \<noteq> \<lparr>p_ftn = ftn, p_epoch = rs_epoch e\<rparr>" for p
    using d(7) that ps(2) by blast
  show "distinct (map fst (subscriptions r'))" "distinct (map p_epoch ps')" using d(1) k ps(3) by (simp_all add: r')
  show "p_epoch p \<le> epochCounter r'" if "p \<in> set ps'" for p using le [OF that] e(1) by (cases "p = \<lparr>p_ftn = ftn, p_epoch = rs_epoch e\<rparr>") (auto simp: r')
  have m: "map_of (subscriptions r') f = (if f = ftn then Some e else map_of (subscriptions r) f)" for f
    using fresh by (auto simp: r' map_add_def split: option.split)
  show "targets_ok r'"
  proof -
    have "\<exists>x. map_of (subscriptions r') f = Some x \<and> rs_epoch x = k \<and> rs_topNFilter x = Some n"
      if "(n, f, k) \<in> set (activityTarget r')" for n f k
    proof (cases "(n, f, k) \<in> set (activityTarget r)")
      case True
      then have "\<exists>x. map_of (subscriptions r) f = Some x \<and> rs_epoch x = k \<and> rs_topNFilter x = Some n"
        using ok by (auto simp: store_ok_def targets_ok_def)
      then show ?thesis using fresh m by auto
    next
      case False
      then have "f = ftn \<and> k = rs_epoch e \<and> rs_topNFilter e = Some n" using that t by blast
      then show ?thesis using m by simp
    qed
    then show ?thesis unfolding targets_ok_def by blast
  qed
  show "rs_epoch x \<le> epochCounter r' \<and> ref_ok lf (rs_forwarder x) \<and>
      (if isFulfilled (rs_promise x) then rs_epoch x \<notin> p_epoch ` set ps' else \<lparr>p_ftn = f, p_epoch = rs_epoch x\<rparr> \<in> set ps')"
    if x: "map_of (subscriptions r') f = Some x" for f x
  proof (cases "f = ftn")
    case True
    then have "x = e" using x m by simp
    moreover have "rs_epoch e \<notin> p_epoch ` set ps'" if "\<lparr>p_ftn = ftn, p_epoch = rs_epoch e\<rparr> \<notin> set ps'"
    proof
      assume "rs_epoch e \<in> p_epoch ` set ps'"
      then obtain p where p: "p \<in> set ps'" "p_epoch p = rs_epoch e" by auto
      then have "p \<noteq> \<lparr>p_ftn = ftn, p_epoch = rs_epoch e\<rparr>" using that by blast
      then show False using le [OF p(1)] p(2) e(1) by simp
    qed
    ultimately show ?thesis using True e ps(4) r'(2) by auto
  next
    case False
    then have x': "map_of (subscriptions r) f = Some x" using x m by simp
    have "rs_epoch x \<notin> p_epoch ` set ps'" if "isFulfilled (rs_promise x)"
      using d(4) [OF x' that] d(2) [OF x'] e(1) ps(2) by fastforce
    then show ?thesis using d(2,3,5) [OF x'] ps(1) r'(2) by auto
  qed
qed

lemma settle_waiting:
  assumes "waiting_ok w" and "releases (reg w) r' xs"
  shows "waiting_ok (settle xs (w\<lparr>reg := r', pendings := ps\<rparr>))"
  using assms room_settle by (fastforce simp: waiting_ok_def releases_def settle_def)

lemma nextEpoch_exact: "epochCounter r < u64_max \<Longrightarrow> nextEpoch r = (r\<lparr>epochCounter := Suc (epochCounter r)\<rparr>, Suc (epochCounter r))"
  by (simp add: nextEpoch_def u64_add_exact)

lemma subscribe_ok:
  assumes ok: "reg_ok lf n w" and n: "n < u64_max" and c: "reg_call_ok lf (RSubscribe ftn ref chain now)"
  shows "\<exists>w'. reg_perform (RSubscribe ftn ref chain now) w = Some w' \<and> reg_ok lf (Suc n) w'"
proof -
  let ?r = "reg w" and ?s = "next_subscriber w"
  have s: "store_ok lf (pendings w) ?r" and wo: "waiting_ok w" and le: "epochCounter ?r \<le> n"
    using ok by (simp_all add: reg_ok_def')
  note d = store_okD [OF s]
  note wo' = wo [unfolded waiting_ok_def]
  show ?thesis
  proof (cases "map_of (subscriptions ?r) ftn")
    case None
    show ?thesis
    proof (cases ref)
      case N: None
      then show ?thesis using None s room_skip [OF wo'] le
        by (auto simp: getOrCreateFromSubscribe_def reg_ok_def' waiting_ok_def)
    next
      case (Some f)
      define k where "k = Suc (epochCounter ?r)"
      define e where "e = (RelaySubscription f None k now)
        \<lparr>rs_topNFilter := fc_topNFilter chain, rs_chainHead := fc_chainHead chain, rs_ingest := fc_ingest chain\<rparr>"
      define r' where "r' = ?r\<lparr>epochCounter := k, subscriptions := subscriptions ?r @ [(ftn, e)]\<rparr>"
      let ?p = "\<lparr>p_ftn = ftn, p_epoch = k\<rparr>"
      have g: "getOrCreateFromSubscribe ftn ref chain now ?s ?r = (r', FirstSubscriber (fc_consumer chain) ?p)"
        using None Some le n by (simp add: getOrCreateFromSubscribe_def nextEpoch_exact r'_def e_def k_def Let_def)
      have "p_epoch p \<noteq> k" if "p \<in> set (pendings w)" for p using d(7) [OF that] by (simp add: k_def)
      then have dp: "distinct (map p_epoch (?p # pendings w))" using d(6) by auto
      have "store_ok lf (?p # pendings w) r'"
        by (rule add_entry_ok [OF s None _ _ _ _ dp, of e])
          (use c Some in \<open>auto simp: e_def k_def r'_def RelaySubscription_def reg_call_ok_def isFulfilled_def\<close>)
      moreover have "waits (ftn, e) = []" by (simp add: waits_def e_def RelaySubscription_def waiting_on_def)
      ultimately show ?thesis using g room_skip [OF wo'] le
        by (auto simp: reg_ok_def' waiting_ok_def r'_def k_def)
    qed
  next
    case (Some e)
    show ?thesis
    proof (cases "rs_promise e")
      case Fulfilled
      then have "getOrCreateFromSubscribe ftn ref chain now ?s ?r = (?r, Subsequent)"
        using Some by (simp add: getOrCreateFromSubscribe_def)
      then show ?thesis using Some Fulfilled s room_pass [OF wo'] le
        by (auto simp: reg_ok_def' waiting_ok_def isFulfilled_def Let_def)
    next
      case (Waiting ws)
      let ?e = "e\<lparr>rs_promise := Waiting (ws @ [?s])\<rparr>"
      have g: "getOrCreateFromSubscribe ftn ref chain now ?s ?r = (replace_entry ftn ?e ?r, Subsequent)"
        using Some Waiting by (simp add: getOrCreateFromSubscribe_def)
      have "store_ok lf (pendings w) (replace_entry ftn ?e ?r)"
        using d(5) [OF Some] d(6) Waiting by (intro replace_entry_ok [OF s Some]) (auto simp: isFulfilled_def)
      moreover have "held_by waits (subscriptions (replace_entry ftn ?e ?r)) = add_mset (?s, ftn) (held_by waits (subscriptions ?r))"
        unfolding replace_waits [OF s Some] by (simp add: waits_def Waiting waiting_on_def)
      ultimately show ?thesis using g Some Waiting room_join [OF wo', of ftn] le
        by (auto simp: reg_ok_def' waiting_ok_def isFulfilled_def replace_entry_def Let_def)
    qed
  qed
qed

lemma publish_ok:
  assumes ok: "reg_ok lf n w" and n: "n < u64_max" and c: "reg_call_ok lf (RPublish ftn fwd sess pb q h chain now)"
  shows "\<exists>w'. reg_perform (RPublish ftn fwd sess pb q h chain now) w = Some w' \<and> reg_ok lf (Suc n) w'"
proof -
  have s: "store_ok lf (pendings w) (reg w)" and wo: "waiting_ok w" and le: "epochCounter (reg w) \<le> n"
    using ok by (simp_all add: reg_ok_def')
  obtain r1 xs where r1: "erase_entry ftn (reg w) = (r1, xs)" by (rule prod.exhaust)
  note e1 = erase_entry_ok [OF s r1]
  note d = store_okD [OF e1(1)]
  obtain f where f: "fc_topNFilter chain = Some f" using c by (auto simp: reg_call_ok_def)
  define k where "k = Suc (epochCounter r1)"
  define e where "e = (RelaySubscription fwd sess k now)
    \<lparr>rs_promise := Fulfilled, rs_requestID := q, rs_handle := h, rs_publisher := pb,
     rs_isPublish := True, rs_topNFilter := fc_topNFilter chain, rs_chainHead := fc_chainHead chain,
     rs_ingest := fc_ingest chain\<rparr>"
  define r' where "r' = r1\<lparr>epochCounter := k, subscriptions := subscriptions r1 @ [(ftn, e)],
    activityTarget := (f, ftn, k) # erase_key f (activityTarget r1)\<rparr>"
  have "\<exists>y. createFromPublish (\<lambda>_. 0) ftn fwd sess pb q h chain now (reg w) = Some (r', fc_consumer chain, y, xs)"
    using f le n e1(3) by (simp add: createFromPublish_def r1 nextEpoch_exact r'_def e_def k_def Let_def)
  moreover have "\<lparr>p_ftn = ftn, p_epoch = rs_epoch e\<rparr> \<notin> set (pendings w)" using d(7) by (fastforce simp: e_def RelaySubscription_def k_def)
  then have "store_ok lf (pendings w) r'"
    by (intro add_entry_ok [OF e1(1,4), of e])
      (use c f d(6) in \<open>auto simp: e_def k_def r'_def RelaySubscription_def reg_call_ok_def isFulfilled_def set_erase_key\<close>)
  moreover have "waits (ftn, e) = []" by (simp add: waits_def e_def waiting_on_def)
  then have "releases (reg w) r' xs" using e1(2) by (simp add: releases_def r'_def)
  then have "waiting_ok (settle xs (w\<lparr>reg := r', pendings := pendings w\<rparr>))" by (rule settle_waiting [OF wo])
  moreover have "w\<lparr>reg := r', pendings := pendings w\<rparr> = w\<lparr>reg := r'\<rparr>" by simp
  ultimately show ?thesis using le e1(3) by (auto simp: reg_ok_def' settle_def r'_def k_def)
qed

lemma settle_ok:
  assumes ok: "reg_ok lf n w" and "store_ok lf ps r'" and "releases (reg w) r' xs" and "epochCounter r' = epochCounter (reg w)"
  shows "reg_ok lf (Suc n) (settle xs (w\<lparr>reg := r', pendings := ps\<rparr>))"
  using settle_waiting [of w r' xs ps] assms by (simp add: reg_ok_def' settle_def)

lemma terminate_ok:
  assumes ok: "store_ok lf ps r" and lf: "\<not> lf"
  shows "\<exists>r' y xs. onPublisherTerminated isEmpty ftn r = Some (r', y, xs) \<and> store_ok lf ps r' \<and> releases r r' xs \<and>
    epochCounter r' = epochCounter r"
proof (cases "map_of (subscriptions r) ftn")
  case None
  then show ?thesis using ok by (simp add: onPublisherTerminated_def releases_refl)
next
  case (Some e)
  note d = store_okD [OF ok]
  obtain g f where f: "rs_forwarder e = Owned g f" using d(3) [OF Some] lf by (cases "rs_forwarder e") (auto simp: ref_ok_def)
  define r1 where "r1 = replace_entry ftn (e\<lparr>rs_handle := None, rs_upstream := None, rs_publisher := None\<rparr>) r"
  have s1: "store_ok lf ps r1"
    unfolding r1_def using d(4,5) [OF Some] d(6) by (intro replace_entry_ok [OF ok Some]) auto
  have w1: "held_by waits (subscriptions r1) = held_by waits (subscriptions r)"
    unfolding r1_def replace_waits [OF ok Some] by (simp add: waits_def)
  have c1: "epochCounter r1 = epochCounter r" by (simp add: r1_def replace_entry_def)
  obtain r2 xs where r2: "erase_entry ftn r1 = (r2, xs)" by (rule prod.exhaust)
  have "releases r r2 xs" using erase_entry_ok(2) [OF s1 r2] w1 by (simp add: releases_def)
  moreover have "releases r r1 []" using w1 by (simp add: releases_def)
  ultimately show ?thesis
    using Some f s1 c1 r2 erase_entry_ok(1,3) [OF s1 r2]
    by (cases "isEmpty f") (simp_all add: onPublisherTerminated_def getIfOwned_def r1_def [symmetric])
qed

lemma reg_perform_ok:
  assumes ok: "reg_ok lf n w" and n: "n < u64_max" and c: "reg_call_ok lf k"
  shows "\<exists>w'. reg_perform k w = Some w' \<and> reg_ok lf (Suc n) w'"
proof -
  have s: "store_ok lf (pendings w) (reg w)" using ok by (simp add: reg_ok_def')
  have same: "w\<lparr>reg := r, pendings := pendings w\<rparr> = w\<lparr>reg := r\<rparr>" for r by simp
  have idle: "reg_ok lf (Suc n) w" using ok by (simp add: reg_ok_def')
  note so = settle_ok [OF ok]
  show ?thesis
  proof (cases k)
    case (RSubscribe ftn ref chain now)
    then show ?thesis using subscribe_ok [OF ok n] c by blast
  next
    case (RPublish ftn fwd sess pb q h chain now)
    then show ?thesis using publish_ok [OF ok n] c by blast
  next
    case (RComplete i h q u pb)
    show ?thesis
    proof (cases "i < length (pendings w)")
      case True
      obtain r' b xs where r': "completeSubscription (p_ftn (pendings w ! i)) (p_epoch (pendings w ! i)) h q u pb (reg w) = Some (r', b, xs)"
        "store_ok lf (take_nth i (pendings w)) r'" "releases (reg w) r' xs" "epochCounter r' = epochCounter (reg w)"
        using completeSubscription_ok [OF s True] by blast
      show ?thesis using so [OF r'(2,3,4)] RComplete True r'(1) by (simp add: Let_def)
    qed (use RComplete idle in simp)
  next
    case (RFail i)
    show ?thesis
    proof (cases "i < length (pendings w)")
      case True
      obtain r' xs where r': "failAndRemove (p_ftn (pendings w ! i)) (p_epoch (pendings w ! i)) (reg w) = Some (r', xs)"
        "store_ok lf (take_nth i (pendings w)) r'" "releases (reg w) r' xs" "epochCounter r' = epochCounter (reg w)"
        using failAndRemove_ok [OF s True] by blast
      show ?thesis using so [OF r'(2,3,4)] RFail True r'(1) by (simp add: Let_def)
    qed (use RFail idle in simp)
  next
    case (RTerminate ftn isEmpty)
    then have "\<not> lf" using c by (simp add: reg_call_ok_def)
    then obtain r' y xs where r': "onPublisherTerminated isEmpty ftn (reg w) = Some (r', y, xs)"
      "store_ok lf (pendings w) r'" "releases (reg w) r' xs" "epochCounter r' = epochCounter (reg w)"
      using terminate_ok [OF s] by blast
    show ?thesis using so [OF r'(2,3,4)] RTerminate r'(1) by (simp add: same)
  next
    case (RRemove ftn)
    obtain r' xs where r': "erase_entry ftn (reg w) = (r', xs)" by (rule prod.exhaust)
    show ?thesis using so [OF erase_entry_ok(1,2,3) [OF s r']] RRemove r' by (simp add: remove_entry_def same)
  next
    case (RRemoveIf counters P)
    obtain r' xs where r': "removeIf_loop counters P (subscriptions (reg w)) (reg w) = (r', xs)" by (rule prod.exhaust)
    have k: "store_ok lf (pendings w) r'" "releases (reg w) r' xs" "epochCounter r' = epochCounter (reg w)"
      using removeIf_loop_ok [OF s r'] by blast+
    show ?thesis using so [OF k] RRemoveIf r' by (simp add: removeIf_def same)
  qed
qed

lemma reg_perform_all_ok:
  assumes "reg_ok lf n w" and "n + length ks \<le> u64_max" and "\<forall>k\<in>set ks. reg_call_ok lf k"
  shows "\<exists>w'. reg_perform_all ks w = Some w' \<and> reg_ok lf (n + length ks) w'"
  using assms
proof (induction ks arbitrary: n w)
  case (Cons k ks)
  obtain w1 where w1: "reg_perform k w = Some w1" "reg_ok lf (Suc n) w1"
    using reg_perform_ok [OF Cons.prems(1), of k] Cons.prems(2,3) by auto
  then show ?case using Cons.IH [OF w1(2)] Cons.prems(2,3) by auto
qed simp

lemma new_reg_world_ok: "reg_ok lf 0 new_reg_world"
  by (simp add: reg_ok_def entries_ok_def targets_ok_def guards_ok_def waiting_ok_def room_ok_def held_by_def new_reg_world_def new_registry_def)

definition demo_track :: full_track_name where
  "demo_track = \<lparr>trackNamespace = [''a''], trackName = ''t''\<rparr>"

definition demo_chain :: filter_chain_result where
  "demo_chain = \<lparr>fc_consumer = 7, fc_topNFilter = Some 8, fc_chainHead = Some 9, fc_ingest = None\<rparr>"

definition demo_joins :: "reg_call list" where
  "demo_joins = [RSubscribe demo_track (Some (Owned demo_track 0)) demo_chain 5, RSubscribe demo_track None demo_chain 6]"

definition demo_publish :: reg_call where
  "demo_publish = RPublish demo_track (Owned demo_track 1) (Some 2) None 3 (Some 4) demo_chain 7"

section \<open>Properties\<close>

text \<open>C10. No history of fewer than 2^64 calls on the registry aborts: no promise is set twice, no publisher
is terminated through a forwarder that lives elsewhere. Afterwards every filter that writes the time of
its last object writes into an entry that is in the map, is the entry it was given, and holds that
filter.\<close>

theorem registry_histories_safe:
  assumes "length ks \<le> u64_max" and "\<forall>k\<in>set ks. reg_call_ok lf k"
  shows "\<exists>w. reg_perform_all ks new_reg_world = Some w \<and>
    (\<forall>(n, f, k)\<in>set (activityTarget (reg w)).
       \<exists>e. map_of (subscriptions (reg w)) f = Some e \<and> rs_epoch e = k \<and> rs_topNFilter e = Some n)"
proof -
  obtain w where w: "reg_perform_all ks new_reg_world = Some w" "reg_ok lf (0 + length ks) w"
    using reg_perform_all_ok [OF new_reg_world_ok _ assms(2)] assms(1) by auto
  then show ?thesis by (auto simp: reg_ok_def targets_ok_def)
qed

theorem registry_histories_safe_witness:
  "\<exists>w. reg_perform_all (demo_joins @ [demo_publish, RComplete 0 (Some 1) 2 (Some 3) None]) new_reg_world = Some w \<and>
    (\<forall>(n, f, k)\<in>set (activityTarget (reg w)).
       \<exists>e. map_of (subscriptions (reg w)) f = Some e \<and> rs_epoch e = k \<and> rs_topNFilter e = Some n)"
  by (rule registry_histories_safe [where lf = False])
    (simp_all add: u64_max_def demo_joins_def demo_publish_def demo_chain_def reg_call_ok_def ref_ok_def)

text \<open>C9. A subscriber that joins a track is never lost. After every history it either has been settled,
once, or waits at an entry of the map whose upstream subscription is still open: a guard for exactly
this entry is alive and owes it a completion or a failure.\<close>

theorem no_lost_subscriber:
  assumes "length ks \<le> u64_max" and "\<forall>k\<in>set ks. reg_call_ok lf k" and "reg_perform_all ks new_reg_world = Some w"
  shows "distinct (map fst (waiting w) @ map fst (outcomes w)) \<and>
    (\<forall>(s, f)\<in>set (waiting w). \<exists>e. map_of (subscriptions (reg w)) f = Some e \<and> s \<in> set (waiting_on (rs_promise e)) \<and>
       \<lparr>p_ftn = f, p_epoch = rs_epoch e\<rparr> \<in> set (pendings w))"
proof -
  have "reg_ok lf (0 + length ks) w"
    using reg_perform_all_ok [OF new_reg_world_ok _ assms(2)] assms(1,3) by auto
  then have s: "store_ok lf (pendings w) (reg w)" and wo: "waiting_ok w" by (simp_all add: reg_ok_def')
  note d = store_okD [OF s]
  have "\<exists>e. map_of (subscriptions (reg w)) f = Some e \<and> x \<in> set (waiting_on (rs_promise e)) \<and>
      \<lparr>p_ftn = f, p_epoch = rs_epoch e\<rparr> \<in> set (pendings w)" if m: "(x, f) \<in> set (waiting w)" for x f
  proof -
    have "(x, f) \<in># mset (concat (map waits (subscriptions (reg w))))" using m wo by (metis held_by_def room_ok_def set_mset_mset waiting_ok_def)
    then obtain e where e: "(f, e) \<in> set (subscriptions (reg w))" "x \<in> set (waiting_on (rs_promise e))" by (auto simp: waits_def)
    then have o: "map_of (subscriptions (reg w)) f = Some e" using d(1) by simp
    have "\<not> isFulfilled (rs_promise e)" using e(2) by (auto simp: isFulfilled_def waiting_on_def)
    then show ?thesis using o e(2) d(5) [OF o] by blast
  qed
  then show ?thesis using wo by (auto simp: waiting_ok_def room_ok_def)
qed

theorem no_lost_subscriber_witness:
  "\<exists>w. reg_perform_all demo_joins new_reg_world = Some w \<and> waiting w = [(1, demo_track)] \<and>
    (\<forall>(s, f)\<in>set (waiting w). \<exists>e. map_of (subscriptions (reg w)) f = Some e \<and> s \<in> set (waiting_on (rs_promise e)) \<and>
       \<lparr>p_ftn = f, p_epoch = rs_epoch e\<rparr> \<in> set (pendings w))"
proof -
  let ?w = "the (reg_perform_all demo_joins new_reg_world)"
  have "\<not> Option.is_none (reg_perform_all demo_joins new_reg_world)" by code_simp
  then have w: "reg_perform_all demo_joins new_reg_world = Some ?w" by (simp add: Option.is_none_def)
  have c: "\<forall>k\<in>set demo_joins. reg_call_ok False k" by (simp add: demo_joins_def reg_call_ok_def ref_ok_def)
  have "length demo_joins \<le> u64_max" by (simp add: demo_joins_def u64_max_def)
  note p = no_lost_subscriber [OF this c w]
  have "waiting ?w = [(1, demo_track)]" by code_simp
  then show ?thesis using w p by blast
qed

text \<open>A publisher that takes over a track while the first subscription is in flight replaces the entry: the
late completion is refused, and the subscribers that had joined are turned away with a broken promise
although the track has a publisher now.\<close>

lemma takeover_breaks_waiters:
  "map_option (\<lambda>w. (outcomes w, exists_entry demo_track (reg w))) (reg_perform_all (demo_joins @ [demo_publish]) new_reg_world) =
   Some ([(1, BrokenPromise)], True)"
  by code_simp

end
