(* ===== verification/Local_Forwarders.thy ===== *)
theory Local_Forwarders
  imports Waiting_Rooms "HOL-Library.Monad_Syntax" "HOL-Library.Code_Target_Nat"
begin

text \<open>
  The registry of the forwarders of one input thread (\<^verbatim>\<open>src/relay/LocalForwarderRegistry.h\<close>): a track is
  absent, pending with one claim that owes its setup, or ready. Forwarders are shared by pointer and
  are numbers here. A result \<open>None\<close> is an aborting check.
\<close>

section \<open>State\<close>

type_synonym lfwd = nat
type_synonym waiter_id = nat

text \<open>\<open>ready\<close> is the promise that discriminates the state: \<open>Some\<close> of the waiters while the entry is pending.
The promise is owned by the entry alone and moves with it.\<close>

record lf_entry =
  lf_forwarder :: lfwd
  lf_ready :: "waiter_id list option"

record lf_registry =
  forwarders :: "(full_track_name \<times> lf_entry) list"
  displaced :: "(full_track_name \<times> lfwd list) list"

definition new_lf_registry :: lf_registry where
  "new_lf_registry = \<lparr>forwarders = [], displaced = []\<rparr>"

record claim =
  c_engaged :: bool
  c_ftn :: full_track_name
  c_forwarder :: lfwd
  c_initialStateSet :: bool

record park_ticket =
  t_key :: "lfwd option"

datatype wake = WReady | WFailed string

datatype lf_state = Absent | PendingState | ReadyState lfwd

datatype join_result = JoinClaim claim | JoinPending | JoinReady lfwd

section \<open>Operations of the registry\<close>

definition wake_all :: "wake \<Rightarrow> waiter_id list option \<Rightarrow> (waiter_id \<times> wake) list" where
  "wake_all x p = (case p of None \<Rightarrow> [] | Some ws \<Rightarrow> map (\<lambda>w. (w, x)) ws)"

text \<open>\<open>inherited\<close> is the promise of the occupant that is replaced.\<close>

definition makePending ::
  "full_track_name \<Rightarrow> lfwd \<Rightarrow> bool \<Rightarrow> waiter_id list option \<Rightarrow> lf_registry \<Rightarrow> lf_registry \<times> claim \<times> park_ticket" where
  "makePending ftn fwd park inherited r =
     (let old = map_option lf_forwarder (map_of (forwarders r) ftn);
          e = \<lparr>lf_forwarder = fwd, lf_ready = Some (case inherited of Some ws \<Rightarrow> ws | None \<Rightarrow> [])\<rparr>;
          r1 = r\<lparr>forwarders := upsert ftn e (\<lambda>_. e) (forwarders r)\<rparr>;
          c = \<lparr>c_engaged = True, c_ftn = ftn, c_forwarder = fwd, c_initialStateSet = False\<rparr>
      in case old of
           Some f \<Rightarrow>
             if park then (r1\<lparr>displaced := upsert ftn [] (\<lambda>fs. fs @ [f]) (displaced r1)\<rparr>, c, \<lparr>t_key = Some f\<rparr>)
             else (r1, c, \<lparr>t_key = None\<rparr>)
         | None \<Rightarrow> (r1, c, \<lparr>t_key = None\<rparr>))"

text \<open>\<open>factory\<close> is the forwarder the factory makes; a pending entry gives a future to the waiter \<open>w\<close>.\<close>

definition add_waiter :: "full_track_name \<Rightarrow> lf_entry \<Rightarrow> waiter_id list \<Rightarrow> waiter_id \<Rightarrow> lf_registry \<Rightarrow> lf_registry" where
  "add_waiter ftn e ws w r = r\<lparr>forwarders := set_key ftn (e\<lparr>lf_ready := Some (ws @ [w])\<rparr>) (forwarders r)\<rparr>"

definition join :: "full_track_name \<Rightarrow> lfwd option \<Rightarrow> waiter_id \<Rightarrow> lf_registry \<Rightarrow> (lf_registry \<times> join_result) option" where
  "join ftn factory w r =
     (case map_of (forwarders r) ftn of
        Some e \<Rightarrow>
          (case lf_ready e of
             Some ws \<Rightarrow> Some (add_waiter ftn e ws w r, JoinPending)
           | None \<Rightarrow> Some (r, JoinReady (lf_forwarder e)))
      | None \<Rightarrow>
          (case factory of
             None \<Rightarrow> None
           | Some f \<Rightarrow> let (r', c, _) = makePending ftn f False None r in Some (r', JoinClaim c)))"

definition replaceImpl ::
  "full_track_name \<Rightarrow> lfwd \<Rightarrow> bool \<Rightarrow> lf_registry \<Rightarrow> (lf_registry \<times> claim \<times> park_ticket) option" where
  "replaceImpl ftn fwd park r =
     (case map_of (forwarders r) ftn of
        Some e \<Rightarrow> if lf_forwarder e = fwd then None else Some (makePending ftn fwd park (lf_ready e) r)
      | None \<Rightarrow> Some (makePending ftn fwd park None r))"

definition lf_replace :: "full_track_name \<Rightarrow> lfwd \<Rightarrow> lf_registry \<Rightarrow> (lf_registry \<times> claim) option" where
  "lf_replace ftn fwd r = map_option (\<lambda>(r', c, _). (r', c)) (replaceImpl ftn fwd False r)"

definition replaceAndPark :: "full_track_name \<Rightarrow> lfwd \<Rightarrow> lf_registry \<Rightarrow> (lf_registry \<times> claim \<times> park_ticket) option" where
  "replaceAndPark ftn fwd r = replaceImpl ftn fwd True r"

definition getIfReady :: "full_track_name \<Rightarrow> lf_registry \<Rightarrow> lfwd option" where
  "getIfReady ftn r =
     (case map_of (forwarders r) ftn of None \<Rightarrow> None
      | Some e \<Rightarrow> if lf_ready e = None then Some (lf_forwarder e) else None)"

definition lf_lookup :: "full_track_name \<Rightarrow> waiter_id \<Rightarrow> lf_registry \<Rightarrow> lf_registry \<times> lf_state" where
  "lf_lookup ftn w r =
     (case map_of (forwarders r) ftn of
        None \<Rightarrow> (r, Absent)
      | Some e \<Rightarrow>
          (case lf_ready e of
             Some ws \<Rightarrow> (add_waiter ftn e ws w r, PendingState)
           | None \<Rightarrow> (r, ReadyState (lf_forwarder e))))"

definition getForEviction :: "full_track_name \<Rightarrow> lf_registry \<Rightarrow> lfwd option" where
  "getForEviction ftn r = map_option lf_forwarder (map_of (forwarders r) ftn)"

definition takeDisplaced :: "full_track_name \<Rightarrow> park_ticket \<Rightarrow> lf_registry \<Rightarrow> lf_registry \<times> lfwd option" where
  "takeDisplaced ftn ticket r =
     (case t_key ticket of
        None \<Rightarrow> (r, None)
      | Some f \<Rightarrow>
          (case map_of (displaced r) ftn of
             None \<Rightarrow> (r, None)
           | Some parked \<Rightarrow>
               if f \<in> set parked then
                 (let parked' = remove1 f parked in
                  (r\<lparr>displaced := if parked' = [] then erase_key ftn (displaced r) else set_key ftn parked' (displaced r)\<rparr>,
                   Some f))
               else (r, None)))"

definition lf_remove :: "full_track_name \<Rightarrow> lfwd \<Rightarrow> lf_registry \<Rightarrow> lf_registry \<times> lfwd option \<times> (waiter_id \<times> wake) list" where
  "lf_remove ftn expected r =
     (case map_of (forwarders r) ftn of
        None \<Rightarrow> (r, None, [])
      | Some e \<Rightarrow>
          if lf_forwarder e \<noteq> expected then (r, None, [])
          else (r\<lparr>forwarders := erase_key ftn (forwarders r)\<rparr>, Some (lf_forwarder e),
                wake_all (WFailed ''local forwarder removed'') (lf_ready e)))"

definition findPendingOwnedBy :: "full_track_name \<Rightarrow> lfwd \<Rightarrow> lf_registry \<Rightarrow> lf_entry option" where
  "findPendingOwnedBy ftn owner r =
     (case map_of (forwarders r) ftn of None \<Rightarrow> None
      | Some e \<Rightarrow> if lf_ready e = None \<or> lf_forwarder e \<noteq> owner then None else Some e)"

definition lf_markReady :: "full_track_name \<Rightarrow> lfwd \<Rightarrow> lf_registry \<Rightarrow> lf_registry \<times> (waiter_id \<times> wake) list" where
  "lf_markReady ftn owner r =
     (case findPendingOwnedBy ftn owner r of
        None \<Rightarrow> (r, [])
      | Some e \<Rightarrow> (r\<lparr>forwarders := set_key ftn (e\<lparr>lf_ready := None\<rparr>) (forwarders r)\<rparr>, wake_all WReady (lf_ready e)))"

definition lf_fail :: "full_track_name \<Rightarrow> lfwd \<Rightarrow> string \<Rightarrow> lf_registry \<Rightarrow> lf_registry \<times> (waiter_id \<times> wake) list" where
  "lf_fail ftn owner ew r =
     (case findPendingOwnedBy ftn owner r of
        None \<Rightarrow> (r, [])
      | Some e \<Rightarrow> (r\<lparr>forwarders := erase_key ftn (forwarders r)\<rparr>, wake_all (WFailed ew) (lf_ready e)))"

text \<open>The destructor aborts on a pending entry and on a forwarder still parked.\<close>

definition destroy_registry :: "lf_registry \<Rightarrow> unit option" where
  "destroy_registry r =
     (if (\<forall>(f, e)\<in>set (forwarders r). lf_ready e = None) \<and> (\<forall>(f, fs)\<in>set (displaced r). fs = []) then Some () else None)"

section \<open>Operations of a claim\<close>

text \<open>\<^verbatim>\<open>initial.applyTo\<close> marks the forwarder as set up.\<close>

definition setInitialState :: "claim \<Rightarrow> (claim \<times> lfwd) option" where
  "setInitialState c = (if c_engaged c then Some (c\<lparr>c_initialStateSet := True\<rparr>, c_forwarder c) else None)"

definition claim_markReady :: "claim \<Rightarrow> lf_registry \<Rightarrow> (claim \<times> lf_registry \<times> (waiter_id \<times> wake) list) option" where
  "claim_markReady c r =
     (if \<not> c_engaged c then Some (c, r, [])
      else if \<not> c_initialStateSet c then None
      else let (r', xs) = lf_markReady (c_ftn c) (c_forwarder c) r in Some (c\<lparr>c_engaged := False\<rparr>, r', xs))"

definition claim_fail :: "string \<Rightarrow> claim \<Rightarrow> lf_registry \<Rightarrow> claim \<times> lf_registry \<times> (waiter_id \<times> wake) list" where
  "claim_fail ew c r =
     (if \<not> c_engaged c then (c, r, [])
      else let (r', xs) = lf_fail (c_ftn c) (c_forwarder c) ew r in (c\<lparr>c_engaged := False\<rparr>, r', xs))"

definition claim_drop :: "claim \<Rightarrow> lf_registry \<Rightarrow> claim \<times> lf_registry \<times> (waiter_id \<times> wake) list" where
  "claim_drop c r = claim_fail ''local forwarder claim dropped'' c r"

section \<open>The registry with its claims, tickets and waiters\<close>

text \<open>\<open>claims\<close> are engaged, \<open>tickets\<close> not yet redeemed; \<open>setUp\<close> are the forwarders whose initial state was
applied. A forwarder enters the registry once: it is made for the call.\<close>

record lf_world =
  lreg :: lf_registry
  claims :: "claim list"
  tickets :: "(full_track_name \<times> lfwd) list"
  lwaiting :: "(waiter_id \<times> full_track_name) list"
  lwoken :: "(waiter_id \<times> wake) list"
  setUp :: "lfwd list"
  next_lfwd :: lfwd
  next_waiter :: waiter_id

definition new_lf_world :: lf_world where
  "new_lf_world = \<lparr>lreg = new_lf_registry, claims = [], tickets = [], lwaiting = [], lwoken = [], setUp = [],
     next_lfwd = 0, next_waiter = 0\<rparr>"

definition wake_waiters :: "(waiter_id \<times> wake) list \<Rightarrow> lf_world \<Rightarrow> lf_world" where
  "wake_waiters xs w = w\<lparr>lwaiting := leave xs (lwaiting w), lwoken := xs @ lwoken w\<rparr>"

datatype lf_call =
    LJoin full_track_name
  | LLookup full_track_name
  | LReplace bool full_track_name
  | LInit nat
  | LMarkReady nat
  | LFail nat string
  | LRemove full_track_name lfwd
  | LTake nat

text \<open>The caller of \<^verbatim>\<open>markReady\<close> has set the initial state; claims and tickets are named by position.\<close>

definition lf_enabled :: "lf_call \<Rightarrow> lf_world \<Rightarrow> bool" where
  "lf_enabled k w = (case k of
       LInit i \<Rightarrow> i < length (claims w)
     | LMarkReady i \<Rightarrow> i < length (claims w) \<and> c_initialStateSet (claims w ! i)
     | LFail i _ \<Rightarrow> i < length (claims w)
     | LTake i \<Rightarrow> i < length (tickets w)
     | _ \<Rightarrow> True)"

fun lf_perform :: "lf_call \<Rightarrow> lf_world \<Rightarrow> lf_world option" where
  "lf_perform (LJoin ftn) w = do {
     (r, res) \<leftarrow> join ftn (Some (next_lfwd w)) (next_waiter w) (lreg w);
     Some (case res of
             JoinClaim c \<Rightarrow> w\<lparr>lreg := r, claims := c # claims w, next_lfwd := Suc (next_lfwd w)\<rparr>
           | JoinPending \<Rightarrow> w\<lparr>lreg := r, lwaiting := (next_waiter w, ftn) # lwaiting w, next_waiter := Suc (next_waiter w)\<rparr>
           | JoinReady _ \<Rightarrow> w) }"
| "lf_perform (LLookup ftn) w =
     (case lf_lookup ftn (next_waiter w) (lreg w) of
        (r, PendingState) \<Rightarrow> Some (w\<lparr>lreg := r, lwaiting := (next_waiter w, ftn) # lwaiting w, next_waiter := Suc (next_waiter w)\<rparr>)
      | _ \<Rightarrow> Some w)"
| "lf_perform (LReplace park ftn) w = do {
     (r, c, t) \<leftarrow> replaceImpl ftn (next_lfwd w) park (lreg w);
     Some (w\<lparr>lreg := r, claims := c # claims w, next_lfwd := Suc (next_lfwd w),
             tickets := (case t_key t of None \<Rightarrow> tickets w | Some f \<Rightarrow> (ftn, f) # tickets w)\<rparr>) }"
| "lf_perform (LInit i) w = do {
     (c, f) \<leftarrow> setInitialState (claims w ! i);
     Some (w\<lparr>claims := (claims w)[i := c], setUp := f # setUp w\<rparr>) }"
| "lf_perform (LMarkReady i) w = do {
     (c, r, xs) \<leftarrow> claim_markReady (claims w ! i) (lreg w);
     Some (wake_waiters xs (w\<lparr>lreg := r, claims := take_nth i (claims w)\<rparr>)) }"
| "lf_perform (LFail i ew) w =
     (let (c, r, xs) = claim_fail ew (claims w ! i) (lreg w)
      in Some (wake_waiters xs (w\<lparr>lreg := r, claims := take_nth i (claims w)\<rparr>)))"
| "lf_perform (LRemove ftn f) w =
     (let (r, _, xs) = lf_remove ftn f (lreg w) in Some (wake_waiters xs (w\<lparr>lreg := r\<rparr>)))"
| "lf_perform (LTake i) w =
     (let (ftn, f) = tickets w ! i; (r, taken) = takeDisplaced ftn \<lparr>t_key = Some f\<rparr> (lreg w)
      in Some (w\<lparr>lreg := r, tickets := take_nth i (tickets w)\<rparr>))"

inductive lf_reachable :: "lf_world \<Rightarrow> bool" where
  lf_start: "lf_reachable new_lf_world"
| lf_call: "lf_reachable w \<Longrightarrow> lf_enabled k w \<Longrightarrow> lf_perform k w = Some w' \<Longrightarrow> lf_reachable w'"

section \<open>Invariant\<close>

definition lf_waits :: "full_track_name \<times> lf_entry \<Rightarrow> (waiter_id \<times> full_track_name) list" where
  "lf_waits x = (case lf_ready (snd x) of None \<Rightarrow> [] | Some ws \<Rightarrow> map (\<lambda>w. (w, fst x)) ws)"

definition parked_of :: "full_track_name \<times> lfwd list \<Rightarrow> (full_track_name \<times> lfwd) list" where
  "parked_of x = map (Pair (fst x)) (snd x)"

text \<open>One claim per pending entry, and only forwarders with their initial state are ready.\<close>

definition entry_ok :: "claim list \<Rightarrow> lfwd list \<Rightarrow> lfwd \<Rightarrow> full_track_name \<Rightarrow> lf_entry \<Rightarrow> bool" where
  "entry_ok cs su n f e \<longleftrightarrow> lf_forwarder e < n \<and>
     (if lf_ready e = None then lf_forwarder e \<in> set su
      else \<exists>c\<in>set cs. c_ftn c = f \<and> c_forwarder c = lf_forwarder e)"

definition claims_ok :: "claim list \<Rightarrow> lfwd list \<Rightarrow> lfwd \<Rightarrow> bool" where
  "claims_ok cs su n \<longleftrightarrow> distinct (map c_forwarder cs) \<and>
     (\<forall>c\<in>set cs. c_engaged c \<and> c_forwarder c < n \<and> (c_initialStateSet c \<longrightarrow> c_forwarder c \<in> set su))"

definition parked_ok :: "(full_track_name \<times> lfwd list) list \<Rightarrow> (full_track_name \<times> lfwd) list \<Rightarrow> bool" where
  "parked_ok al ts \<longleftrightarrow> distinct (map fst al) \<and> (\<forall>x\<in>set al. snd x \<noteq> []) \<and> mset (concat (map parked_of al)) = mset ts"

definition lf_ok :: "lf_world \<Rightarrow> bool" where
  "lf_ok w \<longleftrightarrow> distinct (map fst (forwarders (lreg w))) \<and>
     (\<forall>f e. map_of (forwarders (lreg w)) f = Some e \<longrightarrow> entry_ok (claims w) (setUp w) (next_lfwd w) f e) \<and>
     claims_ok (claims w) (setUp w) (next_lfwd w) \<and>
     room_ok (held_by lf_waits (forwarders (lreg w))) (lwaiting w) (lwoken w) (next_waiter w) \<and>
     parked_ok (displaced (lreg w)) (tickets w)"

lemma lf_okD:
  assumes "lf_ok w"
  shows "distinct (map fst (forwarders (lreg w)))"
    "map_of (forwarders (lreg w)) f = Some e \<Longrightarrow> entry_ok (claims w) (setUp w) (next_lfwd w) f e"
    "claims_ok (claims w) (setUp w) (next_lfwd w)"
    "room_ok (held_by lf_waits (forwarders (lreg w))) (lwaiting w) (lwoken w) (next_waiter w)"
    "parked_ok (displaced (lreg w)) (tickets w)"
  using assms by (auto simp: lf_ok_def)

lemma new_lf_world_ok: "lf_ok new_lf_world"
  by (simp add: lf_ok_def claims_ok_def parked_ok_def new_lf_world_def new_lf_registry_def held_by_def room_empty)

lemma entry_ok_mono:
  "entry_ok cs su n f e \<Longrightarrow> set cs \<subseteq> set cs' \<Longrightarrow> set su \<subseteq> set su' \<Longrightarrow> n \<le> n' \<Longrightarrow> entry_ok cs' su' n' f e"
  by (auto simp: entry_ok_def split: if_splits)

text \<open>A waiter joins a pending entry.\<close>

lemma add_waiter_ok:
  assumes ok: "lf_ok w" and m: "map_of (forwarders (lreg w)) ftn = Some e" and p: "lf_ready e = Some ws"
  shows "lf_ok (w\<lparr>lreg := add_waiter ftn e ws (next_waiter w) (lreg w),
    lwaiting := (next_waiter w, ftn) # lwaiting w, next_waiter := Suc (next_waiter w)\<rparr>)"
proof -
  note d = lf_okD [OF ok]
  have h: "held_by lf_waits (set_key ftn (e\<lparr>lf_ready := Some (ws @ [next_waiter w])\<rparr>) (forwarders (lreg w))) =
      add_mset (next_waiter w, ftn) (held_by lf_waits (forwarders (lreg w)))"
    unfolding held_by_split [OF d(1) m] by (simp add: lf_waits_def p)
  have "entry_ok (claims w) (setUp w) (next_lfwd w) ftn (e\<lparr>lf_ready := Some (ws @ [next_waiter w])\<rparr>)"
    using d(2) [OF m] p by (simp add: entry_ok_def)
  then show ?thesis using d(1,2,3,5) room_join [OF d(4), of ftn] h
    by (auto simp: lf_ok_def add_waiter_def map_of_set_key)
qed

lemma parked_ok_push:
  assumes "parked_ok al ts"
  shows "parked_ok (upsert ftn [] (\<lambda>fs. fs @ [f]) al) ((ftn, f) # ts)"
proof -
  have d: "distinct (map fst al)" and ne: "\<forall>x\<in>set al. snd x \<noteq> []" and m: "mset (concat (map parked_of al)) = mset ts"
    using assms by (auto simp: parked_ok_def)
  have "mset (concat (map parked_of (upsert ftn [] (\<lambda>fs. fs @ [f]) al))) = add_mset (ftn, f) (mset ts)"
  proof (cases "map_of al ftn")
    case None
    then show ?thesis using m by (simp add: mset_upsert [OF d] parked_of_def erase_key_absent)
  next
    case (Some v)
    then show ?thesis using m alist_split(1) [OF d Some, of parked_of] by (simp add: mset_upsert [OF d] parked_of_def)
  qed
  moreover have "\<forall>x\<in>set (upsert ftn [] (\<lambda>fs. fs @ [f]) al). snd x \<noteq> []" using ne upsert_elems by fastforce
  ultimately show ?thesis using distinct_upsert [OF d] by (simp add: parked_ok_def)
qed

lemma parked_ok_pop:
  assumes ok: "parked_ok al ts" and i: "i < length ts" and t: "ts ! i = (ftn, f)"
  obtains parked where "map_of al ftn = Some parked" "f \<in> set parked"
    "parked_ok (if remove1 f parked = [] then erase_key ftn al else set_key ftn (remove1 f parked) al) (take_nth i ts)"
proof -
  have d: "distinct (map fst al)" and ne: "\<forall>x\<in>set al. snd x \<noteq> []" and m: "mset (concat (map parked_of al)) = mset ts"
    using ok by (auto simp: parked_ok_def)
  have "(ftn, f) \<in># mset (concat (map parked_of al))" using m t nth_mem [OF i] by simp
  then obtain parked where p: "(ftn, parked) \<in> set al" "f \<in> set parked" by (auto simp: parked_of_def)
  have o: "map_of al ftn = Some parked" using d p(1) by simp
  let ?al = "if remove1 f parked = [] then erase_key ftn al else set_key ftn (remove1 f parked) al"
  have s: "mset (concat (map parked_of al)) = image_mset (Pair ftn) (mset parked) + mset (concat (map parked_of (erase_key ftn al)))"
    using alist_split(1) [OF d o, of parked_of] by (simp add: parked_of_def)
  have "mset (concat (map parked_of ?al)) = image_mset (Pair ftn) (mset (remove1 f parked)) + mset (concat (map parked_of (erase_key ftn al)))"
    using alist_split(2) [OF d o, of parked_of "remove1 f parked"]
    by (cases "remove1 f parked") (simp_all add: parked_of_def del: mset_remove1)
  moreover have "mset parked = add_mset f (mset (remove1 f parked))" using p(2) by simp
  ultimately have "add_mset (ftn, f) (mset (concat (map parked_of ?al))) = mset ts" using m s by (simp del: mset_remove1)
  then have "mset (concat (map parked_of ?al)) = mset (take_nth i ts)" using take_nth_mset [OF i] t by simp
  moreover have "\<forall>x\<in>set ?al. snd x \<noteq> []" using ne by (auto simp: set_erase_key set_key_def split: if_splits)
  ultimately have "parked_ok ?al (take_nth i ts)" using d by (simp add: parked_ok_def distinct_erase_key)
  then show ?thesis using that [OF o p(2)] by blast
qed

lemma makePending_ok:
  assumes ok: "lf_ok w"
    and inh: "inherited = (case map_of (forwarders (lreg w)) ftn of None \<Rightarrow> None | Some e \<Rightarrow> lf_ready e)"
    and mp: "makePending ftn (next_lfwd w) park inherited (lreg w) = (r, c, t)"
  shows "lf_ok (w\<lparr>lreg := r, claims := c # claims w, next_lfwd := Suc (next_lfwd w),
    tickets := (case t_key t of None \<Rightarrow> tickets w | Some f \<Rightarrow> (ftn, f) # tickets w)\<rparr>)"
proof -
  note d = lf_okD [OF ok]
  define e where "e = \<lparr>lf_forwarder = next_lfwd w, lf_ready = Some (case inherited of Some ws \<Rightarrow> ws | None \<Rightarrow> [])\<rparr>"
  have f: "forwarders r = upsert ftn e (\<lambda>_. e) (forwarders (lreg w))"
    and c: "c = \<lparr>c_engaged = True, c_ftn = ftn, c_forwarder = next_lfwd w, c_initialStateSet = False\<rparr>"
    using mp by (auto simp: makePending_def e_def Let_def split: option.splits if_splits)
  have p: "parked_ok (displaced r) (case t_key t of None \<Rightarrow> tickets w | Some f \<Rightarrow> (ftn, f) # tickets w)"
    using mp d(5) parked_ok_push [OF d(5)] by (auto simp: makePending_def Let_def split: option.splits if_splits)
  have h: "held_by lf_waits (forwarders r) = held_by lf_waits (forwarders (lreg w))"
  proof (cases "map_of (forwarders (lreg w)) ftn")
    case None
    then show ?thesis using inh by (simp add: held_by_def f mset_upsert [OF d(1)] erase_key_absent lf_waits_def e_def)
  next
    case (Some x)
    then show ?thesis using inh held_by_split(1) [OF d(1) Some, of lf_waits]
      by (auto simp: held_by_def f mset_upsert [OF d(1)] lf_waits_def e_def split: option.split)
  qed
  have "c_forwarder x < next_lfwd w" if "x \<in> set (claims w)" for x using d(3) that by (simp add: claims_ok_def)
  then have "claims_ok (c # claims w) (setUp w) (Suc (next_lfwd w))" using d(3) by (fastforce simp: claims_ok_def c)
  moreover have "entry_ok (c # claims w) (setUp w) (Suc (next_lfwd w)) g x" if "map_of (forwarders r) g = Some x" for g x
  proof (cases "g = ftn")
    case True
    then have "x = e" using that by (simp add: f map_of_upsert)
    then show ?thesis using True by (simp add: entry_ok_def e_def c)
  next
    case False
    then have "map_of (forwarders (lreg w)) g = Some x" using that by (simp add: f map_of_upsert)
    from entry_ok_mono [OF d(2) [OF this], of "c # claims w" "setUp w" "Suc (next_lfwd w)"] show ?thesis by auto
  qed
  ultimately show ?thesis using d(4) p distinct_upsert [OF d(1), of ftn e "\<lambda>_. e"] by (simp add: lf_ok_def h f [symmetric])
qed

text \<open>Losing a claim harms no entry but its own.\<close>

lemma entry_without_claim:
  assumes cs: "claims_ok cs su n" and i: "i < length cs" and e: "entry_ok cs su n f e"
    and other: "\<not> (f = c_ftn (cs ! i) \<and> lf_ready e \<noteq> None \<and> lf_forwarder e = c_forwarder (cs ! i))"
  shows "entry_ok (take_nth i cs) su n f e"
proof (cases "lf_ready e = None")
  case False
  have s: "set (take_nth i cs) = set cs - {cs ! i}" using take_nth_set(1) [OF i] cs by (auto simp: claims_ok_def)
  obtain c where c: "c \<in> set cs" "c_ftn c = f" "c_forwarder c = lf_forwarder e" using e False by (auto simp: entry_ok_def)
  have "c \<noteq> cs ! i" using other c(2,3) False by auto
  then have "c \<in> set (take_nth i cs)" using c(1) s by simp
  then show ?thesis using c e False unfolding entry_ok_def by auto
qed (use e in \<open>simp add: entry_ok_def\<close>)

lemma claims_ok_drop: "claims_ok cs su n \<Longrightarrow> i < length cs \<Longrightarrow> claims_ok (take_nth i cs) su n"
  using take_nth_set [of i cs c_forwarder] by (auto simp: claims_ok_def)

lemma wake_ok:
  assumes ok: "lf_ok w" and r: "displaced r = displaced (lreg w)" "distinct (map fst (forwarders r))"
    and cs: "claims_ok cs (setUp w) (next_lfwd w)"
    and es: "\<And>f e. map_of (forwarders r) f = Some e \<Longrightarrow> entry_ok cs (setUp w) (next_lfwd w) f e"
    and X: "held_by lf_waits (forwarders (lreg w)) = X + held_by lf_waits (forwarders r)" "image_mset fst X = mset (map fst xs)"
  shows "lf_ok (wake_waiters xs (w\<lparr>lreg := r, claims := cs\<rparr>))"
proof -
  note d = lf_okD [OF ok]
  have "room_ok (held_by lf_waits (forwarders r)) (leave xs (lwaiting w)) (xs @ lwoken w) (next_waiter w)"
    using room_settle [OF d(4) [unfolded X(1)] X(2)] .
  then show ?thesis using d(5) r cs es by (simp add: lf_ok_def wake_waiters_def)
qed

lemma wake_all_waits: "image_mset fst (mset (lf_waits (f, e))) = mset (map fst (wake_all x (lf_ready e)))"
  by (auto simp: lf_waits_def wake_all_def multiset.map_comp comp_def split: option.split)

lemma lf_erase_ok:
  assumes ok: "lf_ok w" and m: "map_of (forwarders (lreg w)) f = Some e" and cs: "claims_ok cs (setUp w) (next_lfwd w)"
    and es: "\<And>g x. map_of (forwarders (lreg w)) g = Some x \<Longrightarrow> g \<noteq> f \<Longrightarrow> entry_ok cs (setUp w) (next_lfwd w) g x"
  shows "lf_ok (wake_waiters (wake_all y (lf_ready e)) (w\<lparr>lreg := (lreg w)\<lparr>forwarders := erase_key f (forwarders (lreg w))\<rparr>, claims := cs\<rparr>))"
proof -
  note d = lf_okD [OF ok]
  show ?thesis
    by (rule wake_ok [OF ok _ _ cs _ _ wake_all_waits])
      (use d(1) es held_by_split(1) [OF d(1) m, of lf_waits] in \<open>auto simp: distinct_erase_key map_of_erase_key split: if_splits\<close>)
qed

lemma resolve_entry:
  assumes ok: "lf_ok w" and i: "i < length (claims w)"
    and m: "map_of (forwarders (lreg w)) g = Some x" and o: "\<not> (g = c_ftn (claims w ! i) \<and> lf_ready x \<noteq> None \<and> lf_forwarder x = c_forwarder (claims w ! i))"
  shows "entry_ok (take_nth i (claims w)) (setUp w) (next_lfwd w) g x"
  by (rule entry_without_claim [OF lf_okD(3) [OF ok] i lf_okD(2) [OF ok m] o])

lemma stale_claim:
  assumes ok: "lf_ok w" and i: "i < length (claims w)"
    and "findPendingOwnedBy (c_ftn (claims w ! i)) (c_forwarder (claims w ! i)) (lreg w) = None"
  shows "lf_ok (wake_waiters [] (w\<lparr>lreg := lreg w, claims := take_nth i (claims w)\<rparr>))"
proof (rule wake_ok [OF ok refl])
  show "entry_ok (take_nth i (claims w)) (setUp w) (next_lfwd w) g x" if "map_of (forwarders (lreg w)) g = Some x" for g x
    by (rule resolve_entry [OF ok i that]) (use assms(3) that in \<open>auto simp: findPendingOwnedBy_def split: if_splits\<close>)
qed (use lf_okD(1,3) [OF ok] claims_ok_drop i in auto)

lemma fail_ok:
  assumes ok: "lf_ok w" and i: "i < length (claims w)"
  shows "\<exists>w'. lf_perform (LFail i ew) w = Some w' \<and> lf_ok w'"
proof -
  let ?c = "claims w ! i"
  have en: "c_engaged ?c" using lf_okD(3) [OF ok] i by (simp add: claims_ok_def)
  show ?thesis
  proof (cases "findPendingOwnedBy (c_ftn ?c) (c_forwarder ?c) (lreg w)")
    case None
    then show ?thesis using stale_claim [OF ok i None] en by (simp add: claim_fail_def lf_fail_def)
  next
    case (Some e)
    then have m: "map_of (forwarders (lreg w)) (c_ftn ?c) = Some e" by (auto simp: findPendingOwnedBy_def split: option.splits if_splits)
    have "lf_ok (wake_waiters (wake_all (WFailed ew) (lf_ready e))
        (w\<lparr>lreg := (lreg w)\<lparr>forwarders := erase_key (c_ftn ?c) (forwarders (lreg w))\<rparr>, claims := take_nth i (claims w)\<rparr>))"
      by (rule lf_erase_ok [OF ok m claims_ok_drop [OF lf_okD(3) [OF ok] i]]) (simp add: resolve_entry [OF ok i])
    then show ?thesis using Some en by (simp add: claim_fail_def lf_fail_def)
  qed
qed

lemma markReady_ok:
  assumes ok: "lf_ok w" and i: "i < length (claims w)" and init: "c_initialStateSet (claims w ! i)"
  shows "\<exists>w'. lf_perform (LMarkReady i) w = Some w' \<and> lf_ok w'"
proof -
  let ?c = "claims w ! i"
  note d = lf_okD [OF ok]
  have en: "c_engaged ?c" and su: "c_forwarder ?c \<in> set (setUp w)" using d(3) i init by (simp_all add: claims_ok_def)
  show ?thesis
  proof (cases "findPendingOwnedBy (c_ftn ?c) (c_forwarder ?c) (lreg w)")
    case None
    then show ?thesis using stale_claim [OF ok i None] en init by (simp add: claim_markReady_def lf_markReady_def)
  next
    case (Some e)
    then have m: "map_of (forwarders (lreg w)) (c_ftn ?c) = Some e" and fe: "lf_forwarder e = c_forwarder ?c"
      by (auto simp: findPendingOwnedBy_def split: option.splits if_splits)
    let ?r = "(lreg w)\<lparr>forwarders := set_key (c_ftn ?c) (e\<lparr>lf_ready := None\<rparr>) (forwarders (lreg w))\<rparr>"
    have "lf_ok (wake_waiters (wake_all WReady (lf_ready e)) (w\<lparr>lreg := ?r, claims := take_nth i (claims w)\<rparr>))"
    proof (rule wake_ok [OF ok _ _ claims_ok_drop [OF d(3) i] _ _ wake_all_waits])
      show "entry_ok (take_nth i (claims w)) (setUp w) (next_lfwd w) g x" if x: "map_of (forwarders ?r) g = Some x" for g x
      proof (cases "g = c_ftn ?c")
        case True
        then have "x = e\<lparr>lf_ready := None\<rparr>" using x m by (simp add: map_of_set_key)
        then show ?thesis using su fe d(2) [OF m] by (simp add: entry_ok_def)
      next
        case False
        then show ?thesis using resolve_entry [OF ok i] x by (simp add: map_of_set_key)
      qed
      show "held_by lf_waits (forwarders (lreg w)) = mset (lf_waits (c_ftn ?c, e)) + held_by lf_waits (forwarders ?r)"
        using held_by_split [OF d(1) m, of lf_waits] by (simp add: lf_waits_def)
    qed (use d(1) in simp_all)
    then show ?thesis using Some en init by (simp add: claim_markReady_def lf_markReady_def)
  qed
qed

lemma init_ok:
  assumes ok: "lf_ok w" and i: "i < length (claims w)"
  shows "\<exists>w'. lf_perform (LInit i) w = Some w' \<and> lf_ok w'"
proof -
  let ?c = "claims w ! i" and ?cs = "(claims w)[i := (claims w ! i)\<lparr>c_initialStateSet := True\<rparr>]"
  note d = lf_okD [OF ok]
  have en: "c_engaged ?c" using d(3) i by (simp add: claims_ok_def)
  have k: "map c_forwarder ?cs = map c_forwarder (claims w)"
    by (rule nth_equalityI) (use i in \<open>auto simp: nth_list_update\<close>)
  have "claims_ok ?cs (c_forwarder ?c # setUp w) (next_lfwd w)"
    using d(3) i k by (auto simp: claims_ok_def all_set_conv_all_nth nth_list_update)
  moreover have "entry_ok ?cs (c_forwarder ?c # setUp w) (next_lfwd w) f e" if eo: "entry_ok (claims w) (setUp w) (next_lfwd w) f e" for f e
  proof -
    have "\<exists>c\<in>set ?cs. c_ftn c = f \<and> c_forwarder c = lf_forwarder e" if ex: "\<exists>c\<in>set (claims w). c_ftn c = f \<and> c_forwarder c = lf_forwarder e"
    proof -
      obtain j where j: "j < length (claims w)" "c_ftn (claims w ! j) = f" "c_forwarder (claims w ! j) = lf_forwarder e"
        using ex by (auto simp: in_set_conv_nth)
      then have "c_ftn (?cs ! j) = f" "c_forwarder (?cs ! j) = lf_forwarder e" using i by (auto simp: nth_list_update)
      then show ?thesis using j(1) by (metis length_list_update nth_mem)
    qed
    then show ?thesis using eo by (auto simp: entry_ok_def)
  qed
  ultimately show ?thesis using d en by (auto simp: setInitialState_def lf_ok_def)
qed

lemma join_ok:
  assumes ok: "lf_ok w"
  shows "\<exists>w'. lf_perform (LJoin ftn) w = Some w' \<and> lf_ok w'"
proof (cases "map_of (forwarders (lreg w)) ftn")
  case None
  obtain r c t where mp: "makePending ftn (next_lfwd w) False None (lreg w) = (r, c, t)" by (rule prod_cases3)
  have "t_key t = None" using mp None by (auto simp: makePending_def Let_def)
  then have "lf_ok (w\<lparr>lreg := r, claims := c # claims w, next_lfwd := Suc (next_lfwd w)\<rparr>)"
    using makePending_ok [OF ok _ mp] None by simp
  then show ?thesis using None mp by (simp add: join_def)
next
  case (Some e)
  then show ?thesis using add_waiter_ok [OF ok Some] ok by (cases "lf_ready e") (simp_all add: join_def)
qed

lemma lookup_ok:
  assumes ok: "lf_ok w"
  shows "\<exists>w'. lf_perform (LLookup ftn) w = Some w' \<and> lf_ok w'"
proof (cases "map_of (forwarders (lreg w)) ftn")
  case (Some e)
  then show ?thesis using add_waiter_ok [OF ok Some] ok by (cases "lf_ready e") (simp_all add: lf_lookup_def)
qed (use ok in \<open>simp add: lf_lookup_def\<close>)

lemma replace_ok:
  assumes ok: "lf_ok w"
  shows "\<exists>w'. lf_perform (LReplace park ftn) w = Some w' \<and> lf_ok w'"
proof -
  define inh where "inh = (case map_of (forwarders (lreg w)) ftn of None \<Rightarrow> None | Some e \<Rightarrow> lf_ready e)"
  obtain r c t where mp: "makePending ftn (next_lfwd w) park inh (lreg w) = (r, c, t)" by (rule prod_cases3)
  have "lf_forwarder e \<noteq> next_lfwd w" if "map_of (forwarders (lreg w)) ftn = Some e" for e
    using lf_okD(2) [OF ok that] by (simp add: entry_ok_def)
  then have "replaceImpl ftn (next_lfwd w) park (lreg w) = Some (r, c, t)"
    using mp by (auto simp: replaceImpl_def inh_def split: option.split)
  then show ?thesis using makePending_ok [OF ok inh_def mp] by simp
qed

lemma remove_ok:
  assumes ok: "lf_ok w"
  shows "\<exists>w'. lf_perform (LRemove ftn f) w = Some w' \<and> lf_ok w'"
proof (cases "\<exists>e. map_of (forwarders (lreg w)) ftn = Some e \<and> lf_forwarder e = f")
  case True
  then obtain e where e: "map_of (forwarders (lreg w)) ftn = Some e" "lf_forwarder e = f" by blast
  have same: "w\<lparr>lreg := r, claims := claims w\<rparr> = w\<lparr>lreg := r\<rparr>" for r by simp
  show ?thesis
    using lf_erase_ok [OF ok e(1) lf_okD(3) [OF ok] lf_okD(2) [OF ok], of "WFailed ''local forwarder removed''"] e
    by (simp add: lf_remove_def same)
next
  case False
  then have "lf_remove ftn f (lreg w) = (lreg w, None, [])" by (auto simp: lf_remove_def split: option.split)
  moreover have "wake_waiters [] (w\<lparr>lreg := lreg w\<rparr>) = w" by (simp add: wake_waiters_def leave_def)
  ultimately show ?thesis using ok by simp
qed

lemma take_ok:
  assumes ok: "lf_ok w" and i: "i < length (tickets w)" and t: "tickets w ! i = (ftn, f)"
  shows "\<exists>w'. lf_perform (LTake i) w = Some w' \<and> lf_ok w'" and "snd (takeDisplaced ftn \<lparr>t_key = Some f\<rparr> (lreg w)) = Some f"
proof -
  note d = lf_okD [OF ok]
  obtain parked where p: "map_of (displaced (lreg w)) ftn = Some parked" "f \<in> set parked"
    "parked_ok (if remove1 f parked = [] then erase_key ftn (displaced (lreg w)) else set_key ftn (remove1 f parked) (displaced (lreg w)))
       (take_nth i (tickets w))"
    by (rule parked_ok_pop [OF d(5) i t])
  then show "snd (takeDisplaced ftn \<lparr>t_key = Some f\<rparr> (lreg w)) = Some f" by (simp add: takeDisplaced_def Let_def)
  show "\<exists>w'. lf_perform (LTake i) w = Some w' \<and> lf_ok w'"
    using p d(1,2,3,4) t by (simp add: takeDisplaced_def Let_def lf_ok_def)
qed

lemma lf_perform_ok:
  assumes ok: "lf_ok w" and en: "lf_enabled k w"
  shows "\<exists>w'. lf_perform k w = Some w' \<and> lf_ok w'"
proof (cases k)
  case (LTake i)
  obtain f x where "tickets w ! i = (f, x)" by (rule prod.exhaust)
  then show ?thesis using take_ok(1) [OF ok] en LTake by (simp add: lf_enabled_def del: lf_perform.simps)
qed (use ok en join_ok lookup_ok replace_ok init_ok markReady_ok fail_ok remove_ok in
    \<open>simp_all add: lf_enabled_def del: lf_perform.simps\<close>)

lemma lf_reachable_ok: "lf_reachable w \<Longrightarrow> lf_ok w"
proof (induction rule: lf_reachable.induct)
  case lf_start
  show ?case by (rule new_lf_world_ok)
next
  case (lf_call w k w')
  then show ?case using lf_perform_ok by fastforce
qed

section \<open>Properties\<close>

text \<open>C11. In every reachable state a pending entry has exactly one claim that owes its setup, every waiter
waits at a pending entry, so nobody waits for a setup that nobody will finish, and a reader is only ever
given a forwarder whose initial state was applied.\<close>

theorem pending_setup_owed:
  assumes "lf_reachable w"
  shows "(\<forall>f e. map_of (forwarders (lreg w)) f = Some e \<longrightarrow> lf_ready e \<noteq> None \<longrightarrow>
        (\<exists>!c. c \<in> set (claims w) \<and> c_ftn c = f \<and> c_forwarder c = lf_forwarder e)) \<and>
    (\<forall>(x, f)\<in>set (lwaiting w). \<exists>e ws. map_of (forwarders (lreg w)) f = Some e \<and> lf_ready e = Some ws \<and> x \<in> set ws) \<and>
    (\<forall>f n. getIfReady f (lreg w) = Some n \<longrightarrow> n \<in> set (setUp w))"
proof -
  note d = lf_okD [OF lf_reachable_ok [OF assms]]
  have u: "c = c'" if "c \<in> set (claims w)" "c' \<in> set (claims w)" "c_forwarder c = c_forwarder c'" for c c'
    using d(3) that by (auto simp: claims_ok_def distinct_map inj_on_def)
  have 1: "\<exists>!c. c \<in> set (claims w) \<and> c_ftn c = f \<and> c_forwarder c = lf_forwarder e"
    if m: "map_of (forwarders (lreg w)) f = Some e" "lf_ready e \<noteq> None" for f e
  proof -
    have "\<exists>c\<in>set (claims w). c_ftn c = f \<and> c_forwarder c = lf_forwarder e" using d(2) [OF m(1)] m(2) by (simp add: entry_ok_def)
    then show ?thesis using u by metis
  qed
  have 2: "\<exists>e ws. map_of (forwarders (lreg w)) f = Some e \<and> lf_ready e = Some ws \<and> x \<in> set ws" if m: "(x, f) \<in> set (lwaiting w)" for x f
  proof -
    have "(x, f) \<in># mset (concat (map lf_waits (forwarders (lreg w))))" using m d(4) by (metis held_by_def room_ok_def set_mset_mset)
    then obtain y where y: "y \<in> set (forwarders (lreg w))" "(x, f) \<in> set (lf_waits y)" by auto
    obtain ws where ws: "lf_ready (snd y) = Some ws" "x \<in> set ws" "fst y = f" using y(2) by (cases "lf_ready (snd y)") (auto simp: lf_waits_def)
    have "map_of (forwarders (lreg w)) f = Some (snd y)" using d(1) y(1) ws(3) by (cases y) simp
    then show ?thesis using ws by blast
  qed
  have 3: "n \<in> set (setUp w)" if "getIfReady f (lreg w) = Some n" for f n
    using d(2) that by (fastforce simp: getIfReady_def entry_ok_def split: option.splits if_splits)
  show ?thesis using 1 2 3 by blast
qed

definition lf_demo :: full_track_name where
  "lf_demo = \<lparr>trackNamespace = [''a''], trackName = ''t''\<rparr>"

lemma lf_demo_reachable: "\<exists>w. lf_reachable w \<and> lwaiting w = [(0, lf_demo)] \<and> length (claims w) = 2 \<and> tickets w = [(lf_demo, 0)]"
proof -
  let ?a = "the (lf_perform (LJoin lf_demo) new_lf_world)"
  let ?b = "the (lf_perform (LLookup lf_demo) ?a)"
  let ?c = "the (lf_perform (LReplace True lf_demo) ?b)"
  have "\<not> Option.is_none (lf_perform (LJoin lf_demo) new_lf_world)" "\<not> Option.is_none (lf_perform (LLookup lf_demo) ?a)"
    "\<not> Option.is_none (lf_perform (LReplace True lf_demo) ?b)" by code_simp+
  then have s: "lf_perform (LJoin lf_demo) new_lf_world = Some ?a" "lf_perform (LLookup lf_demo) ?a = Some ?b"
    "lf_perform (LReplace True lf_demo) ?b = Some ?c" by (simp_all add: Option.is_none_def del: lf_perform.simps)
  have "lf_reachable ?a" by (rule lf_call [OF lf_start _ s(1)]) (simp add: lf_enabled_def)
  then have "lf_reachable ?b" by (rule lf_call [OF _ _ s(2)]) (simp add: lf_enabled_def)
  then have "lf_reachable ?c" by (rule lf_call [OF _ _ s(3)]) (simp add: lf_enabled_def)
  moreover have "lwaiting ?c = [(0, lf_demo)] \<and> length (claims ?c) = 2 \<and> tickets ?c = [(lf_demo, 0)]" by code_simp
  ultimately show ?thesis by blast
qed

theorem pending_setup_owed_witness:
  "\<exists>w. lf_reachable w \<and> lwaiting w = [(0, lf_demo)] \<and>
     (\<exists>e ws. map_of (forwarders (lreg w)) lf_demo = Some e \<and> lf_ready e = Some ws \<and> 0 \<in> set ws)"
proof -
  obtain w where w: "lf_reachable w" "lwaiting w = [(0, lf_demo)]" using lf_demo_reachable by blast
  then show ?thesis using pending_setup_owed [OF w(1)] by auto
qed

text \<open>C12. No call aborts when its caller keeps the order of setup. A ticket always finds the forwarder it
stands for, and once every claim is resolved and every ticket redeemed the registry can be destroyed.\<close>

theorem local_registry_safe:
  assumes "lf_reachable w"
  shows "(\<forall>k. lf_enabled k w \<longrightarrow> lf_perform k w \<noteq> None) \<and>
    (\<forall>(f, n)\<in>set (tickets w). snd (takeDisplaced f \<lparr>t_key = Some n\<rparr> (lreg w)) = Some n) \<and>
    (claims w = [] \<longrightarrow> tickets w = [] \<longrightarrow> destroy_registry (lreg w) = Some ())"
proof -
  note ok = lf_reachable_ok [OF assms] and d = lf_okD [OF lf_reachable_ok [OF assms]]
  have "lf_perform k w \<noteq> None" if "lf_enabled k w" for k using lf_perform_ok [OF ok that] by auto
  moreover have "snd (takeDisplaced f \<lparr>t_key = Some n\<rparr> (lreg w)) = Some n" if m: "(f, n) \<in> set (tickets w)" for f n
  proof -
    obtain i where "i < length (tickets w)" "tickets w ! i = (f, n)" using m by (auto simp: in_set_conv_nth)
    then show ?thesis by (rule take_ok(2) [OF ok])
  qed
  moreover have "destroy_registry (lreg w) = Some ()" if e: "claims w = []" "tickets w = []"
  proof -
    have "lf_ready x = None" if "(f, x) \<in> set (forwarders (lreg w))" for f x
      using d(2) [of f x] d(1) that e(1) by (auto simp: entry_ok_def split: if_splits)
    moreover have "displaced (lreg w) = []" using d(5) e(2) by (cases "displaced (lreg w)") (auto simp: parked_ok_def parked_of_def)
    ultimately show ?thesis by (auto simp: destroy_registry_def)
  qed
  ultimately show ?thesis by blast
qed

theorem local_registry_safe_witness:
  "\<exists>w. lf_reachable w \<and> tickets w = [(lf_demo, 0)] \<and> lf_perform (LTake 0) w \<noteq> None \<and>
     snd (takeDisplaced lf_demo \<lparr>t_key = Some 0\<rparr> (lreg w)) = Some 0"
proof -
  obtain w where w: "lf_reachable w" "tickets w = [(lf_demo, 0)]" using lf_demo_reachable by blast
  have "lf_enabled (LTake 0) w" using w(2) by (simp add: lf_enabled_def)
  then have "lf_perform (LTake 0) w \<noteq> None" "snd (takeDisplaced lf_demo \<lparr>t_key = Some 0\<rparr> (lreg w)) = Some 0"
    using local_registry_safe [OF w(1)] w(2) by auto
  then show ?thesis using w by blast
qed

end
