(* ===== verification/Json_Writer.thy ===== *)
theory Json_Writer
  imports Config_Types
begin

text \<open>
  The JSON emitter of the admin interface (\<^verbatim>\<open>src/admin/JsonWriter.h\<close>): it appends to a buffer and keeps
  one flag for commas. JSON values are a datatype with its own printer; the emitter is related to it.
  Formatting a floating-point number with \<^verbatim>\<open>%g\<close> is a parameter where it is used.
\<close>

section \<open>The emitter\<close>

record json_writer =
  app :: string
  needsComma :: bool

definition json_new :: json_writer where
  "json_new = \<lparr>app = [], needsComma = False\<rparr>"

definition append_bytes :: "string \<Rightarrow> json_writer \<Rightarrow> json_writer" where
  "append_bytes s w = w\<lparr>app := app w @ s\<rparr>"

definition maybeComma :: "json_writer \<Rightarrow> json_writer" where
  "maybeComma w = (if needsComma w then append_bytes '','' w else w)"

definition hex_char :: "nat \<Rightarrow> char" where
  "hex_char n = (if n < 10 then char_of (48 + n) else char_of (87 + n))"

text \<open>The escape of a byte, \<open>None\<close> where the loop goes on to the next byte.\<close>

definition escape_of :: "char \<Rightarrow> string option" where
  "escape_of c =
     (if c = CHR 0x22 then Some [CHR 0x5C, CHR 0x22]
      else if c = CHR 0x5C then Some [CHR 0x5C, CHR 0x5C]
      else if byte c = 10 then Some [CHR 0x5C, CHR ''n'']
      else if byte c = 13 then Some [CHR 0x5C, CHR ''r'']
      else if byte c = 9 then Some [CHR 0x5C, CHR ''t'']
      else if byte c \<ge> 32 then None
      else Some ([CHR 0x5C, CHR ''u'', CHR ''0'', CHR ''0''] @ [hex_char (byte c div 16), hex_char (byte c mod 16)]))"

text \<open>Unescaped runs are pushed whole: \<open>runStart\<close> is where the current run begins.\<close>

function writeString_loop :: "string \<Rightarrow> nat \<Rightarrow> nat \<Rightarrow> string \<Rightarrow> string" where
  "writeString_loop s i runStart out =
     (if i < length s then
        (case escape_of (s ! i) of
           None \<Rightarrow> writeString_loop s (Suc i) runStart out
         | Some escape \<Rightarrow>
             writeString_loop s (Suc i) (Suc i)
               ((if i > runStart then out @ take (i - runStart) (drop runStart s) else out) @ escape))
      else if runStart < length s then out @ drop runStart s else out)"
  by pat_completeness auto
termination by (relation "measure (\<lambda>(s, i, _, _). length s - i)") auto

declare writeString_loop.simps [simp del]

definition writeString :: "string \<Rightarrow> json_writer \<Rightarrow> json_writer" where
  "writeString s w = append_bytes ([CHR 0x22] @ writeString_loop s 0 0 [] @ [CHR 0x22]) w"

definition json_beginObject :: "json_writer \<Rightarrow> json_writer" where
  "json_beginObject w = (append_bytes ''{'' (maybeComma w))\<lparr>needsComma := False\<rparr>"

definition json_endObject :: "json_writer \<Rightarrow> json_writer" where
  "json_endObject w = (append_bytes ''}'' w)\<lparr>needsComma := True\<rparr>"

definition json_beginArray :: "json_writer \<Rightarrow> json_writer" where
  "json_beginArray w = (append_bytes ''['' (maybeComma w))\<lparr>needsComma := False\<rparr>"

definition json_endArray :: "json_writer \<Rightarrow> json_writer" where
  "json_endArray w = (append_bytes '']'' w)\<lparr>needsComma := True\<rparr>"

definition json_key :: "string \<Rightarrow> json_writer \<Rightarrow> json_writer" where
  "json_key k w = (append_bytes '':'' (writeString k (maybeComma w)))\<lparr>needsComma := False\<rparr>"

definition strVal :: "string \<Rightarrow> json_writer \<Rightarrow> json_writer" where
  "strVal v w = (writeString v (maybeComma w))\<lparr>needsComma := True\<rparr>"

definition int_decimal :: "int \<Rightarrow> string" where
  "int_decimal i = (if i < 0 then CHR ''-'' # std_to_string (nat (- i)) else std_to_string (nat i))"

definition rawVal :: "string \<Rightarrow> json_writer \<Rightarrow> json_writer" where
  "rawVal s w = (append_bytes s (maybeComma w))\<lparr>needsComma := True\<rparr>"

definition boolVal :: "bool \<Rightarrow> json_writer \<Rightarrow> json_writer" where
  "boolVal v = rawVal (if v then ''true'' else ''false'')"

definition intVal :: "int \<Rightarrow> json_writer \<Rightarrow> json_writer" where
  "intVal v = rawVal (int_decimal v)"

definition uintVal :: "nat \<Rightarrow> json_writer \<Rightarrow> json_writer" where
  "uintVal v = rawVal (std_to_string v)"

definition doubleVal :: "('d \<Rightarrow> string) \<Rightarrow> 'd \<Rightarrow> json_writer \<Rightarrow> json_writer" where
  "doubleVal fmt v = rawVal (fmt v)"

text \<open>\<^verbatim>\<open>field\<close>, for each kind of value.\<close>

definition json_field :: "string \<Rightarrow> (json_writer \<Rightarrow> json_writer) \<Rightarrow> json_writer \<Rightarrow> json_writer" where
  "json_field k val w = val (json_key k w)"

definition nullVal :: "json_writer \<Rightarrow> json_writer" where
  "nullVal = rawVal ''null''"

section \<open>Strings\<close>

definition escape_char :: "char \<Rightarrow> string" where
  "escape_char c = (case escape_of c of None \<Rightarrow> [c] | Some e \<Rightarrow> e)"

definition quoted :: "string \<Rightarrow> string" where
  "quoted s = [CHR 0x22] @ concat (map escape_char s) @ [CHR 0x22]"

text \<open>Pushing runs is the same as escaping byte by byte.\<close>

lemma writeString_loop_eq:
  assumes "runStart \<le> i" and "i \<le> length s" and "\<And>j. runStart \<le> j \<Longrightarrow> j < i \<Longrightarrow> escape_of (s ! j) = None"
  shows "writeString_loop s i runStart out = out @ concat (map escape_char (drop runStart s))"
  using assms
proof (induction s i runStart out rule: writeString_loop.induct)
  case (1 s i runStart out)
  have run: "concat (map escape_char (take (i - runStart) (drop runStart s))) = take (i - runStart) (drop runStart s)"
  proof -
    have "escape_char c = [c]" if "c \<in> set (take (i - runStart) (drop runStart s))" for c
      using that 1(5) by (auto simp: in_set_conv_nth escape_char_def)
    then show ?thesis by (induction "take (i - runStart) (drop runStart s)") (simp_all add: map_idI concat_map_singleton cong: map_cong)
  qed
  have split: "drop runStart s = take (i - runStart) (drop runStart s) @ drop i s"
    using append_take_drop_id [of "i - runStart" "drop runStart s"] 1(3) by (simp add: drop_drop)
  show ?case
  proof (cases "i < length s")
    case True
    have d: "drop i s = s ! i # drop (Suc i) s" using True by (simp add: Cons_nth_drop_Suc)
    show ?thesis
    proof (cases "escape_of (s ! i)")
      case None
      have "escape_of (s ! j) = None" if "runStart \<le> j" "j < Suc i" for j using None 1(5) that by (cases "j = i") auto
      then show ?thesis using 1(1) [OF True None] 1(3) True None by (subst writeString_loop.simps) simp
    next
      case (Some e)
      have "writeString_loop s (Suc i) (Suc i) (out @ take (i - runStart) (drop runStart s) @ e) =
          (out @ take (i - runStart) (drop runStart s) @ e) @ concat (map escape_char (drop (Suc i) s))"
        using 1(2) [OF True Some] True 1(3) by (cases "i > runStart") auto
      moreover have "concat (map escape_char (drop runStart s)) =
          take (i - runStart) (drop runStart s) @ e @ concat (map escape_char (drop (Suc i) s))"
        using arg_cong [OF split, of "\<lambda>x. concat (map escape_char x)"] run d Some by (simp add: escape_char_def)
      ultimately show ?thesis using True Some by (subst writeString_loop.simps) auto
    qed
  next
    case False
    then have "i = length s" using 1(4) by simp
    then have "concat (map escape_char (drop runStart s)) = drop runStart s"
      using arg_cong [OF split, of "\<lambda>x. concat (map escape_char x)"] run split by simp
    then show ?thesis using False by (subst writeString_loop.simps) auto
  qed
qed

lemma writeString_quoted [code]: "writeString s w = append_bytes (quoted s) w"
  by (simp add: writeString_def quoted_def writeString_loop_eq)


section \<open>JSON\<close>

text \<open>A value, its text without white space, and a reader of such texts that follows the grammar.
Numbers are kept as their texts.\<close>

datatype json =
    JNull | JBool bool | JNum string | JStr string | JArr "json list" | JObj "(string \<times> json) list"

definition is_digit :: "char \<Rightarrow> bool" where
  "is_digit c \<longleftrightarrow> 48 \<le> byte c \<and> byte c \<le> 57"

definition exponent_text :: "string \<Rightarrow> bool" where
  "exponent_text s = (case s of [] \<Rightarrow> True
     | c # q \<Rightarrow> (c = CHR ''e'' \<or> c = CHR ''E'') \<and>
         (let ds = (case q of [] \<Rightarrow> [] | d # q' \<Rightarrow> if d = CHR ''+'' \<or> d = CHR ''-'' then q' else q)
          in ds \<noteq> [] \<and> list_all is_digit ds))"

definition fraction_text :: "string \<Rightarrow> bool" where
  "fraction_text s = (case s of [] \<Rightarrow> True
     | c # q \<Rightarrow> if c = CHR ''.'' then takeWhile is_digit q \<noteq> [] \<and> exponent_text (dropWhile is_digit q)
                else exponent_text s)"

definition natural_text :: "string \<Rightarrow> bool" where
  "natural_text s = (case s of [] \<Rightarrow> False
     | c # r \<Rightarrow> is_digit c \<and> fraction_text (if c = CHR ''0'' then r else dropWhile is_digit r))"

definition number_text :: "string \<Rightarrow> bool" where
  "number_text s = (case s of [] \<Rightarrow> False | c # r \<Rightarrow> if c = CHR ''-'' then natural_text r else natural_text s)"

definition number_char :: "char \<Rightarrow> bool" where
  "number_char c \<longleftrightarrow> is_digit c \<or> c \<in> {CHR ''-'', CHR ''+'', CHR ''.'', CHR ''e'', CHR ''E''}"

fun joined :: "bool \<Rightarrow> string list \<Rightarrow> string" where
  "joined c [] = []"
| "joined c (t # ts) = (if c then '','' else []) @ t @ joined True ts"

fun render :: "json \<Rightarrow> string" where
  "render JNull = ''null''"
| "render (JBool b) = (if b then ''true'' else ''false'')"
| "render (JNum t) = t"
| "render (JStr s) = quoted s"
| "render (JArr vs) = ''['' @ joined False (map render vs) @ '']''"
| "render (JObj ms) = ''{'' @ joined False (map (\<lambda>(k, v). quoted k @ '':'' @ render v) ms) @ ''}''"

fun json_ok :: "json \<Rightarrow> bool" where
  "json_ok (JNum t) = number_text t"
| "json_ok (JArr vs) = (\<forall>v\<in>set vs. json_ok v)"
| "json_ok (JObj ms) = (distinct (map fst ms) \<and> (\<forall>(k, v)\<in>set ms. json_ok v))"
| "json_ok _ = True"

definition hex_val :: "char \<Rightarrow> nat option" where
  "hex_val c = (if is_digit c then Some (byte c - 48)
     else if 97 \<le> byte c \<and> byte c \<le> 102 then Some (byte c - 87) else None)"

text \<open>After the opening quote. Only code points below 256 are escaped by number here.\<close>

fun parse_string :: "string \<Rightarrow> (string \<times> string) option" where
  "parse_string [] = None"
| "parse_string (c # r) =
     (if c = CHR 0x22 then Some ([], r)
      else if c = CHR 0x5C then
        (case r of
           [] \<Rightarrow> None
         | e # r1 \<Rightarrow>
             if e = CHR 0x22 \<or> e = CHR 0x5C then map_option (\<lambda>(s, r). (e # s, r)) (parse_string r1)
             else if e = CHR ''n'' then map_option (\<lambda>(s, r). (char_of (10::nat) # s, r)) (parse_string r1)
             else if e = CHR ''r'' then map_option (\<lambda>(s, r). (char_of (13::nat) # s, r)) (parse_string r1)
             else if e = CHR ''t'' then map_option (\<lambda>(s, r). (char_of (9::nat) # s, r)) (parse_string r1)
             else if e = CHR ''u'' then
               (case r1 of
                  h1 # h2 # h3 # h4 # r2 \<Rightarrow>
                    (case (hex_val h3, hex_val h4) of
                       (Some a, Some b) \<Rightarrow>
                         if h1 = CHR ''0'' \<and> h2 = CHR ''0''
                         then map_option (\<lambda>(s, r). (char_of (16 * a + b) # s, r)) (parse_string r2) else None
                     | _ \<Rightarrow> None)
                | _ \<Rightarrow> None)
             else None)
      else if byte c < 32 then None
      else map_option (\<lambda>(s, r). (c # s, r)) (parse_string r))"

declare parse_string.simps(2) [simp del]

fun parse_value :: "nat \<Rightarrow> string \<Rightarrow> (json \<times> string) option"
  and parse_elems :: "nat \<Rightarrow> string \<Rightarrow> (json list \<times> string) option"
  and parse_members :: "nat \<Rightarrow> string \<Rightarrow> ((string \<times> json) list \<times> string) option"
where
  "parse_value 0 s = None"
| "parse_value (Suc n) s =
     (if take 1 s = [CHR 0x22] then map_option (\<lambda>(x, r). (JStr x, r)) (parse_string (drop 1 s))
      else if take 2 s = ''{}'' then Some (JObj [], drop 2 s)
      else if take 1 s = ''{'' then map_option (\<lambda>(ms, r). (JObj ms, r)) (parse_members n (drop 1 s))
      else if take 2 s = ''[]'' then Some (JArr [], drop 2 s)
      else if take 1 s = ''['' then map_option (\<lambda>(vs, r). (JArr vs, r)) (parse_elems n (drop 1 s))
      else if take 4 s = ''null'' then Some (JNull, drop 4 s)
      else if take 4 s = ''true'' then Some (JBool True, drop 4 s)
      else if take 5 s = ''false'' then Some (JBool False, drop 5 s)
      else let t = takeWhile number_char s in
           if number_text t then Some (JNum t, drop (length t) s) else None)"
| "parse_elems 0 s = None"
| "parse_elems (Suc n) s =
     (case parse_value n s of
        None \<Rightarrow> None
      | Some (v, r) \<Rightarrow>
          if take 1 r = '','' then map_option (\<lambda>(vs, r). (v # vs, r)) (parse_elems n (drop 1 r))
          else if take 1 r = '']'' then Some ([v], drop 1 r) else None)"
| "parse_members 0 s = None"
| "parse_members (Suc n) s =
     (if take 1 s \<noteq> [CHR 0x22] then None
      else case parse_string (drop 1 s) of
        None \<Rightarrow> None
      | Some (k, r0) \<Rightarrow>
          if take 1 r0 \<noteq> '':'' then None
          else case parse_value n (drop 1 r0) of
            None \<Rightarrow> None
          | Some (v, r) \<Rightarrow>
              if take 1 r = '','' then map_option (\<lambda>(ms, r). ((k, v) # ms, r)) (parse_members n (drop 1 r))
              else if take 1 r = ''}'' then Some ([(k, v)], drop 1 r) else None)"

text \<open>A document is a value and a newline. One unit of fuel for each byte is enough.\<close>

definition parse_json :: "string \<Rightarrow> json option" where
  "parse_json s = (case parse_value (Suc (length s)) s of
     Some (v, r) \<Rightarrow> if r = [char_of (10::nat)] then Some v else None | None \<Rightarrow> None)"


section \<open>The reader inverts the printer\<close>

lemma hex_low: "n < 32 \<Longrightarrow> hex_val (hex_char (n div 16)) = Some (n div 16) \<and> hex_val (hex_char (n mod 16)) = Some (n mod 16)"
proof -
  have "\<forall>m<16. hex_val (hex_char m) = Some m" by (auto simp: hex_val_def hex_char_def is_digit_def byte_def)
  moreover assume "n < 32"
  ultimately show ?thesis by simp
qed

lemma parse_escaped: "parse_string (escape_char c @ r) = map_option (\<lambda>(s, r). (c # s, r)) (parse_string r)"
proof (cases "escape_of c")
  case None
  then have "c \<noteq> CHR 0x22" "c \<noteq> CHR 0x5C" "\<not> byte c < 32" by (auto simp: escape_of_def split: if_splits)
  then show ?thesis using None by (simp add: escape_char_def parse_string.simps(2))
next
  case (Some e)
  have c: "char_of (byte c) = c" by (simp add: byte_def)
  consider "c = CHR 0x22" | "c = CHR 0x5C" | "byte c = 10" | "byte c = 13" | "byte c = 9"
    | "byte c < 32" "byte c \<notin> {9, 10, 13}" "c \<noteq> CHR 0x22" "c \<noteq> CHR 0x5C"
    using Some by (auto simp: escape_of_def split: if_splits)
  then show ?thesis
  proof cases
    case 6
    have "16 * (byte c div 16) + byte c mod 16 = byte c" by simp
    then show ?thesis using 6 hex_low [OF 6(1)] c
      by (simp add: escape_char_def escape_of_def parse_string.simps(2))
  qed (use c in \<open>auto simp: escape_char_def escape_of_def parse_string.simps(2) byte_def\<close>)
qed

lemma parse_quoted: "parse_string (concat (map escape_char s) @ CHR 0x22 # r) = Some (s, r)"
  by (induction s) (simp_all add: parse_escaped parse_string.simps(2) [of "CHR 0x22"])

lemma number_chars:
  assumes "number_text t" shows "t \<noteq> []" and "list_all number_char t" and "is_digit (hd t) \<or> hd t = CHR ''-''"
proof -
  have dig: "list_all is_digit ds \<Longrightarrow> list_all number_char ds" for ds by (auto simp: list_all_iff number_char_def)
  have exp: "exponent_text x \<Longrightarrow> list_all number_char x" for x
    by (auto simp: exponent_text_def Let_def number_char_def list_all_iff split: list.splits if_splits)
  have span: "list_all number_char (dropWhile is_digit x) \<Longrightarrow> list_all number_char x" for x
  proof -
    assume "list_all number_char (dropWhile is_digit x)"
    moreover have "list_all number_char (takeWhile is_digit x)"
      by (auto simp: list_all_iff number_char_def dest: set_takeWhileD)
    ultimately have "list_all number_char (takeWhile is_digit x @ dropWhile is_digit x)"
      by (simp only: list_all_append simp_thms)
    then show ?thesis by (simp only: takeWhile_dropWhile_id)
  qed
  have frac: "fraction_text x \<Longrightarrow> list_all number_char x" for x
    using exp [of x] exp [of "dropWhile is_digit (tl x)"] span [of "tl x"]
    by (cases x) (auto simp: fraction_text_def number_char_def split: if_splits)
  have nat: "natural_text x \<Longrightarrow> list_all number_char x \<and> x \<noteq> [] \<and> is_digit (hd x)" for x
    using frac span by (cases x) (auto simp: natural_text_def number_char_def split: if_splits)
  show "t \<noteq> []" "list_all number_char t" "is_digit (hd t) \<or> hd t = CHR ''-''"
    using assms nat [of t] nat [of "tl t"] by (auto simp: number_text_def number_char_def split: list.splits if_splits)
qed

definition stops :: "string \<Rightarrow> bool" where
  "stops r \<longleftrightarrow> r = [] \<or> \<not> number_char (hd r)"

lemma parse_number:
  assumes "number_text t" and "stops r" shows "parse_value (Suc n) (t @ r) = Some (JNum t, r)"
proof -
  obtain c q where t: "t = c # q" using number_chars(1) [OF assms(1)] by (cases t) auto
  have c: "is_digit c \<or> c = CHR ''-''" using number_chars(3) [OF assms(1)] t by simp
  then have ne: "c \<noteq> CHR 0x22" "c \<noteq> CHR ''{''" "c \<noteq> CHR ''[''" "c \<noteq> CHR ''n''" "c \<noteq> CHR ''t''" "c \<noteq> CHR ''f''"
    by (auto simp: is_digit_def byte_def)
  have "takeWhile number_char (t @ r) = t @ takeWhile number_char r"
    by (rule takeWhile_append2) (use number_chars(2) [OF assms(1)] in \<open>simp add: list_all_iff\<close>)
  moreover have "takeWhile number_char r = []" using assms(2) by (cases r) (auto simp: stops_def)
  ultimately have "takeWhile number_char (t @ r) = t" by simp
  then show ?thesis using assms(1) ne by (simp add: t Let_def)
qed

lemma joined_True: "ts \<noteq> [] \<Longrightarrow> joined True ts = '','' @ joined False ts"
  by (cases ts) auto

lemma first_of_value:
  assumes "json_ok v" obtains c q where "render v = c # q" and "c \<noteq> CHR '']''" and "c \<noteq> CHR ''}''"
proof (cases v)
  case (JNum t)
  have d: "is_digit c \<or> c = CHR ''-'' \<Longrightarrow> c \<noteq> CHR '']'' \<and> c \<noteq> CHR ''}''" for c by (auto simp: is_digit_def byte_def)
  show ?thesis using JNum number_chars(1,3) [of t] assms that d by (cases t) auto
next
  case (JBool b)
  then show ?thesis using that by (cases b) auto
qed (use that in \<open>auto simp: quoted_def\<close>)

lemma elems_parse:
  assumes "\<And>v n r. v \<in> set vs \<Longrightarrow> n > length (render v) \<Longrightarrow> stops r \<Longrightarrow> parse_value n (render v @ r) = Some (v, r)"
    and "vs \<noteq> []" and "n > Suc (length (joined False (map render vs)))"
  shows "parse_elems n (joined False (map render vs) @ '']'' @ r) = Some (vs, r)"
  using assms
proof (induction vs arbitrary: n)
  case (Cons v vs)
  obtain m where n: "n = Suc m" using Cons.prems(3) by (cases n) auto
  show ?case
  proof (cases "vs = []")
    case True
    then show ?thesis using Cons.prems(1) [of v m "'']'' @ r"] Cons.prems(3)
      by (simp add: n stops_def number_char_def is_digit_def byte_def)
  next
    case False
    have "parse_value m (render v @ '','' @ joined False (map render vs) @ '']'' @ r) =
        Some (v, '','' @ joined False (map render vs) @ '']'' @ r)"
      using Cons.prems(3) by (intro Cons.prems(1)) (simp_all add: n stops_def number_char_def is_digit_def byte_def)
    moreover have "parse_elems m (joined False (map render vs) @ '']'' @ r) = Some (vs, r)"
      using Cons.prems(3) False by (intro Cons.IH Cons.prems(1)) (simp_all add: n joined_True)
    ultimately show ?thesis using False by (simp add: n joined_True)
  qed
qed simp

abbreviation member :: "string \<times> json \<Rightarrow> string" where
  "member m \<equiv> (case m of (k, v) \<Rightarrow> quoted k @ '':'' @ render v)"

lemma members_parse:
  assumes "\<And>k v n r. (k, v) \<in> set ms \<Longrightarrow> n > length (render v) \<Longrightarrow> stops r \<Longrightarrow> parse_value n (render v @ r) = Some (v, r)"
    and "ms \<noteq> []" and "n > Suc (length (joined False (map member ms)))"
  shows "parse_members n (joined False (map member ms) @ ''}'' @ r) = Some (ms, r)"
  using assms
proof (induction ms arbitrary: n)
  case (Cons x ms)
  obtain k v where x: "x = (k, v)" by (rule prod.exhaust)
  obtain m where n: "n = Suc m" using Cons.prems(3) by (cases n) auto
  have key: "parse_string (concat (map escape_char k) @ CHR 0x22 # q) = Some (k, q)" for q by (rule parse_quoted)
  show ?case
  proof (cases "ms = []")
    case True
    then show ?thesis using Cons.prems(1) [of k v m "''}'' @ r"] Cons.prems(3)
      by (simp add: n x quoted_def key stops_def number_char_def is_digit_def byte_def)
  next
    case False
    have "parse_value m (render v @ '','' @ joined False (map member ms) @ ''}'' @ r) =
        Some (v, '','' @ joined False (map member ms) @ ''}'' @ r)"
      using Cons.prems(3) by (intro Cons.prems(1) [of k]) (simp_all add: n x stops_def number_char_def is_digit_def byte_def)
    moreover have "parse_value j (render u @ q) = Some (u, q)" if "(i, u) \<in> set ms" "j > length (render u)" "stops q" for i u j q
      by (rule Cons.prems(1) [of i]) (use that in auto)
    then have "parse_members m (joined False (map member ms) @ ''}'' @ r) = Some (ms, r)"
      using Cons.prems(3) False by (intro Cons.IH) (auto simp: n x joined_True)
    ultimately show ?thesis using False by (simp add: n x joined_True quoted_def key)
  qed
qed simp

lemma parse_render:
  assumes "json_ok v" and "n > length (render v)" and "stops r"
  shows "parse_value n (render v @ r) = Some (v, r)"
  using assms
proof (induction v arbitrary: n r)
  case JNull
  then show ?case by (cases n) auto
next
  case (JBool b)
  then show ?case by (cases n; cases b) auto
next
  case (JNum t)
  then show ?case using parse_number [of t r "n - 1"] by (cases n) auto
next
  case (JStr s)
  then show ?case by (cases n) (auto simp: quoted_def parse_quoted)
next
  case (JArr vs)
  obtain m where n: "n = Suc m" using JArr.prems(2) by (cases n) auto
  show ?case
  proof (cases vs)
    case (Cons v ws)
    obtain c q where "render v = c # q" "c \<noteq> CHR '']''" 
      by (rule first_of_value [of v]) (use JArr.prems(1) Cons in auto)
    then have "take 2 (render (JArr vs) @ r) \<noteq> ''[]''" using Cons by simp
    moreover have "parse_elems m (joined False (map render vs) @ '']'' @ r) = Some (vs, r)"
      using JArr Cons by (intro elems_parse) (auto simp: n)
    ultimately show ?thesis by (simp add: n)
  qed (simp add: n)
next
  case (JObj ms)
  obtain m where n: "n = Suc m" using JObj.prems(2) by (cases n) auto
  show ?case
  proof (cases ms)
    case (Cons x ws)
    then have "take 2 (render (JObj ms) @ r) \<noteq> ''{}''" by (auto simp: quoted_def split: prod.splits)
    moreover have "parse_members m (joined False (map member ms) @ ''}'' @ r) = Some (ms, r)"
      using JObj Cons by (intro members_parse) (fastforce simp: n)+
    ultimately show ?thesis by (simp add: n)
  qed (simp add: n)
qed

lemma parse_document: "json_ok v \<Longrightarrow> parse_json (render v @ [char_of (10::nat)]) = Some v"
proof -
  assume ok: "json_ok v"
  have "\<not> number_char (char_of (10::nat))" by code_simp
  then have "parse_value (Suc (length (render v) + 1)) (render v @ [char_of (10::nat)]) = Some (v, [char_of (10::nat)])"
    by (intro parse_render [OF ok]) (simp_all add: stops_def)
  then show ?thesis by (simp add: parse_json_def del: parse_value.simps)
qed

end
