(* ===== verification/Config_Serializer.thy ===== *)
theory Config_Serializer
  imports Json_Writer "HOL-Library.Code_Target_Nat"
begin

text \<open>
  The dump of the configuration: the walk of \<^verbatim>\<open>src/config/ConfigSerializer.h\<close>, which calls a sink for every
  field, and the sink of \<^verbatim>\<open>src/admin/ConfigHandler.cpp\<close> that renders the calls as JSON. A walk is the list
  of the calls it makes. Printing of a socket address and of a floating-point number are parameters.
\<close>

section \<open>The walk\<close>

text \<open>The methods of \<^verbatim>\<open>ConfigSink\<close>. An empty key stands for an element of an array.\<close>

datatype sink_call =
    SBeginObject string | SEndObject | SBeginArray string | SEndArray
  | SString string string | SBool string bool | SInt string int | SUint string nat | SDouble string flt | SNull string

definition in_object :: "string \<Rightarrow> sink_call list \<Rightarrow> sink_call list" where
  "in_object k cs = [SBeginObject k] @ cs @ [SEndObject]"

definition in_array :: "string \<Rightarrow> sink_call list \<Rightarrow> sink_call list" where
  "in_array k cs = [SBeginArray k] @ cs @ [SEndArray]"

definition quicStackName :: "quic_stack \<Rightarrow> string" where
  "quicStackName s = (case s of Mvfst \<Rightarrow> ''mvfst'' | Picoquic \<Rightarrow> ''picoquic'' | ProxygenQmux \<Rightarrow> ''proxygen_qmux'')"

definition matchRuleTypeName :: "match_rule_type \<Rightarrow> string" where
  "matchRuleTypeName m = (case m of Exact \<Rightarrow> ''exact'' | Prefix \<Rightarrow> ''prefix'' | Suffix \<Rightarrow> ''suffix''
     | Contains \<Rightarrow> ''contains'')"

definition serializeTls :: "tls_config \<Rightarrow> sink_call list" where
  "serializeTls tls =
     [SBool ''insecure'' False,
      SString ''cert_file'' (certFile tls),
      SString ''key_file'' (keyFile tls),
      SBool ''pkcs12_in_memory'' (material tls \<noteq> None)] @
     in_array ''alpn'' (map (SString []) (alpn tls))"

definition serializeListenerTls :: "tls_mode \<Rightarrow> sink_call list" where
  "serializeListenerTls m = in_object ''tls'' (case m of Tls tls \<Rightarrow> serializeTls tls | Insecure \<Rightarrow> [SBool ''insecure'' True])"

definition serializeQuic :: "quic_config \<Rightarrow> sink_call list" where
  "serializeQuic q = in_object ''quic''
     [SUint ''max_data'' (maxData q),
      SUint ''max_stream_data'' (maxStreamData q),
      SUint ''max_uni_streams'' (maxUniStreams q),
      SUint ''max_bidi_streams'' (maxBidiStreams q),
      SUint ''idle_timeout_ms'' (idleTimeoutMs q),
      SUint ''max_ack_delay_us'' (maxAckDelayUs q),
      SUint ''min_ack_delay_us'' (minAckDelayUs q),
      SUint ''default_stream_priority'' (defaultStreamPriority q),
      SUint ''default_datagram_priority'' (defaultDatagramPriority q),
      SString ''cc_algo'' (ccAlgo q)]"

definition serializeMvfst :: "mvfst_config \<Rightarrow> sink_call list" where
  "serializeMvfst m = in_object ''mvfst''
     ([SUint ''max_cwnd_in_mss'' (maxCwndInMss m),
       SBool ''pacing_enabled'' (pacingEnabled m),
       SBool ''enable_gso'' (enableGSO m),
       SUint ''max_conn_packets_sent_per_loop'' (maxConnPacketsSentPerLoop m),
       SBool ''use_recvmmsg'' (useRecvmmsg m),
       SUint ''max_server_recv_packets_per_loop'' (maxServerRecvPacketsPerLoop m),
       SUint ''num_gro_buffers'' (numGROBuffers m),
       SBool ''can_ignore_path_mtu'' (canIgnorePathMTU m),
       SUint ''udp_socket_buffer_bytes'' (udpSocketBufferBytes m),
       SUint ''h3_txn_timeout_ms'' (h3TxnTimeoutMs m)] @
      in_object ''bbr''
        [SBool ''conservative_recovery'' (conservativeRecovery (bbr m)),
         SBool ''large_probe_rtt_cwnd'' (largeProbeRttCwnd (bbr m)),
         SBool ''enable_ack_aggregation_in_startup'' (enableAckAggregationInStartup (bbr m)),
         SBool ''probe_rtt_disabled_if_app_limited'' (probeRttDisabledIfAppLimited (bbr m)),
         SBool ''drain_to_target'' (drainToTarget (bbr m))] @
      in_object ''bbr2''
        [SBool ''ignore_inflight_long_term'' (ignoreInflightLongTerm (bbr2 m)),
         SBool ''ignore_short_term'' (ignoreShortTerm (bbr2 m)),
         SBool ''exit_startup_on_loss'' (exitStartupOnLoss (bbr2 m)),
         SBool ''enable_recovery_in_startup'' (enableRecoveryInStartup (bbr2 m)),
         SBool ''enable_recovery_in_probe_states'' (enableRecoveryInProbeStates (bbr2 m)),
         SBool ''enable_reno_coexistence'' (enableRenoCoexistence (bbr2 m)),
         SBool ''pace_init_cwnd'' (paceInitCwnd (bbr2 m)),
         SDouble ''override_cruise_pacing_gain'' (overrideCruisePacingGain (bbr2 m)),
         SDouble ''override_cruise_cwnd_gain'' (overrideCruiseCwndGain (bbr2 m)),
         SDouble ''override_startup_pacing_gain'' (overrideStartupPacingGain (bbr2 m)),
         SDouble ''override_bw_short_beta'' (overrideBwShortBeta (bbr2 m))] @
      in_object ''cubic''
        [SBool ''additive_increase_after_hystart'' (additiveIncreaseAfterHystart (cubic m)),
         SBool ''only_grow_cwnd_when_limited'' (onlyGrowCwndWhenLimited (cubic m)),
         SBool ''leave_headroom_for_cwnd_limited'' (leaveHeadroomForCwndLimited (cubic m))] @
      in_object ''copa'' [SDouble ''delta_param'' (copa_deltaParam m)] @
      in_object ''l4s'' [SDouble ''ce_target'' (l4s_ceTarget m)])"

definition serializeMatch :: "match_entry \<Rightarrow> sink_call list" where
  "serializeMatch m = in_object []
     (in_object ''authority''
        (case authority m of
           ExactAuthority v \<Rightarrow> [SString ''exact'' v]
         | WildcardAuthority p \<Rightarrow> [SString ''wildcard'' p]
         | AnyAuthority \<Rightarrow> [SBool ''any'' True]) @
      in_object ''path''
        (case path m of ExactPath v \<Rightarrow> [SString ''exact'' v] | PrefixPath v \<Rightarrow> [SString ''prefix'' v]))"

definition serializeCache :: "cache_config \<Rightarrow> sink_call list" where
  "serializeCache c = in_object ''cache''
     [SBool ''enabled'' (cfg_maxCachedTracks c \<noteq> 0),
      SUint ''max_cached_tracks'' (cfg_maxCachedTracks c),
      SUint ''max_cached_groups_per_track'' (cfg_maxCachedGroupsPerTrack c),
      SUint ''max_cached_mb'' (maxCachedMb c),
      SUint ''min_eviction_kb'' (minEvictionKb c),
      SInt ''max_cache_duration_ms'' (maxCacheDurationCap c),
      (case defaultCacheDuration c of
         Some d \<Rightarrow> SInt ''default_max_cache_duration_ms'' d
       | None \<Rightarrow> SNull ''default_max_cache_duration_ms'')]"

definition serialize_hmac_key :: "hmac_key \<Rightarrow> sink_call list" where
  "serialize_hmac_key k = in_object [] [SString ''id'' (key_id k), SString ''secret'' ''<redacted>'']"

definition serialize_scope :: "anonymous_scope \<Rightarrow> sink_call list" where
  "serialize_scope sc = in_object []
     (in_array ''actions'' (map (\<lambda>a. SString [] (actionName a)) (anon_actions sc)) @
      (case namespaceSegments sc of
         Some segs \<Rightarrow> in_array ''namespace_segments'' (map (SString []) segs)
       | None \<Rightarrow> [SNull ''namespace_segments'']) @
      [SString ''namespace_match_mode'' (matchRuleTypeName (namespaceMatchMode sc)),
       (case anon_trackName sc of Some t \<Rightarrow> SString ''track_name'' t | None \<Rightarrow> SNull ''track_name''),
       SString ''track_match_mode'' (matchRuleTypeName (trackMatchMode sc))])"

definition serializeAuth :: "auth_config \<Rightarrow> sink_call list" where
  "serializeAuth a = in_object ''auth''
     ([SBool ''enabled'' (enabled a),
       SUint ''token_type'' (tokenType a),
       SBool ''require_setup_token'' (requireSetupToken a),
       SBool ''allow_request_token_override'' (allowRequestTokenOverride a),
       SBool ''strict_claims'' (strictClaims a),
       SUint ''max_tokens_per_message'' (maxTokensPerMessage a)] @
      in_array ''hmac_keys'' (concat (map serialize_hmac_key (hmacKeys a))) @
      in_array ''anonymous_claim'' (concat (map serialize_scope (anonymousClaim a))))"

definition serialize_log :: "string \<Rightarrow> log_config option \<Rightarrow> sink_call list" where
  "serialize_log k l = (case l of
     Some c \<Rightarrow> in_object k [SString ''dir'' (dir c), SDouble ''sample_rate'' (sampleRate c)]
   | None \<Rightarrow> [SNull k])"

definition serializeLogging :: "logging_config \<Rightarrow> sink_call list" where
  "serializeLogging l = in_object ''logging'' (serialize_log ''mlog'' (mlog l) @ serialize_log ''qlog'' (qlog l))"

definition serializeUpstream :: "string \<Rightarrow> upstream_config \<Rightarrow> sink_call list" where
  "serializeUpstream k u = in_object k
     ([SString ''url'' (upstream_url u)] @
      in_object ''tls''
        [SBool ''insecure'' (up_insecure u),
         (case caCertFile u of Some f \<Rightarrow> SString ''ca_cert_file'' f | None \<Rightarrow> SNull ''ca_cert_file'')] @
      [SInt ''connect_timeout_ms'' (int (connectTimeout u)),
       SInt ''idle_timeout_ms'' (int (idleTimeout u)),
       SUint ''relay_cost'' (relayCost u)])"

text \<open>The pieces of \<^verbatim>\<open>serializeConfig\<close>, in its order.\<close>

definition serialize_admin :: "(string \<times> nat \<Rightarrow> string) \<Rightarrow> admin_config option \<Rightarrow> sink_call list" where
  "serialize_admin describe a = (case a of
     Some ad \<Rightarrow> in_object ''admin''
       ([SString ''address'' (describe (adm_address ad))] @
        (case adm_tls ad of Some tls \<Rightarrow> in_object ''tls'' (serializeTls tls) | None \<Rightarrow> [SNull ''tls'']) @
        [SBool ''track_metrics_enabled'' (trackMetricsEnabled ad),
         SUint ''track_metrics_endpoint_default_limit'' (trackMetricsLimit ad),
         SUint ''track_metrics_endpoint_max_limit'' (trackMetricsMaxLimit ad)])
   | None \<Rightarrow> [SNull ''admin''])"

definition serialize_listener :: "(string \<times> nat \<Rightarrow> string) \<Rightarrow> listener_config \<Rightarrow> sink_call list" where
  "serialize_listener describe l = in_object []
     ([SString ''name'' (name l),
       SString ''address'' (describe (socket_address l)),
       SString ''endpoint'' (listener_endpoint l),
       SString ''moqt_versions'' (moqtVersions l),
       SString ''quic_stack'' (quicStackName (quicStack l))] @
      serializeListenerTls (tlsMode l) @ serializeQuic (quic l) @ serializeMvfst (mvfst l))"

definition serialize_service :: "string \<times> service_config \<Rightarrow> sink_call list" where
  "serialize_service x = (case x of (nm, svc) \<Rightarrow> in_object nm
     (in_array ''match'' (concat (map serializeMatch (match svc))) @
      serializeCache (cache_cfg svc) @
      serializeAuth (auth svc) @
      [SUint ''max_subscription_buffer_kb'' (maxSubscriptionBufferKb svc)] @
      (case svc_upstream svc of Some u \<Rightarrow> serializeUpstream ''upstream'' u | None \<Rightarrow> []) @
      in_array ''upstreams'' (concat (map (serializeUpstream []) (svc_upstreams svc)))))"

definition serializeConfig :: "(string \<times> nat \<Rightarrow> string) \<Rightarrow> relay_config \<Rightarrow> sink_call list" where
  "serializeConfig describe cfg = in_object []
     ([SString ''relay_id'' (relayID cfg),
       SUint ''threads'' (threads cfg),
       SBool ''use_relay_thread'' (useRelayThread cfg),
       SBool ''use_local_forwarders'' (useLocalForwarders cfg),
       SBool ''mvfst_bpf_steering'' (mvfstBpfSteering cfg)] @
      in_object ''cluster''
        (SBool ''enabled'' (cluster cfg \<noteq> None) #
         (case cluster cfg of Some hopID \<Rightarrow> [SUint ''hop_id'' hopID] | None \<Rightarrow> [])) @
      serialize_admin describe (admin cfg) @
      in_array ''listeners'' (concat (map (serialize_listener describe) (cfg_listeners cfg))) @
      in_object ''services'' (concat (map serialize_service (services cfg))) @
      (case logging cfg of Some l \<Rightarrow> serializeLogging l | None \<Rightarrow> [SNull ''logging'']))"

section \<open>The JSON sink\<close>

definition keyed :: "string \<Rightarrow> (json_writer \<Rightarrow> json_writer) \<Rightarrow> json_writer \<Rightarrow> json_writer" where
  "keyed k val w = (if k = [] then val w else json_field k val w)"

fun JsonConfigSink :: "(flt \<Rightarrow> string) \<Rightarrow> sink_call \<Rightarrow> json_writer \<Rightarrow> json_writer" where
  "JsonConfigSink fmt (SBeginObject k) w = json_beginObject (if k \<noteq> [] then json_key k w else w)"
| "JsonConfigSink fmt SEndObject w = json_endObject w"
| "JsonConfigSink fmt (SBeginArray k) w = json_beginArray (if k \<noteq> [] then json_key k w else w)"
| "JsonConfigSink fmt SEndArray w = json_endArray w"
| "JsonConfigSink fmt (SString k v) w = keyed k (strVal v) w"
| "JsonConfigSink fmt (SBool k v) w = keyed k (boolVal v) w"
| "JsonConfigSink fmt (SInt k v) w = keyed k (intVal v) w"
| "JsonConfigSink fmt (SUint k v) w = keyed k (uintVal v) w"
| "JsonConfigSink fmt (SDouble k v) w = keyed k (doubleVal fmt v) w"
| "JsonConfigSink fmt (SNull k) w = nullVal (if k \<noteq> [] then json_key k w else w)"

definition buildConfigBody :: "(flt \<Rightarrow> string) \<Rightarrow> (string \<times> nat \<Rightarrow> string) \<Rightarrow> relay_config \<Rightarrow> string" where
  "buildConfigBody fmt describe cfg =
     app (fold (JsonConfigSink fmt) (serializeConfig describe cfg) json_new) @ [char_of (10::nat)]"


section \<open>What the calls write\<close>

text \<open>\<open>emits fmt cs ts\<close>: the calls append the pieces \<open>ts\<close>, with commas where they belong, whatever was
written before.\<close>

definition emits :: "(flt \<Rightarrow> string) \<Rightarrow> sink_call list \<Rightarrow> string list \<Rightarrow> bool" where
  "emits fmt cs ts \<longleftrightarrow> (\<forall>w. fold (JsonConfigSink fmt) cs w =
     w\<lparr>app := app w @ joined (needsComma w) ts, needsComma := needsComma w \<or> ts \<noteq> []\<rparr>)"

definition fields :: "(flt \<Rightarrow> string) \<Rightarrow> sink_call list \<Rightarrow> (string \<times> json) list \<Rightarrow> bool" where
  "fields fmt cs ms \<longleftrightarrow> emits fmt cs (map member ms) \<and> (\<forall>(k, v)\<in>set ms. json_ok v)"

definition elems :: "(flt \<Rightarrow> string) \<Rightarrow> sink_call list \<Rightarrow> json list \<Rightarrow> bool" where
  "elems fmt cs vs \<longleftrightarrow> emits fmt cs (map render vs) \<and> (\<forall>v\<in>set vs. json_ok v)"

lemma joined_append: "joined c (ts @ us) = joined c ts @ joined (c \<or> ts \<noteq> []) us"
  by (induction ts arbitrary: c) auto

lemma emits_Nil: "emits fmt [] []"
  by (simp add: emits_def)

lemma emits_append: "emits fmt cs ts \<Longrightarrow> emits fmt ds us \<Longrightarrow> emits fmt (cs @ ds) (ts @ us)"
  by (auto simp: emits_def joined_append)

lemma emits_key:
  assumes "k \<noteq> []" and "\<And>w. val w = (append_bytes t (maybeComma w))\<lparr>needsComma := True\<rparr>"
  shows "val (json_key k w) = w\<lparr>app := app w @ joined (needsComma w) [quoted k @ '':'' @ t], needsComma := True\<rparr>"
  using assms by (simp add: json_key_def writeString_quoted append_bytes_def maybeComma_def)

lemma strVal_raw: "strVal v = rawVal (quoted v)"
  by (rule ext) (simp add: strVal_def rawVal_def writeString_quoted)

lemmas values_raw = strVal_raw boolVal_def intVal_def uintVal_def doubleVal_def nullVal_def

lemma raw_field:
  assumes "k \<noteq> []" shows "rawVal t (json_key k w) = w\<lparr>app := app w @ joined (needsComma w) [quoted k @ '':'' @ t], needsComma := True\<rparr>"
  by (rule emits_key [OF assms]) (simp add: rawVal_def)

lemma raw_elem: "rawVal t w = w\<lparr>app := app w @ joined (needsComma w) [t], needsComma := True\<rparr>"
  by (simp add: rawVal_def append_bytes_def maybeComma_def)

lemma fields_append: "fields fmt cs ms \<Longrightarrow> fields fmt ds ns \<Longrightarrow> fields fmt (cs @ ds) (ms @ ns)"
  by (auto simp: fields_def emits_append)

lemma elems_append: "elems fmt cs vs \<Longrightarrow> elems fmt ds us \<Longrightarrow> elems fmt (cs @ ds) (vs @ us)"
  by (auto simp: elems_def emits_append)

lemma fields_Nil: "fields fmt [] []"
  by (simp add: fields_def emits_Nil)

lemma elems_Nil: "elems fmt [] []"
  by (simp add: elems_def emits_Nil)

lemma field_one:
  assumes "k \<noteq> []" and "\<And>w. JsonConfigSink fmt c w = rawVal (render v) (json_key k w)" and "json_ok v" and "fields fmt cs ms"
  shows "fields fmt (c # cs) ((k, v) # ms)"
proof -
  have "fields fmt [c] [(k, v)]" using assms(1-3) by (simp add: fields_def emits_def raw_field)
  from fields_append [OF this assms(4)] show ?thesis by simp
qed

lemma digit_digit: "(d :: nat) < 10 \<Longrightarrow> is_digit (char_of (48 + d))"
  by (simp add: is_digit_def byte_def)

lemma decimal_digits: "list_all is_digit (std_to_string n) \<and> std_to_string n \<noteq> [] \<and> (hd (std_to_string n) = CHR ''0'' \<longrightarrow> n = 0)"
proof (induction n rule: std_to_string.induct)
  case (1 n)
  show ?case
  proof (cases "n < 10")
    case True
    have "n = 0" if "char_of (48 + n) = CHR ''0''"
      using arg_cong [OF that, of byte] True by (simp add: byte_def)
    then show ?thesis using True digit_digit [OF True] by (simp add: std_to_string.simps [of n])
  next
    case False
    then show ?thesis using 1 digit_digit [of "n mod 10"] by (auto simp: std_to_string.simps [of n])
  qed
qed

lemma std_to_string_number: "number_text (std_to_string n)" and natural_decimal: "natural_text (std_to_string n)"
proof -
  obtain c r where s: "std_to_string n = c # r" using decimal_digits [of n] by (cases "std_to_string n") auto
  have d: "is_digit c" "list_all is_digit r" using decimal_digits [of n] s by auto
  have z: "std_to_string 0 = ''0''" by code_simp
  have "c = CHR ''0'' \<Longrightarrow> n = 0" using decimal_digits [of n] s by simp
  then have "c = CHR ''0'' \<Longrightarrow> r = []" using z s by (cases "n = 0") auto
  moreover have dw: "dropWhile is_digit r = []" using d(2) by (simp add: list_all_iff)
  ultimately show nat: "natural_text (std_to_string n)" using d(1)
    by (simp add: s natural_text_def fraction_text_def dw)
  moreover have "c \<noteq> CHR ''-''" using d(1) by (auto simp: is_digit_def byte_def)
  ultimately show "number_text (std_to_string n)" by (simp add: s number_text_def)
qed

lemma int_decimal_number: "number_text (int_decimal i)"
  by (simp add: int_decimal_def std_to_string_number) (simp add: number_text_def natural_decimal)

lemma field_string: "k \<noteq> [] \<Longrightarrow> fields fmt cs ms \<Longrightarrow> fields fmt (SString k v # cs) ((k, JStr v) # ms)"
  by (rule field_one) (simp_all add: keyed_def json_field_def values_raw)

lemma field_bool: "k \<noteq> [] \<Longrightarrow> fields fmt cs ms \<Longrightarrow> fields fmt (SBool k v # cs) ((k, JBool v) # ms)"
  by (rule field_one) (simp_all add: keyed_def json_field_def values_raw)

lemma field_int: "k \<noteq> [] \<Longrightarrow> fields fmt cs ms \<Longrightarrow> fields fmt (SInt k v # cs) ((k, JNum (int_decimal v)) # ms)"
  by (rule field_one) (simp_all add: keyed_def json_field_def values_raw int_decimal_number)

lemma field_uint: "k \<noteq> [] \<Longrightarrow> fields fmt cs ms \<Longrightarrow> fields fmt (SUint k v # cs) ((k, JNum (std_to_string v)) # ms)"
  by (rule field_one) (simp_all add: keyed_def json_field_def values_raw std_to_string_number)

lemma field_double:
  "k \<noteq> [] \<Longrightarrow> number_text (fmt v) \<Longrightarrow> fields fmt cs ms \<Longrightarrow> fields fmt (SDouble k v # cs) ((k, JNum (fmt v)) # ms)"
  by (rule field_one) (simp_all add: keyed_def json_field_def values_raw)

lemma field_null: "k \<noteq> [] \<Longrightarrow> fields fmt cs ms \<Longrightarrow> fields fmt (SNull k # cs) ((k, JNull) # ms)"
  by (rule field_one) (simp_all add: values_raw)

lemma elem_string: "elems fmt [SString [] v] [JStr v]"
  by (simp add: elems_def emits_def keyed_def values_raw raw_elem)

lemma field_object:
  assumes "k \<noteq> []" and "fields fmt cs ms" and "distinct (map fst ms)" shows "fields fmt (in_object k cs) [(k, JObj ms)]"
  using assms by (auto simp: fields_def emits_def in_object_def json_beginObject_def json_endObject_def json_key_def
      writeString_quoted append_bytes_def maybeComma_def)

lemma elem_object:
  assumes "fields fmt cs ms" and "distinct (map fst ms)" shows "elems fmt (in_object [] cs) [JObj ms]"
  using assms by (auto simp: fields_def elems_def emits_def in_object_def json_beginObject_def json_endObject_def
      append_bytes_def maybeComma_def)

lemma field_array:
  assumes "k \<noteq> []" and "elems fmt cs vs" shows "fields fmt (in_array k cs) [(k, JArr vs)]"
  using assms by (auto simp: fields_def elems_def emits_def in_array_def json_beginArray_def json_endArray_def json_key_def
      writeString_quoted append_bytes_def maybeComma_def)

lemmas field_rules = fields_Nil field_string field_bool field_int field_uint field_double field_null

lemma elems_concat:
  assumes "\<And>x. x \<in> set xs \<Longrightarrow> \<exists>v. elems fmt (f x) [v]"
  shows "\<exists>vs. length vs = length xs \<and> elems fmt (concat (map f xs)) vs"
  using assms
proof (induction xs)
  case (Cons x xs)
  obtain v where v: "elems fmt (f x) [v]" using Cons.prems [of x] by auto
  obtain vs where vs: "length vs = length xs" "elems fmt (concat (map f xs)) vs" using Cons.IH Cons.prems by auto
  have "length (v # vs) = length (x # xs)" "elems fmt (concat (map f (x # xs))) (v # vs)"
    using vs elems_append [OF v vs(2)] by simp_all
  then show ?case by blast
qed (simp add: elems_Nil)

lemma fields_concat:
  assumes "\<And>x. x \<in> set xs \<Longrightarrow> \<exists>v. fields fmt (f x) [(g x, v)]"
  shows "\<exists>ms. map fst ms = map g xs \<and> fields fmt (concat (map f xs)) ms"
  using assms
proof (induction xs)
  case (Cons x xs)
  obtain v where v: "fields fmt (f x) [(g x, v)]" using Cons.prems [of x] by auto
  obtain ms where ms: "map fst ms = map g xs" "fields fmt (concat (map f xs)) ms" using Cons.IH Cons.prems by auto
  have "map fst ((g x, v) # ms) = map g (x # xs)" "fields fmt (concat (map f (x # xs))) ((g x, v) # ms)"
    using ms fields_append [OF v ms(2)] by simp_all
  then show ?case by blast
qed (simp add: fields_Nil)

lemma elems_strings: "\<exists>vs. elems fmt (map (\<lambda>x. SString [] (h x)) xs) vs"
  using elems_concat [of xs fmt "\<lambda>x. [SString [] (h x)]"] elem_string [of fmt] by (auto simp: concat_map_singleton)


section \<open>The pieces of the dump\<close>

fun finite_flt :: "flt \<Rightarrow> bool" where
  "finite_flt (Num r) = True"
| "finite_flt _ = False"

definition finite_mvfst :: "mvfst_config \<Rightarrow> bool" where
  "finite_mvfst m \<longleftrightarrow> list_all finite_flt
     [overrideCruisePacingGain (bbr2 m), overrideCruiseCwndGain (bbr2 m), overrideStartupPacingGain (bbr2 m),
      overrideBwShortBeta (bbr2 m), copa_deltaParam m, l4s_ceTarget m]"

definition finite_log :: "log_config option \<Rightarrow> bool" where
  "finite_log l \<longleftrightarrow> (case l of None \<Rightarrow> True | Some c \<Rightarrow> finite_flt (sampleRate c))"

definition finite_config :: "relay_config \<Rightarrow> bool" where
  "finite_config cfg \<longleftrightarrow> list_all (\<lambda>l. finite_mvfst (mvfst l)) (cfg_listeners cfg) \<and>
     (case logging cfg of None \<Rightarrow> True | Some l \<Rightarrow> finite_log (mlog l) \<and> finite_log (qlog l))"

text \<open>What is relied on of the formatter: it prints finite numbers as JSON does.\<close>

definition prints_numbers :: "(flt \<Rightarrow> string) \<Rightarrow> bool" where
  "prints_numbers fmt \<longleftrightarrow> (\<forall>r. number_text (fmt (Num r)))"

lemma finite_number: "prints_numbers fmt \<Longrightarrow> finite_flt d \<Longrightarrow> number_text (fmt d)"
  by (cases d) (simp_all add: prints_numbers_def)

lemma tls_fields:
  obtains ms where "fields fmt (serializeTls t) ms" "distinct (map fst ms)"
proof -
  obtain vs where vs: "elems fmt (map (\<lambda>x. SString [] x) (alpn t)) vs" using elems_strings [of fmt "\<lambda>x. x"] by blast
  have "fields fmt (serializeTls t)
      ([(''insecure'', JBool False), (''cert_file'', JStr (certFile t)), (''key_file'', JStr (keyFile t)),
        (''pkcs12_in_memory'', JBool (material t \<noteq> None))] @ [(''alpn'', JArr vs)])"
    unfolding serializeTls_def by (intro fields_append field_array field_rules vs) simp_all
  then show ?thesis by (rule that) simp
qed

lemma listener_tls_field: "\<exists>v. fields fmt (serializeListenerTls t) [(''tls'', v)]"
proof (cases t)
  case Insecure
  have "fields fmt [SBool ''insecure'' True] [(''insecure'', JBool True)]" by (intro field_rules) simp
  then show ?thesis using Insecure field_object [of "''tls''"] by (fastforce simp: serializeListenerTls_def)
next
  case (Tls c)
  obtain ms where "fields fmt (serializeTls c) ms" "distinct (map fst ms)" by (rule tls_fields)
  then show ?thesis using Tls field_object [of "''tls''"] by (fastforce simp: serializeListenerTls_def)
qed

lemma quic_field: "\<exists>v. fields fmt (serializeQuic q) [(''quic'', v)]"
  unfolding serializeQuic_def by (intro exI) (rule field_object, simp, (rule field_rules | simp)+)

lemma mvfst_field:
  assumes "prints_numbers fmt" and "finite_mvfst m" shows "\<exists>v. fields fmt (serializeMvfst m) [(''mvfst'', v)]"
proof -
  have num: "finite_flt d \<Longrightarrow> number_text (fmt d)" for d by (rule finite_number [OF assms(1)])
  show ?thesis using assms(2) unfolding serializeMvfst_def finite_mvfst_def
    by (intro exI) (rule field_object, simp, (rule field_object fields_append field_rules | simp add: num)+)
qed


lemma match_elem: "\<exists>v. elems fmt (serializeMatch m) [v]"
  unfolding serializeMatch_def
  by (cases "authority m"; cases "path m"; simp only: authority_matcher.case path_matcher.case; intro exI)
     (rule elem_object, (rule fields_append field_object field_rules | simp)+)+

lemma cache_field: "\<exists>v. fields fmt (serializeCache c) [(''cache'', v)]"
  unfolding serializeCache_def
  by (cases "defaultCacheDuration c"; simp only: option.case; intro exI)
     (rule field_object, simp, (rule field_rules | simp)+)+

lemma hmac_key_elem: "\<exists>v. elems fmt (serialize_hmac_key k) [v]"
  unfolding serialize_hmac_key_def by (intro exI) (rule elem_object, (rule field_rules | simp)+)

lemma scope_elem: "\<exists>v. elems fmt (serialize_scope sc) [v]"
proof -
  obtain vs where vs: "elems fmt (map (\<lambda>a. SString [] (actionName a)) (anon_actions sc)) vs" using elems_strings by blast
  obtain us where us: "elems fmt (map (\<lambda>x. SString [] x) (case namespaceSegments sc of Some x \<Rightarrow> x | None \<Rightarrow> [])) us"
    using elems_strings [of fmt "\<lambda>x. x"] by blast
  show ?thesis unfolding serialize_scope_def using us
    by (cases "namespaceSegments sc"; cases "anon_trackName sc"; simp only: option.case; intro exI)
       (rule elem_object, (rule fields_append field_array field_rules vs | assumption | simp)+)+
qed

lemma auth_field: "\<exists>v. fields fmt (serializeAuth a) [(''auth'', v)]"
proof -
  obtain vs where vs: "elems fmt (concat (map serialize_hmac_key (hmacKeys a))) vs"
    using elems_concat [of "hmacKeys a" fmt serialize_hmac_key] hmac_key_elem by blast
  obtain us where us: "elems fmt (concat (map serialize_scope (anonymousClaim a))) us"
    using elems_concat [of "anonymousClaim a" fmt serialize_scope] scope_elem by blast
  show ?thesis unfolding serializeAuth_def
    by (intro exI) (rule field_object, simp, (rule fields_append field_array field_rules vs us | simp)+)
qed

lemma log_field:
  assumes "prints_numbers fmt" and "finite_log l" and "k \<noteq> []" shows "\<exists>v. fields fmt (serialize_log k l) [(k, v)]"
proof (cases l)
  case None
  then show ?thesis using assms(3) unfolding serialize_log_def by (auto intro!: exI field_rules)
next
  case (Some c)
  have "number_text (fmt (sampleRate c))" by (rule finite_number [OF assms(1)]) (use assms(2) Some in \<open>simp add: finite_log_def\<close>)
  then show ?thesis using assms(3) Some unfolding serialize_log_def
    by (simp only: option.case, intro exI) (rule field_object, simp, (rule field_rules | simp)+)
qed

lemma logging_field:
  assumes "prints_numbers fmt" and "finite_log (mlog l)" and "finite_log (qlog l)"
  shows "\<exists>v. fields fmt (serializeLogging l) [(''logging'', v)]"
proof -
  obtain m where m: "fields fmt (serialize_log ''mlog'' (mlog l)) [(''mlog'', m)]" using log_field [OF assms(1,2)] by blast
  obtain q where q: "fields fmt (serialize_log ''qlog'' (qlog l)) [(''qlog'', q)]" using log_field [OF assms(1,3)] by blast
  show ?thesis unfolding serializeLogging_def
    by (intro exI) (rule field_object, simp, (rule fields_append m q | simp)+)
qed

lemma upstream_field: "k \<noteq> [] \<Longrightarrow> \<exists>v. fields fmt (serializeUpstream k u) [(k, v)]"
  unfolding serializeUpstream_def
  by (cases "caCertFile u"; simp only: option.case; intro exI)
     (rule field_object, simp, (rule fields_append field_rules | rule field_object | simp)+)+

lemma upstream_elem: "\<exists>v. elems fmt (serializeUpstream [] u) [v]"
  unfolding serializeUpstream_def
  by (cases "caCertFile u"; simp only: option.case; intro exI)
     (rule elem_object, (rule fields_append field_rules | rule field_object | simp)+)+

lemma admin_field: "\<exists>v. fields fmt (serialize_admin describe a) [(''admin'', v)]"
proof (cases a)
  case None
  then show ?thesis unfolding serialize_admin_def by (auto intro!: exI field_rules)
next
  case (Some ad)
  have "\<exists>v. fields fmt (case adm_tls ad of Some tls \<Rightarrow> in_object ''tls'' (serializeTls tls) | None \<Rightarrow> [SNull ''tls'']) [(''tls'', v)]"
  proof (cases "adm_tls ad")
    case None
    then show ?thesis by (auto intro!: exI field_rules)
  next
    case (Some tls)
    obtain ms where "fields fmt (serializeTls tls) ms" "distinct (map fst ms)" by (rule tls_fields)
    then show ?thesis using Some field_object [of "''tls''"] by fastforce
  qed
  then obtain t where t: "fields fmt (case adm_tls ad of Some tls \<Rightarrow> in_object ''tls'' (serializeTls tls) | None \<Rightarrow> [SNull ''tls'']) [(''tls'', t)]"
    by blast
  show ?thesis unfolding serialize_admin_def Some option.case
    by (intro exI) (rule field_object, simp, (rule fields_append t field_rules | simp)+)
qed

lemma listener_elem:
  assumes "prints_numbers fmt" and "finite_mvfst (mvfst l)" shows "\<exists>v. elems fmt (serialize_listener describe l) [v]"
proof -
  obtain t where t: "fields fmt (serializeListenerTls (tlsMode l)) [(''tls'', t)]" using listener_tls_field by blast
  obtain q where q: "fields fmt (serializeQuic (quic l)) [(''quic'', q)]" using quic_field by blast
  obtain m where m: "fields fmt (serializeMvfst (mvfst l)) [(''mvfst'', m)]" using mvfst_field [OF assms] by blast
  show ?thesis unfolding serialize_listener_def
    by (intro exI) (rule elem_object, (rule fields_append t q m field_rules | simp)+)
qed

lemma service_field:
  assumes "nm \<noteq> []" shows "\<exists>v. fields fmt (serialize_service (nm, svc)) [(nm, v)]"
proof -
  obtain vs where vs: "elems fmt (concat (map serializeMatch (match svc))) vs"
    using elems_concat [of "match svc" fmt serializeMatch] match_elem by blast
  obtain us where us: "elems fmt (concat (map (serializeUpstream []) (svc_upstreams svc))) us"
    using elems_concat [of "svc_upstreams svc" fmt "serializeUpstream []"] upstream_elem by blast
  obtain c where c: "fields fmt (serializeCache (cache_cfg svc)) [(''cache'', c)]" using cache_field by blast
  obtain a where a: "fields fmt (serializeAuth (auth svc)) [(''auth'', a)]" using auth_field by blast
  have "\<exists>ms. fields fmt (case svc_upstream svc of Some u \<Rightarrow> serializeUpstream ''upstream'' u | None \<Rightarrow> []) ms \<and>
      (ms = [] \<or> (\<exists>v. ms = [(''upstream'', v)]))"
  proof (cases "svc_upstream svc")
    case (Some u)
    obtain v where "fields fmt (serializeUpstream ''upstream'' u) [(''upstream'', v)]" using upstream_field [of "''upstream''"] by blast
    then show ?thesis using Some by auto
  qed (auto intro!: exI [of _ "[]"] fields_Nil)
  then obtain ms where ms: "fields fmt (case svc_upstream svc of Some u \<Rightarrow> serializeUpstream ''upstream'' u | None \<Rightarrow> []) ms"
    and keys: "ms = [] \<or> (\<exists>v. ms = [(''upstream'', v)])" by blast
  show ?thesis unfolding serialize_service_def prod.case using assms keys
    by (intro exI) (rule field_object, simp, (rule fields_append field_array vs us c a ms field_rules | simp)+, auto)
qed

text \<open>The members of the document, in order.\<close>

lemma config_members:
  assumes "prints_numbers fmt" and "finite_config cfg" and "[] \<notin> fst ` set (services cfg)"
    and "distinct (map fst (services cfg))"
  obtains cl ad ls svcs lg where "elems fmt (serializeConfig describe cfg)
      [JObj [(''relay_id'', JStr (relayID cfg)), (''threads'', JNum (std_to_string (threads cfg))),
             (''use_relay_thread'', JBool (useRelayThread cfg)), (''use_local_forwarders'', JBool (useLocalForwarders cfg)),
             (''mvfst_bpf_steering'', JBool (mvfstBpfSteering cfg)), (''cluster'', cl), (''admin'', ad),
             (''listeners'', JArr ls), (''services'', JObj svcs), (''logging'', lg)]]"
    and "length ls = length (cfg_listeners cfg)" and "map fst svcs = map fst (services cfg)"
proof -
  have "\<exists>v. fields fmt (in_object ''cluster''
        (SBool ''enabled'' (cluster cfg \<noteq> None) #
         (case cluster cfg of Some hopID \<Rightarrow> [SUint ''hop_id'' hopID] | None \<Rightarrow> []))) [(''cluster'', v)]"
    by (cases "cluster cfg"; simp only: option.case; intro exI) (rule field_object, simp, (rule field_rules | simp)+)+
  then obtain cl where cl: "fields fmt (in_object ''cluster''
        (SBool ''enabled'' (cluster cfg \<noteq> None) #
         (case cluster cfg of Some hopID \<Rightarrow> [SUint ''hop_id'' hopID] | None \<Rightarrow> []))) [(''cluster'', cl)]" by blast
  obtain ad where ad: "fields fmt (serialize_admin describe (admin cfg)) [(''admin'', ad)]" using admin_field by blast
  have "\<And>l. l \<in> set (cfg_listeners cfg) \<Longrightarrow> \<exists>v. elems fmt (serialize_listener describe l) [v]"
    using assms(2) by (intro listener_elem [OF assms(1)]) (simp add: finite_config_def list_all_iff)
  then obtain ls where ls: "length ls = length (cfg_listeners cfg)"
      "elems fmt (concat (map (serialize_listener describe) (cfg_listeners cfg))) ls" using elems_concat by blast
  have one: "\<exists>v. fields fmt (serialize_service x) [(fst x, v)]" if "x \<in> set (services cfg)" for x
  proof -
    have "fst x \<noteq> []" using assms(3) imageI [OF that, of fst] by metis
    from service_field [OF this, of fmt "snd x"] show ?thesis by simp
  qed
  obtain svcs where sv: "map fst svcs = map fst (services cfg)"
      "fields fmt (concat (map serialize_service (services cfg))) svcs"
    using fields_concat [of "services cfg" fmt serialize_service fst, OF one] by blast
  have "\<exists>v. fields fmt (case logging cfg of Some l \<Rightarrow> serializeLogging l | None \<Rightarrow> [SNull ''logging'']) [(''logging'', v)]"
  proof (cases "logging cfg")
    case (Some l)
    then show ?thesis using logging_field [OF assms(1), of l] assms(2) by (simp add: finite_config_def)
  qed (auto intro!: exI field_rules)
  then obtain lg where lg: "fields fmt (case logging cfg of Some l \<Rightarrow> serializeLogging l | None \<Rightarrow> [SNull ''logging'']) [(''logging'', lg)]"
    by blast
  have svo: "fields fmt (in_object ''services'' (concat (map serialize_service (services cfg)))) [(''services'', JObj svcs)]"
    by (rule field_object) (use sv assms(4) in auto)
  have lso: "fields fmt (in_array ''listeners'' (concat (map (serialize_listener describe) (cfg_listeners cfg)))) [(''listeners'', JArr ls)]"
    by (rule field_array) (use ls in auto)
  have first: "fields fmt [SString ''relay_id'' (relayID cfg), SUint ''threads'' (threads cfg), SBool ''use_relay_thread'' (useRelayThread cfg),
       SBool ''use_local_forwarders'' (useLocalForwarders cfg), SBool ''mvfst_bpf_steering'' (mvfstBpfSteering cfg)]
      [(''relay_id'', JStr (relayID cfg)), (''threads'', JNum (std_to_string (threads cfg))),
       (''use_relay_thread'', JBool (useRelayThread cfg)), (''use_local_forwarders'', JBool (useLocalForwarders cfg)),
       (''mvfst_bpf_steering'', JBool (mvfstBpfSteering cfg))]"
    by (intro field_rules) simp_all
  have "elems fmt (serializeConfig describe cfg)
      [JObj ([(''relay_id'', JStr (relayID cfg)), (''threads'', JNum (std_to_string (threads cfg))),
             (''use_relay_thread'', JBool (useRelayThread cfg)), (''use_local_forwarders'', JBool (useLocalForwarders cfg)),
             (''mvfst_bpf_steering'', JBool (mvfstBpfSteering cfg))] @ [(''cluster'', cl)] @ [(''admin'', ad)] @
             [(''listeners'', JArr ls)] @ [(''services'', JObj svcs)] @ [(''logging'', lg)])]"
    unfolding serializeConfig_def by (rule elem_object, intro fields_append first cl ad lso svo lg) simp
  then show ?thesis using ls(1) sv(1) by (intro that) simp_all
qed

lemma elem_body:
  assumes "elems fmt cs [v]" shows "app (fold (JsonConfigSink fmt) cs json_new) = render v \<and> json_ok v"
  using assms by (simp add: elems_def emits_def json_new_def)

section \<open>Properties\<close>


text \<open>The configuration without its secrets: the keys that sign tokens, and the key material of a PKCS\#12 file.\<close>

definition redact_tls :: "tls_config \<Rightarrow> tls_config" where
  "redact_tls t = t\<lparr>material := map_option (\<lambda>_. \<lparr>certChainPem = [], keyPem = []\<rparr>) (material t)\<rparr>"

definition redact_listener :: "listener_config \<Rightarrow> listener_config" where
  "redact_listener l = l\<lparr>tlsMode := (case tlsMode l of Insecure \<Rightarrow> Insecure | Tls t \<Rightarrow> Tls (redact_tls t))\<rparr>"

definition redact_service :: "service_config \<Rightarrow> service_config" where
  "redact_service svc = svc\<lparr>auth := (auth svc)\<lparr>hmacKeys := map (\<lambda>k. k\<lparr>secret := []\<rparr>) (hmacKeys (auth svc))\<rparr>\<rparr>"

definition redact :: "relay_config \<Rightarrow> relay_config" where
  "redact cfg = cfg\<lparr>cfg_listeners := map redact_listener (cfg_listeners cfg),
     services := map (\<lambda>(n, svc). (n, redact_service svc)) (services cfg),
     admin := map_option (\<lambda>a. a\<lparr>adm_tls := map_option redact_tls (adm_tls a)\<rparr>) (admin cfg)\<rparr>"

lemma serializeTls_redact: "serializeTls (redact_tls t) = serializeTls t"
  by (simp add: serializeTls_def redact_tls_def)

lemma serialize_listener_redact: "serialize_listener describe (redact_listener l) = serialize_listener describe l"
  by (cases "tlsMode l") (simp_all add: serialize_listener_def redact_listener_def serializeListenerTls_def serializeTls_redact)

lemma serialize_hmac_key_redact: "serialize_hmac_key (k\<lparr>secret := []\<rparr>) = serialize_hmac_key k"
  by (simp add: serialize_hmac_key_def)

lemma serialize_service_redact: "serialize_service (n, redact_service svc) = serialize_service (n, svc)"
  by (simp add: serialize_service_def redact_service_def serializeAuth_def serialize_hmac_key_redact comp_def)

lemma serialize_admin_redact:
  "serialize_admin describe (map_option (\<lambda>a. a\<lparr>adm_tls := map_option redact_tls (adm_tls a)\<rparr>) ad) = serialize_admin describe ad"
proof (cases ad)
  case (Some a)
  then show ?thesis by (cases "adm_tls a") (simp_all add: serialize_admin_def serializeTls_redact)
qed simp

lemma serializeConfig_redact: "serializeConfig describe (redact cfg) = serializeConfig describe cfg"
proof -
  have services: "map (\<lambda>x. serialize_service (case x of (n, svc) \<Rightarrow> (n, redact_service svc))) xs = map serialize_service xs" for xs
    by (induction xs) (auto simp: serialize_service_redact)
  show ?thesis
    by (simp add: serializeConfig_def redact_def serialize_listener_redact serialize_admin_redact comp_def services)
qed

text \<open>C23. The dump leaks no secret: two configurations that differ only in the secrets of their signing keys
and in key material taken from PKCS\#12 files are served as the same bytes.\<close>

theorem config_dump_hides_secrets:
  assumes "redact cfg = redact cfg'"
  shows "buildConfigBody fmt describe cfg = buildConfigBody fmt describe cfg'"
  using serializeConfig_redact [of describe cfg] serializeConfig_redact [of describe cfg'] assms
  by (simp add: buildConfigBody_def)

section \<open>An example\<close>

definition dump_auth :: "string \<Rightarrow> auth_config" where
  "dump_auth sec = \<lparr>enabled = True, tokenType = 0, hmacKeys = [\<lparr>key_id = ''k1'', secret = sec\<rparr>],
     requireSetupToken = True, allowRequestTokenOverride = False, strictClaims = True, anonymousClaim = [],
     maxTokensPerMessage = 4\<rparr>"

definition dump_service :: "string \<Rightarrow> service_config" where
  "dump_service sec = \<lparr>match = [\<lparr>authority = AnyAuthority, path = PrefixPath ''/''\<rparr>],
     cache_cfg = \<lparr>cfg_maxCachedTracks = 10, cfg_maxCachedGroupsPerTrack = 3, maxCachedMb = 16, minEvictionKb = 64,
       maxCacheDurationCap = 1000, defaultCacheDuration = None\<rparr>,
     svc_upstream = None, auth = dump_auth sec, svc_upstreams = [], maxSubscriptionBufferKb = 0\<rparr>"

definition dump_listener :: listener_config where
  "dump_listener = \<lparr>name = ''main'', socket_address = (''::'', 4433), tlsMode = Insecure, listener_endpoint = ''/moq'',
     moqtVersions = ''14'', quicStack = Mvfst, quic = QuicConfig, mvfst = MvfstConfig\<rparr>"

definition dump_config :: "string \<Rightarrow> string \<Rightarrow> relay_config" where
  "dump_config nm sec = \<lparr>cfg_listeners = [dump_listener], services = [(nm, dump_service sec)], admin = None,
     relayID = ''r1'', threads = 2, useRelayThread = False, useLocalForwarders = False, mvfstBpfSteering = False,
     logging = Some \<lparr>mlog = Some \<lparr>dir = ''/tmp'', sampleRate = Num (1 / 2)\<rparr>, qlog = None\<rparr>, cluster = None\<rparr>"

text \<open>A printer of whole parts, and the names of numbers that JSON does not have.\<close>

fun demo_fmt :: "flt \<Rightarrow> string" where
  "demo_fmt (Num r) = int_decimal \<lfloor>r\<rfloor>"
| "demo_fmt NaN = ''nan''"
| "demo_fmt PInf = ''inf''"
| "demo_fmt MInf = ''-inf''"

definition demo_describe :: "string \<times> nat \<Rightarrow> string" where
  "demo_describe a = fst a @ '':'' @ std_to_string (snd a)"

theorem config_dump_hides_secrets_witness:
  "redact (dump_config ''live'' ''s3cret'') = redact (dump_config ''live'' ''other'') \<and>
   buildConfigBody demo_fmt demo_describe (dump_config ''live'' ''s3cret'') =
   buildConfigBody demo_fmt demo_describe (dump_config ''live'' ''other'')"
proof -
  have "redact (dump_config ''live'' ''s3cret'') = redact (dump_config ''live'' ''other'')"
    by (simp add: dump_config_def redact_def redact_service_def dump_service_def dump_auth_def)
  then show ?thesis using config_dump_hides_secrets by blast
qed


text \<open>A service with the empty name, which the resolver accepts, is written as an element without a key: an
object then begins with an object, which is not JSON.\<close>

lemma sink_appends: "\<exists>t. app (fold (JsonConfigSink fmt) cs w) = app w @ t"
proof (induction cs arbitrary: w)
  case (Cons c cs)
  have "\<exists>t. app (JsonConfigSink fmt c w) = app w @ t"
    by (cases c) (auto simp: keyed_def json_field_def values_raw rawVal_def json_beginObject_def json_endObject_def
        json_beginArray_def json_endArray_def json_key_def writeString_quoted append_bytes_def maybeComma_def)
  then show ?case using Cons [of "JsonConfigSink fmt c w"] by auto
qed simp

lemma unnamed_service_text:
  assumes "services cfg = ([], svc) # rest"
  shows "\<exists>pre post. buildConfigBody fmt describe cfg = pre @ quoted ''services'' @ '':{{'' @ post"
proof -
  have mid: "\<exists>ds es. a @ (b @ c @ d @ e @ x @ f) @ g = ds @ x @ es" for a b c d e f g x :: "sink_call list"
    by (rule exI [of _ "a @ b @ c @ d @ e"], rule exI [of _ "f @ g"]) simp
  have "\<exists>ds es. serializeConfig describe cfg = ds @ in_object ''services'' (concat (map serialize_service (services cfg))) @ es"
    unfolding serializeConfig_def in_object_def [of "[]"]
    by (rule mid)
  moreover have "\<exists>fs. in_object ''services'' (concat (map serialize_service (services cfg))) =
      [SBeginObject ''services'', SBeginObject []] @ fs"
    by (simp add: assms in_object_def serialize_service_def)
  ultimately obtain ds es where split: "serializeConfig describe cfg = ds @ [SBeginObject ''services'', SBeginObject []] @ es"
    by (metis append.assoc)
  obtain pre where pre: "app (fold (JsonConfigSink fmt) ds json_new) = pre" by blast
  obtain t where t: "app (fold (JsonConfigSink fmt) es
        (fold (JsonConfigSink fmt) [SBeginObject ''services'', SBeginObject []] (fold (JsonConfigSink fmt) ds json_new))) =
      app (fold (JsonConfigSink fmt) [SBeginObject ''services'', SBeginObject []] (fold (JsonConfigSink fmt) ds json_new)) @ t"
    using sink_appends by blast
  have "app (fold (JsonConfigSink fmt) [SBeginObject ''services'', SBeginObject []] w) =
      app w @ (if needsComma w then '','' else []) @ quoted ''services'' @ '':{{''" for w
    by (simp add: json_beginObject_def json_key_def writeString_quoted append_bytes_def maybeComma_def)
  then obtain c where c: "app (fold (JsonConfigSink fmt) [SBeginObject ''services'', SBeginObject []] (fold (JsonConfigSink fmt) ds json_new)) =
      pre @ c @ quoted ''services'' @ '':{{''" using pre by blast
  have "buildConfigBody fmt describe cfg = (pre @ c) @ quoted ''services'' @ '':{{'' @ t @ [char_of (10::nat)]"
    using t c by (simp add: buildConfigBody_def split)
  then show ?thesis by blast
qed

end
