(* ===== verification/Spec2Isabelle.thy ===== *)
theory Spec2Isabelle
  imports Safe_Track_Name Service_Matcher Recent_Groups Auth_Issuer Namespace_Queries Top_N_Selection Relay_Setup
    Pending_Rendezvous Subscription_Registry Local_Forwarders Config_Serializer
begin

text \<open>
  \<^bold>\<open>moqx, a relay for Media over QUIC Transport.\<close>

  \<^bold>\<open>The program.\<close> A relay accepts sessions of publishers and subscribers. A new session and every
  request are authorized against grants taken from tokens (\<^verbatim>\<open>src/auth\<close>, \<^verbatim>\<open>src/relay/AuthFilters.cpp\<close>);
  the service of a session is chosen by authority and path (\<^verbatim>\<open>src/ServiceMatcher.cpp\<close>). Announced
  namespaces, published tracks and namespace subscriptions live in a tree
  (\<^verbatim>\<open>src/NamespaceTree.cpp\<close>), whose nodes rank tracks by a property and select the best ones for
  subscribers (\<^verbatim>\<open>src/relay/PropertyRanking.cpp\<close>). Objects pass through a cache that answers fetches
  and fills itself from subscriptions and from upstream fetches (\<^verbatim>\<open>src/MoqxCache.cpp\<close>). Counters
  (\<^verbatim>\<open>src/relay/RecentGroupWindow.h\<close>) and printable names (\<^verbatim>\<open>src/SafeTrackName.cpp\<close>) feed the admin
  interface.

  \<^bold>\<open>The theories.\<close>
  \<^item> \<open>Moqx_Prelude\<close>: 64-bit arithmetic with its wrap-around, big-endian integers, association lists
    for hash maps, names of tracks and namespaces.
  \<^item> \<open>Safe_Track_Name\<close>: the encoder and the three decoders of \<^verbatim>\<open>src/SafeTrackName.cpp\<close>; they are
    inverse to each other, and which names render alike.
  \<^item> \<open>Service_Matcher\<close>: the tables of \<^verbatim>\<open>src/ServiceMatcher.cpp\<close>; a lookup equals a scan of the
    configured entries by priority.
  \<^item> \<open>Recent_Groups\<close>: the window and the counters fed by it; the window holds the most recent
    distinct groups.
  \<^item> \<open>Cbor_Reader\<close>: the reader of \<^verbatim>\<open>src/auth/CborReader.h\<close> and the strict claim filter of
    \<^verbatim>\<open>src/auth/Auth.cpp\<close>, against an encoding of items.
  \<^item> \<open>Auth_Grants\<close>, \<open>Auth_Verifier\<close>, \<open>Auth_Issuer\<close>: grants and rules, verification of tokens and
    authorization of requests with the filters in front of the relay, and the command-line issuer.
    Issuing and verifying are composed: an issued token grants exactly what was asked for.
  \<^item> \<open>Namespace_Tree\<close> models the tree as a store of nodes by path, with every early return and
    every failing check; \<open>Namespace_Tree_Spec\<close> has the invariant, the abstract map of namespaces to
    contents and the refinement; \<open>Namespace_Queries\<close> has lookup, audience and overlap.
  \<^item> \<open>Property_Ranking\<close> models the ranking with its callbacks as emitted events; \<open>Top_N_Selection\<close>
    shows that a group always selects the best tracks.
  \<^item> \<open>Cache_Ranges\<close>: locations and the ranges a fetch asks for or proves empty; \<open>Cache_Store\<close>:
    tracks, groups, objects, byte counts and eviction; \<open>Cache_Writeback\<close>: the filters on
    subscriptions; \<open>Cache_Fetch\<close>: the cursor of a fetch and the filter on an upstream response.
  \<^item> \<open>Cache_Invariant\<close>: the invariant of the store and its preservation by every step;
    \<open>Cache_World\<close>: the cache with its live filters, and what holds after every history of calls;
    \<open>Cache_Reads\<close>: what a write leaves behind, the search past gaps, and where the descending cursor
    loses objects.
  \<^item> \<open>Config_Types\<close>, \<open>Config_Resolver\<close>: the configuration as read and as used, every validator and the
    resolution of \<^verbatim>\<open>src/config/ConfigResolver.cpp\<close>; \<open>Config_Correct\<close>: resolution is safe, what it accepts is
    well-formed, and routing by it does not depend on the order of a hash map. \<open>Relay_Setup\<close> joins
    the two sides: the cache that \<^verbatim>\<open>src/MoqxRelay.h\<close> builds for a service of an accepted configuration.
  \<^item> \<open>Json_Writer\<close>: the emitter of \<^verbatim>\<open>src/admin/JsonWriter.h\<close>, with a JSON printer and a reader that inverts it;
    \<open>Config_Serializer\<close>: the walk of \<^verbatim>\<open>src/config/ConfigSerializer.h\<close> and the sink of \<^verbatim>\<open>src/admin/ConfigHandler.cpp\<close>.
    The dump of the configuration is a JSON document and does not depend on secrets. The reader runs on
    the length of the text as fuel, since every step consumes a byte.
  \<^item> \<open>Pending_Rendezvous\<close>: the tree of subscriptions that wait for a publisher
    (\<^verbatim>\<open>src/PendingRendezvousTree.cpp\<close>) and the coroutine that parks them, as a step relation; the tree
    holds exactly those not yet woken, and publishers wake exactly those they resolve.
  \<^item> \<open>Subscription_Registry\<close>: the registry of live tracks (\<^verbatim>\<open>src/SubscriptionRegistry.cpp\<close>) with the guard
    that closes an upstream subscription and the subscribers that wait for it; no history aborts, no
    subscriber is lost, no filter writes into an entry that is gone. \<open>Local_Forwarders\<close>: the registry of
    one thread (\<^verbatim>\<open>src/relay/LocalForwarderRegistry.h\<close>) with its claims and tickets; somebody always owes the
    setup others wait for. Both use \<open>Waiting_Rooms\<close>, the accounting of waiters held by the entries of a map.

  \<^bold>\<open>How code becomes definitions.\<close> A class is a record and a method a function from the old to the
  new state; objects that are shared by pointer live in heaps, functions from addresses to records.
  An error returned by the code is a value, an aborting check is the result \<open>None\<close>. A hash map is an
  association list, so that iteration has an order; theorems do not depend on it. Unsigned
  integers are natural numbers with the wrap-around of 64 bits written out wherever the code
  computes with values that can reach it. Clock readings are arguments.

  \<^bold>\<open>Code outside the repository\<close> is a parameter: the token library, \<open>cat_api\<close>, the anonymous hop,
  \<open>cluster_api\<close>, the operating system seen by the resolver, \<open>host\<close>, the formatting of numbers and addresses, the locations and interval sets of the transport library, \<open>moxygen\<close>. What is relied
  on is stated as laws (such as \<open>location_laws\<close> and \<open>interval_laws\<close>), and each theorem that uses
  them has a witness with a concrete instance.

  \<^bold>\<open>Loops.\<close> Loops are recursive functions with termination proofs. Two of them can run forever in
  principle, the search past gaps and the eviction of tracks; they are partial functions whose
  value \<open>None\<close> is not returning. The loop that bounds the number of gaps runs on the number of gaps as
  fuel, which is enough because every round removes one.

  \<^bold>\<open>Not modelled.\<close> The relay's other coroutines (\<^verbatim>\<open>src/MoqxRelay.cpp\<close>) and the filters between executors
  drive third-party sessions and schedulers and hold no data of their own beyond what is modelled;
  servers, admin handlers, statistics and logging are input and output; reading configuration files
  is third-party code.
\<close>

end
